(* ===== verification/Prelude.thy ===== *)
theory Prelude
  imports Main "HOL-Library.Word" "HOL-Library.AList"
begin

text \<open>
  Shared vocabulary of the development: machine integers at their Rust width, byte strings,
  big-endian codecs (\<open>to_be_bytes\<close> / \<open>from_be_bytes\<close>), the parts of the standard library and of
  tokio's \<open>AsyncReadExt\<close> that the crate calls (\<open>read_exact\<close>, \<open>read_u8\<close>, \<open>read_u16\<close>,
  \<open>str::from_utf8\<close>, \<open>slice::chunks\<close>, saturating and checked arithmetic), and the lemma
  collections every component uses.

  An input stream is the list of the bytes that are still to come, followed by end of file.
  A Rust \<open>Result\<close> is a sum, \<open>Inl\<close> the error. \<open>usize\<close> is 64 bits wide (the crate targets
  x86\_64 Linux); sizes are \<open>nat\<close> with the wrap-around or the overflow check written out.
\<close>

unbundle bit_operations_syntax

type_synonym u8 = "8 word"
type_synonym u16 = "16 word"
type_synonym u32 = "32 word"
type_synonym u64 = "64 word"
type_synonym bytes = "u8 list"

named_theorems codec_simps \<open>encode/decode equations of the wire formats\<close>
named_theorems stream_simps \<open>reading from the front of a stream\<close>

section \<open>Byte strings\<close>

definition bytes_of :: "string \<Rightarrow> bytes" where
  "bytes_of s = map of_char s"

lemma bytes_of_inject: "bytes_of s = bytes_of t \<longleftrightarrow> s = t"
proof -
  have u: "unat (of_char c :: u8) = of_char c" for c
  proof -
    have "unat (of_nat (of_char c) :: u8) = of_char c mod 2 ^ LENGTH(8)" by (rule unat_of_nat)
    also have "\<dots> = of_char c" by simp
    finally show ?thesis by (simp only: of_nat_of_char)
  qed
  have "inj (of_char :: char \<Rightarrow> u8)"
    by (rule injI) (metis u of_char_eq_iff)
  then show ?thesis by (simp add: bytes_of_def inj_map_eq_map)
qed

lemma length_bytes_of [simp]: "length (bytes_of s) = length s"
  by (simp add: bytes_of_def)

section \<open>Arithmetic of the standard library\<close>

abbreviation usize_max :: nat where
  "usize_max \<equiv> 2 ^ 64 - 1"

definition sat_add64 :: "u64 \<Rightarrow> u64 \<Rightarrow> u64" where
  "sat_add64 a b = (if unat a + unat b < 2 ^ 64 then a + b else - 1)"

definition usize_checked_add :: "nat \<Rightarrow> nat \<Rightarrow> nat option" where
  "usize_checked_add a b = (if a + b < 2 ^ 64 then Some (a + b) else None)"

definition usize_wrapping_sub :: "nat \<Rightarrow> nat \<Rightarrow> nat" where
  "usize_wrapping_sub a b = (a + 2 ^ 64 - b) mod 2 ^ 64"

definition usize_wrapping_add :: "nat \<Rightarrow> nat \<Rightarrow> nat" where
  "usize_wrapping_add a b = (a + b) mod 2 ^ 64"

lemma unat_u64_less [simp]: "unat (w :: u64) < 2 ^ 64"
  using unsigned_less [of w] by simp

lemma unat_u64_less_num [simp]: "unat (w :: u64) < 18446744073709551616"
  using unat_u64_less [of w] by simp

lemma unat_sat_add64: "unat (sat_add64 a b) = min (unat a + unat b) (2 ^ 64 - 1)"
proof (cases "unat a + unat b < 2 ^ 64")
  case True
  then show ?thesis
    by (simp add: sat_add64_def unat_word_ariths)
next
  case False
  then show ?thesis
    by (simp add: sat_add64_def unsigned_minus_1_eq_mask mask_eq_exp_minus_1)
qed

lemma unat_minus1_u64: "(w :: u64) = - 1 \<longleftrightarrow> unat w = 2 ^ 64 - 1"
proof -
  have "unat (- 1 :: u64) = 2 ^ 64 - 1"
    by (simp add: unsigned_minus_1_eq_mask mask_eq_exp_minus_1)
  then show ?thesis
    by (metis word_unat_eq_iff)
qed

lemma unat_sum_list_u64:
  "sum_list (map unat rs) < 2 ^ 64 \<Longrightarrow> unat (sum_list rs :: u64) = sum_list (map unat rs)"
proof (induction rs)
  case Nil
  then show ?case by simp
next
  case (Cons r rs)
  then have "unat (sum_list rs) = sum_list (map unat rs)" by simp
  with Cons.prems show ?case by (simp add: unat_word_ariths)
qed

lemma usize_wrapping_sub_exact [simp]:
  "b \<le> a \<Longrightarrow> a < 2 ^ 64 \<Longrightarrow> usize_wrapping_sub a b = a - b"
  by (simp add: usize_wrapping_sub_def mod_if)

lemma unat_of_nat_u64: "n < 2 ^ 64 \<Longrightarrow> unat (of_nat n :: u64) = n"
  by (simp add: unat_of_nat)

lemma of_nat_inject_u64:
  "m < 2 ^ 64 \<Longrightarrow> n < 2 ^ 64 \<Longrightarrow> (of_nat m :: u64) = of_nat n \<longleftrightarrow> m = n"
  by (metis unat_of_nat_u64)

section \<open>Big-endian codecs\<close>

definition to_be16 :: "u16 \<Rightarrow> bytes" where
  "to_be16 w = [ucast (drop_bit 8 w), ucast w]"

definition from_be16 :: "u8 \<Rightarrow> u8 \<Rightarrow> u16" where
  "from_be16 a b = push_bit 8 (ucast a) OR ucast b"

text \<open>The number a 16-bit length field stands for, and the field a length is written as.\<close>

definition len16 :: "u8 \<Rightarrow> u8 \<Rightarrow> nat" where
  "len16 a b = unat (from_be16 a b)"

definition be_len16 :: "nat \<Rightarrow> bytes" where
  "be_len16 n = to_be16 (of_nat n)"

lemma length_to_be16 [simp]: "length (to_be16 w) = 2"
  by (simp add: to_be16_def)

lemma length_be_len16 [simp]: "length (be_len16 n) = 2"
  by (simp add: be_len16_def)

lemma from_be16_to_be16 [simp, codec_simps]:
  "from_be16 (ucast (drop_bit 8 w)) (ucast w) = w"
  unfolding from_be16_def
  by (rule bit_eqI) (auto simp: bit_simps)

lemma to_be16_from_be16 [codec_simps]: "to_be16 (from_be16 a b) = [a, b]"
proof -
  have "ucast (drop_bit 8 (from_be16 a b)) = a"
    unfolding from_be16_def
    by (rule bit_eqI) (auto simp: bit_simps dest: bit_imp_le_length)
  moreover have "ucast (from_be16 a b) = b"
    unfolding from_be16_def
    by (rule bit_eqI) (auto simp: bit_simps)
  ultimately show ?thesis
    by (simp add: to_be16_def)
qed

lemma len16_less: "len16 a b < 2 ^ 16"
  unfolding len16_def using unsigned_less [of "from_be16 a b"] by simp

lemma be_len16_Cons:
  "be_len16 n = [ucast (drop_bit 8 (of_nat n :: u16)), ucast (of_nat n :: u16)]"
  by (simp add: be_len16_def to_be16_def)

lemma len16_be_len16 [codec_simps]:
  "n < 2 ^ 16 \<Longrightarrow> len16 (ucast (drop_bit 8 (of_nat n :: u16))) (ucast (of_nat n :: u16)) = n"
  by (simp add: len16_def unat_of_nat)

section \<open>Reading a stream\<close>

datatype io_error = UnexpectedEof | InvalidData string | BrokenPipe | WriteZero

text \<open>\<open>AsyncReadExt::read_exact\<close>, \<open>read_u8\<close> and \<open>read_u16\<close>: the value and the rest of the
  stream, or the end-of-file error when it is too short.\<close>

definition read_exact :: "nat \<Rightarrow> bytes \<Rightarrow> io_error + bytes \<times> bytes" where
  "read_exact n s = (if length s < n then Inl UnexpectedEof else Inr (take n s, drop n s))"

fun read_u8 :: "bytes \<Rightarrow> io_error + u8 \<times> bytes" where
  "read_u8 [] = Inl UnexpectedEof"
| "read_u8 (b # s) = Inr (b, s)"

fun read_u16 :: "bytes \<Rightarrow> io_error + u16 \<times> bytes" where
  "read_u16 (a # b # s) = Inr (from_be16 a b, s)"
| "read_u16 _ = Inl UnexpectedEof"

lemma read_exact_append [simp, stream_simps]:
  "length xs = n \<Longrightarrow> read_exact n (xs @ s) = Inr (xs, s)"
  by (simp add: read_exact_def)

lemma read_exact_Inr:
  "read_exact n s = Inr (x, r) \<Longrightarrow> s = x @ r \<and> length x = n"
  by (auto simp: read_exact_def split: if_splits)

lemma read_u8_Inr: "read_u8 s = Inr (b, r) \<longleftrightarrow> s = b # r"
  by (cases s) auto

lemma read_u16_Inr:
  "read_u16 s = Inr (w, r) \<longleftrightarrow> (\<exists>a b. s = a # b # r \<and> w = from_be16 a b)"
  by (cases s rule: read_u16.cases) auto

lemma read_u16_to_be16 [simp, stream_simps]: "read_u16 (to_be16 w @ s) = Inr (w, s)"
  by (simp add: to_be16_def)

lemma read_u16_be_len16 [stream_simps]:
  "read_u16 (be_len16 n @ s) = Inr (of_nat n, s)"
  by (simp add: be_len16_def)

section \<open>\<open>str::from_utf8\<close>\<close>

text \<open>
  The validity test of the Rust standard library: well-formed UTF-8 as in RFC 3629 (no overlong
  forms, no surrogates, nothing above U+10FFFF). \<open>utf8_follow b\<close> is the number of continuation
  bytes after the lead byte \<open>b\<close> and \<open>utf8_second_ok b c\<close> the range of the first of them.
\<close>

definition utf8_cont :: "u8 \<Rightarrow> bool" where
  "utf8_cont b \<longleftrightarrow> 0x80 \<le> b \<and> b \<le> 0xBF"

definition utf8_follow :: "u8 \<Rightarrow> nat option" where
  "utf8_follow b =
     (if b < 0x80 then Some 0
      else if 0xC2 \<le> b \<and> b \<le> 0xDF then Some 1
      else if 0xE0 \<le> b \<and> b \<le> 0xEF then Some 2
      else if 0xF0 \<le> b \<and> b \<le> 0xF4 then Some 3
      else None)"

definition utf8_second_ok :: "u8 \<Rightarrow> u8 \<Rightarrow> bool" where
  "utf8_second_ok b c \<longleftrightarrow>
     (if b = 0xE0 then 0xA0 \<le> c \<and> c \<le> 0xBF
      else if b = 0xED then 0x80 \<le> c \<and> c \<le> 0x9F
      else if b = 0xF0 then 0x90 \<le> c \<and> c \<le> 0xBF
      else if b = 0xF4 then 0x80 \<le> c \<and> c \<le> 0x8F
      else utf8_cont c)"

fun utf8_tail_ok :: "u8 \<Rightarrow> bytes \<Rightarrow> bool" where
  "utf8_tail_ok b [] = True"
| "utf8_tail_ok b (c # cs) = (utf8_second_ok b c \<and> list_all utf8_cont cs)"

function utf8_valid :: "bytes \<Rightarrow> bool" where
  "utf8_valid [] = True"
| "utf8_valid (b # bs) =
     (case utf8_follow b of
        None \<Rightarrow> False
      | Some n \<Rightarrow> n \<le> length bs \<and> utf8_tail_ok b (take n bs) \<and> utf8_valid (drop n bs))"
  by pat_completeness auto
termination
  by (relation "measure length") auto

lemma utf8_valid_ascii: "list_all (\<lambda>b. b < 0x80) bs \<Longrightarrow> utf8_valid bs"
  by (induction bs) (auto simp: utf8_follow_def)

section \<open>\<open>slice::chunks\<close>\<close>

function chunks :: "nat \<Rightarrow> 'a list \<Rightarrow> 'a list list" where
  "chunks n xs = (if xs = [] \<or> n = 0 then [] else take n xs # chunks n (drop n xs))"
  by pat_completeness auto
termination
  by (relation "measure (length \<circ> snd)") auto

declare chunks.simps [simp del]

lemma chunks_Nil [simp]: "chunks n [] = []"
  by (simp add: chunks.simps)

lemma concat_chunks: "0 < n \<Longrightarrow> concat (chunks n xs) = xs"
proof (induction n xs rule: chunks.induct)
  case (1 n xs)
  then show ?case
    by (cases "xs = []") (simp_all add: chunks.simps [of n xs])
qed

lemma chunks_length: "c \<in> set (chunks n xs) \<Longrightarrow> 0 < length c \<and> length c \<le> n"
proof (induction n xs rule: chunks.induct)
  case (1 n xs)
  then show ?case
    by (cases "xs = [] \<or> n = 0") (auto simp: chunks.simps [of n xs])
qed

section \<open>Association lists\<close>

lemma map_of_AList_delete: "map_of (AList.delete k al) k' = (if k' = k then None else map_of al k')"
  by (simp add: delete_conv')

lemma length_AList_delete:
  "distinct (map fst al) \<Longrightarrow> map_of al k = Some v \<Longrightarrow> Suc (length (AList.delete k al)) = length al"
proof (induction al)
  case Nil
  then show ?case by simp
next
  case (Cons x al)
  show ?case
  proof (cases "fst x = k")
    case True
    with Cons.prems have "AList.delete k al = al"
      by (intro delete_id) auto
    with True show ?thesis by (cases x) simp
  next
    case False
    with Cons show ?thesis by (cases x) simp
  qed
qed

lemma distinct_AList_delete: "distinct (map fst al) \<Longrightarrow> distinct (map fst (AList.delete k al))"
  by (rule distinct_delete)

lemma sum_list_map_AList_delete:
  fixes f :: "'v \<Rightarrow> nat"
  assumes "distinct (map fst al)" and "map_of al k = Some v"
  shows "sum_list (map (f \<circ> snd) (AList.delete k al)) + f v = sum_list (map (f \<circ> snd) al)"
  using assms
proof (induction al)
  case Nil
  then show ?case by simp
next
  case (Cons x al)
  show ?case
  proof (cases "fst x = k")
    case True
    with Cons.prems have "AList.delete k al = al"
      by (intro delete_id) auto
    with True Cons.prems show ?thesis by (cases x) simp
  next
    case False
    with Cons show ?thesis by (cases x) simp
  qed
qed

end
