(* ===== verification/Buffer.thy ===== *)
theory Buffer
  imports Prelude "HOL-Library.Multiset"
begin

text \<open>
  The global byte budget, \<^verbatim>\<open>src/buffer.rs\<close>. \<open>budget\<close> is \<open>BudgetInner\<close> (an atomic counter and its
  limit); a \<open>Reservation\<close> is the number of bytes it holds, its drop is \<open>release\<close>.
  \<open>try_reserve\<close> is a call that no other thread disturbs; the compare-exchange loop with all its
  interleavings is the step relation \<open>cas_step\<close> over any number of threads. The locale
  \<open>byte_budget\<close> is the contract the buffers of the session layer rely on.
\<close>


section \<open>State and operations\<close>

record budget =
  used :: u64
  limit :: u64

definition new_budget :: "u64 \<Rightarrow> budget" where
  "new_budget limit_bytes = \<lparr>used = 0, limit = limit_bytes\<rparr>"

definition try_reserve :: "budget \<Rightarrow> u64 \<Rightarrow> budget option" where
  "try_reserve b n =
     (if limit b \<noteq> 0
      then (let next = sat_add64 (used b) n
            in if limit b < next then None else Some (b\<lparr>used := next\<rparr>))
      else Some (b\<lparr>used := used b + n\<rparr>))"

definition release :: "budget \<Rightarrow> u64 \<Rightarrow> budget" where
  "release b n = b\<lparr>used := used b - n\<rparr>"

section \<open>The contract of a budget\<close>

text \<open>
  What the clients of a byte budget use: a reservation succeeds or leaves no trace, an
  accounted budget with a limit never exceeds it, and releasing undoes reserving.
  \<open>accounts b n\<close> says that \<open>n\<close> bytes are outstanding.
\<close>

locale byte_budget =
  fixes reserve :: "'b \<Rightarrow> u64 \<Rightarrow> 'b option"
    and give_back :: "'b \<Rightarrow> u64 \<Rightarrow> 'b"
    and level :: "'b \<Rightarrow> u64"
    and ceiling :: "'b \<Rightarrow> u64"
  assumes reserve_level:
      "reserve b n = Some b' \<Longrightarrow> ceiling b \<noteq> - 1 \<Longrightarrow> level b' = level b + n"
    and reserve_ceiling: "reserve b n = Some b' \<Longrightarrow> ceiling b' = ceiling b"
    and reserve_bounded:
      "reserve b n = Some b' \<Longrightarrow> ceiling b \<noteq> 0 \<Longrightarrow> ceiling b \<noteq> - 1 \<Longrightarrow>
         unat (level b) + unat n \<le> unat (ceiling b)"
    and give_back_level: "level (give_back b n) = level b - n"
    and give_back_ceiling: "ceiling (give_back b n) = ceiling b"
begin

definition accounts :: "'b \<Rightarrow> u64 list \<Rightarrow> bool" where
  "accounts b rs \<longleftrightarrow>
     ceiling b \<noteq> - 1 \<and> level b = sum_list rs \<and>
     (ceiling b \<noteq> 0 \<longrightarrow> sum_list (map unat rs) \<le> unat (ceiling b))"

lemma accounts_mset: "mset rs = mset rs' \<Longrightarrow> accounts b rs = accounts b rs'"
  unfolding accounts_def by (metis mset_map sum_mset_sum_list)

lemma accounts_level:
  assumes "accounts b rs" and "ceiling b \<noteq> 0"
  shows "unat (level b) = sum_list (map unat rs)"
proof -
  from assms have "sum_list (map unat rs) \<le> unat (ceiling b)"
    by (simp add: accounts_def)
  then have "sum_list (map unat rs) < 2 ^ 64"
    by (rule le_less_trans) simp
  with assms(1) show ?thesis
    by (simp add: accounts_def unat_sum_list_u64)
qed

lemma accounts_reserve:
  assumes acc: "accounts b rs" and res: "reserve b n = Some b'"
  shows "accounts b' (n # rs)"
proof -
  have c: "ceiling b' = ceiling b" "ceiling b \<noteq> - 1"
    using acc reserve_ceiling [OF res] by (auto simp: accounts_def)
  have "level b' = sum_list (n # rs)"
    using acc reserve_level [OF res c(2)] by (simp add: accounts_def add.commute)
  moreover have "sum_list (map unat (n # rs)) \<le> unat (ceiling b')" if "ceiling b' \<noteq> 0"
    using that c accounts_level [OF acc] reserve_bounded [OF res] by simp
  ultimately show ?thesis
    using c by (simp add: accounts_def)
qed

lemma accounts_give_back: "accounts b (n # rs) \<Longrightarrow> accounts (give_back b n) rs"
  by (auto simp: accounts_def give_back_level give_back_ceiling)

end

lemma try_reserve_Some_iff:
  "limit b \<noteq> 0 \<Longrightarrow> limit b \<noteq> - 1 \<Longrightarrow>
     try_reserve b n = Some b' \<longleftrightarrow>
       unat (used b) + unat n \<le> unat (limit b) \<and> b' = b\<lparr>used := used b + n\<rparr>"
proof -
  assume l: "limit b \<noteq> 0" "limit b \<noteq> - 1"
  then have lt: "unat (limit b) < 2 ^ 64 - 1"
    using unat_minus1_u64 [of "limit b"] unat_u64_less [of "limit b"] by linarith
  have no_sat: "sat_add64 (used b) n = used b + n" if "unat (used b) + unat n \<le> unat (limit b)"
    using that lt by (simp add: sat_add64_def)
  have "limit b < sat_add64 (used b) n \<longleftrightarrow> \<not> unat (used b) + unat n \<le> unat (limit b)"
    using lt by (auto simp: word_less_nat_alt unat_sat_add64)
  with l no_sat show ?thesis
    by (auto simp: try_reserve_def Let_def)
qed

interpretation mb: byte_budget try_reserve release used limit
proof unfold_locales
  show "used b' = used b + n" if "try_reserve b n = Some b'" and "limit b \<noteq> - 1" for b n b'
    using that try_reserve_Some_iff [of b n b'] by (cases "limit b = 0") (auto simp: try_reserve_def)
  show "limit b' = limit b" if "try_reserve b n = Some b'" for b n b'
    using that by (auto simp: try_reserve_def Let_def split: if_splits)
  show "unat (used b) + unat n \<le> unat (limit b)"
    if "try_reserve b n = Some b'" and "limit b \<noteq> 0" and "limit b \<noteq> - 1" for b n b'
    using that try_reserve_Some_iff [of b n b'] by simp
qed (simp_all add: release_def)

section \<open>The compare-exchange loop, interleaved\<close>

text \<open>
  A thread is outside (\<open>Out\<close>), inside the loop of \<open>try_reserve\<close> with the value of \<open>used\<close> it last
  read (\<open>Looping cur bytes\<close>), or holds a reservation. \<open>compare_exchange_weak\<close> may fail although
  the values agree, so a retry is possible in any state; a failed exchange reloads \<open>cur\<close>.
  With no limit the code takes the \<open>fetch_add\<close> branch.
\<close>

datatype thread = Out | Looping u64 u64 | Holding u64

record cas_system =
  shared :: budget
  threads :: "thread list"

inductive cas_step :: "cas_system \<Rightarrow> cas_system \<Rightarrow> bool" where
  load: "i < length (threads s) \<Longrightarrow> threads s ! i = Out \<Longrightarrow> limit (shared s) \<noteq> 0 \<Longrightarrow>
     cas_step s (s\<lparr>threads := (threads s)[i := Looping (used (shared s)) n]\<rparr>)"
| over: "i < length (threads s) \<Longrightarrow> threads s ! i = Looping cur n \<Longrightarrow> limit (shared s) \<noteq> 0 \<Longrightarrow>
     limit (shared s) < sat_add64 cur n \<Longrightarrow>
     cas_step s (s\<lparr>threads := (threads s)[i := Out]\<rparr>)"
| exchange: "i < length (threads s) \<Longrightarrow> threads s ! i = Looping cur n \<Longrightarrow> limit (shared s) \<noteq> 0 \<Longrightarrow>
     \<not> limit (shared s) < sat_add64 cur n \<Longrightarrow> used (shared s) = cur \<Longrightarrow>
     cas_step s (s\<lparr>shared := (shared s)\<lparr>used := sat_add64 cur n\<rparr>,
                   threads := (threads s)[i := Holding n]\<rparr>)"
| retry: "i < length (threads s) \<Longrightarrow> threads s ! i = Looping cur n \<Longrightarrow> limit (shared s) \<noteq> 0 \<Longrightarrow>
     \<not> limit (shared s) < sat_add64 cur n \<Longrightarrow>
     cas_step s (s\<lparr>threads := (threads s)[i := Looping (used (shared s)) n]\<rparr>)"
| fetch_add: "i < length (threads s) \<Longrightarrow> threads s ! i = Out \<Longrightarrow> limit (shared s) = 0 \<Longrightarrow>
     cas_step s (s\<lparr>shared := (shared s)\<lparr>used := used (shared s) + n\<rparr>,
                   threads := (threads s)[i := Holding n]\<rparr>)"
| drop: "i < length (threads s) \<Longrightarrow> threads s ! i = Holding n \<Longrightarrow>
     cas_step s (s\<lparr>shared := release (shared s) n, threads := (threads s)[i := Out]\<rparr>)"

fun held :: "thread \<Rightarrow> u64 list" where
  "held (Holding n) = [n]"
| "held _ = []"

definition reservations :: "cas_system \<Rightarrow> u64 list" where
  "reservations s = concat (map held (threads s))"

inductive cas_reachable :: "u64 \<Rightarrow> nat \<Rightarrow> cas_system \<Rightarrow> bool" for l k where
  cas_start: "cas_reachable l k \<lparr>shared = new_budget l, threads = replicate k Out\<rparr>"
| cas_more: "cas_reachable l k s \<Longrightarrow> cas_step s t \<Longrightarrow> cas_reachable l k t"

lemma exchange_is_try_reserve:
  "limit b \<noteq> 0 \<Longrightarrow> \<not> limit b < sat_add64 (used b) n \<Longrightarrow>
     try_reserve b n = Some (b\<lparr>used := sat_add64 (used b) n\<rparr>)"
  by (simp add: try_reserve_def)

lemma mset_reservations_update:
  assumes "i < length (threads s)"
  shows "mset (concat (map held ((threads s)[i := t]))) + mset (held (threads s ! i)) =
         mset (reservations s) + mset (held t)"
proof -
  have "threads s = take i (threads s) @ threads s ! i # drop (Suc i) (threads s)"
    using assms by (rule id_take_nth_drop)
  then have "mset (reservations s) =
      mset (concat (map held (take i (threads s)))) + mset (held (threads s ! i)) +
      mset (concat (map held (drop (Suc i) (threads s))))"
    unfolding reservations_def by (metis append.assoc concat.simps(2) concat_append list.simps(9)
        map_append mset_append)
  then show ?thesis
    using assms by (simp add: upd_conv_take_nth_drop ac_simps)
qed

lemma accounts_same_held:
  assumes "i < length (threads s)" and "held t = held (threads s ! i)"
    and "mb.accounts (shared s) (reservations s)"
  shows "mb.accounts (shared s) (reservations (s\<lparr>threads := (threads s)[i := t]\<rparr>))"
proof -
  have "mset (reservations (s\<lparr>threads := (threads s)[i := t]\<rparr>)) = mset (reservations s)"
    using mset_reservations_update [OF assms(1), of t] assms(2) by (simp add: reservations_def)
  with assms(3) show ?thesis using mb.accounts_mset by blast
qed

lemma accounts_grant:
  assumes "i < length (threads s)" and "held (threads s ! i) = []"
    and "try_reserve (shared s) n = Some b" and "mb.accounts (shared s) (reservations s)"
  shows "mb.accounts b (reservations (s\<lparr>shared := b, threads := (threads s)[i := Holding n]\<rparr>))"
proof -
  have "mset (reservations (s\<lparr>shared := b, threads := (threads s)[i := Holding n]\<rparr>)) =
        mset (n # reservations s)"
    using mset_reservations_update [OF assms(1), of "Holding n"] assms(2)
    by (simp add: reservations_def)
  with mb.accounts_reserve [OF assms(4,3)] show ?thesis using mb.accounts_mset by blast
qed

lemma cas_step_accounts:
  assumes "cas_step s t" and "mb.accounts (shared s) (reservations s)"
  shows "mb.accounts (shared t) (reservations t)"
  using assms
proof (induction rule: cas_step.induct)
  case (load i s n)
  then show ?case using accounts_same_held [of i s "Looping (used (shared s)) n"] by simp
next
  case (over i s cur n)
  then show ?case using accounts_same_held [of i s Out] by simp
next
  case (exchange i s cur n)
  then have "try_reserve (shared s) n = Some ((shared s)\<lparr>used := sat_add64 cur n\<rparr>)"
    using exchange_is_try_reserve by blast
  with exchange show ?case using accounts_grant by simp
next
  case (retry i s cur n)
  then show ?case using accounts_same_held [of i s "Looping (used (shared s)) n"] by simp
next
  case (fetch_add i s n)
  then have "try_reserve (shared s) n = Some ((shared s)\<lparr>used := used (shared s) + n\<rparr>)"
    by (simp add: try_reserve_def)
  with fetch_add show ?case using accounts_grant by simp
next
  case (drop i s n)
  let ?t = "s\<lparr>shared := release (shared s) n, threads := (threads s)[i := Out]\<rparr>"
  have "mset (reservations s) = mset (n # reservations ?t)"
    using mset_reservations_update [of i s Out] drop by (simp add: reservations_def)
  with drop have "mb.accounts (shared s) (n # reservations ?t)"
    using mb.accounts_mset by blast
  then show ?case using mb.accounts_give_back by simp
qed

lemma cas_step_limit: "cas_step s t \<Longrightarrow> limit (shared t) = limit (shared s)"
  by (induction rule: cas_step.induct) (simp_all add: release_def)

lemma cas_reachable_accounts:
  assumes "cas_reachable l k s" and "l \<noteq> - 1"
  shows "mb.accounts (shared s) (reservations s) \<and> limit (shared s) = l"
  using assms
proof (induction rule: cas_reachable.induct)
  case cas_start
  then show ?case
    by (simp add: mb.accounts_def new_budget_def reservations_def)
next
  case (cas_more s t)
  then show ?case
    using cas_step_accounts cas_step_limit by metis
qed

text \<open>
  C5. However many threads run \<open>try_reserve\<close> and drop reservations, in any interleaving of the
  loads, the (possibly spuriously failing) compare-exchanges and the decrements, the counter of a
  limited budget is exactly the sum of the reservations that are alive, and it never exceeds the
  limit.
\<close>

theorem budget_never_exceeded:
  assumes "cas_reachable l k s" and "l \<noteq> 0" and "l \<noteq> - 1"
  shows "unat (used (shared s)) = sum_list (map unat (reservations s)) \<and>
         unat (used (shared s)) \<le> unat l"
proof -
  from assms have acc: "mb.accounts (shared s) (reservations s)" and l: "limit (shared s) = l"
    using cas_reachable_accounts by auto
  with assms(2) show ?thesis
    using mb.accounts_level [OF acc] by (simp add: mb.accounts_def)
qed

text \<open>Two threads, a limit of 100 bytes: one reads the counter and reserves 60.\<close>

theorem budget_never_exceeded_witness:
  "\<exists>s. cas_reachable 100 2 s \<and> reservations s = [60] \<and> unat (used (shared s)) = 60 \<and>
       unat (used (shared s)) \<le> unat (100 :: u64)"
proof -
  let ?s0 = "\<lparr>shared = new_budget 100, threads = replicate 2 Out\<rparr>"
  let ?s1 = "?s0\<lparr>threads := (threads ?s0)[0 := Looping (used (shared ?s0)) 60]\<rparr>"
  let ?s2 = "?s1\<lparr>shared := (shared ?s1)\<lparr>used := sat_add64 0 60\<rparr>,
                  threads := (threads ?s1)[0 := Holding 60]\<rparr>"
  have "cas_step ?s0 ?s1"
    by (rule cas_step.load) (simp_all add: new_budget_def)
  moreover have "cas_step ?s1 ?s2"
    by (rule cas_step.exchange) (simp_all add: new_budget_def sat_add64_def)
  ultimately have r: "cas_reachable 100 2 ?s2"
    by (meson cas_reachable.intros)
  moreover have "reservations ?s2 = [60]"
    by (simp add: reservations_def numeral_2_eq_2)
  ultimately show ?thesis
    using budget_never_exceeded [OF r] by (intro exI [of _ ?s2]) simp
qed

end
