(* ===== verification/Reorder.thy ===== *)
theory Reorder
  imports Buffer
begin

text \<open>
  The bounded reordering queue of the XHTTP uplink, \<^verbatim>\<open>src/session/reorder.rs\<close>. \<open>uplink\<close> holds
  \<open>State\<close>, \<open>Shared\<close>, the mpsc channel between the two halves (\<open>queue\<close>, and whether a send can
  still reach the reader) and the reader's current chunk. The optional process-wide budget is
  passed in and out, since every session shares it. \<open>push\<close> is one whole call under the state lock
  with the sends completed: a push that is cancelled while it waits for room in the channel is not modelled.
\<close>

section \<open>Data\<close>

datatype push_result =
  Accepted | Duplicate | TooManyPending | TooManyPendingBytes | GlobalBufferExceeded | Closed

record budgeted_bytes =
  payload :: bytes
  reservation :: "u64 option"

record uplink =
  next_seq :: u64
  sequence_exhausted :: bool
  pending :: "(u64 \<times> budgeted_bytes) list"
  max_packets :: nat
  max_bytes :: nat
  pending_bytes :: nat
  pending_count :: nat
  tx_open :: bool
  queue :: "budgeted_bytes list"
  cur :: "budgeted_bytes option"

definition channel_with_budget :: "nat \<Rightarrow> nat \<Rightarrow> uplink" where
  "channel_with_budget max_packets' max_bytes' =
     \<lparr>next_seq = 0, sequence_exhausted = False, pending = [],
      max_packets = max max_packets' 1, max_bytes = max_bytes',
      pending_bytes = 0, pending_count = 0, tx_open = True, queue = [], cur = None\<rparr>"

section \<open>Operations\<close>

definition reserve_payload ::
  "budget option \<Rightarrow> bytes \<Rightarrow> (budgeted_bytes \<times> budget option) option" where
  "reserve_payload bud p =
     (case bud of
        Some b \<Rightarrow>
          (case try_reserve b (of_nat (length p)) of
             Some b' \<Rightarrow> Some (\<lparr>payload = p, reservation = Some (of_nat (length p))\<rparr>, Some b')
           | None \<Rightarrow> None)
      | None \<Rightarrow> Some (\<lparr>payload = p, reservation = None\<rparr>, None))"

text \<open>Dropping a chunk drops its reservation.\<close>

definition drop_chunk :: "budget option \<Rightarrow> budgeted_bytes \<Rightarrow> budget option" where
  "drop_chunk bud c =
     (case (bud, reservation c) of (Some b, Some n) \<Rightarrow> Some (release b n) | _ \<Rightarrow> bud)"

text \<open>\<open>send_in_order\<close>: an empty payload is dropped and counts as sent; a send fails exactly when
  the channel has been replaced by a dead one or the reader is gone.\<close>

definition send_in_order ::
  "uplink \<Rightarrow> budget option \<Rightarrow> budgeted_bytes \<Rightarrow> bool \<times> uplink \<times> budget option" where
  "send_in_order u bud c =
     (if payload c = [] then (True, u, drop_chunk bud c)
      else if tx_open u then (True, u\<lparr>queue := queue u @ [c]\<rparr>, bud)
      else (False, u, drop_chunk bud c))"

text \<open>The loop of \<open>push\<close> that delivers the contiguous followers of the packet just sent.\<close>

definition take_pending :: "uplink \<Rightarrow> budgeted_bytes \<Rightarrow> uplink" where
  "take_pending u c =
     u\<lparr>pending := AList.delete (next_seq u) (pending u),
       pending_bytes := usize_wrapping_sub (pending_bytes u) (length (payload c)),
       pending_count := usize_wrapping_sub (pending_count u) 1\<rparr>"

lemma length_AList_delete_less:
  "map_of al k = Some v \<Longrightarrow> length (AList.delete k al) < length al"
  by (induction al) (auto simp: le_imp_less_Suc length_delete_le split: if_splits)

lemma send_in_order_pending [simp]:
  "send_in_order u bud c = (ok, u', bud') \<Longrightarrow> pending u' = pending u"
  by (auto simp: send_in_order_def split: if_splits)

lemma deliver_followers_shrinks:
  assumes "map_of (pending u) (next_seq u) = Some c"
    and "send_in_order (take_pending u c) bud c = (ok, u', bud')"
  shows "length (pending u') < length (pending u)"
  using length_AList_delete_less [OF assms(1)] send_in_order_pending [OF assms(2)]
  by (simp add: take_pending_def)

function deliver_followers ::
  "uplink \<Rightarrow> budget option \<Rightarrow> push_result \<times> uplink \<times> budget option" where
  "deliver_followers u bud =
     (case map_of (pending u) (next_seq u) of
        None \<Rightarrow> (Accepted, u, bud)
      | Some c \<Rightarrow>
          (case send_in_order (take_pending u c) bud c of
             (False, u', bud') \<Rightarrow> (Closed, u', bud')
           | (True, u', bud') \<Rightarrow>
               if next_seq u' = - 1
               then (Accepted, u'\<lparr>sequence_exhausted := True\<rparr>, bud')
               else deliver_followers (u'\<lparr>next_seq := next_seq u' + 1\<rparr>) bud'))"
  by pat_completeness auto
termination
  by (relation "measure (\<lambda>(u, bud). length (pending u))")
    (auto dest: deliver_followers_shrinks [OF _ sym])

declare deliver_followers.simps [simp del]

definition push ::
  "uplink \<Rightarrow> budget option \<Rightarrow> u64 \<Rightarrow> bytes \<Rightarrow> push_result \<times> uplink \<times> budget option" where
  "push u bud seq p =
     (if sequence_exhausted u \<or> seq < next_seq u then (Duplicate, u, bud)
      else if next_seq u < seq then
        (if map_of (pending u) seq \<noteq> None then (Duplicate, u, bud)
         else if max_packets u \<le> length (pending u) then (TooManyPending, u, bud)
         else (case usize_checked_add (pending_bytes u) (length p) of
             None \<Rightarrow> (TooManyPendingBytes, u, bud)
           | Some next_bytes \<Rightarrow>
               if max_bytes u \<noteq> 0 \<and> max_bytes u < next_bytes then (TooManyPendingBytes, u, bud)
               else (case reserve_payload bud p of
                   None \<Rightarrow> (GlobalBufferExceeded, u, bud)
                 | Some (c, bud') \<Rightarrow>
                     (Accepted,
                      u\<lparr>pending_bytes := next_bytes,
                        pending_count := usize_wrapping_add (pending_count u) 1,
                        pending := (seq, c) # pending u\<rparr>,
                      bud'))))
      else (case reserve_payload bud p of
          None \<Rightarrow> (GlobalBufferExceeded, u, bud)
        | Some (c, bud') \<Rightarrow>
            (case send_in_order u bud' c of
               (False, u', bud'') \<Rightarrow> (Closed, u', bud'')
             | (True, u', bud'') \<Rightarrow>
                 if next_seq u' = - 1
                 then (Accepted, u'\<lparr>sequence_exhausted := True\<rparr>, bud'')
                 else deliver_followers (u'\<lparr>next_seq := next_seq u' + 1\<rparr>) bud'')))"

text \<open>\<open>close\<close> takes the lock only if it is free (\<open>try_lock\<close>); then the channel is replaced by a dead
  one and the pending packets are dropped, while the two counters keep their values.\<close>

definition close :: "bool \<Rightarrow> uplink \<Rightarrow> budget option \<Rightarrow> uplink \<times> budget option" where
  "close lock_free u bud =
     (if lock_free
      then (u\<lparr>tx_open := False, pending := []\<rparr>, fold (\<lambda>c b. drop_chunk b (snd c)) (pending u) bud)
      else (u, bud))"

text \<open>\<open>poll_read\<close> of the reader with room for \<open>room\<close> bytes: the bytes it puts into the caller's
  buffer (none at end of file), or \<open>PollPending\<close>.\<close>

datatype poll = PollReady bytes | PollPending

definition read_current ::
  "uplink \<Rightarrow> budget option \<Rightarrow> budgeted_bytes \<Rightarrow> nat \<Rightarrow> poll \<times> uplink \<times> budget option" where
  "read_current u bud c room =
     (let n = min (length (payload c)) room; c' = c\<lparr>payload := drop n (payload c)\<rparr>
      in (PollReady (take n (payload c)),
          u\<lparr>cur := (if payload c' = [] then None else Some c')\<rparr>,
          if payload c' = [] then drop_chunk bud c' else bud))"

definition poll_read ::
  "uplink \<Rightarrow> budget option \<Rightarrow> nat \<Rightarrow> poll \<times> uplink \<times> budget option" where
  "poll_read u bud room =
     (case cur u of
        Some c \<Rightarrow>
          if payload c \<noteq> [] then read_current u bud c room
          else (case queue u of
              d # q \<Rightarrow> read_current (u\<lparr>queue := q, cur := Some d\<rparr>) (drop_chunk bud c) d room
            | [] \<Rightarrow> if tx_open u then (PollPending, u, bud) else (PollReady [], u, bud))
      | None \<Rightarrow>
          (case queue u of
              d # q \<Rightarrow> read_current (u\<lparr>queue := q, cur := Some d\<rparr>) bud d room
            | [] \<Rightarrow> if tx_open u then (PollPending, u, bud) else (PollReady [], u, bud)))"

section \<open>The invariant\<close>

definition pending_len :: "uplink \<Rightarrow> nat" where
  "pending_len u = sum_list (map ((\<lambda>c. length (payload c)) \<circ> snd) (pending u))"

text \<open>Between the iterations of the delivery loop the packet \<open>next_seq\<close> may still be pending
  (\<open>loop_inv\<close>); between calls it is not (\<open>uplink_inv\<close>). The two counters are exact as long as the
  queue is open; \<open>close\<close> leaves them as they were, so they only bound the buffer afterwards.\<close>

definition loop_inv :: "uplink \<Rightarrow> bool" where
  "loop_inv u \<longleftrightarrow>
     distinct (map fst (pending u)) \<and>
     (\<forall>k \<in> fst ` set (pending u). next_seq u \<le> k) \<and>
     (sequence_exhausted u \<longrightarrow> next_seq u = - 1) \<and>
     length (pending u) \<le> max_packets u \<and> max_packets u < 2 ^ 64 \<and>
     pending_len u \<le> pending_bytes u \<and> pending_bytes u < 2 ^ 64 \<and>
     (max_bytes u \<noteq> 0 \<longrightarrow> pending_bytes u \<le> max_bytes u) \<and>
     (tx_open u \<longrightarrow> pending_bytes u = pending_len u \<and> pending_count u = length (pending u))"

definition uplink_inv :: "uplink \<Rightarrow> bool" where
  "uplink_inv u \<longleftrightarrow> loop_inv u \<and> map_of (pending u) (next_seq u) = None"

lemma uplink_inv_channel: "n < 2 ^ 64 \<Longrightarrow> uplink_inv (channel_with_budget n m)"
  by (auto simp: uplink_inv_def loop_inv_def channel_with_budget_def pending_len_def)

lemma take_pending_inv:
  assumes inv: "loop_inv u" and c: "map_of (pending u) (next_seq u) = Some c"
  shows "loop_inv (take_pending u c)"
    and "map_of (pending (take_pending u c)) (next_seq u) = None"
proof -
  let ?n = "next_seq u"
  have len: "pending_len (take_pending u c) + length (payload c) = pending_len u"
    using sum_list_map_AList_delete [of "pending u" ?n c "\<lambda>c. length (payload c)"] inv c
    by (simp add: take_pending_def pending_len_def loop_inv_def)
  have cnt: "Suc (length (AList.delete ?n (pending u))) = length (pending u)"
    using inv by (intro length_AList_delete [OF _ c]) (simp add: loop_inv_def)
  have sub: "usize_wrapping_sub (pending_bytes u) (length (payload c)) = pending_bytes u - length (payload c)"
    using inv len by (simp add: loop_inv_def)
  have subc: "usize_wrapping_sub (pending_count u) 1 = pending_count u - 1" if "tx_open u"
    using that inv cnt by (auto simp: loop_inv_def)
  have keys: "\<forall>k \<in> fst ` set (AList.delete ?n (pending u)). next_seq u \<le> k"
    using inv by (auto simp: loop_inv_def AList.delete_eq)
  have fields: "pending (take_pending u c) = AList.delete ?n (pending u)"
    "next_seq (take_pending u c) = ?n" "sequence_exhausted (take_pending u c) = sequence_exhausted u"
    "max_packets (take_pending u c) = max_packets u" "max_bytes (take_pending u c) = max_bytes u"
    "tx_open (take_pending u c) = tx_open u"
    "pending_bytes (take_pending u c) = pending_bytes u - length (payload c)"
    "tx_open u \<Longrightarrow> pending_count (take_pending u c) = pending_count u - 1"
    using sub subc by (simp_all add: take_pending_def)
  show "loop_inv (take_pending u c)"
    unfolding loop_inv_def fields
    using inv len cnt fields(8) keys by (simp add: loop_inv_def distinct_delete) linarith
  show "map_of (pending (take_pending u c)) ?n = None"
    by (simp add: take_pending_def map_of_AList_delete)
qed

lemma send_in_order_frame:
  assumes "send_in_order u bud c = (ok, u', bud')"
  obtains q where "u' = u\<lparr>queue := q\<rparr>"
proof -
  have "u' = u\<lparr>queue := queue u'\<rparr>"
    using assms by (auto simp: send_in_order_def split: if_splits)
  then show thesis by (rule that)
qed

lemma loop_inv_queue [simp]: "loop_inv (u\<lparr>queue := q\<rparr>) = loop_inv u"
  by (simp add: loop_inv_def pending_len_def)

lemma loop_inv_exhausted:
  assumes "loop_inv u" and "map_of (pending u) (next_seq u) = None" and "next_seq u = - 1"
  shows "uplink_inv (u\<lparr>sequence_exhausted := True\<rparr>)"
  using assms by (simp add: uplink_inv_def loop_inv_def pending_len_def)

lemma word_less_Suc_le: "(k :: u64) \<noteq> - 1 \<Longrightarrow> k < j \<Longrightarrow> k + 1 \<le> j"
  by (metis add.commute inc_le)

lemma loop_inv_advance:
  assumes "loop_inv u" and "map_of (pending u) (next_seq u) = None" and "next_seq u \<noteq> - 1"
    and "\<not> sequence_exhausted u"
  shows "loop_inv (u\<lparr>next_seq := next_seq u + 1\<rparr>)"
proof -
  have "next_seq u + 1 \<le> k" if "k \<in> fst ` set (pending u)" for k
  proof -
    from that assms(1) have "next_seq u \<le> k" by (auto simp: loop_inv_def)
    moreover from that assms(2) have "k \<noteq> next_seq u"
      by (metis map_of_eq_None_iff)
    ultimately show ?thesis using assms(3) by (intro word_less_Suc_le) auto
  qed
  with assms show ?thesis by (auto simp: loop_inv_def pending_len_def)
qed

lemma deliver_followers_inv:
  assumes "deliver_followers u bud = (r, u', bud')" and "loop_inv u" and "\<not> sequence_exhausted u"
  shows "uplink_inv u'"
  using assms
proof (induction u bud arbitrary: r u' bud' rule: deliver_followers.induct)
  case (1 u bud)
  show ?case
  proof (cases "map_of (pending u) (next_seq u)")
    case None
    with "1.prems" show ?thesis
      by (simp add: deliver_followers.simps [of u bud] uplink_inv_def)
  next
    case (Some c)
    note inv = take_pending_inv [OF "1.prems"(2) Some]
    obtain ok v b where snd: "send_in_order (take_pending u c) bud c = (ok, v, b)"
      by (metis prod_cases3)
    obtain q where v: "v = (take_pending u c)\<lparr>queue := q\<rparr>"
      using send_in_order_frame [OF snd] .
    then have vs: "next_seq v = next_seq u" "pending v = pending (take_pending u c)"
      "\<not> sequence_exhausted v" "loop_inv v"
      using inv(1) "1.prems"(3) by (simp_all add: take_pending_def)
    with inv(2) have none: "map_of (pending v) (next_seq v) = None" by simp
    note eq = "1.prems"(1) [unfolded deliver_followers.simps [of u bud] Some, simplified, unfolded snd, simplified]
    show ?thesis
    proof (cases "ok \<and> next_seq v \<noteq> - 1")
      case True
      with eq have "deliver_followers (v\<lparr>next_seq := next_seq v + 1\<rparr>) b = (r, u', bud')" by simp
      moreover have "loop_inv (v\<lparr>next_seq := next_seq v + 1\<rparr>)"
        using loop_inv_advance [OF vs(4) none _ vs(3)] True by simp
      ultimately show ?thesis
        using "1.IH" [OF Some snd [symmetric] _ refl] True vs(3) by simp
    next
      case False
      then consider "\<not> ok" | "ok" "next_seq v = - 1" by blast
      then show ?thesis
        using eq vs none loop_inv_exhausted [OF vs(4) none]
        by cases (auto simp: uplink_inv_def)
    qed
  qed
qed

lemma push_ahead:
  assumes "\<not> sequence_exhausted u" and "next_seq u < seq"
    and "push u bud seq p = (r, u', bud')"
  shows "r \<noteq> Accepted \<and> u' = u \<and> bud' = bud \<and> r \<noteq> Closed \<and>
           (r = Duplicate \<longleftrightarrow> map_of (pending u) seq \<noteq> None) \<or>
         r = Accepted \<and> map_of (pending u) seq = None \<and> length (pending u) < max_packets u \<and>
         pending_bytes u + length p < 2 ^ 64 \<and>
         (max_bytes u \<noteq> 0 \<longrightarrow> pending_bytes u + length p \<le> max_bytes u) \<and>
         (\<exists>c. reserve_payload bud p = Some (c, bud') \<and>
            u' = u\<lparr>pending_bytes := pending_bytes u + length p,
                   pending_count := usize_wrapping_add (pending_count u) 1,
                   pending := (seq, c) # pending u\<rparr>)"
proof -
  have "\<not> seq < next_seq u" using assms(2) by simp
  note eq = assms(3) [unfolded push_def usize_checked_add_def, simplified assms(1) assms(2) this simp_thms if_True if_False]
  show ?thesis
  proof (cases "map_of (pending u) seq = None \<and> length (pending u) < max_packets u \<and>
      pending_bytes u + length p < 2 ^ 64 \<and>
      (max_bytes u \<noteq> 0 \<longrightarrow> pending_bytes u + length p \<le> max_bytes u) \<and> reserve_payload bud p \<noteq> None")
    case True
    with eq show ?thesis by (auto simp: not_less)
  next
    case False
    with eq show ?thesis by (auto simp: not_less not_le split: if_splits option.splits)
  qed
qed

lemma reserve_payload_payload: "reserve_payload bud p = Some (c, bud') \<Longrightarrow> payload c = p"
  by (auto simp: reserve_payload_def split: option.splits)

lemma push_inv:
  assumes p: "push u bud seq p = (r, u', bud')" and inv: "uplink_inv u"
  shows "uplink_inv u'"
proof -
  consider (dup) "sequence_exhausted u \<or> seq < next_seq u"
    | (ahead) "\<not> sequence_exhausted u" "next_seq u < seq"
    | (now) "\<not> sequence_exhausted u" "seq = next_seq u"
    by fastforce
  then show ?thesis
  proof cases
    case dup
    with p inv show ?thesis by (simp add: push_def)
  next
    case ahead
    show ?thesis
    proof (cases "r = Accepted")
      case False
      with push_ahead [OF ahead p] inv show ?thesis by auto
    next
      case True
      with push_ahead [OF ahead p] obtain c where c: "map_of (pending u) seq = None"
          "length (pending u) < max_packets u" "pending_bytes u + length p < 2 ^ 64"
          "max_bytes u \<noteq> 0 \<longrightarrow> pending_bytes u + length p \<le> max_bytes u"
          "reserve_payload bud p = Some (c, bud')"
        and u': "u' = u\<lparr>pending_bytes := pending_bytes u + length p,
                         pending_count := usize_wrapping_add (pending_count u) 1,
                         pending := (seq, c) # pending u\<rparr>"
        by auto
      have pc: "payload c = p" using c(5) by (rule reserve_payload_payload)
      have keys: "seq \<notin> fst ` set (pending u)" "seq \<noteq> next_seq u"
        "\<forall>k \<in> fst ` set (pending u'). next_seq u \<le> k"
        using c(1) ahead(2) inv by (auto simp: map_of_eq_None_iff u' uplink_inv_def loop_inv_def)
      have cnt: "usize_wrapping_add (pending_count u) 1 = Suc (length (pending u))" if "tx_open u"
        using that c(2) inv by (simp add: uplink_inv_def loop_inv_def usize_wrapping_add_def)
      from inv have L: "loop_inv u" and N: "map_of (pending u) (next_seq u) = None"
        by (simp_all add: uplink_inv_def)
      have "map_of (pending u') (next_seq u') = None"
        using N keys(2) by (simp add: u')
      moreover have "loop_inv u'"
        using L pc keys(1,3) cnt c(2-4) ahead(1) unfolding loop_inv_def u' pending_len_def by simp
      ultimately show ?thesis by (simp add: uplink_inv_def)
    qed
  next
    case now
    show ?thesis
    proof (cases "reserve_payload bud p")
      case None
      with now p inv show ?thesis by (simp add: push_def)
    next
      case (Some cb)
      obtain c b where cb: "cb = (c, b)" by (cases cb)
      obtain ok v b' where snd: "send_in_order u b c = (ok, v, b')"
        by (metis prod_cases3)
      obtain q where v: "v = u\<lparr>queue := q\<rparr>"
        using send_in_order_frame [OF snd] .
      have li: "loop_inv v" "map_of (pending v) (next_seq v) = None" "\<not> sequence_exhausted v"
        using inv now(1) by (simp_all add: v uplink_inv_def)
      show ?thesis
      proof (cases ok)
        case False
        with p now Some cb snd have "u' = v" by (simp add: push_def)
        with li show ?thesis by (simp add: uplink_inv_def)
      next
        case ok: True
        show ?thesis
        proof (cases "next_seq v = - 1")
          case True
          with p now Some cb snd ok have "u' = v\<lparr>sequence_exhausted := True\<rparr>" by (simp add: push_def)
          with loop_inv_exhausted [OF li(1,2) True] show ?thesis by simp
        next
          case False
          with p now Some cb snd ok
          have "deliver_followers (v\<lparr>next_seq := next_seq v + 1\<rparr>) b' = (r, u', bud')"
            by (simp add: push_def)
          with loop_inv_advance [OF li(1,2) False li(3)] li(3) show ?thesis
            by (auto intro: deliver_followers_inv)
        qed
      qed
    qed
  qed
qed

lemma close_inv: "uplink_inv u \<Longrightarrow> uplink_inv (fst (close f u bud))"
  by (auto simp: close_def uplink_inv_def loop_inv_def pending_len_def)

lemma poll_read_frame:
  assumes "poll_read u bud n = (r, u', bud')"
  obtains q d where "u' = u\<lparr>queue := q, cur := d\<rparr>"
proof -
  have "u' = u\<lparr>queue := queue u', cur := cur u'\<rparr>"
    using assms
    by (auto simp: poll_read_def read_current_def Let_def split: option.splits list.splits if_splits)
  then show thesis by (rule that)
qed

lemma poll_read_inv: "poll_read u bud n = (r, u', bud') \<Longrightarrow> uplink_inv u \<Longrightarrow> uplink_inv u'"
  by (erule poll_read_frame) (simp add: uplink_inv_def loop_inv_def pending_len_def)

section \<open>In-order delivery against a log of packets\<close>

text \<open>
  The specification: a log that keeps the first accepted payload of every sequence number, and a
  watermark below which the log has no gap. \<open>stream_of\<close> is what the reader has not yet taken out of
  the channel; \<open>log_rel u out log\<close> relates the queue to the log when the reader has taken \<open>out\<close>.
\<close>

definition stream_of :: "uplink \<Rightarrow> bytes" where
  "stream_of u = (case cur u of None \<Rightarrow> [] | Some c \<Rightarrow> payload c) @ concat (map payload (queue u))"

definition watermark :: "uplink \<Rightarrow> nat" where
  "watermark u = (if sequence_exhausted u then 2 ^ 64 else unat (next_seq u))"

definition log_prefix :: "(nat \<Rightarrow> bytes option) \<Rightarrow> nat \<Rightarrow> bytes" where
  "log_prefix log n = concat (map (\<lambda>i. the (log i)) [0..<n])"

definition log_below :: "uplink \<Rightarrow> bytes \<Rightarrow> (nat \<Rightarrow> bytes option) \<Rightarrow> bool" where
  "log_below u out log \<longleftrightarrow>
     out @ stream_of u = log_prefix log (watermark u) \<and> (\<forall>i < watermark u. log i \<noteq> None)"

definition log_above :: "nat \<Rightarrow> uplink \<Rightarrow> (nat \<Rightarrow> bytes option) \<Rightarrow> bool" where
  "log_above n u log \<longleftrightarrow>
     (\<forall>k. n \<le> unat k \<longrightarrow> map_option payload (map_of (pending u) k) = log (unat k))"

definition log_rel :: "uplink \<Rightarrow> bytes \<Rightarrow> (nat \<Rightarrow> bytes option) \<Rightarrow> bool" where
  "log_rel u out log \<longleftrightarrow> log_below u out log \<and> log_above (watermark u) u log"

lemma log_prefix_Suc: "log_prefix log (Suc n) = log_prefix log n @ the (log n)"
  by (simp add: log_prefix_def)

lemma log_prefix_upd: "n \<le> i \<Longrightarrow> log_prefix (log(i \<mapsto> p)) n = log_prefix log n"
  by (auto simp: log_prefix_def intro!: arg_cong [of _ _ concat])

lemma send_in_order_open:
  assumes "tx_open u"
  obtains b q where "send_in_order u bud c = (True, u\<lparr>queue := q\<rparr>, b)"
    "concat (map payload q) = concat (map payload (queue u)) @ payload c"
proof (cases "payload c = []")
  case True
  then show ?thesis by (intro that [of "queue u"]) (auto simp: send_in_order_def)
next
  case False
  with assms show ?thesis by (intro that [of "queue u @ [c]"]) (auto simp: send_in_order_def)
qed

lemma unat_next: "(k :: u64) \<noteq> - 1 \<Longrightarrow> unat (k + 1) = Suc (unat k)"
  using unatSuc [of k] by (metis add.commute add_eq_0_iff)

text \<open>One packet more below the watermark.\<close>

lemma advance_log:
  assumes below: "log_below u out log" and above: "log_above (Suc (watermark u)) u log"
    and x: "log (watermark u) = Some x"
    and str: "stream_of v = stream_of u @ x" and wm: "watermark v = Suc (watermark u)"
    and pend: "\<And>k. watermark u < unat k \<Longrightarrow> map_of (pending v) k = map_of (pending u) k"
  shows "log_rel v out log"
proof -
  have "out @ stream_of v = log_prefix log (watermark v)"
    using below x by (simp add: log_below_def str wm log_prefix_Suc flip: append_assoc)
  moreover have "\<forall>i < watermark v. log i \<noteq> None"
    using below x by (auto simp: log_below_def wm less_Suc_eq)
  moreover have "log_above (watermark v) v log"
    using above pend by (simp add: log_above_def wm)
  ultimately show ?thesis by (simp add: log_rel_def log_below_def)
qed

lemma watermark_advance:
  "\<not> sequence_exhausted u \<Longrightarrow> next_seq u \<noteq> - 1 \<Longrightarrow>
     watermark (u\<lparr>next_seq := next_seq u + 1\<rparr>) = Suc (watermark u)"
  by (simp add: watermark_def unat_next)

lemma watermark_exhaust:
  "\<not> sequence_exhausted u \<Longrightarrow> next_seq u = - 1 \<Longrightarrow>
     watermark (u\<lparr>sequence_exhausted := True\<rparr>) = Suc (watermark u)"
  using unat_minus1_u64 [of "next_seq u"] by (simp add: watermark_def)

text \<open>What sending one payload in order on an open channel does.\<close>

lemma sent_stream:
  assumes "concat (map payload q) = concat (map payload (queue u)) @ x"
  shows "stream_of (u\<lparr>queue := q\<rparr>) = stream_of u @ x"
  using assms by (simp add: stream_of_def)

lemma stream_of_cong: "queue v = queue u \<Longrightarrow> cur v = cur u \<Longrightarrow> stream_of v = stream_of u"
  by (simp add: stream_of_def)

lemma deliver_followers_log:
  assumes "deliver_followers u bud = (r, u', bud')" and "\<not> sequence_exhausted u"
    and "tx_open u" and "log_rel u out log"
  shows "r = Accepted \<and> tx_open u' \<and> log_rel u' out log"
  using assms
proof (induction u bud arbitrary: r u' bud' rule: deliver_followers.induct)
  case (1 u bud)
  show ?case
  proof (cases "map_of (pending u) (next_seq u)")
    case None
    with "1.prems" show ?thesis by (simp add: deliver_followers.simps [of u bud])
  next
    case (Some c)
    let ?u = "take_pending u c"
    have tx: "tx_open ?u" using "1.prems"(3) by (simp add: take_pending_def)
    obtain b q where snd: "send_in_order ?u bud c = (True, ?u\<lparr>queue := q\<rparr>, b)"
      and q: "concat (map payload q) = concat (map payload (queue ?u)) @ payload c"
      using send_in_order_open [OF tx] .
    let ?v = "?u\<lparr>queue := q\<rparr>"
    have wm: "watermark u = unat (next_seq u)" using "1.prems"(2) by (simp add: watermark_def)
    have lg: "log_below u out log" "log_above (watermark u) u log"
      using "1.prems"(4) by (simp_all add: log_rel_def)
    have x: "log (watermark u) = Some (payload c)"
      using lg(2) Some unfolding log_above_def wm by (metis option.simps(9) order_refl)
    have above: "log_above (Suc (watermark u)) u log"
      using lg(2) by (simp add: log_above_def)
    have str: "stream_of ?v = stream_of u @ payload c"
      using sent_stream [OF q] by (simp add: stream_of_def take_pending_def)
    have adv: "log_rel w out log"
      if "queue w = q" "cur w = cur u" "pending w = pending ?u" "watermark w = Suc (watermark u)" for w
    proof (rule advance_log [OF lg(1) above x])
      show "stream_of w = stream_of u @ payload c"
        using that str by (simp add: stream_of_def take_pending_def)
      show "map_of (pending w) k = map_of (pending u) k" if "watermark u < unat k" for k
        using that \<open>pending w = pending ?u\<close> by (auto simp: take_pending_def map_of_AList_delete wm)
    qed (use that in simp)
    note eq = "1.prems"(1) [unfolded deliver_followers.simps [of u bud] Some, simplified, unfolded snd, simplified]
    have vs: "next_seq ?v = next_seq u" "\<not> sequence_exhausted ?v" "tx_open ?v" "cur ?v = cur u"
      using "1.prems"(2,3) by (simp_all add: take_pending_def)
    show ?thesis
    proof (cases "next_seq u = - 1")
      case True
      with eq vs have "r = Accepted" "u' = ?v\<lparr>sequence_exhausted := True\<rparr>" by simp_all
      then show ?thesis
        using watermark_exhaust [OF vs(2)] True vs adv [of u'] "1.prems"(2) by (simp add: watermark_def)
    next
      case False
      let ?w = "?v\<lparr>next_seq := next_seq ?v + 1\<rparr>"
      from eq False vs(1) have "deliver_followers ?w b = (r, u', bud')" by simp
      moreover have "log_rel ?w out log"
        using watermark_advance [OF vs(2)] False vs "1.prems"(2) by (intro adv) (simp_all add: watermark_def)
      ultimately show ?thesis
        using "1.IH" [OF Some snd [symmetric] _ refl] False vs by simp
    qed
  qed
qed

lemma push_log:
  assumes p: "push u bud seq p = (r, u', bud')" and inv: "uplink_inv u" and tx: "tx_open u"
    and lg: "log_rel u out log"
  shows "r \<noteq> Closed \<and> tx_open u' \<and>
     (if r = Accepted then log (unat seq) = None \<and> log_rel u' out (log(unat seq \<mapsto> p))
      else u' = u \<and> bud' = bud \<and> (r = Duplicate \<longleftrightarrow> log (unat seq) \<noteq> None))"
proof -
  have none: "map_of (pending u) (next_seq u) = None" using inv by (simp add: uplink_inv_def)
  have below: "log_below u out log" and above: "log_above (watermark u) u log"
    using lg by (simp_all add: log_rel_def)
  have upd: "log_below u out (log(i \<mapsto> p))" if "watermark u \<le> i" for i
    using below that by (simp add: log_below_def log_prefix_upd)
  consider (dup) "sequence_exhausted u \<or> seq < next_seq u"
    | (ahead) "\<not> sequence_exhausted u" "next_seq u < seq"
    | (now) "\<not> sequence_exhausted u" "seq = next_seq u"
    by fastforce
  then show ?thesis
  proof cases
    case dup
    then have "unat seq < watermark u"
      by (auto simp: watermark_def word_less_nat_alt)
    with below have "log (unat seq) \<noteq> None" by (simp add: log_below_def)
    with dup p tx show ?thesis by (simp add: push_def)
  next
    case ahead
    have wm: "watermark u < unat seq" using ahead by (simp add: watermark_def word_less_nat_alt)
    have ls: "log (unat seq) = map_option payload (map_of (pending u) seq)"
      using above wm by (simp add: log_above_def)
    show ?thesis
    proof (cases "r = Accepted")
      case False
      with push_ahead [OF ahead p] ls tx show ?thesis by auto
    next
      case True
      with push_ahead [OF ahead p] obtain c where c: "map_of (pending u) seq = None"
          "reserve_payload bud p = Some (c, bud')"
        and u': "u' = u\<lparr>pending_bytes := pending_bytes u + length p,
                         pending_count := usize_wrapping_add (pending_count u) 1,
                         pending := (seq, c) # pending u\<rparr>"
        by auto
      have same: "watermark u' = watermark u" "stream_of u' = stream_of u"
        by (simp_all add: u' watermark_def stream_of_def)
      have "log_below u' out (log(unat seq \<mapsto> p))"
        using upd [of "unat seq"] wm by (simp add: log_below_def same)
      moreover have "log_above (watermark u') u' (log(unat seq \<mapsto> p))"
        using above reserve_payload_payload [OF c(2)]
        by (simp add: log_above_def same) (simp add: u' word_unat_eq_iff)
      ultimately show ?thesis
        using True tx ls c(1) by (simp add: log_rel_def u')
    qed
  next
    case now
    have wm: "watermark u = unat seq" using now by (simp add: watermark_def)
    have ls: "log (unat seq) = None"
      using above none now unfolding log_above_def wm by (metis option.simps(8) order_refl)
    show ?thesis
    proof (cases "reserve_payload bud p")
      case None
      with now p tx ls show ?thesis by (auto simp: push_def)
    next
      case (Some cb)
      obtain c b where cb: "cb = (c, b)" by (cases cb)
      have pc: "payload c = p" using Some cb by (simp add: reserve_payload_payload)
      obtain b' q where snd: "send_in_order u b c = (True, u\<lparr>queue := q\<rparr>, b')"
        and q: "concat (map payload q) = concat (map payload (queue u)) @ payload c"
        using send_in_order_open [OF tx] .
      let ?v = "u\<lparr>queue := q\<rparr>" and ?log = "log(unat seq \<mapsto> p)"
      have adv: "log_rel w out ?log"
        if "queue w = q" "cur w = cur u" "pending w = pending u" "watermark w = Suc (watermark u)" for w
      proof (rule advance_log [OF upd])
        show "log_above (Suc (watermark u)) u ?log"
          using above by (simp add: log_above_def wm)
        show "stream_of w = stream_of u @ p"
          using that sent_stream [OF q] pc by (simp add: stream_of_def)
      qed (use that wm in simp_all)
      have pv: "push u bud seq p =
          (if next_seq u = - 1 then (Accepted, ?v\<lparr>sequence_exhausted := True\<rparr>, b')
           else deliver_followers (?v\<lparr>next_seq := next_seq u + 1\<rparr>) b')"
        using now Some cb snd by (simp add: push_def)
      show ?thesis
      proof (cases "next_seq u = - 1")
        case True
        with p pv have "r = Accepted" "u' = ?v\<lparr>sequence_exhausted := True\<rparr>" by simp_all
        then show ?thesis
          using watermark_exhaust [OF now(1) True] ls tx by (simp add: adv watermark_def)
      next
        case False
        with p pv have d: "deliver_followers (?v\<lparr>next_seq := next_seq u + 1\<rparr>) b' = (r, u', bud')"
          by simp
        have "log_rel (?v\<lparr>next_seq := next_seq u + 1\<rparr>) out ?log"
          using watermark_advance [OF now(1) False] now(1) by (intro adv) (simp_all add: watermark_def)
        from deliver_followers_log [OF d _ _ this] now(1) tx ls show ?thesis by simp
      qed
    qed
  qed
qed

lemma poll_read_stream:
  assumes "poll_read u bud n = (PollReady bs, u', bud')"
  shows "bs @ stream_of u' = stream_of u"
  using assms
  by (auto simp: poll_read_def read_current_def stream_of_def Let_def
      split: option.splits list.splits if_splits)

lemma poll_read_pending: "poll_read u bud n = (PollPending, u', bud') \<Longrightarrow> u' = u \<and> bud' = bud"
  by (auto simp: poll_read_def read_current_def Let_def split: option.splits list.splits if_splits)

lemmas uplink_exec = channel_with_budget_def push_def usize_checked_add_def usize_wrapping_add_def
  usize_wrapping_sub_def reserve_payload_def send_in_order_def drop_chunk_def take_pending_def
  deliver_followers.simps poll_read_def read_current_def stream_of_def watermark_def

section \<open>Runs of an uplink\<close>

text \<open>
  A run is any sequence of pushes (by any number of HTTP requests, serialised by the state lock)
  and reads. \<open>trace\<close> collects what the reader got and which packets were accepted, newest first.
\<close>

datatype uplink_op = Push u64 bytes | Read nat

record trace =
  tr_up :: uplink
  tr_bud :: "budget option"
  tr_out :: bytes
  tr_accepted :: "(u64 \<times> bytes) list"

definition exec_op :: "trace \<Rightarrow> uplink_op \<Rightarrow> trace" where
  "exec_op t op =
     (case op of
        Push seq p \<Rightarrow>
          (case push (tr_up t) (tr_bud t) seq p of
             (r, u', b') \<Rightarrow>
               t\<lparr>tr_up := u', tr_bud := b',
                 tr_accepted := (if r = Accepted then (seq, p) # tr_accepted t else tr_accepted t)\<rparr>)
      | Read room \<Rightarrow>
          (case poll_read (tr_up t) (tr_bud t) room of
             (PollReady bs, u', b') \<Rightarrow> t\<lparr>tr_up := u', tr_bud := b', tr_out := tr_out t @ bs\<rparr>
           | (PollPending, u', b') \<Rightarrow> t\<lparr>tr_up := u', tr_bud := b'\<rparr>))"

definition start_trace :: "nat \<Rightarrow> nat \<Rightarrow> budget option \<Rightarrow> trace" where
  "start_trace n m b = \<lparr>tr_up = channel_with_budget n m, tr_bud = b, tr_out = [], tr_accepted = []\<rparr>"

definition run_ops :: "nat \<Rightarrow> nat \<Rightarrow> budget option \<Rightarrow> uplink_op list \<Rightarrow> trace" where
  "run_ops n m b ops = foldl exec_op (start_trace n m b) ops"

definition log_of :: "(u64 \<times> bytes) list \<Rightarrow> nat \<Rightarrow> bytes option" where
  "log_of acc i = (if i < 2 ^ 64 then map_of acc (of_nat i) else None)"

lemma log_of_Cons: "log_of ((seq, p) # acc) = (log_of acc)(unat seq \<mapsto> p)"
  by (rule ext) (auto simp: log_of_def unat_of_nat_u64 dest: sym)

lemma log_of_unat: "log_of acc (unat k) = map_of acc k"
  by (simp add: log_of_def)

definition trace_inv :: "trace \<Rightarrow> bool" where
  "trace_inv t \<longleftrightarrow>
     uplink_inv (tr_up t) \<and> tx_open (tr_up t) \<and> log_rel (tr_up t) (tr_out t) (log_of (tr_accepted t)) \<and>
     distinct (map fst (tr_accepted t))"

lemma trace_inv_start: "n < 2 ^ 64 \<Longrightarrow> trace_inv (start_trace n m b)"
  using uplink_inv_channel [of n m]
  by (simp add: trace_inv_def start_trace_def log_rel_def log_below_def log_above_def
      channel_with_budget_def watermark_def stream_of_def log_prefix_def log_of_def)

lemma exec_push_inv:
  assumes "trace_inv t"
  shows "trace_inv (exec_op t (Push seq p))"
proof -
  obtain r u' b' where p: "push (tr_up t) (tr_bud t) seq p = (r, u', b')" by (metis prod_cases3)
  from assms have inv: "uplink_inv (tr_up t)" "tx_open (tr_up t)"
      "log_rel (tr_up t) (tr_out t) (log_of (tr_accepted t))" "distinct (map fst (tr_accepted t))"
    by (simp_all add: trace_inv_def)
  note pl = push_log [OF p inv(1-3)]
  show ?thesis
  proof (cases "r = Accepted")
    case True
    with pl have "map_of (tr_accepted t) seq = None" by (simp add: log_of_unat)
    then have "seq \<notin> fst ` set (tr_accepted t)" by (simp add: map_of_eq_None_iff)
    with True pl p inv push_inv [OF p inv(1)] show ?thesis
      by (simp add: exec_op_def trace_inv_def log_of_Cons)
  next
    case False
    with pl p inv show ?thesis by (simp add: exec_op_def trace_inv_def)
  qed
qed

lemma log_rel_read:
  assumes "poll_read u b n = (PollReady bs, u', b')" and "log_rel u ot log"
  shows "log_rel u' (ot @ bs) log"
proof -
  obtain q d where "u' = u\<lparr>queue := q, cur := d\<rparr>" using poll_read_frame [OF assms(1)] .
  then have "watermark u' = watermark u" "pending u' = pending u" by (simp_all add: watermark_def)
  with assms(2) poll_read_stream [OF assms(1)] show ?thesis
    by (simp add: log_rel_def log_below_def log_above_def)
qed

lemma exec_read_inv:
  assumes "trace_inv t"
  shows "trace_inv (exec_op t (Read n))"
proof -
  obtain r u' b' where p: "poll_read (tr_up t) (tr_bud t) n = (r, u', b')" by (metis prod_cases3)
  obtain q d where u': "u' = (tr_up t)\<lparr>queue := q, cur := d\<rparr>" using poll_read_frame [OF p] .
  show ?thesis
  proof (cases r)
    case (PollReady bs)
    with p assms poll_read_inv [OF p] log_rel_read [of "tr_up t" "tr_bud t" n bs u' b'] show ?thesis
      by (simp add: exec_op_def trace_inv_def u')
  next
    case PollPending
    with p assms poll_read_pending [of "tr_up t" "tr_bud t" n u' b'] show ?thesis
      by (simp add: exec_op_def trace_inv_def)
  qed
qed

lemma run_ops_inv:
  assumes "n < 2 ^ 64"
  shows "trace_inv (run_ops n m b ops)"
proof -
  have "trace_inv (foldl exec_op t ops)" if "trace_inv t" for t
    using that
  proof (induction ops arbitrary: t)
    case (Cons op ops)
    then have "trace_inv (exec_op t op)"
      by (cases op) (simp_all add: exec_push_inv exec_read_inv)
    with Cons.IH show ?case by simp
  qed simp
  with trace_inv_start [OF assms] show ?thesis by (simp add: run_ops_def)
qed

text \<open>
  C1. Whatever the order in which the packets of a session arrive, duplicated, late or beyond the
  limits, the bytes the reader has taken, followed by those it can still take, are the payloads of
  the accepted packets 0, 1, 2, \<dots> in the order of their numbers, up to the first number that was
  never accepted; and no number is accepted twice. Hence every accepted packet below the first gap
  is delivered exactly once.
\<close>

theorem uplink_delivers_in_order:
  assumes "n < 2 ^ 64" and "run_ops n m b ops = t"
  shows "tr_out t @ stream_of (tr_up t) =
           concat (map (\<lambda>i. the (map_of (tr_accepted t) (of_nat i))) [0..<watermark (tr_up t)]) \<and>
         (\<forall>i < watermark (tr_up t). map_of (tr_accepted t) (of_nat i) \<noteq> None) \<and>
         (watermark (tr_up t) < 2 ^ 64 \<longrightarrow> map_of (tr_accepted t) (of_nat (watermark (tr_up t))) = None) \<and>
         distinct (map fst (tr_accepted t))"
proof -
  from run_ops_inv [OF assms(1), of m b ops] have inv: "trace_inv t" by (simp add: assms(2))
  let ?w = "watermark (tr_up t)"
  have w: "?w \<le> 2 ^ 64" by (simp add: watermark_def less_imp_le)
  have lb: "tr_out t @ stream_of (tr_up t) = log_prefix (log_of (tr_accepted t)) ?w"
      "\<forall>i < ?w. log_of (tr_accepted t) i \<noteq> None"
    using inv by (simp_all add: trace_inv_def log_rel_def log_below_def)
  have "log_prefix (log_of (tr_accepted t)) ?w =
      concat (map (\<lambda>i. the (map_of (tr_accepted t) (of_nat i))) [0..<?w])"
    using w by (auto simp: log_prefix_def log_of_def intro!: arg_cong [of _ _ concat])
  moreover have "map_of (tr_accepted t) (of_nat ?w) = None" if "?w < 2 ^ 64"
  proof -
    from that have e: "?w = unat (next_seq (tr_up t))" by (simp add: watermark_def split: if_splits)
    have "map_of (pending (tr_up t)) (next_seq (tr_up t)) = None"
      using inv by (simp add: trace_inv_def uplink_inv_def)
    moreover have "map_option payload (map_of (pending (tr_up t)) (next_seq (tr_up t))) = log_of (tr_accepted t) ?w"
      using inv e by (simp add: trace_inv_def log_rel_def log_above_def)
    ultimately show ?thesis using that by (simp add: log_of_def)
  qed
  ultimately show ?thesis
    using lb inv w by (auto simp: trace_inv_def log_of_def)
qed

text \<open>Packets 2, 0, 1 with a duplicate of 2, read in pieces of two bytes.\<close>

theorem uplink_delivers_in_order_witness:
  "let t = run_ops 4 0 None [Push 2 [5, 6], Push 0 [1], Push 2 [9], Push 1 [2, 3, 4], Read 2, Read 2]
   in tr_out t @ stream_of (tr_up t) = [1, 2, 3, 4, 5, 6] \<and> distinct (map fst (tr_accepted t))"
proof -
  let ?ops = "[Push 2 [5, 6], Push 0 [1], Push 2 [9], Push 1 [2, 3, 4], Read 2, Read 2]"
  have "tr_out (run_ops 4 0 None ?ops) @ stream_of (tr_up (run_ops 4 0 None ?ops)) = [1, 2, 3, 4, 5, 6]"
    by (simp add: run_ops_def start_trace_def exec_op_def uplink_exec Let_def)
  then show ?thesis
    using uplink_delivers_in_order [of 4 0 None ?ops] by (simp add: Let_def)
qed

text \<open>A property of the queue and the budget that every elementary action of \<open>push\<close> keeps is kept by
  \<open>push\<close>.\<close>

lemma deliver_followers_preserves:
  assumes "deliver_followers u b = (r, u', b')" and "I u b"
    and send: "\<And>u b c ok v b'. I u b \<Longrightarrow> map_of (pending u) (next_seq u) = Some c \<Longrightarrow>
        send_in_order (take_pending u c) b c = (ok, v, b') \<Longrightarrow> I v b'"
    and step: "\<And>u b s. I u b \<Longrightarrow> I (u\<lparr>next_seq := s\<rparr>) b"
    and finish: "\<And>u b. I u b \<Longrightarrow> I (u\<lparr>sequence_exhausted := True\<rparr>) b"
  shows "I u' b'"
  using assms(1,2)
proof (induction u b arbitrary: r u' b' rule: deliver_followers.induct)
  case (1 u b)
  show ?case
  proof (cases "map_of (pending u) (next_seq u)")
    case None
    with "1.prems" show ?thesis by (simp add: deliver_followers.simps [of u b])
  next
    case (Some c)
    obtain ok v d where snd: "send_in_order (take_pending u c) b c = (ok, v, d)"
      by (metis prod_cases3)
    have v: "I v d" by (rule send [OF "1.prems"(2) Some snd])
    note eq = "1.prems"(1) [unfolded deliver_followers.simps [of u b] Some, simplified, unfolded snd, simplified]
    consider "\<not> ok" | "ok" "next_seq v = - 1" | "ok" "next_seq v \<noteq> - 1" by blast
    then show ?thesis
    proof cases
      case 3
      with eq "1.IH" [OF Some snd [symmetric] _ refl] step [OF v] show ?thesis by simp
    qed (use eq v finish [OF v] in auto)
  qed
qed

lemma push_preserves:
  assumes p: "push u b seq p = (r, u', b')" and "I u b"
    and insert: "\<And>c d n k. reserve_payload b p = Some (c, d) \<Longrightarrow> map_of (pending u) seq = None \<Longrightarrow>
        I (u\<lparr>pending_bytes := n, pending_count := k, pending := (seq, c) # pending u\<rparr>) d"
    and first: "\<And>c d ok v b'. reserve_payload b p = Some (c, d) \<Longrightarrow>
        send_in_order u d c = (ok, v, b') \<Longrightarrow> I v b'"
    and send: "\<And>u b c ok v b'. I u b \<Longrightarrow> map_of (pending u) (next_seq u) = Some c \<Longrightarrow>
        send_in_order (take_pending u c) b c = (ok, v, b') \<Longrightarrow> I v b'"
    and step: "\<And>u b s. I u b \<Longrightarrow> I (u\<lparr>next_seq := s\<rparr>) b"
    and finish: "\<And>u b. I u b \<Longrightarrow> I (u\<lparr>sequence_exhausted := True\<rparr>) b"
  shows "I u' b'"
proof -
  consider (dup) "sequence_exhausted u \<or> seq < next_seq u"
    | (ahead) "\<not> sequence_exhausted u" "next_seq u < seq"
    | (now) "\<not> sequence_exhausted u" "seq = next_seq u"
    by fastforce
  then show ?thesis
  proof cases
    case dup
    with p assms(2) show ?thesis by (simp add: push_def)
  next
    case ahead
    show ?thesis using push_ahead [OF ahead p] assms(2) insert by auto
  next
    case now
    show ?thesis
    proof (cases "reserve_payload b p")
      case None
      with p now assms(2) show ?thesis by (simp add: push_def)
    next
      case (Some cd)
      then obtain c d where r: "reserve_payload b p = Some (c, d)" by (cases cd) simp
      obtain ok v e where snd: "send_in_order u d c = (ok, v, e)" by (metis prod_cases3)
      have v: "I v e" by (rule first [OF r snd])
      consider "\<not> ok" | "ok" "next_seq v = - 1" | "ok" "next_seq v \<noteq> - 1" by blast
      then show ?thesis
      proof cases
        case 3
        with p now r snd have d: "deliver_followers (v\<lparr>next_seq := next_seq v + 1\<rparr>) e = (r, u', b')"
          by (simp add: push_def)
        show ?thesis
          by (rule deliver_followers_preserves [where I = I, OF d step [OF v]])
            (fact send step finish)+
      qed (use p now r snd v finish [OF v] in \<open>auto simp: push_def\<close>)
    qed
  qed
qed

lemma push_limits:
  assumes "push u b seq p = (r, u', b')"
  shows "max_packets u' = max_packets u \<and> max_bytes u' = max_bytes u"
  by (rule push_preserves [OF assms, of "\<lambda>v _. max_packets v = max_packets u \<and> max_bytes v = max_bytes u"])
    (auto simp: take_pending_def elim: send_in_order_frame)

lemma exec_op_limits:
  "max_packets (tr_up (exec_op t op)) = max_packets (tr_up t) \<and>
   max_bytes (tr_up (exec_op t op)) = max_bytes (tr_up t)"
proof (cases op)
  case (Push seq p)
  then show ?thesis
    using push_limits [of "tr_up t" "tr_bud t" seq p] by (auto simp: exec_op_def split: prod.splits)
next
  case (Read n)
  obtain r u' b' where p: "poll_read (tr_up t) (tr_bud t) n = (r, u', b')" by (metis prod_cases3)
  obtain q d where u': "u' = (tr_up t)\<lparr>queue := q, cur := d\<rparr>" using poll_read_frame [OF p] .
  with p Read show ?thesis by (simp add: exec_op_def split: poll.splits)
qed



section \<open>Progress of the reader\<close>

text \<open>Only non-empty chunks reach the channel, so an empty read is the end of the stream.\<close>

definition chunks_nonempty :: "uplink \<Rightarrow> bool" where
  "chunks_nonempty u \<longleftrightarrow> (\<forall>c \<in> set (queue u). payload c \<noteq> []) \<and> (\<forall>c. cur u = Some c \<longrightarrow> payload c \<noteq> [])"

lemma send_in_order_nonempty:
  "send_in_order u bud c = (ok, u', bud') \<Longrightarrow> chunks_nonempty u \<Longrightarrow> chunks_nonempty u'"
  by (auto simp: send_in_order_def chunks_nonempty_def split: if_splits)

lemma chunks_nonempty_frame [simp]:
  "chunks_nonempty (u\<lparr>next_seq := s\<rparr>) = chunks_nonempty u"
  "chunks_nonempty (u\<lparr>sequence_exhausted := e\<rparr>) = chunks_nonempty u"
  "chunks_nonempty (u\<lparr>pending_bytes := n, pending_count := k, pending := ps\<rparr>) = chunks_nonempty u"
  "chunks_nonempty (take_pending u c) = chunks_nonempty u"
  by (simp_all add: chunks_nonempty_def take_pending_def)

lemma push_nonempty:
  assumes "push u bud seq p = (r, u', bud')" and "chunks_nonempty u"
  shows "chunks_nonempty u'"
proof (rule push_preserves [OF assms(1), of "\<lambda>v _. chunks_nonempty v"])
  show "chunks_nonempty v" if "send_in_order (take_pending u c) b c = (ok, v, b')" "chunks_nonempty u"
    for u b c ok v b'
    using send_in_order_nonempty [OF that(1)] that(2) by simp
  show "chunks_nonempty v" if "send_in_order u d c = (ok, v, b')" for c d ok v b'
    using send_in_order_nonempty [OF that assms(2)] .
qed (use assms(2) in simp_all)

lemma poll_read_nonempty:
  "poll_read u bud n = (r, u', bud') \<Longrightarrow> chunks_nonempty u \<Longrightarrow> chunks_nonempty u'"
  by (auto simp: poll_read_def read_current_def chunks_nonempty_def Let_def
      split: option.splits list.splits if_splits)

lemma exec_op_nonempty: "chunks_nonempty (tr_up t) \<Longrightarrow> chunks_nonempty (tr_up (exec_op t op))"
proof (cases op)
  case (Push seq p)
  assume "chunks_nonempty (tr_up t)"
  with Push show ?thesis
    using push_nonempty [of "tr_up t" "tr_bud t" seq p] by (auto simp: exec_op_def split: prod.splits)
next
  case (Read n)
  assume "chunks_nonempty (tr_up t)"
  with Read show ?thesis
    using poll_read_nonempty [of "tr_up t" "tr_bud t" n]
    by (auto simp: exec_op_def split: prod.splits poll.splits)
qed

lemma run_ops_nonempty: "chunks_nonempty (tr_up (run_ops n m b ops))"
proof -
  have step: "chunks_nonempty (tr_up (foldl exec_op t ops))" if "chunks_nonempty (tr_up t)" for t
    using that by (induction ops arbitrary: t) (simp_all add: exec_op_nonempty)
  have "chunks_nonempty (tr_up (start_trace n m b))"
    by (simp add: start_trace_def channel_with_budget_def chunks_nonempty_def)
  then show ?thesis unfolding run_ops_def by (rule step)
qed

lemma read_current_progress:
  assumes "payload c \<noteq> []" and "0 < room" and "read_current u bud c room = (r, u', bud')"
  shows "\<exists>bs. r = PollReady bs \<and> bs \<noteq> []"
  using assms by (auto simp: read_current_def Let_def)

lemma poll_read_progress:
  assumes ne: "chunks_nonempty u" and room: "0 < room" and p: "poll_read u bud room = (r, u', bud')"
  shows "if stream_of u \<noteq> [] then (\<exists>bs. r = PollReady bs \<and> bs \<noteq> [])
         else r = (if tx_open u then PollPending else PollReady [])"
proof (cases "cur u")
  case (Some c)
  with ne have "payload c \<noteq> []" by (simp add: chunks_nonempty_def)
  with Some p read_current_progress [OF _ room] show ?thesis
    by (simp add: poll_read_def stream_of_def)
next
  case None
  show ?thesis
  proof (cases "queue u")
    case Nil
    with None p show ?thesis by (auto simp: poll_read_def stream_of_def)
  next
    case (Cons d q)
    with ne have "payload d \<noteq> []" by (simp add: chunks_nonempty_def)
    with None Cons p read_current_progress [OF _ room] show ?thesis
      by (simp add: poll_read_def stream_of_def)
  qed
qed

text \<open>
  C22. A reader with room in its buffer makes progress in every reachable state: it gets at least one
  byte, the next of the in-order stream, whenever there is one; it waits only when the stream is
  empty and the writer side is still open; and the empty read that signals end of file is returned
  only after \<open>close\<close>, once everything sent before has been read.
\<close>

theorem uplink_reader_progress:
  assumes "n < 2 ^ 64" and "tr_up (run_ops n m b ops) = u" and "0 < room"
    and "v = (if closing then fst (close True u bd) else u)"
    and "poll_read v bd room = (r, v', bd')"
  shows "case r of
           PollReady bs \<Rightarrow> bs @ stream_of v' = stream_of u \<and> (bs = [] \<longrightarrow> closing \<and> stream_of u = [])
         | PollPending \<Rightarrow> stream_of u = [] \<and> \<not> closing"
proof -
  have ne: "chunks_nonempty v"
    using run_ops_nonempty [of n m b ops] assms(2,4) by (auto simp: close_def chunks_nonempty_def)
  have v: "stream_of v = stream_of u" "tx_open v = (\<not> closing)"
    using run_ops_inv [OF assms(1), of m b ops] assms(2,4)
    by (auto simp: close_def stream_of_def trace_inv_def)
  show ?thesis
    using poll_read_progress [OF ne assms(3,5)] poll_read_stream [of v bd room _ v' bd'] assms(5) v
    by (cases r) (auto split: if_splits)
qed

theorem uplink_reader_progress_witness:
  "\<exists>u v'. tr_up (run_ops 4 0 None [Push 0 [7, 8]]) = u \<and>
     poll_read (fst (close True u None)) None 1 = (PollReady [7], v', None) \<and> stream_of v' = [8]"
proof -
  let ?u = "tr_up (run_ops 4 0 None [Push 0 [7, 8]])"
  have s: "stream_of ?u = [7, 8]"
    by (simp add: run_ops_def start_trace_def exec_op_def uplink_exec Let_def)
  obtain r v' b' where p: "poll_read (fst (close True ?u None)) None 1 = (r, v', b')"
    by (metis prod_cases3)
  then have "b' = None" "r = PollReady [7]"
    by (auto simp: run_ops_def start_trace_def exec_op_def uplink_exec Let_def close_def)
  with uplink_reader_progress [of 4 0 None "[Push 0 [7, 8]]" ?u 1 "fst (close True ?u None)" True None r v' b'] s p
  show ?thesis by auto
qed

section \<open>The bytes of the shared budget\<close>

text \<open>\<open>holdings u\<close> are the reservations that the chunks inside an uplink keep alive; \<open>accounted\<close> says
  that the shared budget counts exactly a list of reservations.\<close>

definition holding :: "budgeted_bytes \<Rightarrow> u64 list" where
  "holding c = (case reservation c of None \<Rightarrow> [] | Some n \<Rightarrow> [n])"

definition holdings :: "uplink \<Rightarrow> u64 list" where
  "holdings u = concat (map (holding \<circ> snd) (pending u)) @ concat (map holding (queue u)) @
     (case cur u of None \<Rightarrow> [] | Some c \<Rightarrow> holding c)"

definition accounted :: "budget option \<Rightarrow> u64 list \<Rightarrow> bool" where
  "accounted bd rs \<longleftrightarrow> (case bd of None \<Rightarrow> True | Some b \<Rightarrow> mb.accounts b rs)"

lemma accounted_mset: "accounted bd rs \<Longrightarrow> mset rs = mset rs' \<Longrightarrow> accounted bd rs'"
  using mb.accounts_mset [of rs rs'] by (auto simp: accounted_def split: option.splits)

lemma accounted_drop:
  assumes "accounted bd (holding c @ rs)"
  shows "accounted (drop_chunk bd c) rs"
  using assms mb.accounts_give_back
  by (auto simp: accounted_def drop_chunk_def holding_def split: option.splits)

lemma accounted_reserve:
  assumes "reserve_payload bd p = Some (c, bd')" and "accounted bd rs"
  shows "accounted bd' (holding c @ rs)"
  using assms mb.accounts_reserve
  by (auto simp: accounted_def reserve_payload_def holding_def split: option.splits)

lemma accounted_send:
  assumes "send_in_order u bd c = (ok, v, bd')" and "accounted bd (holding c @ holdings u @ rest)"
  shows "accounted bd' (holdings v @ rest)"
proof -
  consider "payload c = []" | "payload c \<noteq> []" "tx_open u" | "payload c \<noteq> []" "\<not> tx_open u" by blast
  then show ?thesis
  proof cases
    case 2
    with assms(1) have "v = u\<lparr>queue := queue u @ [c]\<rparr>" "bd' = bd" by (auto simp: send_in_order_def)
    then show ?thesis
      using assms(2) by (auto elim!: accounted_mset simp: holdings_def)
  qed (use assms accounted_drop [OF assms(2)] in \<open>auto simp: send_in_order_def\<close>)
qed

lemma mset_concat_AList_delete:
  assumes "distinct (map fst al)" and "map_of al k = Some v"
  shows "mset (f v @ concat (map (f \<circ> snd) (AList.delete k al))) = mset (concat (map (f \<circ> snd) al))"
  using assms
proof (induction al)
  case (Cons x al)
  show ?case
  proof (cases "fst x = k")
    case True
    with Cons.prems have "AList.delete k al = al"
      by (intro delete_id) auto
    with True Cons.prems show ?thesis by (cases x) simp
  next
    case False
    with Cons.prems have "mset (f v @ concat (map (f \<circ> snd) (AList.delete k al))) =
        mset (concat (map (f \<circ> snd) al))"
      by (intro Cons.IH) (cases x, simp_all)
    with False show ?thesis by (cases x) (simp add: ac_simps comp_def)
  qed
qed simp

lemma holdings_take_pending:
  assumes "distinct (map fst (pending u))" and "map_of (pending u) (next_seq u) = Some c"
  shows "mset (holding c @ holdings (take_pending u c)) = mset (holdings u)"
proof -
  note e = mset_concat_AList_delete [OF assms, of holding]
  show ?thesis
    unfolding holdings_def mset_append e [symmetric] by (simp add: take_pending_def)
qed

lemma push_accounted:
  assumes p: "push u bd seq p = (r, u', bd')" and d: "distinct (map fst (pending u))"
    and acc: "accounted bd (holdings u @ rest)"
  shows "accounted bd' (holdings u' @ rest)"
proof -
  let ?I = "\<lambda>v b. distinct (map fst (pending v)) \<and> accounted b (holdings v @ rest)"
  have "?I u' bd'"
  proof (rule push_preserves [OF p, of ?I])
    show "?I (u\<lparr>pending_bytes := n, pending_count := k, pending := (seq, c) # pending u\<rparr>) e"
      if "reserve_payload bd p = Some (c, e)" "map_of (pending u) seq = None" for c e n k
      using accounted_reserve [OF that(1) acc] that(2) d
      by (simp add: holdings_def map_of_eq_None_iff)
    show "?I v b'" if "reserve_payload bd p = Some (c, e)" "send_in_order u e c = (ok, v, b')" for c e ok v b'
      using accounted_send [OF that(2) accounted_reserve [OF that(1) acc]]
        send_in_order_pending [OF that(2)] d by simp
    show "?I v b'" if I: "?I u b" and c: "map_of (pending u) (next_seq u) = Some c"
      and s: "send_in_order (take_pending u c) b c = (ok, v, b')" for u b c ok v b'
    proof -
      have "accounted b (holding c @ holdings (take_pending u c) @ rest)"
        by (rule accounted_mset [OF conjunct2 [OF I]])
          (use holdings_take_pending [OF conjunct1 [OF I] c] in \<open>simp add: ac_simps\<close>)
      from accounted_send [OF s this] show ?thesis
        using I send_in_order_pending [OF s] by (simp add: take_pending_def distinct_delete)
    qed
  qed (use d acc in \<open>auto simp: holdings_def\<close>)
  then show ?thesis by simp
qed

lemma fold_drop_accounted:
  "accounted bd (concat (map (holding \<circ> snd) ps) @ rest) \<Longrightarrow>
     accounted (fold (\<lambda>c b. drop_chunk b (snd c)) ps bd) rest"
  by (induction ps arbitrary: bd) (simp_all add: accounted_drop)

lemma close_accounted:
  "accounted bd (holdings u @ rest) \<Longrightarrow> close f u bd = (u', bd') \<Longrightarrow> accounted bd' (holdings u' @ rest)"
  by (auto simp: close_def holdings_def fold_drop_accounted split: if_splits)

lemma read_current_accounted:
  assumes "read_current u bd c room = (r, u', bd')" and "cur u = Some c"
    and "accounted bd (holdings u @ rest)"
  shows "accounted bd' (holdings u' @ rest)"
proof -
  let ?c = "c\<lparr>payload := drop (min (length (payload c)) room) (payload c)\<rparr>"
  have h: "holding ?c = holding c" by (simp add: holding_def)
  have acc: "accounted bd (holding ?c @ holdings (u\<lparr>cur := None\<rparr>) @ rest)"
    using assms(3) by (rule accounted_mset) (simp add: holdings_def assms(2) holding_def)
  show ?thesis
  proof (cases "payload ?c = []")
    case True
    with assms(1) have "u' = u\<lparr>cur := None\<rparr>" "bd' = drop_chunk bd ?c"
      by (simp_all add: read_current_def Let_def)
    with accounted_drop [OF acc] show ?thesis by simp
  next
    case False
    with assms(1) have "u' = u\<lparr>cur := Some ?c\<rparr>" "bd' = bd"
      by (auto simp: read_current_def Let_def)
    with accounted_mset [OF acc, of "holdings u' @ rest"] show ?thesis by (simp add: holdings_def)
  qed
qed

lemma poll_read_accounted:
  assumes p: "poll_read u bd room = (r, u', bd')" and acc: "accounted bd (holdings u @ rest)"
  shows "accounted bd' (holdings u' @ rest)"
proof -
  have fetch: ?thesis
    if q: "queue u = d # q" and b: "accounted b (holding d @ holdings (u\<lparr>queue := q, cur := None\<rparr>) @ rest)"
      and rc: "read_current (u\<lparr>queue := q, cur := Some d\<rparr>) b d room = (r, u', bd')" for d q b
    by (rule read_current_accounted [OF rc])
      (use accounted_mset [OF b, of "holdings (u\<lparr>queue := q, cur := Some d\<rparr>) @ rest"]
        in \<open>simp_all add: holdings_def\<close>)
  show ?thesis
  proof (cases "cur u")
    case None
    show ?thesis
    proof (cases "queue u")
      case (Cons d q)
      have "accounted bd (holding d @ holdings (u\<lparr>queue := q, cur := None\<rparr>) @ rest)"
        by (rule accounted_mset [OF acc]) (simp add: holdings_def None Cons)
      with p None Cons fetch show ?thesis by (simp add: poll_read_def)
    qed (use p acc None in \<open>auto simp: poll_read_def split: if_splits\<close>)
  next
    case (Some c)
    show ?thesis
    proof (cases "payload c = []")
      case False
      with p Some have "read_current u bd c room = (r, u', bd')" by (simp add: poll_read_def)
      from read_current_accounted [OF this Some acc] show ?thesis .
    next
      case True
      show ?thesis
      proof (cases "queue u")
        case (Cons d q)
        have "accounted bd (holding c @ holding d @ holdings (u\<lparr>queue := q, cur := None\<rparr>) @ rest)"
          by (rule accounted_mset [OF acc]) (simp add: holdings_def Some Cons)
        from accounted_drop [OF this] p Some True Cons fetch show ?thesis
          by (simp add: poll_read_def)
      qed (use p acc Some True in \<open>auto simp: poll_read_def split: if_splits\<close>)
    qed
  qed
qed

lemma exec_op_accounted:
  assumes inv: "trace_inv t" and acc: "accounted (tr_bud t) (holdings (tr_up t) @ rest)"
  shows "accounted (tr_bud (exec_op t op)) (holdings (tr_up (exec_op t op)) @ rest)"
proof (cases op)
  case (Push seq p)
  have "distinct (map fst (pending (tr_up t)))"
    using inv by (simp add: trace_inv_def uplink_inv_def loop_inv_def)
  with Push acc show ?thesis
    using push_accounted [of "tr_up t" "tr_bud t" seq p] by (auto simp: exec_op_def split: prod.splits)
next
  case (Read n)
  with acc show ?thesis
    using poll_read_accounted [of "tr_up t" "tr_bud t" n]
    by (auto simp: exec_op_def split: prod.splits poll.splits)
qed

definition same_limit :: "budget \<Rightarrow> budget option \<Rightarrow> bool" where
  "same_limit b0 bd \<longleftrightarrow> (\<exists>b. bd = Some b \<and> limit b = limit b0)"

lemma same_limit_drop: "same_limit b0 bd \<Longrightarrow> same_limit b0 (drop_chunk bd c)"
  by (auto simp: same_limit_def drop_chunk_def release_def split: option.splits)

lemma same_limit_reserve: "reserve_payload bd p = Some (c, bd') \<Longrightarrow> same_limit b0 bd \<Longrightarrow> same_limit b0 bd'"
  by (auto simp: same_limit_def reserve_payload_def split: option.splits) (metis mb.reserve_ceiling)

lemma same_limit_send: "send_in_order u bd c = (ok, v, bd') \<Longrightarrow> same_limit b0 bd \<Longrightarrow> same_limit b0 bd'"
  by (auto simp: send_in_order_def same_limit_drop split: if_splits)

lemma push_same_limit:
  assumes "push u bd seq p = (r, u', bd')" and "same_limit b0 bd"
  shows "same_limit b0 bd'"
  by (rule push_preserves [OF assms(1), of "\<lambda>_. same_limit b0"])
    (use assms(2) same_limit_reserve same_limit_send in blast)+

lemma poll_read_same_limit:
  "poll_read u bd n = (r, u', bd') \<Longrightarrow> same_limit b0 bd \<Longrightarrow> same_limit b0 bd'"
  by (auto simp: poll_read_def read_current_def Let_def same_limit_drop
      split: option.splits list.splits if_splits)

lemma exec_op_same_limit: "same_limit b0 (tr_bud t) \<Longrightarrow> same_limit b0 (tr_bud (exec_op t op))"
  using push_same_limit [of "tr_up t" "tr_bud t"] poll_read_same_limit [of "tr_up t" "tr_bud t"]
  by (cases op) (auto simp: exec_op_def split: prod.splits poll.splits)

lemma run_ops_budget: "\<exists>b. tr_bud (run_ops n m (Some b0) ops) = Some b \<and> limit b = limit b0"
proof -
  have step: "same_limit b0 (tr_bud (foldl exec_op t ops))" if "same_limit b0 (tr_bud t)" for t
    using that by (induction ops arbitrary: t) (simp_all add: exec_op_same_limit)
  have "same_limit b0 (tr_bud (start_trace n m (Some b0)))"
    by (simp add: start_trace_def same_limit_def)
  from step [OF this] show ?thesis by (simp add: run_ops_def same_limit_def)
qed

text \<open>
  C23. The process-wide budget is conserved: whatever a session does, the budget counts exactly the
  reservations of the chunks that still sit in it (waiting for a gap, in the channel, half read)
  besides those of the other sessions (\<open>rest\<close>); so nothing leaks, and a limited budget is never
  exceeded. In particular dropping the session with \<open>close\<close> and draining it gives everything back.
\<close>

theorem uplink_budget_conserved:
  assumes "n < 2 ^ 64" and "mb.accounts b0 rest" and "run_ops n m (Some b0) ops = t"
  shows "\<exists>b. tr_bud t = Some b \<and> limit b = limit b0 \<and>
           used b = sum_list (holdings (tr_up t)) + sum_list rest \<and>
           (limit b0 \<noteq> 0 \<longrightarrow>
              sum_list (map unat (holdings (tr_up t))) + sum_list (map unat rest) \<le> unat (limit b0))"
proof -
  have step: "trace_inv (foldl exec_op t ops) \<and>
      accounted (tr_bud (foldl exec_op t ops)) (holdings (tr_up (foldl exec_op t ops)) @ rest)"
    if "trace_inv t" "accounted (tr_bud t) (holdings (tr_up t) @ rest)" for t
    using that
  proof (induction ops arbitrary: t)
    case (Cons op ops)
    have "trace_inv (exec_op t op)"
      using Cons.prems(1) by (cases op) (simp_all add: exec_push_inv exec_read_inv)
    from Cons.IH [OF this exec_op_accounted [OF Cons.prems]] show ?case by simp
  qed simp
  have "accounted (tr_bud (start_trace n m (Some b0))) (holdings (tr_up (start_trace n m (Some b0))) @ rest)"
    using assms(2) by (simp add: start_trace_def holdings_def channel_with_budget_def accounted_def)
  from step [OF trace_inv_start [OF assms(1)] this]
  have "accounted (tr_bud t) (holdings (tr_up t) @ rest)"
    using assms(3) by (simp add: run_ops_def)
  moreover have "\<exists>b. tr_bud t = Some b \<and> limit b = limit b0"
    using run_ops_budget [of n m b0 ops] assms(3) by simp
  ultimately show ?thesis
    by (auto simp: accounted_def mb.accounts_def)
qed

theorem uplink_budget_conserved_witness:
  "\<exists>b. tr_bud (run_ops 4 0 (Some (new_budget 100)) [Push 1 [1, 2], Push 0 [3]]) = Some b \<and> used b = 3 \<and>
       limit b = 100"
proof -
  let ?t = "run_ops 4 0 (Some (new_budget 100)) [Push 1 [1, 2], Push 0 [3]]"
  have "mb.accounts (new_budget 100) []" by (simp add: mb.accounts_def new_budget_def)
  moreover have "sum_list (holdings (tr_up ?t)) = 3"
    by (simp add: run_ops_def start_trace_def exec_op_def uplink_exec Let_def new_budget_def
        try_reserve_def sat_add64_def holdings_def holding_def)
  ultimately show ?thesis
    using uplink_budget_conserved [of 4 "new_budget 100" "[]" 0 "[Push 1 [1, 2], Push 0 [3]]" ?t]
    by (auto simp: new_budget_def)
qed

end
