(* ===== verification/Downlink.thy ===== *)
theory Downlink
  imports Prelude
begin

text \<open>
  The downlink of a session, \<^verbatim>\<open>src/session/downlink.rs\<close>: a bounded channel of chunks between the
  protocol writer (\<open>DownlinkSink\<close>) and the GET handler (\<open>DownlinkReader\<close>). The channel is the
  sequence of the chunks in flight, its capacity, and which of its two ends are alive. An operation
  that has to wait returns \<open>Blocked\<close> and changes nothing; its caller tries again later.
\<close>

section \<open>State and operations\<close>

record downlink =
  dl_queue :: "bytes list"
  dl_capacity :: nat
  dl_sink_alive :: bool
  dl_reader_alive :: bool
  session_key :: "(bytes \<times> u64) option"

definition downlink_channel :: "nat \<Rightarrow> downlink" where
  "downlink_channel capacity =
     \<lparr>dl_queue = [], dl_capacity = max capacity 1, dl_sink_alive = True, dl_reader_alive = True,
      session_key = None\<rparr>"

datatype send_outcome = Sent | SendErr | SendBlocked

definition dl_send :: "downlink \<Rightarrow> bytes \<Rightarrow> send_outcome \<times> downlink" where
  "dl_send d b =
     (if b = [] then (Sent, d)
      else if \<not> dl_reader_alive d then (SendErr, d)
      else if dl_capacity d \<le> length (dl_queue d) then (SendBlocked, d)
      else (Sent, d\<lparr>dl_queue := dl_queue d @ [b]\<rparr>))"

definition dl_is_closed :: "downlink \<Rightarrow> bool" where
  "dl_is_closed d \<longleftrightarrow> \<not> dl_reader_alive d"

definition set_session_key :: "downlink \<Rightarrow> bytes \<Rightarrow> u64 \<Rightarrow> downlink" where
  "set_session_key d i h = d\<lparr>session_key := Some (i, h)\<rparr>"

definition take_session_key :: "downlink \<Rightarrow> (bytes \<times> u64) option \<times> downlink" where
  "take_session_key d = (session_key d, d\<lparr>session_key := None\<rparr>)"

datatype recv_outcome = Received bytes | Finished | RecvBlocked

definition dl_recv :: "downlink \<Rightarrow> recv_outcome \<times> downlink" where
  "dl_recv d =
     (case dl_queue d of
        b # q \<Rightarrow> (Received b, d\<lparr>dl_queue := q\<rparr>)
      | [] \<Rightarrow> if dl_sink_alive d then (RecvBlocked, d) else (Finished, d))"

section \<open>The stream through a downlink\<close>

datatype dl_op = Send bytes | Recv | DropSink | DropReader

text \<open>A run records the payloads whose send returned \<open>Ok\<close> and the chunks received, in order.\<close>

record dl_trace =
  dl :: downlink
  dl_sent :: bytes
  dl_received :: bytes

definition dl_exec :: "dl_trace \<Rightarrow> dl_op \<Rightarrow> dl_trace" where
  "dl_exec t op =
     (case op of
        Send b \<Rightarrow>
          (if \<not> dl_sink_alive (dl t) then t
           else case dl_send (dl t) b of
                  (Sent, d) \<Rightarrow> t\<lparr>dl := d, dl_sent := dl_sent t @ b\<rparr>
                | (_, d) \<Rightarrow> t\<lparr>dl := d\<rparr>)
      | Recv \<Rightarrow>
          (if \<not> dl_reader_alive (dl t) then t
           else case dl_recv (dl t) of
                  (Received b, d) \<Rightarrow> t\<lparr>dl := d, dl_received := dl_received t @ b\<rparr>
                | (_, d) \<Rightarrow> t\<lparr>dl := d\<rparr>)
      | DropSink \<Rightarrow> t\<lparr>dl := (dl t)\<lparr>dl_sink_alive := False\<rparr>\<rparr>
      | DropReader \<Rightarrow> t\<lparr>dl := (dl t)\<lparr>dl_reader_alive := False\<rparr>\<rparr>)"

definition dl_run :: "nat \<Rightarrow> dl_op list \<Rightarrow> dl_trace" where
  "dl_run n ops = foldl dl_exec \<lparr>dl = downlink_channel n, dl_sent = [], dl_received = []\<rparr> ops"

definition dl_inv :: "nat \<Rightarrow> dl_trace \<Rightarrow> bool" where
  "dl_inv n t \<longleftrightarrow>
     dl_sent t = dl_received t @ concat (dl_queue (dl t)) \<and>
     length (dl_queue (dl t)) \<le> max n 1 \<and> dl_capacity (dl t) = max n 1 \<and>
     [] \<notin> set (dl_queue (dl t))"

lemma dl_exec_inv: "dl_inv n t \<Longrightarrow> dl_inv n (dl_exec t op)"
  by (auto simp: dl_inv_def dl_exec_def dl_send_def dl_recv_def split: dl_op.splits list.splits)

lemma dl_run_inv: "dl_inv n (dl_run n ops)"
proof -
  have step: "dl_inv n (foldl dl_exec t ops)" if "dl_inv n t" for t
    using that by (induction ops arbitrary: t) (simp_all add: dl_exec_inv)
  show ?thesis
    unfolding dl_run_def by (rule step) (simp add: dl_inv_def downlink_channel_def)
qed

text \<open>
  The downlink carries a faithful, bounded byte stream: in every run of sends, receives and
  disconnects, what the GET handler got is a prefix of what the writer was told is sent, the rest is
  in the channel, which never holds more chunks than its capacity (at least one); and the handler is
  told that the stream is finished only when the writer is gone and everything has been received.
\<close>

lemma downlink_stream:
  "dl_sent (dl_run n ops) = dl_received (dl_run n ops) @ concat (dl_queue (dl (dl_run n ops))) \<and>
   length (dl_queue (dl (dl_run n ops))) \<le> max n 1 \<and>
   (fst (dl_recv (dl (dl_run n ops))) = Finished \<longrightarrow>
      \<not> dl_sink_alive (dl (dl_run n ops)) \<and> dl_received (dl_run n ops) = dl_sent (dl_run n ops))"
  using dl_run_inv [of n ops]
  by (auto simp: dl_inv_def dl_recv_def split: list.splits if_splits)

end
