(* ===== verification/Session.thy ===== *)
theory Session
  imports Reorder Downlink
begin

text \<open>
  The session table, \<^verbatim>\<open>src/session/mod.rs\<close>. \<open>session_table\<close> is \<open>SessionTable\<close>: the sharded maps from
  session ids to sessions, the active counter, the gauge and counter of the metrics it moves, and
  the shared buffer budget. Sessions are shared objects (\<open>Arc\<close>), so they live in a store under an
  address, and \<open>Arc::ptr_eq\<close> compares addresses. A grace reaper task is a member of \<open>reapers\<close>; it may
  fire at any time, since nothing here depends on the clock. The calls of the first part run one
  after the other; the last section interleaves the lookups and inserts of different shards.
\<close>

section \<open>State\<close>

record session =
  s_id :: bytes
  s_id_hash :: u64
  s_uplink :: uplink
  s_downlink :: downlink
  downlink_reader :: bool
  fully_connected :: bool
  grace_reaper :: bool

record session_config =
  cfg_shards :: nat
  max_sessions :: nat
  max_pending_packets :: nat
  max_pending_bytes :: nat
  downlink_capacity :: nat
  grace :: u64

definition default_session_config :: session_config where
  "default_session_config =
     \<lparr>cfg_shards = 64, max_sessions = 65536, max_pending_packets = 30,
      max_pending_bytes = 16 * 1024 * 1024, downlink_capacity = 32, grace = 30\<rparr>"

record session_table =
  shards :: "(bytes \<times> nat) list list"
  store :: "nat \<Rightarrow> session option"
  fresh :: nat
  cfg :: session_config
  active :: nat
  active_gauge :: int
  session_timeouts :: u64
  pending_packets_gauge :: nat
  buffer_budget :: "budget option"
  reapers :: "nat list"
  handled :: "nat list"

section \<open>Operations\<close>

definition fnv1a :: "bytes \<Rightarrow> u64" where
  "fnv1a bs = fold (\<lambda>b h. (h XOR ucast b) * 0x100000001b3) bs 0xcbf29ce484222325"

definition new_table :: "session_config \<Rightarrow> budget option \<Rightarrow> session_table" where
  "new_table c bd =
     \<lparr>shards = replicate (max (cfg_shards c) 1) [], store = Map.empty, fresh = 0, cfg = c,
      active = 0, active_gauge = 0, session_timeouts = 0, pending_packets_gauge = 0,
      buffer_budget = bd, reapers = [], handled = []\<rparr>"

text \<open>The shard of a hash, and \<open>get\<close>, \<open>insert\<close> and \<open>remove\<close> on the map in it.\<close>

definition shard_index :: "(bytes \<times> nat) list list \<Rightarrow> u64 \<Rightarrow> nat" where
  "shard_index sh h = unat h mod length sh"

definition shard_get :: "(bytes \<times> nat) list list \<Rightarrow> u64 \<Rightarrow> bytes \<Rightarrow> nat option" where
  "shard_get sh h i = map_of (sh ! shard_index sh h) i"

definition shard_insert ::
  "(bytes \<times> nat) list list \<Rightarrow> u64 \<Rightarrow> bytes \<Rightarrow> nat \<Rightarrow> (bytes \<times> nat) list list" where
  "shard_insert sh h i a =
     sh[shard_index sh h := AList.update i a (sh ! shard_index sh h)]"

definition shard_remove ::
  "(bytes \<times> nat) list list \<Rightarrow> u64 \<Rightarrow> bytes \<Rightarrow> (bytes \<times> nat) list list" where
  "shard_remove sh h i = sh[shard_index sh h := AList.delete i (sh ! shard_index sh h)]"

definition set_session :: "session_table \<Rightarrow> nat \<Rightarrow> session \<Rightarrow> session_table" where
  "set_session t a s = t\<lparr>store := (store t)(a \<mapsto> s)\<rparr>"

text \<open>Aborting the reaper of a session: its handle is taken and the task will not run.\<close>

definition abort_reaper :: "session_table \<Rightarrow> nat \<Rightarrow> session_table" where
  "abort_reaper t a =
     (case store t a of
        Some s \<Rightarrow> if grace_reaper s
                  then (set_session t a (s\<lparr>grace_reaper := False\<rparr>))\<lparr>reapers := removeAll a (reapers t)\<rparr>
                  else t
      | None \<Rightarrow> t)"

definition insert_session :: "session_table \<Rightarrow> bytes \<Rightarrow> bool \<Rightarrow> nat \<times> session_table" where
  "insert_session t i fc =
     (let h = fnv1a i; a = fresh t; c = cfg t;
          s = \<lparr>s_id = i, s_id_hash = h,
               s_uplink = channel_with_budget (max_pending_packets c) (max_pending_bytes c),
               s_downlink = downlink_channel (downlink_capacity c), downlink_reader = True,
               fully_connected = fc, grace_reaper = False\<rparr>
      in (a, t\<lparr>store := (store t)(a \<mapsto> s), fresh := a + 1,
              shards := shard_insert (shards t) h i a,
              active := usize_wrapping_add (active t) 1, active_gauge := active_gauge t + 1,
              handled := a # handled t\<rparr>))"

definition arm_reaper :: "session_table \<Rightarrow> nat \<Rightarrow> bytes \<Rightarrow> session_table" where
  "arm_reaper t a i =
     (case store t a of
        None \<Rightarrow> t
      | Some s \<Rightarrow>
          let t' = (set_session t a (s\<lparr>grace_reaper := True\<rparr>))\<lparr>reapers := a # reapers t\<rparr>
          in if fully_connected s \<or> shard_get (shards t') (s_id_hash s) i \<noteq> Some a
             then abort_reaper t' a else t')"

definition upsert :: "session_table \<Rightarrow> bytes \<Rightarrow> bool \<Rightarrow> nat option \<times> session_table" where
  "upsert t i fc =
     (case shard_get (shards t) (fnv1a i) i of
        Some a \<Rightarrow> (Some a, t)
      | None \<Rightarrow>
          if max_sessions (cfg t) \<le> active t then (None, t)
          else (case insert_session t i fc of
                  (a, t') \<Rightarrow> (Some a, if fc then t' else arm_reaper t' a i)))"

definition push_uplink ::
  "session_table \<Rightarrow> bytes \<Rightarrow> u64 \<Rightarrow> bytes \<Rightarrow> push_result option \<times> session_table" where
  "push_uplink t i seq p =
     (case upsert t i False of
        (None, t') \<Rightarrow> (None, t')
      | (Some a, t') \<Rightarrow>
          (case store t' a of
             None \<Rightarrow> (None, t')
           | Some s \<Rightarrow>
               (case push (s_uplink s) (buffer_budget t') seq p of
                  (r, u, bd) \<Rightarrow>
                    (Some r,
                     (set_session t' a (s\<lparr>s_uplink := u\<rparr>))
                       \<lparr>buffer_budget := bd, pending_packets_gauge := pending_count u\<rparr>))))"

datatype open_download_result = Opened "(bytes \<times> u64) option" | Conflict | Capacity

definition open_download :: "session_table \<Rightarrow> bytes \<Rightarrow> open_download_result \<times> session_table" where
  "open_download t i =
     (case upsert t i True of
        (None, t') \<Rightarrow> (Capacity, t')
      | (Some a, t') \<Rightarrow>
          (case store t' a of
             None \<Rightarrow> (Conflict, t')
           | Some s \<Rightarrow>
               let t1 = abort_reaper (set_session t' a (s\<lparr>fully_connected := True\<rparr>)) a
               in (case store t1 a of
                     None \<Rightarrow> (Conflict, t1)
                   | Some s1 \<Rightarrow>
                       if downlink_reader s1
                       then let d = set_session_key (s_downlink s1) (s_id s1) (s_id_hash s1)
                            in (Opened (session_key d),
                                set_session t1 a (s1\<lparr>downlink_reader := False, s_downlink := d\<rparr>))
                       else (Conflict, t1))))"

definition remove_inner ::
  "session_table \<Rightarrow> bytes \<Rightarrow> u64 \<Rightarrow> nat option \<Rightarrow> bool \<Rightarrow> bool \<Rightarrow> session_table" where
  "remove_inner t i h expected cancel_reaper lock_free =
     (case shard_get (shards t) h i of
        None \<Rightarrow> t
      | Some a \<Rightarrow>
          if expected \<noteq> None \<and> expected \<noteq> Some a then t
          else
            let t1 = t\<lparr>shards := shard_remove (shards t) h i\<rparr>;
                t2 = (if cancel_reaper then abort_reaper t1 a else t1);
                t3 = (case store t2 a of
                        None \<Rightarrow> t2
                      | Some s \<Rightarrow>
                          (case close lock_free (s_uplink s) (buffer_budget t2) of
                             (u, bd) \<Rightarrow> (set_session t2 a (s\<lparr>s_uplink := u\<rparr>))\<lparr>buffer_budget := bd\<rparr>))
            in t3\<lparr>active := usize_wrapping_sub (active t3) 1, active_gauge := active_gauge t3 - 1\<rparr>)"

text \<open>\<open>lock_free\<close> says whether the \<open>try_lock\<close> of \<open>UplinkSink::close\<close> gets the state lock.\<close>

definition remove :: "session_table \<Rightarrow> bytes \<Rightarrow> bool \<Rightarrow> session_table" where
  "remove t i lock_free = remove_inner t i (fnv1a i) None True lock_free"

definition remove_hashed :: "session_table \<Rightarrow> bytes \<Rightarrow> u64 \<Rightarrow> bool \<Rightarrow> session_table" where
  "remove_hashed t i h lock_free = remove_inner t i h None True lock_free"

definition active_sessions :: "session_table \<Rightarrow> nat" where
  "active_sessions t = active t"

text \<open>The body of the grace task of the session at \<open>a\<close> once its sleep is over; \<open>alive\<close> is the
  outcome of \<open>Weak::upgrade\<close>.\<close>

definition reap :: "session_table \<Rightarrow> nat \<Rightarrow> bool \<Rightarrow> bool \<Rightarrow> session_table" where
  "reap t a alive lock_free =
     (let t0 = t\<lparr>reapers := removeAll a (reapers t)\<rparr>
      in case store t0 a of
           None \<Rightarrow> t0
         | Some s \<Rightarrow>
             if alive \<and> \<not> fully_connected s
             then remove_inner (t0\<lparr>session_timeouts := session_timeouts t0 + 1\<rparr>)
                    (s_id s) (s_id_hash s) (Some a) False lock_free
             else t0)"

section \<open>The contract of the sharded maps\<close>

text \<open>
  What the table relies on: the shards together behave as one map from ids to sessions, whose number
  of entries the active counter can follow by counting inserts of new ids and successful removals.
\<close>

locale keyed_table =
  fixes get :: "'t \<Rightarrow> 'k \<Rightarrow> 'v option"
    and put :: "'t \<Rightarrow> 'k \<Rightarrow> 'v \<Rightarrow> 't"
    and del :: "'t \<Rightarrow> 'k \<Rightarrow> 't"
    and entries :: "'t \<Rightarrow> nat"
    and wf :: "'t \<Rightarrow> bool"
  assumes get_put: "wf t \<Longrightarrow> get (put t k v) k' = (if k' = k then Some v else get t k')"
    and get_del: "wf t \<Longrightarrow> get (del t k) k' = (if k' = k then None else get t k')"
    and entries_put: "wf t \<Longrightarrow> get t k = None \<Longrightarrow> entries (put t k v) = Suc (entries t)"
    and entries_del: "wf t \<Longrightarrow> get t k = Some v \<Longrightarrow> Suc (entries (del t k)) = entries t"
    and wf_put: "wf t \<Longrightarrow> wf (put t k v)"
    and wf_del: "wf t \<Longrightarrow> wf (del t k)"
begin

definition counted :: "'t \<Rightarrow> nat \<Rightarrow> bool" where
  "counted t n \<longleftrightarrow> wf t \<and> entries t = n"

definition all_entries :: "('k \<Rightarrow> 'v \<Rightarrow> bool) \<Rightarrow> 't \<Rightarrow> bool" where
  "all_entries P t \<longleftrightarrow> (\<forall>k v. get t k = Some v \<longrightarrow> P k v)"

lemma counted_put: "counted t n \<Longrightarrow> get t k = None \<Longrightarrow> counted (put t k v) (Suc n)"
  by (simp add: counted_def wf_put entries_put)

lemma counted_del: "counted t n \<Longrightarrow> get t k = Some v \<Longrightarrow> 0 < n \<and> counted (del t k) (n - 1)"
  using entries_del by (fastforce simp: counted_def wf_del)

lemma all_entries_put: "wf t \<Longrightarrow> all_entries P t \<Longrightarrow> P k v \<Longrightarrow> all_entries P (put t k v)"
  by (simp add: all_entries_def get_put)

lemma all_entries_del: "wf t \<Longrightarrow> all_entries P t \<Longrightarrow> all_entries P (del t k)"
  by (simp add: all_entries_def get_del)

lemma all_entries_mono:
  "all_entries P t \<Longrightarrow> (\<And>k v. get t k = Some v \<Longrightarrow> P k v \<Longrightarrow> Q k v) \<Longrightarrow> all_entries Q t"
  by (simp add: all_entries_def)

end

definition shards_wf :: "(bytes \<times> nat) list list \<Rightarrow> bool" where
  "shards_wf sh \<longleftrightarrow> sh \<noteq> [] \<and> (\<forall>m \<in> set sh. distinct (map fst m))"

definition shards_size :: "(bytes \<times> nat) list list \<Rightarrow> nat" where
  "shards_size sh = sum_list (map length sh)"

lemma shard_index_less: "sh \<noteq> [] \<Longrightarrow> shard_index sh h < length sh"
  by (simp add: shard_index_def)

lemma shard_index_update [simp]: "shard_index (sh[j := m]) h = shard_index sh h"
  by (simp add: shard_index_def)

lemma sum_list_length_update:
  "j < length sh \<Longrightarrow> sum_list (map length (sh[j := m])) + length (sh ! j) =
     sum_list (map length sh) + length m"
  by (induction sh arbitrary: j) (auto split: nat.splits)

lemma length_AList_update_new: "map_of al k = None \<Longrightarrow> length (AList.update k v al) = Suc (length al)"
  by (induction al) (auto split: if_splits)

lemma shards_wf_update: "shards_wf sh \<Longrightarrow> distinct (map fst m) \<Longrightarrow> shards_wf (sh[j := m])"
  using set_update_subset_insert [of sh j m] by (auto simp: shards_wf_def)

interpretation sm: keyed_table
  "\<lambda>sh i. shard_get sh (fnv1a i) i" "\<lambda>sh i a. shard_insert sh (fnv1a i) i a"
  "\<lambda>sh i. shard_remove sh (fnv1a i) i" shards_size shards_wf
proof unfold_locales
  fix sh k k' and v :: nat
  assume wf: "shards_wf sh"
  then have ne: "sh \<noteq> []" by (simp add: shards_wf_def)
  have j: "shard_index sh h < length sh" for h by (rule shard_index_less [OF ne])
  have d: "distinct (map fst (sh ! shard_index sh h))" for h
    using wf nth_mem [OF j] by (simp add: shards_wf_def)
  show "shard_get (shard_insert sh (fnv1a k) k v) (fnv1a k') k' =
      (if k' = k then Some v else shard_get sh (fnv1a k') k')"
    using j by (simp add: shard_get_def shard_insert_def nth_list_update update_conv')
  show "shard_get (shard_remove sh (fnv1a k) k) (fnv1a k') k' =
      (if k' = k then None else shard_get sh (fnv1a k') k')"
    using j by (simp add: shard_get_def shard_remove_def nth_list_update map_of_AList_delete)
  show "shards_wf (shard_insert sh (fnv1a k) k v)"
    unfolding shard_insert_def by (rule shards_wf_update [OF wf]) (rule distinct_update [OF d])
  show "shards_wf (shard_remove sh (fnv1a k) k)"
    unfolding shard_remove_def by (rule shards_wf_update [OF wf]) (rule distinct_AList_delete [OF d])
  show "shards_size (shard_insert sh (fnv1a k) k v) = Suc (shards_size sh)"
    if "shard_get sh (fnv1a k) k = None"
    using that sum_list_length_update [OF j, of "fnv1a k" "AList.update k v (sh ! shard_index sh (fnv1a k))"]
    by (simp add: shards_size_def shard_insert_def shard_get_def length_AList_update_new)
  show "Suc (shards_size (shard_remove sh (fnv1a k) k)) = shards_size sh"
    if "shard_get sh (fnv1a k) k = Some v"
    using that sum_list_length_update [OF j, of "fnv1a k" "AList.delete k (sh ! shard_index sh (fnv1a k))"]
      length_AList_delete [OF d, of "fnv1a k" k v]
    by (simp add: shards_size_def shard_remove_def shard_get_def)
qed

abbreviation session_at :: "session_table \<Rightarrow> bytes \<Rightarrow> nat option" where
  "session_at t i \<equiv> shard_get (shards t) (fnv1a i) i"

section \<open>The invariant of the table\<close>

text \<open>An entry leads to a session of that id, which is connected or has its grace reaper armed.\<close>

definition entry_ok :: "(nat \<Rightarrow> session option) \<Rightarrow> nat list \<Rightarrow> bytes \<Rightarrow> nat \<Rightarrow> bool" where
  "entry_ok st rs i a \<longleftrightarrow>
     (\<exists>s. st a = Some s \<and> s_id s = i \<and> (fully_connected s \<or> grace_reaper s \<and> a \<in> set rs))"

definition store_ok :: "(nat \<Rightarrow> session option) \<Rightarrow> nat \<Rightarrow> nat list \<Rightarrow> bool" where
  "store_ok st fr rs \<longleftrightarrow>
     (\<forall>a s. st a = Some s \<longrightarrow> a < fr \<and> s_id_hash s = fnv1a (s_id s) \<and> uplink_inv (s_uplink s)) \<and>
     (\<forall>a \<in> set rs. \<exists>s. st a = Some s \<and> grace_reaper s \<and> \<not> fully_connected s)"

definition table_inv :: "session_table \<Rightarrow> bool" where
  "table_inv t \<longleftrightarrow>
     sm.counted (shards t) (active t) \<and> active t \<le> max_sessions (cfg t) \<and>
     active_gauge t = int (active t) \<and>
     max_sessions (cfg t) < 2 ^ 64 \<and> max_pending_packets (cfg t) < 2 ^ 64 \<and>
     sm.all_entries (entry_ok (store t) (reapers t)) (shards t) \<and>
     store_ok (store t) (fresh t) (reapers t)"

lemma table_inv_new:
  assumes "max_sessions c < 2 ^ 64" and "max_pending_packets c < 2 ^ 64"
  shows "table_inv (new_table c bd)"
proof -
  have "shards_wf (replicate (max (cfg_shards c) 1) [])" "shards_size (replicate (max (cfg_shards c) 1) []) = 0"
    by (simp_all add: shards_wf_def shards_size_def sum_list_replicate)
  moreover have "shard_get (replicate (max (cfg_shards c) 1) []) h i = None" for h i
    by (simp add: shard_get_def shard_index_def)
  ultimately show ?thesis
    using assms by (simp add: table_inv_def new_table_def sm.counted_def sm.all_entries_def store_ok_def)
qed

text \<open>Changing one stored session, and aborting a reaper.\<close>

lemma entry_ok_set:
  assumes "entry_ok st rs i b" and "st a = Some s" and "s_id s' = s_id s"
    and "fully_connected s \<longrightarrow> fully_connected s'" and "grace_reaper s \<longrightarrow> fully_connected s' \<or> grace_reaper s'"
  shows "entry_ok (st(a \<mapsto> s')) rs i b"
  using assms by (auto simp: entry_ok_def)

lemma abort_reaper_frame [simp]:
  "shards (abort_reaper t a) = shards t" "fresh (abort_reaper t a) = fresh t"
  "cfg (abort_reaper t a) = cfg t" "active (abort_reaper t a) = active t"
  "active_gauge (abort_reaper t a) = active_gauge t" "buffer_budget (abort_reaper t a) = buffer_budget t"
  by (simp_all add: abort_reaper_def set_session_def split: option.splits)

lemma abort_reaper_store:
  "store t a = Some s \<Longrightarrow> store (abort_reaper t a) = (store t)(a \<mapsto> s\<lparr>grace_reaper := False\<rparr>)"
  by (cases s) (auto simp: abort_reaper_def set_session_def)

lemma abort_reaper_reapers:
  "store t a = Some s \<Longrightarrow> a \<in> set (reapers t) \<longrightarrow> grace_reaper s \<Longrightarrow>
     set (reapers (abort_reaper t a)) = set (reapers t) - {a}"
  by (auto simp: abort_reaper_def set_session_def)

definition new_session :: "session_config \<Rightarrow> bytes \<Rightarrow> bool \<Rightarrow> session" where
  "new_session c i fc =
     \<lparr>s_id = i, s_id_hash = fnv1a i,
      s_uplink = channel_with_budget (max_pending_packets c) (max_pending_bytes c),
      s_downlink = downlink_channel (downlink_capacity c), downlink_reader = True,
      fully_connected = fc, grace_reaper = (\<not> fc)\<rparr>"

lemma upsert_new:
  assumes "shards_wf (shards t)" and "session_at t i = None" and "active t < max_sessions (cfg t)"
  shows "upsert t i fc =
    (Some (fresh t),
     t\<lparr>store := (store t)(fresh t \<mapsto> new_session (cfg t) i fc), fresh := fresh t + 1,
       shards := shard_insert (shards t) (fnv1a i) i (fresh t),
       active := usize_wrapping_add (active t) 1, active_gauge := active_gauge t + 1,
       reapers := (if fc then reapers t else fresh t # reapers t), handled := fresh t # handled t\<rparr>)"
proof -
  have "shard_get (shard_insert (shards t) (fnv1a i) i (fresh t)) (fnv1a i) i = Some (fresh t)"
    using sm.get_put [OF assms(1), of i "fresh t" i] by simp
  with assms(2,3) show ?thesis
    by (simp add: upsert_def insert_session_def Let_def new_session_def arm_reaper_def set_session_def)
qed

lemma table_inv_wf: "table_inv t \<Longrightarrow> shards_wf (shards t)"
  by (simp add: table_inv_def sm.counted_def)

lemma usize_Suc: "n < m \<Longrightarrow> m < 2 ^ 64 \<Longrightarrow> usize_wrapping_add n 1 = Suc n"
  by (simp add: usize_wrapping_add_def)

lemma upsert_new_inv:
  assumes inv: "table_inv t" and none: "session_at t i = None" and lt: "active t < max_sessions (cfg t)"
  shows "table_inv (snd (upsert t i fc))"
proof -
  let ?s = "new_session (cfg t) i fc" and ?a = "fresh t"
  let ?rs = "if fc then reapers t else ?a # reapers t"
  have c: "sm.counted (shards t) (active t)" and E: "sm.all_entries (entry_ok (store t) (reapers t)) (shards t)"
    and S: "store_ok (store t) (fresh t) (reapers t)"
    and l: "max_sessions (cfg t) < 2 ^ 64" "max_pending_packets (cfg t) < 2 ^ 64" "active_gauge t = int (active t)"
    using inv by (simp_all add: table_inv_def)
  have fr: "store t b = Some s \<Longrightarrow> b < ?a" for b s using S by (simp add: store_ok_def)
  have "entry_ok ((store t)(?a \<mapsto> ?s)) ?rs j b" if "entry_ok (store t) (reapers t) j b" for j b
    using that fr [of b] by (auto simp: entry_ok_def)
  then have "sm.all_entries (entry_ok ((store t)(?a \<mapsto> ?s)) ?rs) (shards t)"
    using sm.all_entries_mono [OF E] by blast
  moreover have "entry_ok ((store t)(?a \<mapsto> ?s)) ?rs i ?a"
    by (simp add: entry_ok_def new_session_def)
  ultimately have "sm.all_entries (entry_ok ((store t)(?a \<mapsto> ?s)) ?rs) (shard_insert (shards t) (fnv1a i) i ?a)"
    using sm.all_entries_put [OF table_inv_wf [OF inv]] by blast
  moreover have "store_ok ((store t)(?a \<mapsto> ?s)) (Suc ?a) ?rs"
  proof -
    have "?a \<notin> set (reapers t)" using S fr [of ?a] less_irrefl unfolding store_ok_def by blast
    with S uplink_inv_channel [OF l(2)] show ?thesis
      by (auto simp: store_ok_def new_session_def less_SucI)
  qed
  moreover have "sm.counted (shard_insert (shards t) (fnv1a i) i ?a) (Suc (active t))"
    by (rule sm.counted_put [OF c none])
  ultimately show ?thesis
    using l lt usize_Suc [OF lt l(1)]
    by (simp add: upsert_new [OF table_inv_wf [OF inv] none lt] table_inv_def)
qed

lemma upsert_cases:
  assumes inv: "table_inv t"
  obtains (full) "upsert t i fc = (None, t)" "session_at t i = None" "max_sessions (cfg t) \<le> active t"
  | (found) a s where "upsert t i fc = (Some a, t)" "session_at t i = Some a" "store t a = Some s" "s_id s = i"
  | (new) t' where "upsert t i fc = (Some (fresh t), t')" "table_inv t'" "session_at t i = None"
      "active t < max_sessions (cfg t)"
      "session_at t' i = Some (fresh t)" "store t' (fresh t) = Some (new_session (cfg t) i fc)"
      "\<And>b. b \<noteq> fresh t \<Longrightarrow> store t' b = store t b"
      "\<And>j. j \<noteq> i \<Longrightarrow> session_at t' j = session_at t j"
      "set (reapers t) \<subseteq> set (reapers t')"
proof (cases "session_at t i")
  case (Some a)
  with inv obtain s where "store t a = Some s" "s_id s = i"
    by (auto simp: table_inv_def sm.all_entries_def entry_ok_def)
  with Some found show ?thesis by (simp add: upsert_def)
next
  case None
  show ?thesis
  proof (cases "active t < max_sessions (cfg t)")
    case True
    note e = upsert_new [OF table_inv_wf [OF inv] None True]
    show ?thesis
      by (rule new [OF e]) (use upsert_new_inv [OF inv None True] None True
          sm.get_put [OF table_inv_wf [OF inv]] in \<open>auto simp: e\<close>)
  next
    case False
    with None full show ?thesis by (simp add: upsert_def)
  qed
qed

text \<open>Replacing a stored session by one of the same id that is at least as connected.\<close>

lemma table_inv_set:
  assumes inv: "table_inv t" and a: "store t a = Some s"
    and s': "s_id s' = s_id s" "s_id_hash s' = s_id_hash s" "uplink_inv (s_uplink s')"
    "fully_connected s' = fully_connected s" "grace_reaper s' = grace_reaper s"
  shows "table_inv ((set_session t a s')\<lparr>buffer_budget := bd, pending_packets_gauge := g\<rparr>)"
    "table_inv (set_session t a s')"
proof -
  have "sm.all_entries (entry_ok ((store t)(a \<mapsto> s')) (reapers t)) (shards t)"
    by (rule sm.all_entries_mono [of "entry_ok (store t) (reapers t)"])
      (use inv a s' entry_ok_set in \<open>auto simp: table_inv_def\<close>)
  moreover have "store_ok ((store t)(a \<mapsto> s')) (fresh t) (reapers t)"
    using inv a s' by (auto simp: table_inv_def store_ok_def)
  ultimately show "table_inv ((set_session t a s')\<lparr>buffer_budget := bd, pending_packets_gauge := g\<rparr>)"
    "table_inv (set_session t a s')"
    using inv by (simp_all add: table_inv_def set_session_def)
qed

lemma table_inv_uplink: "table_inv t \<Longrightarrow> store t a = Some s \<Longrightarrow> uplink_inv (s_uplink s)"
  by (simp add: table_inv_def store_ok_def)

lemma push_uplink_inv:
  assumes inv: "table_inv t" and p: "push_uplink t i seq p = (r, t')"
  shows "table_inv t'"
proof -
  have step: "table_inv t'"
    if up: "upsert t i False = (Some a, t1)" and "table_inv t1" and a: "store t1 a = Some s" for a t1 s
  proof -
    obtain r' u bd where pu: "push (s_uplink s) (buffer_budget t1) seq p = (r', u, bd)"
      by (metis prod_cases3)
    have "uplink_inv u" by (rule push_inv [OF pu table_inv_uplink [OF that(2,3)]])
    then show ?thesis
      using p up a pu table_inv_set(1) [OF that(2) a, of "s\<lparr>s_uplink := u\<rparr>"]
      by (auto simp: push_uplink_def)
  qed
  from inv show ?thesis
  proof (cases rule: upsert_cases [where i = i and fc = False])
    case full
    with p inv show ?thesis by (simp add: push_uplink_def)
  next
    case (found a s)
    from step [OF found(1) inv found(3)] show ?thesis .
  next
    case (new t1)
    from step [OF new(1,2,6)] show ?thesis .
  qed
qed

lemma abort_connected_inv:
  assumes inv: "table_inv t" and a: "store t a = Some s"
  shows "table_inv (abort_reaper (set_session t a (s\<lparr>fully_connected := True\<rparr>)) a)"
proof -
  let ?s = "s\<lparr>fully_connected := True\<rparr>" and ?t = "set_session t a (s\<lparr>fully_connected := True\<rparr>)"
  have g: "a \<in> set (reapers t) \<longrightarrow> grace_reaper s"
    using inv a by (auto simp: table_inv_def store_ok_def)
  have st: "store (abort_reaper ?t a) = (store t)(a \<mapsto> ?s\<lparr>grace_reaper := False\<rparr>)"
    using abort_reaper_store [of ?t a ?s] by (simp add: set_session_def)
  have rs: "set (reapers (abort_reaper ?t a)) = set (reapers t) - {a}"
    using abort_reaper_reapers [of ?t a ?s] g by (simp add: set_session_def)
  have "sm.all_entries (entry_ok (store (abort_reaper ?t a)) (reapers (abort_reaper ?t a))) (shards t)"
    by (rule sm.all_entries_mono [of "entry_ok (store t) (reapers t)"])
      (use inv a in \<open>auto simp: table_inv_def st entry_ok_def rs\<close>)
  moreover have "store_ok (store (abort_reaper ?t a)) (fresh t) (reapers (abort_reaper ?t a))"
    using inv a by (auto simp: table_inv_def store_ok_def st rs)
  ultimately show ?thesis
    using inv by (simp add: table_inv_def set_session_def)
qed

lemma open_download_inv:
  assumes inv: "table_inv t" and p: "open_download t i = (r, t')"
  shows "table_inv t'"
proof -
  have step: "table_inv t'"
    if up: "upsert t i True = (Some a, t1)" and "table_inv t1" and a: "store t1 a = Some s" for a t1 s
  proof -
    let ?t = "abort_reaper (set_session t1 a (s\<lparr>fully_connected := True\<rparr>)) a"
    let ?s = "s\<lparr>fully_connected := True, grace_reaper := False\<rparr>"
    have t: "table_inv ?t" by (rule abort_connected_inv [OF that(2,3)])
    have st: "store ?t a = Some ?s"
      using abort_reaper_store [of "set_session t1 a (s\<lparr>fully_connected := True\<rparr>)" a]
      by (simp add: set_session_def)
    show ?thesis
      using p up a st t table_inv_set(2) [OF t st, of "?s\<lparr>downlink_reader := False,
          s_downlink := set_session_key (s_downlink ?s) (s_id ?s) (s_id_hash ?s)\<rparr>"]
        table_inv_uplink [OF t st]
      by (auto simp: open_download_def Let_def split: if_splits)
  qed
  from inv show ?thesis
  proof (cases rule: upsert_cases [where i = i and fc = True])
    case full
    with p inv show ?thesis by (simp add: open_download_def)
  next
    case (found a s)
    from step [OF found(1) inv found(3)] show ?thesis .
  next
    case (new t1)
    from step [OF new(1,2,6)] show ?thesis .
  qed
qed

text \<open>What a removal does: the entry goes, its uplink is closed, the counters go down by one.\<close>

lemma remove_inner_found:
  assumes a: "session_at t i = Some a" and st: "store t a = Some s"
    and ex: "expected = None \<or> expected = Some a"
    and cl: "close lf (s_uplink s) (buffer_budget t) = (u, bd)"
    and g: "a \<in> set (reapers t) \<longrightarrow> grace_reaper s"
  obtains t' g' rs where "remove_inner t i (fnv1a i) expected cr lf = t'"
    "t' = t\<lparr>shards := shard_remove (shards t) (fnv1a i) i,
            store := (store t)(a \<mapsto> s\<lparr>grace_reaper := g', s_uplink := u\<rparr>), reapers := rs,
            buffer_budget := bd, active := usize_wrapping_sub (active t) 1,
            active_gauge := active_gauge t - 1\<rparr>"
    "if cr then set rs = set (reapers t) - {a} else g' = grace_reaper s \<and> rs = reapers t"
proof (cases "cr \<and> grace_reaper s")
  case True
  show ?thesis
    by (rule that [where g' = False and rs = "removeAll a (reapers t)", OF refl])
      (use a st ex cl True in \<open>auto simp: remove_inner_def Let_def abort_reaper_def set_session_def\<close>)
next
  case False
  show ?thesis
    by (rule that [where g' = "grace_reaper s" and rs = "reapers t", OF refl])
      (use a st ex cl False g in \<open>auto simp: remove_inner_def Let_def abort_reaper_def set_session_def\<close>)
qed

lemma remove_inner_other:
  "session_at t i = None \<or> (\<exists>a b. session_at t i = Some a \<and> expected = Some b \<and> a \<noteq> b) \<Longrightarrow>
     remove_inner t i (fnv1a i) expected cr lf = t"
  by (auto simp: remove_inner_def)

lemma table_inv_entry:
  assumes "table_inv t" and "session_at t i = Some a"
  obtains s where "store t a = Some s" "s_id s = i" "s_id_hash s = fnv1a i"
    "fully_connected s \<or> grace_reaper s \<and> a \<in> set (reapers t)"
  using assms by (auto simp: table_inv_def sm.all_entries_def entry_ok_def store_ok_def)

lemma table_inv_reaper:
  "table_inv t \<Longrightarrow> a \<in> set (reapers t) \<Longrightarrow>
     \<exists>s. store t a = Some s \<and> grace_reaper s \<and> \<not> fully_connected s \<and> s_id_hash s = fnv1a (s_id s)"
  by (fastforce simp: table_inv_def store_ok_def)

text \<open>Two different entries are two different sessions, since a session carries its id.\<close>

lemma entries_inject:
  "table_inv t \<Longrightarrow> session_at t i = Some a \<Longrightarrow> session_at t j = Some a \<Longrightarrow> i = j"
  by (metis option.inject table_inv_entry)

lemma remove_found_inv:
  assumes inv: "table_inv t" and a: "session_at t i = Some a"
    and ex: "expected = None \<or> expected = Some a"
    and rs0: "set rs0 \<subseteq> set (reapers t)" "set (reapers t) \<subseteq> insert a (set rs0)"
  shows "table_inv (remove_inner (t\<lparr>reapers := rs0, session_timeouts := n\<rparr>) i (fnv1a i) expected cr lf)"
proof -
  let ?t = "t\<lparr>reapers := rs0, session_timeouts := n\<rparr>"
  obtain s where s: "store t a = Some s" "s_id s = i" using table_inv_entry [OF inv a] by metis
  obtain u bd where cl: "close lf (s_uplink s) (buffer_budget t) = (u, bd)" by fastforce
  have u: "uplink_inv u" using close_inv [OF table_inv_uplink [OF inv s(1)], of lf "buffer_budget t"] cl by simp
  have g: "a \<in> set rs0 \<longrightarrow> grace_reaper s" using table_inv_reaper [OF inv, of a] rs0(1) s(1) by auto
  obtain t' g' rs where e: "remove_inner ?t i (fnv1a i) expected cr lf = t'"
    and t': "t' = ?t\<lparr>shards := shard_remove (shards ?t) (fnv1a i) i,
        store := (store ?t)(a \<mapsto> s\<lparr>grace_reaper := g', s_uplink := u\<rparr>), reapers := rs,
        buffer_budget := bd, active := usize_wrapping_sub (active ?t) 1,
        active_gauge := active_gauge ?t - 1\<rparr>"
    and rs': "if cr then set rs = set (reapers ?t) - {a} else g' = grace_reaper s \<and> rs = reapers ?t"
    by (rule remove_inner_found [of ?t i a s expected lf u bd cr]) (use a s(1) ex cl g in simp_all)
  have rs: "if cr then set rs = set rs0 - {a} else g' = grace_reaper s \<and> rs = rs0"
    using rs' by simp
  have cnt: "0 < active t" "sm.counted (shards t') (active t - 1)"
    using sm.counted_del [OF _ a, of "active t"] inv by (simp_all add: table_inv_def t')
  have "active t \<le> max_sessions (cfg t)" "max_sessions (cfg t) < 2 ^ 64" using inv by (simp_all add: table_inv_def)
  then have sub: "usize_wrapping_sub (active t) 1 = active t - 1" using cnt(1) by simp
  have "entry_ok (store t') (reapers t') j b" if j: "session_at t' j = Some b" for j b
  proof -
    have jt: "j \<noteq> i" "session_at t j = Some b"
      using j sm.get_del [OF table_inv_wf [OF inv], of i j] by (auto simp: t' split: if_splits)
    then have "b \<noteq> a" using entries_inject [OF inv _ a] by blast
    obtain s' where "store t b = Some s'" "s_id s' = j" "fully_connected s' \<or> grace_reaper s' \<and> b \<in> set (reapers t)"
      using table_inv_entry [OF inv jt(2)] by metis
    with \<open>b \<noteq> a\<close> rs rs0(2) show ?thesis by (auto simp: entry_ok_def t' split: if_splits)
  qed
  then have "sm.all_entries (entry_ok (store t') (reapers t')) (shards t')" by (simp add: sm.all_entries_def)
  moreover have "set (reapers t') \<subseteq> set (reapers t)" "a \<in> set (reapers t') \<longrightarrow> g' \<and> \<not> fully_connected s"
    using rs rs0(1) table_inv_reaper [OF inv, of a] s(1) by (auto simp: t' split: if_splits)
  then have "store_ok (store t') (fresh t') (reapers t')"
    using inv s u unfolding table_inv_def store_ok_def by (auto simp: t')
  ultimately show ?thesis
    using inv cnt sub by (auto simp: table_inv_def e t')
qed

lemma drop_reaper_inv:
  assumes inv: "table_inv t" and a: "\<forall>i. session_at t i \<noteq> Some a"
  shows "table_inv (t\<lparr>reapers := removeAll a (reapers t), session_timeouts := n\<rparr>)"
proof -
  have "entry_ok (store t) (removeAll a (reapers t)) j b" if "session_at t j = Some b" for j b
  proof -
    have "b \<noteq> a" using that a by auto
    with table_inv_entry [OF inv that] show ?thesis by (auto simp: entry_ok_def)
  qed
  moreover have "store_ok (store t) (fresh t) (removeAll a (reapers t))"
    using inv by (auto simp: table_inv_def store_ok_def)
  ultimately show ?thesis using inv by (simp add: table_inv_def sm.all_entries_def)
qed

lemma remove_inv: "table_inv t \<Longrightarrow> table_inv (remove_hashed t i (fnv1a i) lf)"
  using remove_found_inv [of t i _ None "reapers t" "session_timeouts t" True lf]
    remove_inner_other [of t i None True lf]
  by (cases "session_at t i") (auto simp: remove_hashed_def)

lemma reap_inv:
  assumes inv: "table_inv t" and a: "a \<in> set (reapers t)"
    and alive: "alive \<or> (\<forall>i. session_at t i \<noteq> Some a)"
  shows "table_inv (reap t a alive lf)"
proof -
  obtain s where s: "store t a = Some s" "\<not> fully_connected s" "s_id_hash s = fnv1a (s_id s)"
    using table_inv_reaper [OF inv a] by auto
  let ?t = "\<lambda>n. t\<lparr>reapers := removeAll a (reapers t), session_timeouts := n\<rparr>"
  show ?thesis
  proof (cases "alive \<and> session_at t (s_id s) = Some a")
    case True
    then have "reap t a alive lf = remove_inner (?t (session_timeouts t + 1)) (s_id s) (fnv1a (s_id s)) (Some a) False lf"
      using s by (simp add: reap_def Let_def)
    with remove_found_inv [OF inv, of "s_id s" a "Some a" "removeAll a (reapers t)"] True show ?thesis by auto
  next
    case False
    then have none: "\<forall>i. session_at t i \<noteq> Some a"
      using alive table_inv_entry [OF inv] s(1) by (metis option.inject)
    moreover have "reap t a alive lf = ?t (if alive then session_timeouts t + 1 else session_timeouts t)"
      using s none remove_inner_other [of "?t (session_timeouts t + 1)" "s_id s" "Some a" False lf]
      by (cases "session_at t (s_id s)") (auto simp: reap_def Let_def)
    ultimately show ?thesis using drop_reaper_inv [OF inv] by simp
  qed
qed

section \<open>Reachable tables\<close>

inductive table_step :: "session_table \<Rightarrow> session_table \<Rightarrow> bool" where
  pushing: "push_uplink t i seq p = (r, t') \<Longrightarrow> table_step t t'"
| downloading: "open_download t i = (r, t') \<Longrightarrow> table_step t t'"
| removing: "table_step t (remove t i lf)"
| ending: "table_step t (remove_hashed t i (fnv1a i) lf)"
| reaping: "a \<in> set (reapers t) \<Longrightarrow> alive \<or> (\<forall>i. session_at t i \<noteq> Some a) \<Longrightarrow>
     table_step t (reap t a alive lf)"

inductive table_reachable :: "session_config \<Rightarrow> budget option \<Rightarrow> session_table \<Rightarrow> bool" for c bd where
  table_start: "table_reachable c bd (new_table c bd)"
| table_more: "table_reachable c bd t \<Longrightarrow> table_step t t' \<Longrightarrow> table_reachable c bd t'"

lemma table_step_inv: "table_step t t' \<Longrightarrow> table_inv t \<Longrightarrow> table_inv t'"
  by (induction rule: table_step.induct)
    (auto simp: remove_def remove_inv [unfolded remove_hashed_def] intro: push_uplink_inv open_download_inv remove_inv reap_inv)

lemma table_reachable_inv:
  assumes "table_reachable c bd t" and "max_sessions c < 2 ^ 64" and "max_pending_packets c < 2 ^ 64"
  shows "table_inv t"
  using assms(1) by (induction rule: table_reachable.induct) (simp_all add: table_inv_new [OF assms(2,3)] table_step_inv)

text \<open>
  C10. In every reachable table the active counter and the gauge are the number of sessions in the
  shards, which is at most \<open>max_sessions\<close> as long as requests run one after the other; every id leads
  to a session created for that id; and every session is connected or has a grace reaper that will
  still run, so a session whose download never opens cannot stay for ever.
\<close>

theorem session_table_consistent:
  assumes "table_reachable c bd t" and "max_sessions c < 2 ^ 64" and "max_pending_packets c < 2 ^ 64"
  shows "active_sessions t = shards_size (shards t) \<and> active_gauge t = int (active_sessions t) \<and>
         active_sessions t \<le> max_sessions (cfg t) \<and>
         (\<forall>i a. session_at t i = Some a \<longrightarrow>
            (\<exists>s. store t a = Some s \<and> s_id s = i \<and> uplink_inv (s_uplink s) \<and>
                 (fully_connected s \<or> a \<in> set (reapers t))))"
proof -
  have inv: "table_inv t" by (rule table_reachable_inv [OF assms])
  then have "\<exists>s. store t a = Some s \<and> s_id s = i \<and> uplink_inv (s_uplink s) \<and>
      (fully_connected s \<or> a \<in> set (reapers t))" if "session_at t i = Some a" for i a
    using table_inv_entry [OF inv that] table_inv_uplink [OF inv] by metis
  with inv show ?thesis
    by (simp add: table_inv_def sm.counted_def active_sessions_def)
qed

lemma table_reachable_push: "table_reachable c bd t \<Longrightarrow> table_reachable c bd (snd (push_uplink t i seq p))"
  using table_more [OF _ pushing] by (metis prod.collapse)

text \<open>One upload creates a session.\<close>

theorem session_table_consistent_witness:
  "active_sessions (snd (push_uplink (new_table default_session_config None) [65] 0 [1])) = 1 \<and>
   shards_size (shards (snd (push_uplink (new_table default_session_config None) [65] 0 [1]))) = 1"
proof -
  let ?t = "snd (push_uplink (new_table default_session_config None) [65] 0 [1])"
  have r: "table_reachable default_session_config None ?t"
    by (intro table_reachable_push table_start)
  have "active_sessions ?t = 1"
    by (simp add: active_sessions_def push_uplink_def upsert_def shard_get_def shard_index_def
        new_table_def default_session_config_def insert_session_def arm_reaper_def Let_def
        set_session_def usize_wrapping_add_def abort_reaper_def split: prod.split)
  with session_table_consistent [OF r] show ?thesis
    by (simp add: default_session_config_def)
qed

text \<open>
  A grace reaper removes only its own session, and only while it is unconnected: when the task
  of the session at \<open>a\<close> runs, every id that leads to another session (in particular a newer session
  under the same id) keeps it, an unconnected session that is still in the table is gone afterwards
  and its uplink is closed, and a connected session has no reaper left at all.
\<close>

lemma reaper_removes_only_its_session:
  assumes "table_reachable c bd t" and "max_sessions c < 2 ^ 64" and "max_pending_packets c < 2 ^ 64"
    and "a \<in> set (reapers t)"
  shows "(\<forall>i. session_at (reap t a True lf) i = (if session_at t i = Some a then None else session_at t i)) \<and>
         (\<exists>s s'. store t a = Some s \<and> \<not> fully_connected s \<and> store (reap t a True lf) a = Some s' \<and>
            (session_at t (s_id s) = Some a \<and> lf \<longrightarrow> \<not> tx_open (s_uplink s')))"
proof -
  have inv: "table_inv t" by (rule table_reachable_inv [OF assms(1-3)])
  obtain s where s: "store t a = Some s" "\<not> fully_connected s" "grace_reaper s" "s_id_hash s = fnv1a (s_id s)"
    using table_inv_reaper [OF inv assms(4)] by auto
  let ?t = "t\<lparr>reapers := removeAll a (reapers t), session_timeouts := session_timeouts t + 1\<rparr>"
  have r: "reap t a True lf = remove_inner ?t (s_id s) (fnv1a (s_id s)) (Some a) False lf"
    using s by (simp add: reap_def Let_def)
  show ?thesis
  proof (cases "session_at t (s_id s) = Some a")
    case True
    obtain u b where cl: "close lf (s_uplink s) (buffer_budget t) = (u, b)" by fastforce
    have at: "shards (reap t a True lf) = shard_remove (shards t) (fnv1a (s_id s)) (s_id s)"
        "store (reap t a True lf) a = Some (s\<lparr>s_uplink := u\<rparr>)"
      using True s cl by (simp_all add: r remove_inner_def Let_def set_session_def)
    have "(session_at t i = Some a) = (i = s_id s)" for i
      using True entries_inject [OF inv _ True, of i] by blast
    then have "session_at (reap t a True lf) i = (if session_at t i = Some a then None else session_at t i)" for i
      using sm.get_del [OF table_inv_wf [OF inv], of "s_id s" i] by (simp add: at)
    moreover have "lf \<longrightarrow> \<not> tx_open u" using cl by (auto simp: close_def)
    ultimately show ?thesis using s at by auto
  next
    case False
    then have "reap t a True lf = ?t"
      unfolding r by (intro remove_inner_other) (cases "session_at t (s_id s)", auto)
    moreover have "session_at t i \<noteq> Some a" for i
      using False table_inv_entry [OF inv] s(1) by (metis option.inject)
    ultimately show ?thesis using s by auto
  qed
qed

definition one_shard_config :: session_config where
  "one_shard_config = default_session_config\<lparr>cfg_shards := 1\<rparr>"

lemma reaper_removes_only_its_session_example:
  "session_at (reap (snd (push_uplink (new_table one_shard_config None) [65] 0 [1])) 0 True True) [65] = None"
proof -
  let ?t = "snd (push_uplink (new_table one_shard_config None) [65] 0 [1])"
  have r: "table_reachable one_shard_config None ?t"
    by (intro table_reachable_push table_start)
  have m: "max_sessions one_shard_config < 2 ^ 64" "max_pending_packets one_shard_config < 2 ^ 64"
    by (simp_all add: one_shard_config_def default_session_config_def)
  have a: "0 \<in> set (reapers ?t)" "session_at ?t [65] = Some 0"
    by (simp_all add: push_uplink_def upsert_def shard_get_def shard_index_def shard_insert_def
        new_table_def one_shard_config_def default_session_config_def insert_session_def arm_reaper_def Let_def
        set_session_def usize_wrapping_add_def abort_reaper_def split: prod.split)
  note sp = conjunct1 [OF reaper_removes_only_its_session [OF r m a(1), of True]]
  show ?thesis using spec [OF sp, of "[65]"] unfolding a(2) by simp
qed

section \<open>The download side is handed out once\<close>

definition reader_taken :: "nat \<Rightarrow> session_table \<Rightarrow> bool" where
  "reader_taken a t \<longleftrightarrow> (\<exists>s. store t a = Some s \<and> \<not> downlink_reader s \<and> fully_connected s)"

lemma reader_taken_set:
  "reader_taken a t \<Longrightarrow> store t b = Some s \<Longrightarrow>
     (downlink_reader s' \<longrightarrow> downlink_reader s) \<Longrightarrow> (fully_connected s \<longrightarrow> fully_connected s') \<Longrightarrow>
     reader_taken a (set_session t b s')"
  by (auto simp: reader_taken_def set_session_def)

lemma reader_taken_store: "store t' = store t \<Longrightarrow> reader_taken a t' = reader_taken a t"
  by (simp add: reader_taken_def)

lemma reader_taken_abort: "reader_taken a t \<Longrightarrow> reader_taken a (abort_reaper t b)"
  by (auto simp: reader_taken_def abort_reaper_def set_session_def split: option.splits)

lemma reader_taken_upsert:
  assumes inv: "table_inv t" and "reader_taken a t"
  shows "reader_taken a (snd (upsert t i fc))"
  using inv
proof (cases rule: upsert_cases [where i = i and fc = fc])
  case (new t')
  have "a \<noteq> fresh t" using inv assms(2) by (auto simp: table_inv_def store_ok_def reader_taken_def)
  with new assms(2) show ?thesis by (simp add: reader_taken_def)
qed (use assms(2) in simp_all)

lemma reader_taken_remove: "reader_taken a t \<Longrightarrow> reader_taken a (remove_inner t i h ex cr lf)"
  by (auto simp: remove_inner_def Let_def abort_reaper_def set_session_def reader_taken_def
      split: option.splits prod.splits)

lemma reader_taken_push:
  assumes inv: "table_inv t" and r: "reader_taken a t" and p: "push_uplink t i seq p = (res, t')"
  shows "reader_taken a t'"
proof -
  obtain ra t1 where up: "upsert t i False = (ra, t1)" by fastforce
  have r1: "reader_taken a t1" using reader_taken_upsert [OF inv r, of i False] up by simp
  then have "reader_taken a (set_session t1 b (s\<lparr>s_uplink := u\<rparr>))" if "store t1 b = Some s" for b s u
    by (rule reader_taken_set [OF _ that]) simp_all
  then show ?thesis
    using p up r1 by (auto simp: push_uplink_def reader_taken_def split: option.splits prod.splits)
qed

lemma reader_taken_open:
  assumes inv: "table_inv t" and r: "reader_taken a t" and p: "open_download t i = (res, t')"
  shows "reader_taken a t'"
proof -
  obtain ra t1 where up: "upsert t i True = (ra, t1)" by fastforce
  have r1: "reader_taken a t1" using reader_taken_upsert [OF inv r, of i True] up by simp
  have r2: "reader_taken a (abort_reaper (set_session t1 b (s\<lparr>fully_connected := True\<rparr>)) b)"
    if "store t1 b = Some s" for b s
    by (intro reader_taken_abort reader_taken_set [OF r1 that]) simp_all
  then show ?thesis
    using p up r1
    by (auto simp: open_download_def Let_def split: option.splits if_splits intro: reader_taken_set)
qed

lemma reader_taken_step: "table_step t t' \<Longrightarrow> table_inv t \<Longrightarrow> reader_taken a t \<Longrightarrow> reader_taken a t'"
proof (induction rule: table_step.induct)
  case (reaping b t alive lf)
  then show ?case
    using reader_taken_store [of "t\<lparr>reapers := removeAll b (reapers t), session_timeouts := session_timeouts t + 1\<rparr>" t a]
    by (auto simp: reap_def Let_def reader_taken_store [of "t\<lparr>reapers := removeAll b (reapers t)\<rparr>" t a]
        intro!: reader_taken_remove split: option.splits)
qed (auto simp: remove_def remove_hashed_def intro: reader_taken_push reader_taken_open reader_taken_remove)

lemma open_download_opened:
  assumes inv: "table_inv t" and p: "open_download t i = (Opened k, t')"
  obtains a where "session_at t' i = Some a" "reader_taken a t'" "k = Some (i, fnv1a i)"
proof -
  note result = that
  have step: thesis
    if up: "upsert t i True = (Some a, t1)" and at: "session_at t1 i = Some a"
      and a: "store t1 a = Some s" "s_id s = i" "s_id_hash s = fnv1a i" for a t1 s
  proof -
    let ?t = "abort_reaper (set_session t1 a (s\<lparr>fully_connected := True\<rparr>)) a"
    have st: "store ?t a = Some (s\<lparr>fully_connected := True, grace_reaper := False\<rparr>)" "shards ?t = shards t1"
      using abort_reaper_store [of "set_session t1 a (s\<lparr>fully_connected := True\<rparr>)" a]
      by (simp_all add: set_session_def)
    show ?thesis
      by (rule result [of a]) (use p up at a st in
          \<open>auto simp: open_download_def Let_def set_session_def set_session_key_def reader_taken_def split: if_splits\<close>)
  qed
  from inv show thesis
  proof (cases rule: upsert_cases [where i = i and fc = True])
    case full
    with p show thesis by (simp add: open_download_def)
  next
    case (found a s)
    with inv have "s_id_hash s = fnv1a i" by (auto simp: table_inv_def store_ok_def)
    from step [OF found(1,2,3,4) this] show thesis .
  next
    case (new t1)
    from step [OF new(1,5,6)] show thesis by (simp add: new_session_def)
  qed
qed

text \<open>
  The download stream of a session is handed out at most once: after \<open>open_download\<close> returned the
  reader (labelled with the id and its hash, under which the handler later removes the session),
  any later \<open>open_download\<close> for the id that still finds the same session is answered \<open>Conflict\<close>,
  whatever requests, removals and reapers ran in between.
\<close>

lemma download_opened_once:
  assumes "table_reachable c bd t" and "max_sessions c < 2 ^ 64" and "max_pending_packets c < 2 ^ 64"
    and "open_download t i = (Opened k, t1)" and "table_step\<^sup>*\<^sup>* t1 t2"
    and "session_at t2 i = session_at t1 i"
  shows "k = Some (i, fnv1a i) \<and> fst (open_download t2 i) = Conflict"
proof -
  have inv: "table_inv t" by (rule table_reachable_inv [OF assms(1-3)])
  have inv1: "table_inv t1" by (rule open_download_inv [OF inv assms(4)])
  obtain a where a: "session_at t1 i = Some a" "reader_taken a t1" "k = Some (i, fnv1a i)"
    using open_download_opened [OF inv assms(4)] .
  have "table_inv t2 \<and> reader_taken a t2"
    using assms(5)
  proof (induction rule: rtranclp_induct)
    case base
    show ?case using inv1 a(2) ..
  next
    case (step y z)
    then show ?case using table_step_inv reader_taken_step by blast
  qed
  then obtain s where s: "store t2 a = Some s" "\<not> downlink_reader s" by (auto simp: reader_taken_def)
  have "upsert t2 i True = (Some a, t2)" using assms(6) a(1) by (simp add: upsert_def)
  then have "fst (open_download t2 i) = Conflict"
    using s abort_reaper_store [of "set_session t2 a (s\<lparr>fully_connected := True\<rparr>)" a]
    by (simp add: open_download_def Let_def set_session_def)
  with a(3) show ?thesis by simp
qed

lemma download_opened_once_example:
  "fst (open_download (snd (open_download (new_table one_shard_config None) [65])) [65]) = Conflict"
proof -
  let ?t = "new_table one_shard_config None"
  have m: "max_sessions one_shard_config < 2 ^ 64" "max_pending_packets one_shard_config < 2 ^ 64"
    by (simp_all add: one_shard_config_def default_session_config_def)
  have "\<exists>k. fst (open_download ?t [65]) = Opened k"
    by (simp add: open_download_def upsert_def shard_get_def shard_index_def shard_insert_def
        new_table_def one_shard_config_def default_session_config_def insert_session_def Let_def
        set_session_def usize_wrapping_add_def abort_reaper_def)
  then obtain k where "open_download ?t [65] = (Opened k, snd (open_download ?t [65]))"
    by (metis prod.collapse)
  from download_opened_once [OF table_start m this] show ?thesis by simp
qed

section \<open>Concurrent creation in different shards\<close>

text \<open>
  \<open>upsert\<close> holds only the lock of its shard while it compares \<open>active\<close> with \<open>max_sessions\<close>, inserts and
  counts. \<open>admission\<close> is what these steps see: the counter, and for each shard whether a request
  holds its lock, has found no session and has passed the capacity test. \<open>adm_remove\<close> is the
  \<open>fetch_sub\<close> of \<open>remove_inner\<close>, which runs after the lock is released.
\<close>

record admission =
  adm_active :: nat
  admitted :: "bool list"

inductive adm_step :: "nat \<Rightarrow> admission \<Rightarrow> admission \<Rightarrow> bool" for maximum where
  adm_check: "j < length (admitted s) \<Longrightarrow> \<not> admitted s ! j \<Longrightarrow> adm_active s < maximum \<Longrightarrow>
     adm_step maximum s (s\<lparr>admitted := (admitted s)[j := True]\<rparr>)"
| adm_insert: "j < length (admitted s) \<Longrightarrow> admitted s ! j \<Longrightarrow>
     adm_step maximum s (s\<lparr>adm_active := adm_active s + 1, admitted := (admitted s)[j := False]\<rparr>)"
| adm_remove: "0 < adm_active s \<Longrightarrow> adm_step maximum s (s\<lparr>adm_active := adm_active s - 1\<rparr>)"

definition adm_start :: "nat \<Rightarrow> admission" where
  "adm_start n = \<lparr>adm_active = 0, admitted = replicate n False\<rparr>"

abbreviation adm_reachable :: "nat \<Rightarrow> nat \<Rightarrow> admission \<Rightarrow> bool" where
  "adm_reachable maximum n \<equiv> (adm_step maximum)\<^sup>*\<^sup>* (adm_start n)"

definition in_flight :: "admission \<Rightarrow> nat" where
  "in_flight s = length (filter id (admitted s))"

lemma length_filter_update:
  "j < length bs \<Longrightarrow> length (filter id (bs[j := b])) + (if bs ! j then 1 else 0) =
     length (filter id bs) + (if b then 1 else 0)"
proof (induction bs arbitrary: j)
  case (Cons c bs)
  show ?case
  proof (cases j)
    case (Suc k)
    with Cons.IH [of k] Cons.prems show ?thesis by (simp split: if_splits)
  qed simp
qed simp

lemma adm_reachable_bound:
  assumes "adm_reachable maximum n s" and "0 < n" and "0 < maximum"
  shows "adm_active s + in_flight s \<le> maximum + n - 1 \<and> length (admitted s) = n"
  using assms(1)
proof (induction rule: rtranclp_induct)
  case base
  then show ?case by (simp add: adm_start_def in_flight_def)
next
  case (step s t)
  from step.hyps(2) show ?case
  proof cases
    case (adm_check j)
    have "in_flight t \<le> length (admitted t)" by (simp add: in_flight_def)
    with adm_check step.IH show ?thesis by simp
  next
    case (adm_insert j)
    with step.IH length_filter_update [of j "admitted s" False] show ?thesis
      by (simp add: in_flight_def)
  next
    case adm_remove
    with step.IH show ?thesis by (auto simp: in_flight_def)
  qed
qed

lemma replicate_step:
  "j < n \<Longrightarrow> (replicate j b @ replicate (n - j) c)[j := b] = replicate (Suc j) b @ replicate (n - Suc j) c"
  by (rule nth_equalityI) (auto simp: nth_append nth_list_update simp del: replicate_Suc)

lemma adm_fill:
  assumes "0 < n" and "k \<le> maximum"
  shows "adm_reachable maximum n \<lparr>adm_active = k, admitted = replicate n False\<rparr>"
  using assms(2)
proof (induction k)
  case 0
  show ?case by (simp add: adm_start_def)
next
  case (Suc k)
  let ?s = "\<lparr>adm_active = k, admitted = replicate n False\<rparr>"
  have "adm_step maximum ?s (?s\<lparr>admitted := (admitted ?s)[0 := True]\<rparr>)"
    using assms(1) Suc.prems by (intro adm_check) simp_all
  moreover have "adm_step maximum (?s\<lparr>admitted := (admitted ?s)[0 := True]\<rparr>)
      \<lparr>adm_active = Suc k, admitted = replicate n False\<rparr>"
    using adm_insert [of 0 "?s\<lparr>admitted := (admitted ?s)[0 := True]\<rparr>" maximum] assms(1)
    by (cases n) simp_all
  ultimately show ?case
    using Suc by (meson Suc_leD rtranclp.rtrancl_into_rtrancl)
qed

lemma adm_admit_all:
  assumes "j \<le> n" and "k < maximum"
  shows "(adm_step maximum)\<^sup>*\<^sup>* \<lparr>adm_active = k, admitted = replicate n False\<rparr>
           \<lparr>adm_active = k, admitted = replicate j True @ replicate (n - j) False\<rparr>"
  using assms(1)
proof (induction j)
  case 0
  show ?case by simp
next
  case (Suc j)
  let ?s = "\<lparr>adm_active = k, admitted = replicate j True @ replicate (n - j) False\<rparr>"
  have "(replicate j True @ replicate (n - j) False)[j := True] = replicate (Suc j) True @ replicate (n - Suc j) False"
    using Suc.prems by (intro replicate_step) simp_all
  moreover have "adm_step maximum ?s (?s\<lparr>admitted := (admitted ?s)[j := True]\<rparr>)"
    using Suc.prems assms(2) by (intro adm_check) (simp_all add: nth_append)
  ultimately show ?case
    using Suc by (simp add: rtranclp.rtrancl_into_rtrancl)
qed

lemma adm_insert_all:
  assumes "j \<le> n"
  shows "(adm_step maximum)\<^sup>*\<^sup>* \<lparr>adm_active = k, admitted = replicate n True\<rparr>
           \<lparr>adm_active = k + j, admitted = replicate j False @ replicate (n - j) True\<rparr>"
  using assms
proof (induction j)
  case 0
  show ?case by simp
next
  case (Suc j)
  let ?s = "\<lparr>adm_active = k + j, admitted = replicate j False @ replicate (n - j) True\<rparr>"
  have "(replicate j False @ replicate (n - j) True)[j := False] = replicate (Suc j) False @ replicate (n - Suc j) True"
    using Suc.prems by (intro replicate_step) simp_all
  moreover have "adm_step maximum ?s (?s\<lparr>adm_active := adm_active ?s + 1, admitted := (admitted ?s)[j := False]\<rparr>)"
    using Suc.prems by (intro adm_insert) (simp_all add: nth_append)
  ultimately show ?case
    using Suc by (simp add: rtranclp.rtrancl_into_rtrancl)
qed

text \<open>
  C32. Under concurrency the session cap is soft, by exactly one session per further shard: with \<open>n\<close>
  shards the number of active sessions never exceeds \<open>maximum + n - 1\<close>, and an interleaving of
  creations in different shards reaches that number, because the capacity test and the increment
  are not one atomic step.
\<close>

theorem session_cap_under_concurrency:
  assumes "0 < n" and "0 < maximum"
  shows "(\<forall>s. adm_reachable maximum n s \<longrightarrow> adm_active s \<le> maximum + n - 1) \<and>
         (\<exists>s. adm_reachable maximum n s \<and> adm_active s = maximum + n - 1)"
proof -
  have "adm_reachable maximum n \<lparr>adm_active = maximum - 1, admitted = replicate n True\<rparr>"
    using rtranclp_trans [OF adm_fill [OF assms(1), of "maximum - 1" maximum] adm_admit_all [of n n "maximum - 1" maximum]]
      assms(2) by simp
  from rtranclp_trans [OF this adm_insert_all [of n n maximum "maximum - 1"]]
  have "adm_reachable maximum n \<lparr>adm_active = maximum - 1 + n, admitted = replicate n False\<rparr>"
    by simp
  moreover have "maximum - 1 + n = maximum + n - 1" using assms by simp
  ultimately show ?thesis
    using adm_reachable_bound [OF _ assms] by (metis add_leD1 admission.select_convs(1))
qed

text \<open>Two shards and a cap of one session: two sessions.\<close>

theorem session_cap_under_concurrency_witness:
  "\<exists>s. adm_reachable 1 2 s \<and> adm_active s = 2"
  using session_cap_under_concurrency [of 2 1] by (simp add: numeral_2_eq_2)

end
