(* ===== verification/Streams.thy ===== *)
theory Streams
  imports Session
begin

text \<open>
  Many sessions in one table: runs of the operations of \<^verbatim>\<open>src/session/mod.rs\<close> on all sessions together with
  the reads of their dispatchers (\<open>UplinkReader\<close> of \<^verbatim>\<open>src/session/reorder.rs\<close>). Two ghost fields of a run keep,
  for every session, the packets that were accepted for it and the bytes that were read from it.
\<close>

section \<open>Runs\<close>

datatype table_event =
    TPush bytes u64 bytes | TOpen bytes | TRemove bytes bool | TReap nat bool bool | TRead nat nat

record table_trace =
  tt :: session_table
  tt_out :: "nat \<Rightarrow> bytes"
  tt_acc :: "nat \<Rightarrow> (u64 \<times> bytes) list"

text \<open>A read by the dispatcher that holds the reader of the session at \<open>a\<close>.\<close>

definition read_uplink :: "session_table \<Rightarrow> nat \<Rightarrow> nat \<Rightarrow> bytes \<times> session_table" where
  "read_uplink t a room =
     (case store t a of
        None \<Rightarrow> ([], t)
      | Some s \<Rightarrow>
          (case poll_read (s_uplink s) (buffer_budget t) room of
             (r, u, bd) \<Rightarrow>
               ((case r of PollReady bs \<Rightarrow> bs | PollPending \<Rightarrow> []),
                (set_session t a (s\<lparr>s_uplink := u\<rparr>))\<lparr>buffer_budget := bd\<rparr>)))"

fun exec_event :: "table_trace \<Rightarrow> table_event \<Rightarrow> table_trace" where
  "exec_event x (TPush i seq p) =
     (case push_uplink (tt x) i seq p of
        (r, t) \<Rightarrow>
          x\<lparr>tt := t,
            tt_acc := (if r = Some Accepted
                       then (let a = the (session_at t i) in (tt_acc x)(a := (seq, p) # tt_acc x a))
                       else tt_acc x)\<rparr>)"
| "exec_event x (TOpen i) = x\<lparr>tt := snd (open_download (tt x) i)\<rparr>"
| "exec_event x (TRemove i lf) = x\<lparr>tt := remove (tt x) i lf\<rparr>"
| "exec_event x (TReap a alive lf) =
     (if a \<in> set (reapers (tt x)) \<and> (alive \<or> (\<forall>s. store (tt x) a = Some s \<longrightarrow> session_at (tt x) (s_id s) \<noteq> Some a))
      then x\<lparr>tt := reap (tt x) a alive lf\<rparr> else x)"
| "exec_event x (TRead a room) =
     (case read_uplink (tt x) a room of (bs, t) \<Rightarrow> x\<lparr>tt := t, tt_out := (tt_out x)(a := tt_out x a @ bs)\<rparr>)"

definition start_table :: "session_config \<Rightarrow> budget option \<Rightarrow> table_trace" where
  "start_table c bd = \<lparr>tt = new_table c bd, tt_out = (\<lambda>_. []), tt_acc = (\<lambda>_. [])\<rparr>"

definition run_table :: "session_config \<Rightarrow> budget option \<Rightarrow> table_event list \<Rightarrow> table_trace" where
  "run_table c bd es = foldl exec_event (start_table c bd) es"

section \<open>What a run keeps of every stream\<close>

definition streams_ok ::
  "(bytes \<Rightarrow> nat option) \<Rightarrow> (nat \<Rightarrow> uplink option) \<Rightarrow> (nat \<Rightarrow> bytes) \<Rightarrow> (nat \<Rightarrow> (u64 \<times> bytes) list) \<Rightarrow> bool" where
  "streams_ok ent up out acc \<longleftrightarrow>
     (\<forall>a u. up a = Some u \<longrightarrow> log_below u (out a) (log_of (acc a)) \<and> distinct (map fst (acc a))) \<and>
     (\<forall>i a. ent i = Some a \<longrightarrow>
        (\<exists>u. up a = Some u \<and> uplink_inv u \<and> tx_open u \<and> log_rel u (out a) (log_of (acc a)))) \<and>
     (\<forall>a. up a = None \<longrightarrow> out a = [] \<and> acc a = [])"

definition uplinks :: "session_table \<Rightarrow> nat \<Rightarrow> uplink option" where
  "uplinks t a = map_option s_uplink (store t a)"

definition ent_inj :: "(bytes \<Rightarrow> nat option) \<Rightarrow> bool" where
  "ent_inj ent \<longleftrightarrow> (\<forall>i j a. ent i = Some a \<longrightarrow> ent j = Some a \<longrightarrow> i = j)"

lemma streams_new:
  assumes "streams_ok ent up out acc" and "up a = None" and "n < 2 ^ 64"
  shows "streams_ok (ent(i \<mapsto> a)) (up(a \<mapsto> channel_with_budget n m)) out acc"
proof -
  have e: "out a = []" "acc a = []" using assms(1,2) by (auto simp: streams_ok_def)
  have t: "trace_inv (start_trace n m None)" by (rule trace_inv_start [OF assms(3)])
  have b: "\<And>j b. ent j = Some b \<Longrightarrow> b \<noteq> a" using assms(1,2) by (fastforce simp: streams_ok_def)
  show ?thesis
    using assms(1) e t b unfolding streams_ok_def
    by (auto simp: trace_inv_def start_trace_def log_rel_def)
qed

lemma streams_entry:
  assumes "streams_ok ent up out acc" and "ent i = Some a"
  obtains u where "up a = Some u" "uplink_inv u" "tx_open u" "log_rel u (out a) (log_of (acc a))"
  using assms unfolding streams_ok_def by blast

lemma streams_push:
  assumes ok: "streams_ok ent up out acc" and inj: "ent_inj ent" and i: "ent i = Some a" and u: "up a = Some u"
    and p: "push u bd seq p = (r, u', bd')"
  shows "streams_ok ent (up(a \<mapsto> u')) out (if r = Accepted then acc(a := (seq, p) # acc a) else acc)"
proof -
  let ?t = "\<lparr>tr_up = u, tr_bud = bd, tr_out = out a, tr_accepted = acc a\<rparr>"
  have "uplink_inv u \<and> tx_open u \<and> log_rel u (out a) (log_of (acc a))" using ok i u unfolding streams_ok_def by force
  moreover have "distinct (map fst (acc a))" using ok u unfolding streams_ok_def by blast
  ultimately have "trace_inv ?t" by (simp add: trace_inv_def)
  from exec_push_inv [OF this, of seq p] p
  have t: "trace_inv \<lparr>tr_up = u', tr_bud = bd', tr_out = out a, tr_accepted = (if r = Accepted then (seq, p) # acc a else acc a)\<rparr>"
    by (cases "r = Accepted") (simp_all add: exec_op_def)
  show ?thesis
    using ok t inj i u unfolding streams_ok_def ent_inj_def
    by (auto simp: trace_inv_def log_rel_def split: if_splits)
qed

lemma streams_read:
  assumes ok: "streams_ok ent up out acc" and u: "up a = Some u" and p: "poll_read u bd n = (PollReady bs, u', bd')"
  shows "streams_ok ent (up(a \<mapsto> u')) (out(a := out a @ bs)) acc"
proof -
  obtain q d where u': "u' = u\<lparr>queue := q, cur := d\<rparr>" using poll_read_frame [OF p] .
  then have "watermark u' = watermark u" by (simp add: watermark_def)
  then have below: "log_below u' (out a @ bs) log" if "log_below u (out a) log" for log
    using that poll_read_stream [OF p] by (simp add: log_below_def)
  have "log_rel u' (out a @ bs) log" if "log_rel u (out a) log" for log
    by (rule log_rel_read [OF p that])
  moreover have "uplink_inv u \<Longrightarrow> uplink_inv u'" by (rule poll_read_inv [OF p])
  moreover have "tx_open u' = tx_open u" by (simp add: u')
  ultimately have "\<exists>v. (up(a \<mapsto> u')) b = Some v \<and> uplink_inv v \<and> tx_open v \<and> log_rel v ((out(a := out a @ bs)) b) (log_of (acc b))"
    if "ent i = Some b" for i b
    using streams_entry [OF ok that] u by (cases "b = a") auto
  with below ok u show ?thesis unfolding streams_ok_def by auto
qed

lemma streams_close:
  assumes ok: "streams_ok ent up out acc" and inj: "ent_inj ent" and i: "ent i = Some a" and u: "up a = Some u"
  shows "streams_ok (ent(i := None)) (up(a \<mapsto> fst (close lf u bd))) out acc"
proof -
  have "log_below (fst (close lf u bd)) ot log = log_below u ot log" for ot log
    by (simp add: close_def log_below_def stream_of_def watermark_def)
  then show ?thesis
    using ok inj i u unfolding streams_ok_def ent_inj_def by (auto split: if_splits)
qed

lemma streams_same:
  assumes "streams_ok ent up out acc" and "ent' = ent" and "up' = up"
  shows "streams_ok ent' up' out acc"
  using assms by simp

section \<open>Every event keeps it\<close>

lemma table_ent_inj: "table_inv t \<Longrightarrow> ent_inj (session_at t)"
  using entries_inject by (auto simp: ent_inj_def)

lemma upsert_streams:
  assumes inv: "table_inv t" and ok: "streams_ok (session_at t) (uplinks t) out acc"
    and up: "upsert t i fc = (Some a, t1)"
  shows "table_inv t1 \<and> streams_ok (session_at t1) (uplinks t1) out acc \<and> session_at t1 i = Some a \<and> store t1 a \<noteq> None"
  using inv
proof (cases rule: upsert_cases [where i = i and fc = fc])
  case (new t')
  then have e: "a = fresh t" "t1 = t'" using up by simp_all
  have none: "uplinks t a = None"
    using inv e(1) by (cases "store t (fresh t)") (auto simp: uplinks_def table_inv_def store_ok_def)
  have n: "max_pending_packets (cfg t) < 2 ^ 64" using inv by (simp add: table_inv_def)
  have "session_at t1 = (session_at t)(i \<mapsto> a)" using new e by auto
  moreover have "uplinks t1 = (uplinks t)(a \<mapsto> channel_with_budget (max_pending_packets (cfg t)) (max_pending_bytes (cfg t)))"
    using new e by (auto simp: uplinks_def new_session_def)
  ultimately show ?thesis
    using streams_new [OF ok none n, of i "max_pending_bytes (cfg t)"] new e by simp
qed (use up inv ok in auto)

lemma uplinks_store: "store t' = store t \<Longrightarrow> uplinks t' = uplinks t"
  by (auto simp: uplinks_def)

lemma push_streams:
  assumes inv: "table_inv t" and ok: "streams_ok (session_at t) (uplinks t) out acc"
    and p: "push_uplink t i seq p = (r, t')"
  shows "streams_ok (session_at t') (uplinks t') out
    (if r = Some Accepted then (let a = the (session_at t' i) in acc(a := (seq, p) # acc a)) else acc)"
proof (cases "upsert t i False")
  case (Pair ao t1)
  show ?thesis
  proof (cases ao)
    case None
    then have "t1 = t" using Pair inv upsert_cases [OF inv, of i False] by (metis Pair_inject option.simps(3))
    with None Pair p ok show ?thesis by (auto simp: push_uplink_def)
  next
    case (Some a)
    with upsert_streams [OF inv ok, of i False a t1] Pair have
      t1: "table_inv t1" "streams_ok (session_at t1) (uplinks t1) out acc" "session_at t1 i = Some a" "store t1 a \<noteq> None" by auto
    then obtain s where s: "store t1 a = Some s" by blast
    obtain r' u bd where pu: "push (s_uplink s) (buffer_budget t1) seq p = (r', u, bd)" by (metis prod_cases3)
    have t': "t' = (set_session t1 a (s\<lparr>s_uplink := u\<rparr>))\<lparr>buffer_budget := bd, pending_packets_gauge := pending_count u\<rparr>"
        "r = Some r'"
      using p Pair Some s pu by (auto simp: push_uplink_def)
    have "shards t' = shards t1" "uplinks t' = (uplinks t1)(a \<mapsto> u)"
      by (auto simp: t' set_session_def uplinks_def)
    moreover have "uplinks t1 a = Some (s_uplink s)" using s by (simp add: uplinks_def)
    ultimately show ?thesis
      using streams_push [OF t1(2) table_ent_inj [OF t1(1)] t1(3) _ pu] t1(3) t'(2) by (cases "r' = Accepted") (simp_all add: Let_def)
  qed
qed

lemma open_streams:
  assumes inv: "table_inv t" and ok: "streams_ok (session_at t) (uplinks t) out acc"
    and p: "open_download t i = (r, t')"
  shows "streams_ok (session_at t') (uplinks t') out acc"
proof (cases "upsert t i True")
  case (Pair ao t1)
  show ?thesis
  proof (cases ao)
    case None
    then have "t1 = t" using Pair inv upsert_cases [OF inv, of i True] by (metis Pair_inject option.simps(3))
    with None Pair p ok show ?thesis by (auto simp: open_download_def)
  next
    case (Some a)
    with upsert_streams [OF inv ok, of i True a t1] Pair have
      t1: "table_inv t1" "streams_ok (session_at t1) (uplinks t1) out acc" "session_at t1 i = Some a" "store t1 a \<noteq> None" by auto
    then obtain s where s: "store t1 a = Some s" by blast
    let ?t2 = "abort_reaper (set_session t1 a (s\<lparr>fully_connected := True\<rparr>)) a"
    let ?s2 = "s\<lparr>fully_connected := True, grace_reaper := False\<rparr>"
    have st: "store ?t2 = (store t1)(a \<mapsto> ?s2)" "shards ?t2 = shards t1"
      using abort_reaper_store [of "set_session t1 a (s\<lparr>fully_connected := True\<rparr>)" a] by (simp_all add: set_session_def)
    have "shards t' = shards t1" "uplinks t' = uplinks t1"
      using p Pair Some s st by (auto simp: open_download_def Let_def set_session_def uplinks_def split: if_splits)
    then show ?thesis using t1(2) by simp
  qed
qed

lemma removed_streams:
  assumes inv: "table_inv t" and ok: "streams_ok (session_at t) (uplinks t) out acc" and a: "session_at t i = Some a"
    and ex: "expected = None \<or> expected = Some a" and rs0: "set rs0 \<subseteq> set (reapers t)"
  shows "streams_ok (session_at (remove_inner (t\<lparr>reapers := rs0, session_timeouts := n\<rparr>) i (fnv1a i) expected cr lf))
    (uplinks (remove_inner (t\<lparr>reapers := rs0, session_timeouts := n\<rparr>) i (fnv1a i) expected cr lf)) out acc"
proof -
  let ?t = "t\<lparr>reapers := rs0, session_timeouts := n\<rparr>"
  obtain s where s: "store t a = Some s" using table_inv_entry [OF inv a] by metis
  obtain u bd where cl: "close lf (s_uplink s) (buffer_budget t) = (u, bd)" by fastforce
  have g: "a \<in> set rs0 \<longrightarrow> grace_reaper s" using table_inv_reaper [OF inv, of a] rs0 s by auto
  obtain t' g' rs where e: "remove_inner ?t i (fnv1a i) expected cr lf = t'"
    and t': "t' = ?t\<lparr>shards := shard_remove (shards ?t) (fnv1a i) i,
        store := (store ?t)(a \<mapsto> s\<lparr>grace_reaper := g', s_uplink := u\<rparr>), reapers := rs,
        buffer_budget := bd, active := usize_wrapping_sub (active ?t) 1,
        active_gauge := active_gauge ?t - 1\<rparr>"
    by (rule remove_inner_found [of ?t i a s expected lf u bd cr]) (use a s ex cl g in simp_all)
  have "session_at t' = (session_at t)(i := None)"
    using sm.get_del [OF table_inv_wf [OF inv], of i] by (auto simp: t')
  moreover have "uplinks t' = (uplinks t)(a \<mapsto> u)" by (auto simp: t' uplinks_def)
  moreover have "uplinks t a = Some (s_uplink s)" using s by (simp add: uplinks_def)
  ultimately show ?thesis
    using streams_close [OF ok table_ent_inj [OF inv] a, of "s_uplink s" lf "buffer_budget t"] cl e by simp
qed

lemma remove_streams:
  assumes inv: "table_inv t" and ok: "streams_ok (session_at t) (uplinks t) out acc"
  shows "streams_ok (session_at (remove t i lf)) (uplinks (remove t i lf)) out acc"
proof (cases "session_at t i")
  case None
  then show ?thesis using ok remove_inner_other [of t i None True lf] by (simp add: remove_def)
next
  case (Some a)
  from removed_streams [OF inv ok this, of None "reapers t" "session_timeouts t" True lf] show ?thesis by (simp add: remove_def)
qed

lemma reap_streams:
  assumes inv: "table_inv t" and ok: "streams_ok (session_at t) (uplinks t) out acc"
  shows "streams_ok (session_at (reap t a alive lf)) (uplinks (reap t a alive lf)) out acc"
proof -
  let ?t = "\<lambda>n. t\<lparr>reapers := removeAll a (reapers t), session_timeouts := n\<rparr>"
  have same: "streams_ok (session_at (?t n)) (uplinks (?t n)) out acc" for n
    using ok uplinks_store [of "?t n" t] by simp
  show ?thesis
  proof (cases "store t a")
    case None
    with same [of "session_timeouts t"] show ?thesis by (simp add: reap_def)
  next
    case (Some s)
    then have h: "s_id_hash s = fnv1a (s_id s)" using inv by (auto simp: table_inv_def store_ok_def)
    show ?thesis
    proof (cases "alive \<and> \<not> fully_connected s")
      case False
      with Some same [of "session_timeouts t"] show ?thesis by (auto simp: reap_def)
    next
      case True
      then have e: "reap t a alive lf = remove_inner (?t (session_timeouts t + 1)) (s_id s) (fnv1a (s_id s)) (Some a) False lf"
        using Some h by (simp add: reap_def)
      show ?thesis
      proof (cases "session_at t (s_id s) = Some a")
        case True
        from removed_streams [OF inv ok this, of "Some a" "removeAll a (reapers t)" "session_timeouts t + 1" False lf] show ?thesis
          by (simp add: e)
      next
        case False
        then have "remove_inner (?t (session_timeouts t + 1)) (s_id s) (fnv1a (s_id s)) (Some a) False lf = ?t (session_timeouts t + 1)"
          by (intro remove_inner_other) (auto split: option.splits; metis not_None_eq)
        with e same show ?thesis by simp
      qed
    qed
  qed
qed

lemma read_streams:
  assumes inv: "table_inv t" and ok: "streams_ok (session_at t) (uplinks t) out acc"
    and r: "read_uplink t a room = (bs, t')"
  shows "table_inv t' \<and> streams_ok (session_at t') (uplinks t') (out(a := out a @ bs)) acc"
proof (cases "store t a")
  case None
  with r inv ok show ?thesis by (simp add: read_uplink_def)
next
  case (Some s)
  obtain x u bd where p: "poll_read (s_uplink s) (buffer_budget t) room = (x, u, bd)" by (metis prod_cases3)
  have t': "t' = (set_session t a (s\<lparr>s_uplink := u\<rparr>))\<lparr>buffer_budget := bd\<rparr>"
      "bs = (case x of PollReady b \<Rightarrow> b | PollPending \<Rightarrow> [])"
    using r Some p by (auto simp: read_uplink_def)
  have "uplink_inv u" by (rule poll_read_inv [OF p table_inv_uplink [OF inv Some]])
  then have "table_inv t'"
    using table_inv_set(1) [OF inv Some, where s' = "s\<lparr>s_uplink := u\<rparr>" and bd = bd and g = "pending_packets_gauge t"] by (simp add: t' set_session_def)
  moreover have "shards t' = shards t" "uplinks t' = (uplinks t)(a \<mapsto> u)" "uplinks t a = Some (s_uplink s)"
    using Some by (auto simp: t' uplinks_def set_session_def)
  moreover have "streams_ok (session_at t) ((uplinks t)(a \<mapsto> u)) (out(a := out a @ bs)) acc"
  proof (cases x)
    case (PollReady b)
    with streams_read [OF ok _ p [unfolded PollReady]] Some t'(2) show ?thesis by (simp add: uplinks_def)
  next
    case PollPending
    then have "u = s_uplink s" using poll_read_pending p by blast
    then have "(uplinks t)(a \<mapsto> u) = uplinks t" using Some by (auto simp: uplinks_def)
    with ok PollPending t'(2) show ?thesis by simp
  qed
  ultimately show ?thesis by simp
qed

definition run_inv :: "table_trace \<Rightarrow> bool" where
  "run_inv x \<longleftrightarrow> table_inv (tt x) \<and> streams_ok (session_at (tt x)) (uplinks (tt x)) (tt_out x) (tt_acc x)"

lemma exec_event_inv:
  assumes "run_inv x"
  shows "run_inv (exec_event x e)"
proof (cases e)
  case (TPush i seq p)
  obtain r t where p: "push_uplink (tt x) i seq p = (r, t)" by fastforce
  with TPush assms push_uplink_inv [OF _ p] push_streams [OF _ _ p] show ?thesis by (simp add: run_inv_def)
next
  case (TOpen i)
  obtain r t where p: "open_download (tt x) i = (r, t)" by fastforce
  with TOpen assms open_download_inv [OF _ p] open_streams [OF _ _ p] show ?thesis by (simp add: run_inv_def)
next
  case (TRemove i lf)
  have "table_inv (tt x) \<Longrightarrow> table_inv (remove (tt x) i lf)"
    using table_step_inv [OF removing] by blast
  with TRemove assms remove_streams show ?thesis by (simp add: run_inv_def)
next
  case (TReap a alive lf)
  have "alive \<or> (\<forall>i. session_at (tt x) i \<noteq> Some a)"
    if "alive \<or> (\<forall>s. store (tt x) a = Some s \<longrightarrow> session_at (tt x) (s_id s) \<noteq> Some a)"
    using that assms table_inv_entry [of "tt x"] unfolding run_inv_def by metis
  with TReap assms reap_inv [of "tt x" a alive lf] reap_streams show ?thesis by (auto simp: run_inv_def)
next
  case (TRead a room)
  obtain bs t where r: "read_uplink (tt x) a room = (bs, t)" by fastforce
  with TRead assms read_streams [OF _ _ r, of "tt_out x" "tt_acc x"] show ?thesis by (simp add: run_inv_def)
qed

lemma run_table_inv:
  assumes "max_sessions c < 2 ^ 64" and "max_pending_packets c < 2 ^ 64"
  shows "run_inv (run_table c bd es)"
proof -
  have "run_inv (foldl exec_event x es)" if "run_inv x" for x
    using that by (induction es arbitrary: x) (auto simp: exec_event_inv)
  moreover have "run_inv (start_table c bd)"
  proof -
    have "shard_get (replicate k []) h i = None" if "0 < k" for k h i
      using that by (simp add: shard_get_def shard_index_def)
    then show ?thesis
      using table_inv_new [OF assms, of bd] by (auto simp: run_inv_def start_table_def streams_ok_def uplinks_def new_table_def)
  qed
  ultimately show ?thesis by (simp add: run_table_def)
qed

text \<open>
  C4. Sessions are isolated: in every run of uploads, downloads, removals, reapers and reads over any
  number of sessions in one table, the bytes read from a session followed by those still waiting in it
  are the packets accepted for this session, by number from 0 up to its first gap, and nothing of any
  other session; a number is accepted at most once per session; and this also holds for sessions that
  were removed, whose readers go on to the end of what was delivered.
\<close>

theorem sessions_isolated:
  assumes "max_sessions c < 2 ^ 64" and "max_pending_packets c < 2 ^ 64"
    and "run_table c bd es = x" and "store (tt x) a = Some s"
  shows "tt_out x a @ stream_of (s_uplink s) =
      concat (map (\<lambda>n. the (map_of (tt_acc x a) (of_nat n))) [0..<watermark (s_uplink s)]) \<and>
    (\<forall>n < watermark (s_uplink s). map_of (tt_acc x a) (of_nat n) \<noteq> None) \<and>
    distinct (map fst (tt_acc x a)) \<and>
    (session_at (tt x) (s_id s) = Some a \<longrightarrow> tx_open (s_uplink s) \<and>
       (\<forall>k. watermark (s_uplink s) \<le> unat k \<longrightarrow> map_option payload (map_of (pending (s_uplink s)) k) = map_of (tt_acc x a) k))"
proof -
  let ?u = "s_uplink s" let ?w = "watermark (s_uplink s)"
  have inv: "run_inv x" using run_table_inv [OF assms(1,2)] assms(3) by blast
  then have ok: "streams_ok (session_at (tt x)) (uplinks (tt x)) (tt_out x) (tt_acc x)" by (simp add: run_inv_def)
  have u: "uplinks (tt x) a = Some ?u" using assms(4) by (simp add: uplinks_def)
  with ok have lb: "log_below ?u (tt_out x a) (log_of (tt_acc x a))" "distinct (map fst (tt_acc x a))"
    unfolding streams_ok_def by blast+
  have w: "?w \<le> 2 ^ 64" by (simp add: watermark_def less_imp_le)
  have "log_prefix (log_of (tt_acc x a)) ?w = concat (map (\<lambda>n. the (map_of (tt_acc x a) (of_nat n))) [0..<?w])"
    using w by (auto simp: log_prefix_def log_of_def intro!: arg_cong [of _ _ concat])
  moreover have "map_of (tt_acc x a) (of_nat n) \<noteq> None" if "n < ?w" for n
    using lb(1) that w by (auto simp: log_below_def log_of_def split: if_splits)
  moreover have "tx_open ?u \<and> log_rel ?u (tt_out x a) (log_of (tt_acc x a))" if "session_at (tt x) (s_id s) = Some a"
    using streams_entry [OF ok that] u by auto
  ultimately show ?thesis
    using lb by (auto simp: log_below_def log_rel_def log_above_def log_of_unat)
qed

text \<open>Two sessions whose packets arrive interleaved and out of order.\<close>

definition demo_events :: "table_event list" where
  "demo_events = [TPush [65] 1 [3], TPush [66] 0 [7], TPush [65] 0 [1, 2], TRead 0 2, TRead 0 2]"

lemmas table_exec = push_uplink_def upsert_def shard_get_def shard_index_def shard_insert_def new_table_def
  one_shard_config_def default_session_config_def insert_session_def arm_reaper_def set_session_def abort_reaper_def
  read_uplink_def uplink_exec

lemma demo_run:
  "tt_out (run_table one_shard_config None demo_events) 0 = [1, 2, 3] \<and>
   tt_acc (run_table one_shard_config None demo_events) 0 = [(0, [1, 2]), (1, [3])] \<and>
   (\<exists>s. store (tt (run_table one_shard_config None demo_events)) 0 = Some s)"
  by (simp add: demo_events_def run_table_def start_table_def table_exec Let_def)

theorem sessions_isolated_witness:
  "\<exists>s. store (tt (run_table one_shard_config None demo_events)) 0 = Some s \<and>
     [1, 2, 3] @ stream_of (s_uplink s) =
       concat (map (\<lambda>n. the (map_of [(0, [1, 2]), (1, [3])] (of_nat n :: u64))) [0..<watermark (s_uplink s)])"
proof -
  obtain s where s: "store (tt (run_table one_shard_config None demo_events)) 0 = Some s" using demo_run by blast
  have c: "max_sessions one_shard_config < 2 ^ 64" "max_pending_packets one_shard_config < 2 ^ 64"
    by (simp_all add: one_shard_config_def default_session_config_def)
  from sessions_isolated [OF c refl s] s demo_run show ?thesis by auto
qed

end
