(* ===== verification/Kdf.thy ===== *)
theory Kdf
  imports Prelude
begin

text \<open>
  Key derivation, \<^verbatim>\<open>src/vless/encryption/kdf.rs\<close>: BLAKE3 in derive-key mode with an arbitrary byte context,
  written out in the crate. Arrays are lists of words. \<open>hash_mode\<close> absorbs the input chunk by chunk
  with a stack of chaining values; \<open>stack.pop().unwrap()\<close> on an empty stack is \<open>None\<close>. The
  reference \<open>tree_output\<close> is the hash tree of the BLAKE3 paper, and the main results are that the
  stack never underflows and that both compute the same hash.
\<close>

section \<open>Compression\<close>

definition IV :: "u32 list" where
  "IV = [0x6A09E667, 0xBB67AE85, 0x3C6EF372, 0xA54FF53A, 0x510E527F, 0x9B05688C, 0x1F83D9AB, 0x5BE0CD19]"

definition CHUNK_START :: u32 where "CHUNK_START = 1"
definition CHUNK_END :: u32 where "CHUNK_END = 2"
definition PARENT :: u32 where "PARENT = 4"
definition ROOT :: u32 where "ROOT = 8"
definition DERIVE_KEY_CONTEXT :: u32 where "DERIVE_KEY_CONTEXT = 32"
definition DERIVE_KEY_MATERIAL :: u32 where "DERIVE_KEY_MATERIAL = 64"
definition BLOCK_LEN :: nat where "BLOCK_LEN = 64"
definition CHUNK_LEN :: nat where "CHUNK_LEN = 1024"

definition SCHEDULE :: "nat list list" where
  "SCHEDULE =
    [[0, 1, 2, 3, 4, 5, 6, 7, 8, 9, 10, 11, 12, 13, 14, 15],
     [2, 6, 3, 10, 7, 0, 4, 13, 1, 11, 12, 5, 9, 14, 15, 8],
     [3, 4, 10, 12, 13, 2, 7, 14, 6, 5, 9, 0, 11, 15, 8, 1],
     [10, 7, 12, 9, 14, 3, 13, 15, 4, 0, 11, 2, 5, 8, 1, 6],
     [12, 13, 9, 11, 15, 10, 14, 8, 7, 2, 5, 3, 0, 1, 6, 4],
     [9, 14, 11, 5, 8, 12, 15, 1, 13, 3, 0, 10, 2, 6, 4, 7],
     [11, 15, 5, 0, 1, 9, 8, 6, 14, 10, 2, 12, 3, 4, 7, 13]]"

definition g :: "u32 list \<Rightarrow> nat \<Rightarrow> nat \<Rightarrow> nat \<Rightarrow> nat \<Rightarrow> u32 \<Rightarrow> u32 \<Rightarrow> u32 list" where
  "g s0 a b c d mx my =
     (let s1 = s0[a := s0 ! a + s0 ! b + mx];
          s2 = s1[d := word_rotr 16 (s1 ! d XOR s1 ! a)];
          s3 = s2[c := s2 ! c + s2 ! d];
          s4 = s3[b := word_rotr 12 (s3 ! b XOR s3 ! c)];
          s5 = s4[a := s4 ! a + s4 ! b + my];
          s6 = s5[d := word_rotr 8 (s5 ! d XOR s5 ! a)];
          s7 = s6[c := s6 ! c + s6 ! d]
      in s7[b := word_rotr 7 (s7 ! b XOR s7 ! c)])"

definition blake_round :: "u32 list \<Rightarrow> u32 list \<Rightarrow> nat list \<Rightarrow> u32 list" where
  "blake_round s0 msg s =
     (let s1 = g s0 0 4 8 12 (msg ! (s ! 0)) (msg ! (s ! 1));
          s2 = g s1 1 5 9 13 (msg ! (s ! 2)) (msg ! (s ! 3));
          s3 = g s2 2 6 10 14 (msg ! (s ! 4)) (msg ! (s ! 5));
          s4 = g s3 3 7 11 15 (msg ! (s ! 6)) (msg ! (s ! 7));
          s5 = g s4 0 5 10 15 (msg ! (s ! 8)) (msg ! (s ! 9));
          s6 = g s5 1 6 11 12 (msg ! (s ! 10)) (msg ! (s ! 11));
          s7 = g s6 2 7 8 13 (msg ! (s ! 12)) (msg ! (s ! 13))
      in g s7 3 4 9 14 (msg ! (s ! 14)) (msg ! (s ! 15)))"

definition compress :: "u32 list \<Rightarrow> u32 list \<Rightarrow> u64 \<Rightarrow> u32 \<Rightarrow> u32 \<Rightarrow> u32 list" where
  "compress cv block counter block_len flags =
     (let state = cv @ take 4 IV @ [ucast counter, ucast (drop_bit 32 counter), block_len, flags];
          mixed = foldl (\<lambda>s sch. blake_round s block sch) state SCHEDULE
      in map (\<lambda>i. mixed ! i XOR mixed ! (i + 8)) [0..<8] @ map (\<lambda>i. mixed ! (i + 8) XOR cv ! i) [0..<8])"

section \<open>Outputs\<close>

record blake_output =
  out_cv :: "u32 list"
  out_block :: "u32 list"
  out_counter :: u64
  out_block_len :: u32
  out_flags :: u32

definition le_word :: "bytes \<Rightarrow> nat \<Rightarrow> u32" where
  "le_word bs i =
     ucast (bs ! (4 * i)) OR push_bit 8 (ucast (bs ! (4 * i + 1))) OR
     push_bit 16 (ucast (bs ! (4 * i + 2))) OR push_bit 24 (ucast (bs ! (4 * i + 3)))"

definition bytes_to_words_8 :: "bytes \<Rightarrow> u32 list" where
  "bytes_to_words_8 bs = map (le_word bs) [0..<8]"

definition bytes_to_words_16 :: "bytes \<Rightarrow> u32 list" where
  "bytes_to_words_16 bs = map (le_word bs) [0..<16]"

definition words_to_bytes :: "u32 list \<Rightarrow> bytes" where
  "words_to_bytes ws =
     concat (map (\<lambda>w. [ucast w, ucast (drop_bit 8 w), ucast (drop_bit 16 w), ucast (drop_bit 24 w)]) ws)"

definition chaining_value :: "blake_output \<Rightarrow> u32 list" where
  "chaining_value out =
     take 8 (compress (out_cv out) (out_block out) (out_counter out) (out_block_len out) (out_flags out))"

definition root_hash :: "blake_output \<Rightarrow> bytes" where
  "root_hash out =
     words_to_bytes (take 8 (compress (out_cv out) (out_block out) 0 (out_block_len out) (out_flags out OR ROOT)))"

text \<open>The loop of \<open>chunk_output\<close> over the blocks of a chunk; \<open>first\<close> marks block 0.\<close>

fun chunk_blocks :: "bool \<Rightarrow> u32 list \<Rightarrow> u64 \<Rightarrow> u32 \<Rightarrow> bytes list \<Rightarrow> blake_output" where
  "chunk_blocks first cv counter flags (b # bs) =
     (let block_words = bytes_to_words_16 (b @ replicate (BLOCK_LEN - length b) 0);
          block_flags = (if first then flags OR CHUNK_START else flags)
      in if bs = []
         then \<lparr>out_cv = cv, out_block = block_words, out_counter = counter,
               out_block_len = of_nat (length b), out_flags = block_flags OR CHUNK_END\<rparr>
         else chunk_blocks False (take 8 (compress cv block_words counter (of_nat BLOCK_LEN) block_flags))
                counter flags bs)"
| "chunk_blocks first cv counter flags [] =
     \<lparr>out_cv = cv, out_block = [], out_counter = counter, out_block_len = 0, out_flags = flags\<rparr>"

text \<open>\<open>chunks(n).count().max(1)\<close> pieces: an empty input still has one empty piece.\<close>

definition pieces :: "nat \<Rightarrow> bytes \<Rightarrow> bytes list" where
  "pieces n bs = (if bs = [] then [[]] else chunks n bs)"

definition chunk_output :: "bytes \<Rightarrow> u64 \<Rightarrow> u32 list \<Rightarrow> u32 \<Rightarrow> blake_output" where
  "chunk_output chunk counter key flags = chunk_blocks True key counter flags (pieces BLOCK_LEN chunk)"

definition parent_output :: "u32 list \<Rightarrow> u32 list \<Rightarrow> u32 list \<Rightarrow> u32 \<Rightarrow> blake_output" where
  "parent_output left right key flags =
     \<lparr>out_cv = key, out_block = left @ right, out_counter = 0, out_block_len = of_nat BLOCK_LEN,
      out_flags = flags OR PARENT\<rparr>"

section \<open>Hashing with a stack\<close>

text \<open>The inner \<open>while\<close>: merge complete subtrees, then push. The head of the list is the top.\<close>

fun merge_push :: "u32 list \<Rightarrow> u32 \<Rightarrow> u32 list list \<Rightarrow> u32 list \<Rightarrow> nat \<Rightarrow> u32 list list option" where
  "merge_push key flags stack cv tot =
     (if even tot
      then (case stack of
              [] \<Rightarrow> None
            | left # rest \<Rightarrow>
                merge_push key flags rest (chaining_value (parent_output left cv key flags)) (tot div 2))
      else Some (cv # stack))"

declare merge_push.simps [simp del]

fun absorb ::
  "u32 list \<Rightarrow> u32 \<Rightarrow> nat \<Rightarrow> u32 list list \<Rightarrow> bytes list \<Rightarrow> (blake_output \<times> u32 list list) option" where
  "absorb key flags i stack [] = None"
| "absorb key flags i stack (c # cs) =
     (let output = chunk_output c (of_nat i) key flags
      in if cs = [] then Some (output, stack)
         else (case merge_push key flags stack (chaining_value output) (i + 1) of
                 None \<Rightarrow> None
               | Some stack' \<Rightarrow> absorb key flags (i + 1) stack' cs))"

definition finish_stack :: "u32 list \<Rightarrow> u32 \<Rightarrow> u32 list list \<Rightarrow> blake_output \<Rightarrow> blake_output" where
  "finish_stack key flags stack output =
     foldl (\<lambda>o1 left. parent_output left (chaining_value o1) key flags) output stack"

definition hash_mode :: "bytes \<Rightarrow> u32 list \<Rightarrow> u32 \<Rightarrow> bytes option" where
  "hash_mode input key flags =
     (case absorb key flags 0 [] (pieces CHUNK_LEN input) of
        None \<Rightarrow> None
      | Some (output, stack) \<Rightarrow> Some (root_hash (finish_stack key flags stack output)))"

definition derive_key_opt :: "bytes \<Rightarrow> bytes \<Rightarrow> bytes option" where
  "derive_key_opt ctx material =
     (case hash_mode ctx IV DERIVE_KEY_CONTEXT of
        None \<Rightarrow> None
      | Some context_key \<Rightarrow> hash_mode material (bytes_to_words_8 context_key) DERIVE_KEY_MATERIAL)"

section \<open>The hash tree\<close>

fun lpow :: "nat \<Rightarrow> nat" where
  "lpow n = (if n \<le> 1 then 1 else 2 * lpow (n div 2))"

declare lpow.simps [simp del]

lemma lpow_bounds: "0 < n \<Longrightarrow> lpow n \<le> n \<and> n < 2 * lpow n"
proof (induction n rule: lpow.induct)
  case (1 n)
  show ?case
  proof (cases "n \<le> 1")
    case True
    with "1.prems" show ?thesis by (simp add: lpow.simps)
  next
    case False
    with "1.IH" have "lpow (n div 2) \<le> n div 2 \<and> n div 2 < 2 * lpow (n div 2)" by simp
    with False show ?thesis by (subst (1 2) lpow.simps) auto
  qed
qed

lemma lpow_pos: "0 < lpow n"
  by (induction n rule: lpow.induct) (simp add: lpow.simps)

lemma lpow_power: "\<exists>i. lpow n = 2 ^ i"
proof (induction n rule: lpow.induct)
  case (1 n)
  show ?case
  proof (cases "n \<le> 1")
    case True
    then show ?thesis by (simp add: lpow.simps exI [of _ 0])
  next
    case False
    with 1 obtain i where "lpow (n div 2) = 2 ^ i" by auto
    with False show ?thesis by (simp add: lpow.simps [of n] exI [of _ "Suc i"])
  qed
qed

lemma lpow_unique:
  assumes "2 ^ i \<le> n" and "n < 2 ^ Suc i"
  shows "lpow n = 2 ^ i"
proof -
  obtain j where j: "lpow n = 2 ^ j" using lpow_power by blast
  have n: "0 < n" using assms(1) by (cases n) simp_all
  with j lpow_bounds have b: "2 ^ j \<le> n" "n < 2 ^ Suc j" by (metis power_Suc)+
  have "\<not> i < j"
    using assms(2) b(1) by (meson Suc_leI le_less_trans less_irrefl one_le_numeral power_increasing)
  moreover have "\<not> j < i"
    using b(2) assms(1) by (meson Suc_leI le_less_trans less_irrefl one_le_numeral power_increasing)
  ultimately show ?thesis using j by simp
qed

text \<open>The tree over a range of chunks: the left subtree takes the largest power of two of them that
  leaves something for the right one.\<close>

function tree_output :: "u32 list \<Rightarrow> u32 \<Rightarrow> (nat \<Rightarrow> bytes) \<Rightarrow> nat \<Rightarrow> nat \<Rightarrow> blake_output" where
  "tree_output key flags c start n =
     (if n \<le> 1 then chunk_output (c start) (of_nat start) key flags
      else let k = lpow (n - 1)
           in parent_output (chaining_value (tree_output key flags c start k))
                (chaining_value (tree_output key flags c (start + k) (n - k))) key flags)"
  by pat_completeness auto
termination
proof (relation "measure (\<lambda>(key, flags, c, start, n). n)", goal_cases)
  case (2 key flags c start n x)
  then show ?case using lpow_bounds [of "n - 1"] by auto
next
  case (3 key flags c start n x)
  then show ?case using lpow_pos [of "n - 1"] by auto
qed simp

declare tree_output.simps [simp del]

abbreviation tree_cv :: "u32 list \<Rightarrow> u32 \<Rightarrow> (nat \<Rightarrow> bytes) \<Rightarrow> nat \<Rightarrow> nat \<Rightarrow> u32 list" where
  "tree_cv key flags c start n \<equiv> chaining_value (tree_output key flags c start n)"

text \<open>The stack after \<open>n\<close> chunks, bottom first: one perfect subtree for each bit of \<open>n\<close>.\<close>

function stack_of :: "u32 list \<Rightarrow> u32 \<Rightarrow> (nat \<Rightarrow> bytes) \<Rightarrow> nat \<Rightarrow> nat \<Rightarrow> u32 list list" where
  "stack_of key flags c start n =
     (if n = 0 then []
      else tree_cv key flags c start (lpow n) # stack_of key flags c (start + lpow n) (n - lpow n))"
  by pat_completeness auto
termination
  by (relation "measure (\<lambda>(key, flags, c, start, n). n)") (auto simp: lpow_pos)

declare stack_of.simps [simp del]

lemma stack_of_0 [simp]: "stack_of key flags c start 0 = []"
  by (simp add: stack_of.simps)

lemma lpow_mult: "0 < m \<Longrightarrow> lpow (m * 2 ^ j) = lpow m * 2 ^ j"
proof -
  assume m: "0 < m"
  obtain i where i: "lpow m = 2 ^ i" using lpow_power by blast
  with lpow_bounds [OF m] have "2 ^ i \<le> m" "m < 2 ^ Suc i" by simp_all
  then have "2 ^ (i + j) \<le> m * 2 ^ j" "m * 2 ^ j < 2 ^ Suc (i + j)"
    by (simp_all add: power_add flip: mult.assoc)
  then have "lpow (m * 2 ^ j) = 2 ^ (i + j)" by (rule lpow_unique)
  with i show ?thesis by (simp add: power_add)
qed

lemma lpow_odd:
  assumes "odd m" and "m \<noteq> 1"
  shows "lpow (m - 1) = lpow m \<and> even (lpow m) \<and> lpow m < m"
proof -
  obtain i where i: "lpow m = 2 ^ i" using lpow_power by blast
  have m: "1 < m" using assms by (cases m) auto
  with lpow_bounds [of m] i have b: "2 ^ i \<le> m" "m < 2 ^ Suc i" by simp_all
  then have "i \<noteq> 0" using m by (cases i) auto
  then have e: "even (2 ^ i :: nat)" by simp
  then have "2 ^ i \<noteq> m" using assms(1) by auto
  with b(1) have "2 ^ i \<le> m - 1" by linarith
  then have "lpow (m - 1) = 2 ^ i" using b(2) by (intro lpow_unique) simp_all
  with i e b \<open>2 ^ i \<le> m - 1\<close> m show ?thesis by simp
qed

lemma stack_of_snoc:
  "odd m \<Longrightarrow> stack_of key flags c start (m * 2 ^ j) =
     stack_of key flags c start ((m - 1) * 2 ^ j) @
       [tree_cv key flags c (start + (m - 1) * 2 ^ j) (2 ^ j)]"
proof (induction m arbitrary: start rule: less_induct)
  case (less m)
  show ?case
  proof (cases "m = 1")
    case True
    have "lpow (2 ^ j) = 2 ^ j" by (rule lpow_unique) simp_all
    with True show ?thesis by (simp add: stack_of.simps [of key flags c start "2 ^ j"])
  next
    case False
    note lo = lpow_odd [OF less.prems False]
    have m: "0 < m" "0 < m - 1" using less.prems False by (cases m; auto)+
    let ?k = "lpow m"
    have odd: "odd (m - ?k)" using less.prems lo by auto
    have "(m - ?k) - 1 = (m - 1) - ?k" by simp
    note ih = less.IH [OF _ odd, of "start + ?k * 2 ^ j"]
    have s1: "stack_of key flags c start (m * 2 ^ j) =
        tree_cv key flags c start (?k * 2 ^ j) # stack_of key flags c (start + ?k * 2 ^ j) ((m - ?k) * 2 ^ j)"
      using m by (subst stack_of.simps) (simp add: lpow_mult diff_mult_distrib)
    have s2: "stack_of key flags c start ((m - 1) * 2 ^ j) =
        tree_cv key flags c start (?k * 2 ^ j) # stack_of key flags c (start + ?k * 2 ^ j) ((m - ?k - 1) * 2 ^ j)"
    proof -
      have l2: "lpow ((m - 1) * 2 ^ j) = ?k * 2 ^ j" using lpow_mult [OF m(2), of j] lo by simp
      have d: "(m - 1) * 2 ^ j - ?k * 2 ^ j = (m - ?k - 1) * 2 ^ j"
        unfolding diff_mult_distrib [symmetric] by simp
      have "(m - 1) * 2 ^ j \<noteq> 0" using m(2) by simp
      then show ?thesis by (subst stack_of.simps) (simp only: l2 d if_False)
    qed
    have k: "?k * 2 ^ j + (m - ?k - 1) * 2 ^ j = (m - 1) * 2 ^ j"
      using lo by (simp flip: add_mult_distrib)
    show ?thesis
      unfolding s1 s2 using ih lo lpow_pos [of m] m k by (simp add: add.assoc)
  qed
qed

lemma perfect_tree:
  "tree_cv key flags c start (2 * 2 ^ j) =
     chaining_value (parent_output (tree_cv key flags c start (2 ^ j))
       (tree_cv key flags c (start + 2 ^ j) (2 ^ j)) key flags)"
proof -
  have "lpow (2 * 2 ^ j - 1) = 2 ^ j" by (rule lpow_unique) simp_all
  moreover have "\<not> 2 * 2 ^ j \<le> (1 :: nat)"
  proof -
    have "(1 :: nat) \<le> 2 ^ j" by simp
    then show ?thesis by linarith
  qed
  ultimately show ?thesis by (subst tree_output.simps) (simp add: Let_def)
qed

lemma merge_push_stack:
  "merge_push key flags (rev (stack_of key flags c start (m * 2 ^ j)))
     (tree_cv key flags c (start + m * 2 ^ j) (2 ^ j)) (m + 1) =
   Some (rev (stack_of key flags c start ((m + 1) * 2 ^ j)))"
proof (induction m arbitrary: j rule: less_induct)
  case (less m)
  show ?case
  proof (cases "odd m")
    case True
    then obtain r where r: "m = 2 * r + 1" by (auto elim: oddE)
    have e: "(m - 1) * 2 ^ j = r * 2 ^ Suc j" "(m + 1) * 2 ^ j = (r + 1) * 2 ^ Suc j" "(m + 1) div 2 = r + 1"
      using r by simp_all
    have s: "rev (stack_of key flags c start (m * 2 ^ j)) =
        tree_cv key flags c (start + r * 2 ^ Suc j) (2 ^ j) # rev (stack_of key flags c start (r * 2 ^ Suc j))"
      using stack_of_snoc [OF True, of key flags c start j] unfolding e(1) by simp
    have p: "chaining_value (parent_output (tree_cv key flags c (start + r * 2 ^ Suc j) (2 ^ j))
        (tree_cv key flags c (start + m * 2 ^ j) (2 ^ j)) key flags) = tree_cv key flags c (start + r * 2 ^ Suc j) (2 ^ Suc j)"
      using perfect_tree [of key flags c "start + r * 2 ^ Suc j" j] r by (simp add: algebra_simps)
    show ?thesis
      unfolding s by (subst merge_push.simps) (use True less.IH [of r "Suc j"] r e p in \<open>simp add: algebra_simps\<close>)
  next
    case False
    with stack_of_snoc [of "m + 1" key flags c start j] show ?thesis
      by (subst merge_push.simps) simp
  qed
qed

lemma finish_stack_tree:
  "finish_stack key flags (rev (stack_of key flags c start n))
     (chunk_output (c (start + n)) (of_nat (start + n)) key flags) = tree_output key flags c start (n + 1)"
proof (induction n arbitrary: start rule: less_induct)
  case (less n)
  show ?case
  proof (cases "n = 0")
    case True
    then show ?thesis by (simp add: finish_stack_def tree_output.simps)
  next
    case False
    let ?k = "lpow n"
    have k: "?k \<le> n" "0 < ?k" using lpow_bounds [of n] lpow_pos [of n] False by simp_all
    have s: "stack_of key flags c start n =
        tree_cv key flags c start ?k # stack_of key flags c (start + ?k) (n - ?k)"
      using False by (subst stack_of.simps) simp
    have ih: "finish_stack key flags (rev (stack_of key flags c (start + ?k) (n - ?k)))
        (chunk_output (c (start + n)) (of_nat (start + n)) key flags) =
      tree_output key flags c (start + ?k) (n - ?k + 1)"
      using less.IH [of "n - ?k" "start + ?k"] k False by simp
    have "finish_stack key flags (rev (stack_of key flags c start n))
        (chunk_output (c (start + n)) (of_nat (start + n)) key flags) =
      parent_output (tree_cv key flags c start ?k) (tree_cv key flags c (start + ?k) (n - ?k + 1)) key flags"
      unfolding s using ih by (simp add: finish_stack_def)
    moreover have "n - ?k + 1 = n + 1 - ?k" using k by simp
    ultimately show ?thesis
      using False by (subst tree_output.simps) (simp add: Let_def)
  qed
qed

lemma absorb_stack:
  assumes "cs \<noteq> []" and "\<forall>k < length cs. cs ! k = c (i + k)"
  shows "absorb key flags i (rev (stack_of key flags c 0 i)) cs =
    (let l = i + length cs - 1
     in Some (chunk_output (c l) (of_nat l) key flags, rev (stack_of key flags c 0 l)))"
  using assms
proof (induction cs arbitrary: i)
  case (Cons x cs)
  from Cons.prems(2) have x: "x = c i" by (metis add.right_neutral length_greater_0_conv list.distinct(1) nth_Cons_0)
  from Cons.prems(2) have cs: "\<forall>k < length cs. cs ! k = c (Suc i + k)" by fastforce
  have m: "merge_push key flags (rev (stack_of key flags c 0 i)) (chaining_value (chunk_output (c i) (of_nat i) key flags)) (i + 1) =
      Some (rev (stack_of key flags c 0 (i + 1)))"
    using merge_push_stack [of key flags c 0 i 0] by (simp add: tree_output.simps)
  show ?case
  proof (cases "cs = []")
    case True
    with x show ?thesis by (simp add: Let_def)
  next
    case False
    with Cons.IH [OF False, of "Suc i"] cs x m show ?thesis by (simp add: Let_def)
  qed
qed simp

lemma hash_mode_is_tree:
  "hash_mode input key flags =
     Some (root_hash (tree_output key flags (\<lambda>i. pieces CHUNK_LEN input ! i) 0 (length (pieces CHUNK_LEN input))))"
proof -
  let ?p = "pieces CHUNK_LEN input" and ?c = "\<lambda>i. pieces CHUNK_LEN input ! i"
  have ne: "?p \<noteq> []"
    by (cases "input = []") (simp_all add: pieces_def CHUNK_LEN_def chunks.simps [of 1024 input])
  have "\<forall>k < length ?p. ?p ! k = ?c (0 + k)" by simp
  from absorb_stack [OF ne this, of key flags]
  have "absorb key flags 0 [] ?p = Some (chunk_output (?c (length ?p - 1)) (of_nat (length ?p - 1)) key flags,
      rev (stack_of key flags ?c 0 (length ?p - 1)))"
    by (simp add: Let_def)
  moreover have "length ?p - 1 + 1 = length ?p" using ne by simp
  ultimately show ?thesis
    using finish_stack_tree [of key flags ?c 0 "length ?p - 1"] by (simp add: hash_mode_def)
qed

text \<open>\<open>derive_key\<close> of the source panics when \<open>derive_key_opt\<close> is \<open>None\<close>, which never happens.\<close>

definition derive_key :: "bytes \<Rightarrow> bytes \<Rightarrow> bytes" where
  "derive_key ctx material = (case derive_key_opt ctx material of Some k \<Rightarrow> k | None \<Rightarrow> [])"

lemma length_compress: "length (compress cv block counter bl flags) = 16"
  by (simp add: compress_def Let_def)

lemma length_root_hash: "length (root_hash out) = 32"
  by (simp add: root_hash_def words_to_bytes_def length_concat length_compress comp_def sum_list_triv)

text \<open>
  C28. Key derivation computes BLAKE3: for an input of any length the chunk loop with its stack of
  chaining values never pops an empty stack, and its result is the root hash of the BLAKE3 tree over
  the 1024-byte chunks (every left subtree complete); so \<open>derive_key\<close> always yields a 32-byte key, the
  tree hash of the material keyed with the tree hash of the context.
\<close>

theorem derive_key_is_blake3_tree:
  "hash_mode input key flags =
     Some (root_hash (tree_output key flags (\<lambda>i. pieces CHUNK_LEN input ! i) 0 (length (pieces CHUNK_LEN input)))) \<and>
   hash_mode material (bytes_to_words_8 (root_hash
       (tree_output IV DERIVE_KEY_CONTEXT (\<lambda>i. pieces CHUNK_LEN ctx ! i) 0 (length (pieces CHUNK_LEN ctx)))))
     DERIVE_KEY_MATERIAL = Some (derive_key ctx material) \<and>
   length (derive_key ctx material) = 32"
  by (simp add: hash_mode_is_tree derive_key_def derive_key_opt_def length_root_hash)

lemma length_derive_key [simp]: "length (derive_key ctx material) = 32"
  by (simp add: hash_mode_is_tree derive_key_def derive_key_opt_def length_root_hash)

end
