(* ===== verification/Codec.thy ===== *)
theory Codec
  imports Prelude
begin

text \<open>
  The contract of a self-delimiting wire format: an encoder, and a decoder that reads one value from
  the front of a stream and leaves the rest. The XUDP frames and the plain datagrams are instances;
  what follows once from the contract is that any sequence of values written one after the other is
  read back as that sequence.
\<close>

fun read_many :: "(bytes \<Rightarrow> 'e + 'a \<times> bytes) \<Rightarrow> nat \<Rightarrow> bytes \<Rightarrow> 'e + 'a list \<times> bytes" where
  "read_many dec 0 s = Inr ([], s)"
| "read_many dec (Suc n) s =
     (case dec s of
        Inl e \<Rightarrow> Inl e
      | Inr (x, s') \<Rightarrow>
          (case read_many dec n s' of Inl e \<Rightarrow> Inl e | Inr (xs, s'') \<Rightarrow> Inr (x # xs, s'')))"

fun write_many :: "('a \<Rightarrow> 'f + bytes) \<Rightarrow> 'a list \<Rightarrow> 'f + bytes" where
  "write_many enc [] = Inr []"
| "write_many enc (x # xs) =
     (case enc x of
        Inl e \<Rightarrow> Inl e
      | Inr b \<Rightarrow> (case write_many enc xs of Inl e \<Rightarrow> Inl e | Inr bs \<Rightarrow> Inr (b @ bs)))"

lemma write_many_append:
  "write_many enc xs = Inr bs \<Longrightarrow> write_many enc (xs @ ys) = (case write_many enc ys of Inl e \<Rightarrow> Inl e | Inr cs \<Rightarrow> Inr (bs @ cs))"
  by (induction xs arbitrary: bs) (auto split: sum.splits)

lemma write_many_snoc:
  "write_many enc xs = Inr bs \<Longrightarrow> enc y = Inr b \<Longrightarrow> write_many enc (xs @ [y]) = Inr (bs @ b)"
  by (simp add: write_many_append)

locale stream_codec =
  fixes enc :: "'a \<Rightarrow> 'f + bytes"
    and dec :: "bytes \<Rightarrow> 'e + 'a \<times> bytes"
    and valid :: "'a \<Rightarrow> bool"
  assumes dec_enc: "valid x \<Longrightarrow> enc x = Inr b \<Longrightarrow> dec (b @ rest) = Inr (x, rest)"
begin

lemma read_write_many:
  assumes "list_all valid xs" and "write_many enc xs = Inr bs"
  shows "read_many dec (length xs) (bs @ rest) = Inr (xs, rest)"
  using assms
proof (induction xs arbitrary: bs)
  case (Cons x xs)
  then obtain b cs where "enc x = Inr b" "write_many enc xs = Inr cs" "bs = b @ cs"
    by (auto split: sum.splits)
  with Cons dec_enc [of x b "cs @ rest"] show ?case by simp
qed simp

text \<open>A sequence whose encoding starts with that of another continues it, when nothing is read from the empty
  stream.\<close>

lemma write_many_prefix:
  assumes "list_all valid xs" and "list_all valid ys" and "write_many enc xs = Inr bs" and "write_many enc ys = Inr (bs @ r)"
    and "\<And>x s. dec [] \<noteq> Inr (x, s)"
  shows "\<exists>zs. ys = xs @ zs \<and> write_many enc zs = Inr r"
  using assms(1-4)
proof (induction xs arbitrary: ys bs)
  case (Cons x xs)
  then obtain b cs where x: "enc x = Inr b" "write_many enc xs = Inr cs" "bs = b @ cs"
    by (auto split: sum.splits)
  have d: "dec (bs @ r) = Inr (x, cs @ r)" using Cons.prems(1) x dec_enc [of x b "cs @ r"] by simp
  show ?case
  proof (cases ys)
    case Nil
    with Cons.prems(4) have "bs @ r = []" by simp
    with d assms(5) show ?thesis by simp
  next
    case (Cons y ys')
    with Cons.prems(4) obtain b' cs' where y: "enc y = Inr b'" "write_many enc ys' = Inr cs'" "bs @ r = b' @ cs'"
      by (auto split: sum.splits)
    with Cons.prems(2) Cons dec_enc [of y b' cs'] d have "y = x" "cs' = cs @ r" by auto
    with Cons.IH [of ys' cs] Cons.prems(1,2) x y Cons show ?thesis by simp
  qed
qed simp

text \<open>The encoding is injective on valid values, and no encoding is a proper prefix of another.\<close>

lemma enc_prefix_free:
  assumes "valid x" and "valid y" and "enc x = Inr b" and "enc y = Inr (b @ t)"
  shows "x = y \<and> t = []"
  using dec_enc [OF assms(1,3), of t] dec_enc [OF assms(2,4), of "[]"] by simp

end

end
