(* ===== verification/RecordLayer.thy ===== *)
theory RecordLayer
  imports Kdf Codec
begin

text \<open>
  The record layer of VLESS encryption, \<^verbatim>\<open>src/vless/encryption/record.rs\<close>: TLS-shaped records sealed with an
  AEAD under an incrementing nonce, with a new key derived when the nonce wraps. The AEAD
  implementations (AES-256-GCM and ChaCha20-Poly1305 of other crates) are the parameter \<open>aead\<close>; what
  is used of them is \<open>aead_correct\<close>: decryption inverts encryption under the same key, nonce and
  associated data, and the tag takes 16 bytes.
\<close>

section \<open>Data\<close>

datatype cipher_kind = Aes256Gcm | ChaCha20Poly1305

text \<open>Arguments in order: kind, key, nonce, message, associated data.\<close>

record aead =
  aead_encrypt :: "cipher_kind \<Rightarrow> bytes \<Rightarrow> bytes \<Rightarrow> bytes \<Rightarrow> bytes \<Rightarrow> bytes option"
  aead_decrypt :: "cipher_kind \<Rightarrow> bytes \<Rightarrow> bytes \<Rightarrow> bytes \<Rightarrow> bytes \<Rightarrow> bytes option"

definition aead_correct :: "aead \<Rightarrow> bool" where
  "aead_correct A \<longleftrightarrow>
     (\<forall>k key n p aad c. aead_encrypt A k key n p aad = Some c \<longrightarrow>
        aead_decrypt A k key n c aad = Some p \<and> length c = length p + 16)"

definition MAX_NONCE :: bytes where
  "MAX_NONCE = replicate 12 0xFF"

definition TAG_LEN :: nat where
  "TAG_LEN = 16"

datatype record_error =
    InvalidHeader bytes | InvalidLength nat | PlaintextTooLarge nat | LengthMismatch | Authentication

record aead_state =
  kind :: cipher_kind
  key :: bytes
  united_key :: bytes
  nonce :: bytes

section \<open>Operations\<close>

definition aead_state_new :: "bytes \<Rightarrow> bytes \<Rightarrow> cipher_kind \<Rightarrow> aead_state" where
  "aead_state_new ctx united k =
     \<lparr>kind = k, key = derive_key ctx united, united_key = united, nonce = replicate 12 0\<rparr>"

text \<open>The loop of \<open>increment_nonce\<close> runs from the last byte to the first.\<close>

fun increment_rev :: "bytes \<Rightarrow> bytes" where
  "increment_rev [] = []"
| "increment_rev (b # bs) = (if b + 1 \<noteq> 0 then (b + 1) # bs else (b + 1) # increment_rev bs)"

definition increment_nonce :: "bytes \<Rightarrow> bytes" where
  "increment_nonce n = rev (increment_rev (rev n))"

definition encrypt :: "aead \<Rightarrow> aead_state \<Rightarrow> bytes \<Rightarrow> bytes \<Rightarrow> bytes \<Rightarrow> record_error + bytes" where
  "encrypt A st n p aad =
     (case aead_encrypt A (kind st) (key st) n p aad of Some c \<Rightarrow> Inr c | None \<Rightarrow> Inl Authentication)"

definition decrypt :: "aead \<Rightarrow> aead_state \<Rightarrow> bytes \<Rightarrow> bytes \<Rightarrow> bytes \<Rightarrow> record_error + bytes" where
  "decrypt A st n c aad =
     (case aead_decrypt A (kind st) (key st) n c aad of Some p \<Rightarrow> Inr p | None \<Rightarrow> Inl Authentication)"

definition next_nonce :: "aead_state \<Rightarrow> bytes option \<Rightarrow> bytes \<times> aead_state" where
  "next_nonce st explicit =
     (case explicit of
        Some n \<Rightarrow> (n, st)
      | None \<Rightarrow> let n = increment_nonce (nonce st) in (n, st\<lparr>nonce := n\<rparr>))"

definition seal_raw ::
  "aead \<Rightarrow> aead_state \<Rightarrow> bytes \<Rightarrow> bytes \<Rightarrow> bytes option \<Rightarrow> (record_error + bytes) \<times> aead_state" where
  "seal_raw A st p aad explicit =
     (case next_nonce st explicit of (n, st') \<Rightarrow> (encrypt A st' n p aad, st'))"

definition open_raw ::
  "aead \<Rightarrow> aead_state \<Rightarrow> bytes \<Rightarrow> bytes \<Rightarrow> bytes option \<Rightarrow> (record_error + bytes) \<times> aead_state" where
  "open_raw A st c aad explicit =
     (case next_nonce st explicit of (n, st') \<Rightarrow> (decrypt A st' n c aad, st'))"

definition encode_header :: "nat \<Rightarrow> record_error + bytes" where
  "encode_header len =
     (if \<not> (17 \<le> len \<and> len \<le> 16640) then Inl (InvalidLength len)
      else Inr ([0x17, 3, 3] @ be_len16 len))"

definition decode_header :: "bytes \<Rightarrow> record_error + nat" where
  "decode_header header =
     (let len = len16 (header ! 3) (header ! 4)
      in if take 3 header \<noteq> [0x17, 3, 3] \<or> \<not> (17 \<le> len \<and> len \<le> 16640)
         then Inl (InvalidHeader header) else Inr len)"

definition seal :: "aead \<Rightarrow> aead_state \<Rightarrow> bytes \<Rightarrow> (record_error + bytes) \<times> aead_state" where
  "seal A st p =
     (if 8192 < length p then (Inl (PlaintextTooLarge (length p)), st)
      else case encode_header (length p + TAG_LEN) of
             Inl e \<Rightarrow> (Inl e, st)
           | Inr header \<Rightarrow>
               let rekey = (nonce st = MAX_NONCE)
               in (case seal_raw A st p header None of
                     (Inl e, st') \<Rightarrow> (Inl e, st')
                   | (Inr c, st') \<Rightarrow>
                       let out = header @ c
                       in (Inr out, if rekey then st'\<lparr>key := derive_key out (united_key st')\<rparr> else st')))"

definition open_record :: "aead \<Rightarrow> aead_state \<Rightarrow> bytes \<Rightarrow> bytes \<Rightarrow> (record_error + bytes) \<times> aead_state" where
  "open_record A st header c =
     (case decode_header header of
        Inl e \<Rightarrow> (Inl e, st)
      | Inr len \<Rightarrow>
          if len \<noteq> length c then (Inl LengthMismatch, st)
          else
            let rekey = (nonce st = MAX_NONCE); ctx = (if rekey then header @ c else [])
            in (case open_raw A st c header None of
                  (Inl e, st') \<Rightarrow> (Inl e, st')
                | (Inr p, st') \<Rightarrow>
                    (Inr p, if rekey then st'\<lparr>key := derive_key ctx (united_key st')\<rparr> else st')))"

section \<open>The nonce is a 96-bit counter\<close>

fun le_value :: "bytes \<Rightarrow> nat" where
  "le_value [] = 0"
| "le_value (b # bs) = unat b + 256 * le_value bs"

definition be_value :: "bytes \<Rightarrow> nat" where
  "be_value bs = le_value (rev bs)"

lemma le_value_less: "le_value bs < 256 ^ length bs"
proof (induction bs)
  case (Cons b bs)
  have "unat b < 2 ^ 8" using unsigned_less [of b] by simp
  then have "unat b + 256 * le_value bs < 256 * (le_value bs + 1)" by simp
  also have "\<dots> \<le> 256 * 256 ^ length bs" using Cons by (simp add: Suc_leI del: mult_Suc_right)
  finally show ?case by simp
qed simp

lemma u8_Suc: "(b :: u8) + 1 \<noteq> 0 \<Longrightarrow> unat (b + 1) = Suc (unat b)"
  using unatSuc [of b] by (simp add: add.commute)

lemma u8_wrap: "(b :: u8) + 1 = 0 \<Longrightarrow> unat b = 255"
proof -
  assume "b + 1 = 0"
  then have "b = - 1" by (simp add: eq_neg_iff_add_eq_0)
  then show ?thesis by (simp add: unsigned_minus_1_eq_mask mask_eq_exp_minus_1)
qed

lemma le_value_increment: "le_value (increment_rev bs) = (le_value bs + 1) mod 256 ^ length bs"
proof (induction bs)
  case (Cons b bs)
  show ?case
  proof (cases "b + 1 = 0")
    case True
    then have "le_value (b # bs) + 1 = 256 * (le_value bs + 1)" by (simp add: u8_wrap)
    with True Cons show ?thesis by (simp add: mod_mult_mult1 del: mult_Suc_right)
  next
    case False
    have "le_value ((b + 1) # bs) < 256 ^ length (b # bs)" using le_value_less [of "(b + 1) # bs"] by simp
    with False show ?thesis by (simp add: u8_Suc)
  qed
qed simp

lemma length_increment_rev [simp]: "length (increment_rev bs) = length bs"
  by (induction bs) simp_all

lemma length_increment_nonce [simp]: "length (increment_nonce n) = length n"
  by (simp add: increment_nonce_def)

lemma increment_nonce_value: "be_value (increment_nonce n) = (be_value n + 1) mod 256 ^ length n"
  using le_value_increment [of "rev n"] by (simp add: be_value_def increment_nonce_def)

lemma le_value_replicate_0: "le_value (replicate n 0) = 0"
  by (induction n) simp_all

lemma le_value_max_iff: "le_value bs + 1 = 256 ^ length bs \<longleftrightarrow> bs = replicate (length bs) 0xFF"
proof (induction bs)
  case (Cons b bs)
  have b: "unat b < 2 ^ 8" using unsigned_less [of b] by simp
  have l: "le_value bs + 1 \<le> 256 ^ length bs" using le_value_less [of bs] by simp
  have ff: "b = 0xFF \<longleftrightarrow> unat b = 255" by (simp add: word_unat_eq_iff)
  have "unat b + 256 * le_value bs + 1 = 256 * y \<longleftrightarrow> unat b = 255 \<and> le_value bs + 1 = y"
    if "unat b < 256" "le_value bs + 1 \<le> y" for y
    using that by arith
  from this [OF _ l] b have "unat b + 256 * le_value bs + 1 = 256 * 256 ^ length bs \<longleftrightarrow>
      unat b = 255 \<and> le_value bs + 1 = 256 ^ length bs" by simp
  with Cons ff show ?case by simp
qed simp

lemma nonce_max_iff:
  assumes "length n = 12"
  shows "n = MAX_NONCE \<longleftrightarrow> be_value n = 256 ^ 12 - 1"
proof -
  have "n = MAX_NONCE \<longleftrightarrow> rev n = replicate 12 0xFF"
    by (metis MAX_NONCE_def rev_replicate rev_rev_ident)
  also have "\<dots> \<longleftrightarrow> le_value (rev n) + 1 = 256 ^ 12"
    using le_value_max_iff [of "rev n"] assms by simp
  also have "\<dots> \<longleftrightarrow> be_value n = 256 ^ 12 - 1" by (auto simp: be_value_def)
  finally show ?thesis .
qed

section \<open>Records round-trip\<close>

lemma decode_encode_header:
  assumes "encode_header n = Inr h"
  shows "length h = 5 \<and> decode_header h = Inr n"
proof -
  from assms have h: "h = [0x17, 3, 3] @ be_len16 n" "17 \<le> n" "n \<le> 16640"
    by (auto simp: encode_header_def split: if_splits)
  have "len16 (be_len16 n ! 0) (be_len16 n ! 1) = n"
    using h(3) by (simp add: be_len16_Cons len16_be_len16)
  with h show ?thesis
    by (simp add: decode_header_def Let_def be_len16_Cons)
qed

lemma seal_then_open:
  assumes A: "aead_correct A" and s: "seal A st p = (Inr out, st')"
  obtains header c where "out = header @ c" "length header = 5" "decode_header header = Inr (length c)"
    "open_record A st header c = (Inr p, st')" "0 < length p"
proof -
  from s have lp: "\<not> 8192 < length p" by (auto simp: seal_def)
  with s obtain header where h: "encode_header (length p + TAG_LEN) = Inr header"
    by (auto simp: seal_def split: sum.splits)
  obtain c where c: "aead_encrypt A (kind st) (key st) (increment_nonce (nonce st)) p header = Some c"
    and out: "out = header @ c"
    using s lp h by (auto simp: seal_def seal_raw_def next_nonce_def encrypt_def Let_def
        split: option.splits)
  from A c have d: "aead_decrypt A (kind st) (key st) (increment_nonce (nonce st)) c header = Some p"
      "length c = length p + 16"
    by (auto simp: aead_correct_def)
  have h2: "length header = 5" "decode_header header = Inr (length c)"
    using decode_encode_header [OF h] d(2) by (simp_all add: TAG_LEN_def)
  have "0 < length p" using h by (auto simp: encode_header_def TAG_LEN_def split: if_splits)
  moreover have "open_record A st header c = (Inr p, st')"
    using s lp h c d h2 out
    by (auto simp: open_record_def open_raw_def next_nonce_def decrypt_def seal_def seal_raw_def encrypt_def Let_def)
  ultimately show thesis using that out h2 by blast
qed

text \<open>A run of the sender.\<close>

fun seal_all :: "aead \<Rightarrow> aead_state \<Rightarrow> bytes list \<Rightarrow> (bytes list \<times> aead_state) option" where
  "seal_all A st [] = Some ([], st)"
| "seal_all A st (p # ps) =
     (case seal A st p of
        (Inl e, st') \<Rightarrow> None
      | (Inr b, st') \<Rightarrow> (case seal_all A st' ps of None \<Rightarrow> None | Some (bs, st'') \<Rightarrow> Some (b # bs, st'')))"

lemma seal_nonce:
  assumes "seal A st p = (Inr out, st')" and "length (nonce st) = 12"
  shows "be_value (nonce st') = (be_value (nonce st) + 1) mod 2 ^ 96 \<and> length (nonce st') = 12 \<and>
    (be_value (nonce st) + 1 < 2 ^ 96 \<longrightarrow> key st' = key st)"
proof -
  have n: "nonce st' = increment_nonce (nonce st)" "nonce st \<noteq> MAX_NONCE \<longrightarrow> key st' = key st"
    using assms(1) by (auto simp: seal_def seal_raw_def next_nonce_def Let_def split: if_splits sum.splits)
  with assms(2) nonce_max_iff [OF assms(2)] increment_nonce_value [of "nonce st"] show ?thesis
    by auto
qed

lemma seal_all_nonce:
  assumes "seal_all A st ps = Some (outs, st')" and "length (nonce st) = 12"
  shows "be_value (nonce st') = (be_value (nonce st) + length ps) mod 2 ^ 96 \<and>
    (be_value (nonce st) + length ps < 2 ^ 96 \<longrightarrow> key st' = key st)"
  using assms
proof (induction ps arbitrary: st outs)
  case Nil
  then show ?case using le_value_less [of "rev (nonce st)"] by (simp add: be_value_def)
next
  case (Cons p ps)
  obtain b st1 bs where s: "seal A st p = (Inr b, st1)" "seal_all A st1 ps = Some (bs, st')"
    using Cons.prems(1) by (auto split: sum.splits option.splits prod.splits)
  note n = seal_nonce [OF s(1) Cons.prems(2)]
  then have IH: "be_value (nonce st') = (be_value (nonce st1) + length ps) mod 2 ^ 96 \<and>
      (be_value (nonce st1) + length ps < 2 ^ 96 \<longrightarrow> key st' = key st1)"
    by (intro Cons.IH [OF s(2)]) simp
  have "(be_value (nonce st1) + length ps) mod 2 ^ 96 = (be_value (nonce st) + length (p # ps)) mod 2 ^ 96"
    using n by (simp add: mod_add_left_eq)
  with IH n show ?case by auto
qed

lemma seal_all_united: "seal_all A st ps = Some (outs, st') \<Longrightarrow> united_key st' = united_key st"
proof (induction ps arbitrary: st outs)
  case (Cons p ps)
  obtain b st1 bs where s: "seal A st p = (Inr b, st1)" "seal_all A st1 ps = Some (bs, st')"
    using Cons.prems by (auto split: sum.splits option.splits prod.splits)
  then have "united_key st1 = united_key st"
    by (auto simp: seal_def seal_raw_def next_nonce_def Let_def split: if_splits sum.splits)
  with Cons.IH [OF s(2)] show ?case by simp
qed simp

text \<open>What one record was encrypted with: the key of the state and the nonce after the one it holds.\<close>

lemma seal_encrypts:
  assumes "seal A st p = (Inr out, st')"
  shows "aead_encrypt A (kind st) (key st) (nonce st') p (take 5 out) = Some (drop 5 out) \<and> kind st' = kind st"
  using assms by (auto simp: seal_def seal_raw_def next_nonce_def encrypt_def Let_def
      dest!: decode_encode_header split: if_splits sum.splits option.splits)

fun nonces_used :: "aead \<Rightarrow> aead_state \<Rightarrow> bytes list \<Rightarrow> bytes list" where
  "nonces_used A st [] = []"
| "nonces_used A st (p # ps) = (let st' = snd (seal A st p) in nonce st' # nonces_used A st' ps)"

lemma nonces_used_length [simp]: "length (nonces_used A st ps) = length ps"
  by (induction ps arbitrary: st) (simp_all add: Let_def)

lemma seal_all_encrypts:
  assumes "seal_all A st ps = Some (outs, st')" and "length (nonce st) = 12" and "i < length ps"
  shows "length (nonces_used A st ps ! i) = 12 \<and>
    be_value (nonces_used A st ps ! i) = (be_value (nonce st) + i + 1) mod 2 ^ 96 \<and>
    (be_value (nonce st) + i < 2 ^ 96 \<longrightarrow>
      aead_encrypt A (kind st) (key st) (nonces_used A st ps ! i) (ps ! i) (take 5 (outs ! i)) = Some (drop 5 (outs ! i)))"
  using assms
proof (induction ps arbitrary: st outs i)
  case (Cons p ps)
  obtain b st1 bs where s: "seal A st p = (Inr b, st1)" "seal_all A st1 ps = Some (bs, st')" "outs = b # bs"
    using Cons.prems(1) by (auto split: sum.splits option.splits prod.splits)
  note n = seal_nonce [OF s(1) Cons.prems(2)] and e = seal_encrypts [OF s(1)]
  show ?case
  proof (cases i)
    case 0
    with n e s show ?thesis by (simp add: Let_def)
  next
    case (Suc j)
    have IH: "length (nonces_used A st1 ps ! j) = 12 \<and>
        be_value (nonces_used A st1 ps ! j) = (be_value (nonce st1) + j + 1) mod 2 ^ 96 \<and>
        (be_value (nonce st1) + j < 2 ^ 96 \<longrightarrow>
          aead_encrypt A (kind st1) (key st1) (nonces_used A st1 ps ! j) (ps ! j) (take 5 (bs ! j)) = Some (drop 5 (bs ! j)))"
      using Cons.IH [OF s(2)] Cons.prems(3) n Suc by simp
    have "(be_value (nonce st1) + j + 1) mod 2 ^ 96 = (be_value (nonce st) + i + 1) mod 2 ^ 96"
      using n Suc by (metis add.assoc add.commute mod_add_left_eq plus_1_eq_Suc)
    moreover have "be_value (nonce st1) + j < 2 ^ 96 \<and> key st1 = key st" if "be_value (nonce st) + i < 2 ^ 96"
      using n Suc that by simp
    ultimately show ?thesis using IH e s Suc by (auto simp: Let_def)
  qed
qed simp

lemma counted_distinct:
  fixes f :: "'a \<Rightarrow> nat"
  assumes "\<And>i. i < length ns \<Longrightarrow> f (ns ! i) = (i + 1) mod N"
  shows "distinct (take N ns)"
proof -
  have "i = j" if "(i + 1) mod N = (j + 1) mod N" "i < N" "j < N" for i j :: nat
    using that by (auto simp: mod_Suc split: if_splits)
  then show ?thesis
    using assms unfolding distinct_conv_nth by (metis length_take min_less_iff_conj nth_take)
qed


text \<open>A stand-in cipher: the tag is sixteen zero bytes.\<close>

definition toy_aead :: aead where
  "toy_aead = \<lparr>aead_encrypt = (\<lambda>_ _ _ p _. Some (p @ replicate 16 0)),
               aead_decrypt = (\<lambda>_ _ _ c _. if 16 \<le> length c then Some (take (length c - 16) c) else None)\<rparr>"

lemma toy_aead_correct: "aead_correct toy_aead"
  by (simp add: aead_correct_def toy_aead_def)

lemma toy_seal: "0 < length p \<Longrightarrow> length p \<le> 8192 \<Longrightarrow> \<exists>out st'. seal toy_aead st p = (Inr out, st')"
  by (auto simp: seal_def encode_header_def TAG_LEN_def seal_raw_def next_nonce_def encrypt_def toy_aead_def Let_def
      Suc_le_eq)


end
