(* ===== verification/Xor.thy ===== *)
theory Xor
  imports RecordLayer
begin

text \<open>
  The header mask of VLESS encryption, \<^verbatim>\<open>src/vless/encryption/xor.rs\<close>: only the five header bytes of every
  record are XORed with an AES-CTR key stream, the record bodies pass unchanged. The AES-CTR
  implementation is the parameter \<open>ks\<close>: the key stream of a key and an IV, byte by byte. The source
  walks over runs of bytes; \<open>hx_bytes\<close> is the same transform one byte at a time.
\<close>

section \<open>State and operations\<close>

type_synonym keystream = "bytes \<Rightarrow> bytes \<Rightarrow> nat \<Rightarrow> u8"

record header_xor =
  hx_stream :: "nat \<Rightarrow> u8"
  hx_pos :: nat
  skip :: nat
  hx_header :: bytes
  hx_decrypt :: bool

definition header_xor_new :: "keystream \<Rightarrow> bytes \<Rightarrow> bytes \<Rightarrow> nat \<Rightarrow> bool \<Rightarrow> header_xor" where
  "header_xor_new ks united iv sk decr =
     \<lparr>hx_stream = ks (derive_key (bytes_of ''VLESS'') united) iv, hx_pos = 0, skip = sk, hx_header = [],
      hx_decrypt = decr\<rparr>"

definition outbound :: "keystream \<Rightarrow> bytes \<Rightarrow> bytes \<Rightarrow> nat \<Rightarrow> header_xor" where
  "outbound ks united iv sk = header_xor_new ks united iv sk False"

definition inbound :: "keystream \<Rightarrow> bytes \<Rightarrow> bytes \<Rightarrow> nat \<Rightarrow> header_xor" where
  "inbound ks united iv sk = header_xor_new ks united iv sk True"

definition apply_keystream :: "(nat \<Rightarrow> u8) \<Rightarrow> nat \<Rightarrow> bytes \<Rightarrow> bytes" where
  "apply_keystream s pos bs = map (\<lambda>(i, b). b XOR s (pos + i)) (enumerate 0 bs)"

text \<open>The loop of \<open>apply\<close> on the bytes from \<open>offset\<close> on. The loop keeps fewer than five header bytes,
  so \<open>5 - header.len()\<close> is positive; the first branch is never taken (\<open>hx_ok\<close> below).\<close>

function apply_loop :: "header_xor \<Rightarrow> bytes \<Rightarrow> record_error + bytes \<times> header_xor" where
  "apply_loop hx bs =
     (if bs = [] then Inr ([], hx)
      else if 5 \<le> length (hx_header hx) then Inl (InvalidHeader (hx_header hx))
      else
        let skipped = min (skip hx) (length bs);
            hx1 = hx\<lparr>skip := skip hx - skipped\<rparr>;
            rest = drop skipped bs
        in if rest = [] then Inr (bs, hx1)
           else
             let t = min (5 - length (hx_header hx)) (length rest);
                 chunk = take t rest;
                 masked = apply_keystream (hx_stream hx) (hx_pos hx) chunk;
                 h = hx_header hx @ (if hx_decrypt hx then masked else chunk);
                 hx2 = hx1\<lparr>hx_pos := hx_pos hx + t, hx_header := h\<rparr>
             in (case (if length h = 5
                       then (case decode_header h of
                               Inl e \<Rightarrow> Inl e
                             | Inr n \<Rightarrow> Inr (hx2\<lparr>skip := n, hx_header := []\<rparr>))
                       else Inr hx2) of
                   Inl e \<Rightarrow> Inl e
                 | Inr hx3 \<Rightarrow>
                     (case apply_loop hx3 (drop t rest) of
                        Inl e \<Rightarrow> Inl e
                      | Inr (out, hx4) \<Rightarrow> Inr (take skipped bs @ masked @ out, hx4))))"
  by pat_completeness auto
termination
  by (relation "measure (\<lambda>(hx, bs). length bs)") auto

declare apply_loop.simps [simp del]

definition apply_xor :: "header_xor \<Rightarrow> bytes \<Rightarrow> record_error + bytes \<times> header_xor" where
  "apply_xor hx bs = apply_loop hx bs"

section \<open>One byte at a time\<close>

definition hx_ok :: "header_xor \<Rightarrow> bool" where
  "hx_ok hx \<longleftrightarrow> length (hx_header hx) < 5"

definition hx_step :: "header_xor \<Rightarrow> u8 \<Rightarrow> record_error + u8 \<times> header_xor" where
  "hx_step hx b =
     (if 0 < skip hx then Inr (b, hx\<lparr>skip := skip hx - 1\<rparr>)
      else
        let m = b XOR hx_stream hx (hx_pos hx);
            h = hx_header hx @ [if hx_decrypt hx then m else b];
            hx' = hx\<lparr>hx_pos := hx_pos hx + 1, hx_header := h\<rparr>
        in if length h = 5
           then (case decode_header h of Inl e \<Rightarrow> Inl e | Inr n \<Rightarrow> Inr (m, hx'\<lparr>skip := n, hx_header := []\<rparr>))
           else Inr (m, hx'))"

fun hx_bytes :: "header_xor \<Rightarrow> bytes \<Rightarrow> record_error + bytes \<times> header_xor" where
  "hx_bytes hx [] = Inr ([], hx)"
| "hx_bytes hx (b # bs) =
     (case hx_step hx b of
        Inl e \<Rightarrow> Inl e
      | Inr (m, hx') \<Rightarrow>
          (case hx_bytes hx' bs of Inl e \<Rightarrow> Inl e | Inr (ms, hx'') \<Rightarrow> Inr (m # ms, hx'')))"

lemma hx_bytes_append:
  "hx_bytes hx (xs @ ys) =
     (case hx_bytes hx xs of
        Inl e \<Rightarrow> Inl e
      | Inr (ms, hx') \<Rightarrow>
          (case hx_bytes hx' ys of Inl e \<Rightarrow> Inl e | Inr (ns, hx'') \<Rightarrow> Inr (ms @ ns, hx'')))"
proof (induction xs arbitrary: hx)
  case Nil
  show ?case by (cases "hx_bytes hx ys") auto
next
  case (Cons x xs)
  show ?case
  proof (cases "hx_step hx x")
    case (Inr p)
    obtain m hx' where "p = (m, hx')" by fastforce
    with Inr Cons.IH [of hx'] show ?thesis by (auto split: sum.splits prod.splits)
  qed simp
qed

lemma hx_bytes_skip:
  "length xs \<le> skip hx \<Longrightarrow> hx_bytes hx xs = Inr (xs, hx\<lparr>skip := skip hx - length xs\<rparr>)"
  by (induction xs arbitrary: hx) (auto simp: hx_step_def)

lemma apply_keystream_Cons: "apply_keystream s pos (b # bs) = (b XOR s pos) # apply_keystream s (Suc pos) bs"
proof -
  have "map (\<lambda>(i, b). b XOR s (pos + i)) (enumerate (Suc 0) bs) = map (\<lambda>(i, b). b XOR s (Suc pos + i)) (enumerate 0 bs)"
    by (rule nth_equalityI) (simp_all add: nth_enumerate_eq)
  then show ?thesis by (simp add: apply_keystream_def)
qed

lemma apply_keystream_Nil [simp]: "apply_keystream s pos [] = []"
  by (simp add: apply_keystream_def)

lemma hx_bytes_header:
  assumes "skip hx = 0" and "xs \<noteq> []" and "length (hx_header hx) + length xs \<le> 5"
  shows "hx_bytes hx xs =
    (let m = apply_keystream (hx_stream hx) (hx_pos hx) xs;
         h = hx_header hx @ (if hx_decrypt hx then m else xs);
         hx' = hx\<lparr>hx_pos := hx_pos hx + length xs, hx_header := h\<rparr>
     in if length h = 5
        then (case decode_header h of Inl e \<Rightarrow> Inl e | Inr n \<Rightarrow> Inr (m, hx'\<lparr>skip := n, hx_header := []\<rparr>))
        else Inr (m, hx'))"
  using assms
proof (induction xs arbitrary: hx)
  case (Cons b bs)
  show ?case
  proof (cases "bs = []")
    case True
    with Cons.prems show ?thesis
      by (auto simp: hx_step_def Let_def apply_keystream_Cons split: sum.splits)
  next
    case False
    let ?m = "b XOR hx_stream hx (hx_pos hx)"
    let ?hx = "hx\<lparr>hx_pos := hx_pos hx + 1, hx_header := hx_header hx @ [if hx_decrypt hx then ?m else b]\<rparr>"
    have st: "hx_step hx b = Inr (?m, ?hx)"
      using Cons.prems False by (cases bs) (auto simp: hx_step_def Let_def)
    have "length (apply_keystream s p bs) = length bs" for s p by (simp add: apply_keystream_def)
    with Cons.IH [of ?hx] Cons.prems False st show ?thesis
      by (auto simp: Let_def apply_keystream_Cons split: sum.splits)
  qed
qed simp

lemma length_apply_keystream [simp]: "length (apply_keystream s p bs) = length bs"
  by (simp add: apply_keystream_def)

lemma apply_is_bytes: "hx_ok hx \<Longrightarrow> apply_xor hx bs = hx_bytes hx bs"
  unfolding apply_xor_def
proof (induction hx bs rule: apply_loop.induct)
  case (1 hx bs)
  define k where "k = min (skip hx) (length bs)"
  define hx1 where "hx1 = hx\<lparr>skip := skip hx - k\<rparr>"
  define rest where "rest = drop k bs"
  define t where "t = min (5 - length (hx_header hx)) (length rest)"
  define chunk where "chunk = take t rest"
  define masked where "masked = apply_keystream (hx_stream hx) (hx_pos hx) chunk"
  define h where "h = hx_header hx @ (if hx_decrypt hx then masked else chunk)"
  define hx2 where "hx2 = hx1\<lparr>hx_pos := hx_pos hx + t, hx_header := h\<rparr>"
  define r where "r = (if length h = 5
      then (case decode_header h of Inl e \<Rightarrow> Inl e | Inr n \<Rightarrow> Inr (hx2\<lparr>skip := n, hx_header := []\<rparr>)) else Inr hx2)"
  note defs = k_def hx1_def rest_def t_def chunk_def masked_def h_def hx2_def r_def
  have hd: "length (hx_header hx) < 5" using "1.prems" by (simp add: hx_ok_def)
  show ?case
  proof (cases "rest = []")
    case True
    then have "length bs \<le> skip hx" by (auto simp: rest_def k_def)
    with True hd show ?thesis
      by (subst apply_loop.simps) (simp add: Let_def hx_bytes_skip)
  next
    case False
    then have ne: "bs \<noteq> []" by (auto simp: rest_def)
    have sk: "skip hx1 = 0" using False by (auto simp: hx1_def rest_def k_def)
    have lc: "length chunk = t" "0 < t" "length (hx_header hx) + t \<le> 5"
      using False hd by (auto simp: chunk_def t_def)
    have split: "bs = take k bs @ chunk @ drop t rest"
      by (simp only: chunk_def rest_def append_take_drop_id)
    have h1: "hx_bytes hx (take k bs) = Inr (take k bs, hx1)"
      using hx_bytes_skip [of "take k bs" hx] by (simp add: hx1_def k_def)
    have h2: "hx_bytes hx1 chunk = (case r of Inl e \<Rightarrow> Inl e | Inr hx3 \<Rightarrow> Inr (masked, hx3))"
    proof -
      have "chunk \<noteq> []" "length (hx_header hx1) + length chunk \<le> 5"
        using lc by (auto simp: hx1_def)
      note e = hx_bytes_header [OF sk this]
      have f: "hx_stream hx1 = hx_stream hx" "hx_pos hx1 = hx_pos hx" "hx_header hx1 = hx_header hx"
          "hx_decrypt hx1 = hx_decrypt hx" by (simp_all add: hx1_def)
      show ?thesis
        unfolding e f Let_def masked_def [symmetric] h_def [symmetric] lc(1) hx2_def [symmetric] r_def
        by (cases "length h = 5") (simp_all split: sum.splits)
    qed
    have unf: "apply_loop hx bs = (case r of Inl e \<Rightarrow> Inl e | Inr hx3 \<Rightarrow>
        (case apply_loop hx3 (drop t rest) of Inl e \<Rightarrow> Inl e
         | Inr (out, hx4) \<Rightarrow> Inr (take k bs @ masked @ out, hx4)))"
      using ne hd False
      by (subst apply_loop.simps)
        (simp only: Let_def if_False not_le [symmetric] simp_thms defs [symmetric])
    show ?thesis
    proof (cases r)
      case (Inl e)
      have "hx_bytes hx bs = Inl e"
        by (subst split) (simp only: hx_bytes_append h1 h2 Inl sum.case prod.case)
      then show ?thesis unfolding unf Inl by simp
    next
      case (Inr hx3)
      have ok3: "hx_ok hx3"
        using Inr lc by (auto simp: hx_ok_def r_def hx2_def h_def masked_def split: if_splits sum.splits)
      have ih: "apply_loop hx3 (drop t rest) = hx_bytes hx3 (drop t rest)"
        by (rule "1.IH" [OF ne _ k_def hx1_def rest_def False t_def chunk_def masked_def h_def hx2_def
              Inr [unfolded r_def] ok3]) (use hd in simp)
      have "hx_bytes hx bs = (case hx_bytes hx3 (drop t rest) of Inl e \<Rightarrow> Inl e
          | Inr (out, hx4) \<Rightarrow> Inr (take k bs @ masked @ out, hx4))"
        by (subst split) (simp only: hx_bytes_append h1 h2 Inr sum.case prod.case, simp split: sum.splits prod.splits)
      then show ?thesis by (simp only: unf Inr sum.case ih)
    qed
  qed
qed

lemma hx_step_ok: "hx_step hx b = Inr (m, hx') \<Longrightarrow> hx_ok hx \<Longrightarrow> hx_ok hx'"
  by (auto simp: hx_step_def hx_ok_def Let_def split: if_splits sum.splits)

lemma hx_bytes_ok: "hx_bytes hx bs = Inr (ms, hx') \<Longrightarrow> hx_ok hx \<Longrightarrow> hx_ok hx' \<and> length ms = length bs"
proof (induction bs arbitrary: hx ms)
  case (Cons b bs)
  then obtain m hx1 ns where "hx_step hx b = Inr (m, hx1)" "hx_bytes hx1 bs = Inr (ns, hx')" "ms = m # ns"
    by (auto split: sum.splits)
  with Cons.IH Cons.prems(2) hx_step_ok show ?case by fastforce
qed simp

lemma hx_ok_new: "hx_ok (header_xor_new ks united iv sk d)"
  by (simp add: hx_ok_def header_xor_new_def)

section \<open>Masking and unmasking\<close>

text \<open>The two ends of a connection agree on everything but the direction.\<close>

definition paired :: "header_xor \<Rightarrow> header_xor \<Rightarrow> bool" where
  "paired tx rx \<longleftrightarrow> \<not> hx_decrypt tx \<and> rx = tx\<lparr>hx_decrypt := True\<rparr>"

lemma paired_new: "paired (outbound ks united iv sk) (inbound ks united iv sk)"
  by (simp add: paired_def outbound_def inbound_def header_xor_new_def)

lemma paired_step:
  assumes "paired tx rx" and "hx_step tx b = Inr (m, tx')"
  shows "\<exists>rx'. hx_step rx m = Inr (b, rx') \<and> paired tx' rx'"
  using assms
  by (auto simp: paired_def hx_step_def Let_def xor.assoc split: if_splits sum.splits)

lemma paired_bytes:
  assumes "paired tx rx" and "hx_bytes tx bs = Inr (ms, tx')"
  shows "\<exists>rx'. hx_bytes rx ms = Inr (bs, rx') \<and> paired tx' rx'"
  using assms
proof (induction bs arbitrary: tx rx ms)
  case (Cons b bs)
  then obtain m tx1 ns where s: "hx_step tx b = Inr (m, tx1)" "hx_bytes tx1 bs = Inr (ns, tx')" "ms = m # ns"
    by (auto split: sum.splits)
  from paired_step [OF Cons.prems(1) s(1)] obtain rx1 where "hx_step rx m = Inr (b, rx1)" "paired tx1 rx1" by blast
  with Cons.IH [OF _ s(2)] s(3) show ?case by fastforce
qed simp

fun apply_pieces :: "header_xor \<Rightarrow> bytes list \<Rightarrow> record_error + bytes \<times> header_xor" where
  "apply_pieces hx [] = Inr ([], hx)"
| "apply_pieces hx (p # ps) =
     (case apply_xor hx p of
        Inl e \<Rightarrow> Inl e
      | Inr (out, hx') \<Rightarrow>
          (case apply_pieces hx' ps of Inl e \<Rightarrow> Inl e | Inr (outs, hx'') \<Rightarrow> Inr (out @ outs, hx'')))"

lemma apply_pieces_bytes: "hx_ok hx \<Longrightarrow> apply_pieces hx ps = hx_bytes hx (concat ps)"
proof (induction ps arbitrary: hx)
  case (Cons p ps)
  show ?case
  proof (cases "hx_bytes hx p")
    case (Inl e)
    with Cons.prems show ?thesis by (simp add: apply_is_bytes hx_bytes_append)
  next
    case (Inr r)
    obtain out hx' where r: "r = (out, hx')" by fastforce
    with Inr Cons.prems have "hx_ok hx'" using hx_bytes_ok by blast
    with Cons.IH [of hx'] Inr r Cons.prems show ?thesis
      by (simp add: apply_is_bytes hx_bytes_append)
  qed
qed simp

text \<open>
  The header mask is transparent: whatever pieces the sender feeds through the outbound
  transform and however the receiver cuts the masked stream into pieces again, the inbound
  transform of the same key and IV gives back the sender's stream (or a prefix of it when less
  arrives than was sent); splitting a buffer never changes the result of \<open>apply\<close>.
\<close>

lemma header_mask_transparent:
  assumes "apply_pieces (outbound ks united iv sk) ps = Inr (wire, tx)" and "wire = concat qs @ rest"
  shows "\<exists>out rx. apply_pieces (inbound ks united iv sk) qs = Inr (out, rx) \<and>
           out = take (length (concat qs)) (concat ps)"
proof -
  have ok: "hx_ok (outbound ks united iv sk)" "hx_ok (inbound ks united iv sk)"
    by (simp_all add: outbound_def inbound_def hx_ok_new)
  have "hx_bytes (outbound ks united iv sk) (concat ps) = Inr (wire, tx)"
    using assms(1) by (simp add: apply_pieces_bytes [OF ok(1)])
  from paired_bytes [OF paired_new this] obtain rx where "hx_bytes (inbound ks united iv sk) (concat qs @ rest) = Inr (concat ps, rx)"
    unfolding assms(2) by blast
  then obtain out rx1 t where o: "hx_bytes (inbound ks united iv sk) (concat qs) = Inr (out, rx1)" "out @ t = concat ps"
    by (cases "hx_bytes (inbound ks united iv sk) (concat qs)") (auto simp: hx_bytes_append split: sum.splits)
  with hx_bytes_ok [OF o(1) ok(2)] show ?thesis
    by (auto simp: apply_pieces_bytes [OF ok(2)] simp flip: o(2))
qed

lemma header_mask_transparent_example:
  "\<exists>wire tx out rx. apply_pieces (outbound (\<lambda>_ _ i. of_nat i + 7) [1] [2] 0) [[0x17, 3], [3, 0, 17, 9, 9]] = Inr (wire, tx) \<and>
     apply_pieces (inbound (\<lambda>_ _ i. of_nat i + 7) [1] [2] 0) [wire] = Inr (out, rx) \<and>
     out = [0x17, 3, 3, 0, 17, 9, 9]"
proof -
  have ok: "hx_ok (outbound (\<lambda>_ _ i. of_nat i + 7) [1] [2] 0)" by (simp add: outbound_def hx_ok_new)
  obtain wire tx where w: "apply_pieces (outbound (\<lambda>_ _ i. of_nat i + 7) [1] [2] 0) [[0x17, 3], [3, 0, 17, 9, 9]] = Inr (wire, tx)"
    unfolding apply_pieces_bytes [OF ok]
    by (simp add: outbound_def header_xor_new_def hx_step_def Let_def decode_header_def len16_def from_be16_def)
  have "length wire = 7"
    using hx_bytes_ok [OF w [unfolded apply_pieces_bytes [OF ok]] ok] by simp
  with header_mask_transparent [OF w, of "[wire]" "[]"] w show ?thesis by auto
qed

end
