(* ===== verification/Transport.thy ===== *)
theory Transport
  imports Prelude
begin

text \<open>
  Poll-based readers over a byte transport. The crate stacks \<open>AsyncRead\<close> adapters (the Vision reader,
  the encrypted reader) whose \<open>poll_read\<close> is a loop over the \<open>poll_read\<close> of an inner reader. Here the
  inner reader is the list of what its successive polls find, and the locale \<open>poll_reader\<close> is the
  contract of such an adapter: from what one round of its loop does follows what any sequence of
  polls delivers, for every way the transport cuts and delays its bytes.
\<close>

section \<open>The inner reader\<close>

datatype transport_event = Arrives bytes | NotReady | Fails io_error

datatype inner_poll = Filled bytes | InnerPending | InnerErr io_error

fun inner_read :: "nat \<Rightarrow> transport_event list \<Rightarrow> inner_poll \<times> transport_event list" where
  "inner_read cap [] = (Filled [], [])"
| "inner_read cap (Arrives d # es) =
     (Filled (take cap d), if drop cap d = [] then es else Arrives (drop cap d) # es)"
| "inner_read cap (NotReady # es) = (InnerPending, es)"
| "inner_read cap (Fails e # es) = (InnerErr e, es)"

fun weight :: "transport_event list \<Rightarrow> nat" where
  "weight [] = 0"
| "weight (Arrives d # es) = Suc (length d) + weight es"
| "weight (_ # es) = Suc (weight es)"

text \<open>All the bytes that will arrive, and a transport that does not fail before its end.\<close>

fun arriving :: "transport_event list \<Rightarrow> bytes" where
  "arriving [] = []"
| "arriving (Arrives d # es) = d @ arriving es"
| "arriving (_ # es) = arriving es"

fun healthy :: "transport_event list \<Rightarrow> bool" where
  "healthy [] = True"
| "healthy (Arrives d # es) = (d \<noteq> [] \<and> healthy es)"
| "healthy (NotReady # es) = healthy es"
| "healthy (Fails e # es) = False"

lemma inner_read_weight:
  "inner_read cap es = (Filled b, es') \<Longrightarrow> b \<noteq> [] \<Longrightarrow> weight es' < weight es"
  by (cases es rule: weight.cases) (auto split: if_splits)

lemma inner_read_healthy:
  assumes "healthy es" and "inner_read cap es = (x, es')"
  shows "healthy es' \<and>
    (case x of
       Filled b \<Rightarrow> arriving es = b @ arriving es' \<and> length b \<le> cap \<and> (b = [] \<longrightarrow> 0 < cap \<longrightarrow> es = [] \<and> es' = [])
     | InnerPending \<Rightarrow> arriving es' = arriving es
     | InnerErr _ \<Rightarrow> False)"
  using assms by (cases es rule: healthy.cases) (auto split: if_splits)

section \<open>Adapters\<close>

datatype read_result = Delivered bytes | NotYet | ReadErr io_error

text \<open>What a round of the loop of \<open>poll_read\<close> does: go round again, or return.\<close>

datatype 'a loop = Again 'a | Return read_result 'a

text \<open>\<open>tc r bs\<close> is what a reader in state \<open>r\<close> still has to deliver when exactly \<open>bs\<close> arrive, and whether
  the stream is intact; a sound round neither loses nor invents bytes.\<close>

definition round_sound ::
  "('r \<Rightarrow> bool) \<Rightarrow> ('r \<Rightarrow> bytes \<Rightarrow> bytes \<times> bool) \<Rightarrow> 'r \<Rightarrow> transport_event list \<Rightarrow>
     ('r \<times> transport_event list) loop \<Rightarrow> bool" where
  "round_sound ok tc r es l \<longleftrightarrow>
     (case l of
        Again (r', es') \<Rightarrow> healthy es' \<and> ok r' \<and> tc r' (arriving es') = tc r (arriving es)
      | Return (Delivered b) (r', es') \<Rightarrow>
          healthy es' \<and> ok r' \<and>
          tc r (arriving es) = (b @ fst (tc r' (arriving es')), snd (tc r' (arriving es')))
      | Return NotYet (r', es') \<Rightarrow>
          healthy es' \<and> ok r' \<and> tc r' (arriving es') = tc r (arriving es)
      | Return (ReadErr e) (r', es') \<Rightarrow> tc r (arriving es) = ([], False))"

fun poll_many ::
  "(nat \<Rightarrow> 'r \<Rightarrow> transport_event list \<Rightarrow> read_result \<times> 'r \<times> transport_event list) \<Rightarrow>
     nat list \<Rightarrow> 'r \<Rightarrow> transport_event list \<Rightarrow> read_result list \<times> 'r \<times> transport_event list" where
  "poll_many poll [] r es = ([], r, es)"
| "poll_many poll (n # ns) r es =
     (case poll n r es of
        (x, r', es') \<Rightarrow> (case poll_many poll ns r' es' of (xs, s) \<Rightarrow> (x # xs, s)))"

fun delivered :: "read_result list \<Rightarrow> bytes" where
  "delivered [] = []"
| "delivered (Delivered b # xs) = b @ delivered xs"
| "delivered (_ # xs) = delivered xs"

abbreviation lex2 :: "((nat \<times> nat) \<times> (nat \<times> nat)) set" where
  "lex2 \<equiv> less_than <*lex*> less_than"

locale poll_reader =
  fixes round :: "nat \<Rightarrow> 'r \<Rightarrow> transport_event list \<Rightarrow> ('r \<times> transport_event list) loop"
    and poll :: "nat \<Rightarrow> 'r \<Rightarrow> transport_event list \<Rightarrow> read_result \<times> 'r \<times> transport_event list"
    and ok :: "'r \<Rightarrow> bool"
    and tc :: "'r \<Rightarrow> bytes \<Rightarrow> bytes \<times> bool"
    and rank :: "'r \<Rightarrow> nat"
  assumes poll_unfold:
      "poll room r es =
        (case round room r es of Again (r', es') \<Rightarrow> poll room r' es' | Return x s \<Rightarrow> (x, s))"
    and decreases:
      "round room r es = Again (r', es') \<Longrightarrow> ((weight es', rank r'), (weight es, rank r)) \<in> lex2"
    and sound:
      "healthy es \<Longrightarrow> ok r \<Longrightarrow> snd (tc r (arriving es)) \<Longrightarrow> round_sound ok tc r es (round room r es)"
    and at_end:
      "healthy es \<Longrightarrow> ok r \<Longrightarrow> snd (tc r (arriving es)) \<Longrightarrow> 0 < room \<Longrightarrow>
         round room r es = Return (Delivered []) s \<Longrightarrow> fst (tc r (arriving es)) = []"
begin

lemma poll_induct:
  assumes "\<And>r es. (\<And>r' es'. round room r es = Again (r', es') \<Longrightarrow> P r' es') \<Longrightarrow> P r es"
  shows "P r es"
proof -
  have "wf (inv_image lex2 (\<lambda>(r, es). (weight es, rank r)))" by (simp add: wf_lex_prod)
  then have "case (r, es) of (r, es) \<Rightarrow> P r es"
  proof (induction "(r, es)" arbitrary: r es rule: wf_induct_rule)
    case less
    have "P r' es'" if "round room r es = Again (r', es')" for r' es'
      using less [of r' es'] decreases [OF that] by simp
    then show ?case using assms by simp
  qed
  then show ?thesis by simp
qed

lemma poll_sound:
  assumes "healthy es" and "ok r" and "snd (tc r (arriving es))" and "poll room r es = (x, r', es')"
  shows "round_sound ok tc r es (Return x (r', es'))"
  using assms
proof (induction r es rule: poll_induct [of room])
  case (1 r es)
  note rk = sound [OF "1.prems"(1-3), of room]
  show ?case
  proof (cases "round room r es")
    case (Again s)
    obtain r1 es1 where s: "s = (r1, es1)" by fastforce
    with Again rk have n: "healthy es1" "ok r1" "tc r1 (arriving es1) = tc r (arriving es)"
      by (simp_all add: round_sound_def)
    from "1.prems"(4) Again s have "poll room r1 es1 = (x, r', es')"
      by (simp add: poll_unfold [of room r es])
    from "1.IH" [OF Again [unfolded s] n(1,2) _ this] n(3) "1.prems"(3) show ?thesis
      by (simp add: round_sound_def split: read_result.splits)
  next
    case (Return y s)
    with "1.prems"(4) rk show ?thesis by (simp add: poll_unfold [of room r es])
  qed
qed

lemma poll_at_end:
  assumes "healthy es" and "ok r" and "snd (tc r (arriving es))" and "0 < room"
    and "poll room r es = (Delivered [], s)"
  shows "fst (tc r (arriving es)) = []"
  using assms
proof (induction r es rule: poll_induct [of room])
  case (1 r es)
  show ?case
  proof (cases "round room r es")
    case (Again s')
    obtain r1 es1 where s: "s' = (r1, es1)" by fastforce
    with Again sound [OF "1.prems"(1-3), of room]
    have n: "healthy es1" "ok r1" "tc r1 (arriving es1) = tc r (arriving es)"
      by (simp_all add: round_sound_def)
    with "1.IH" [OF Again [unfolded s] n(1,2)] "1.prems"(3-5) Again s show ?thesis
      by (simp add: poll_unfold [of room r es])
  next
    case (Return x s')
    with "1.prems" at_end show ?thesis by (simp add: poll_unfold [of room r es])
  qed
qed

lemma poll_many_sound:
  assumes "healthy es" and "ok r" and "snd (tc r (arriving es))" and "poll_many poll ns r es = (xs, r', es')"
  shows "(\<forall>e. ReadErr e \<notin> set xs) \<and> healthy es' \<and> ok r' \<and> snd (tc r' (arriving es')) \<and>
    delivered xs @ fst (tc r' (arriving es')) = fst (tc r (arriving es))"
  using assms
proof (induction ns arbitrary: r es xs)
  case (Cons n ns)
  obtain x r1 es1 where p: "poll n r es = (x, r1, es1)" by (metis prod_cases3)
  obtain ys where q: "poll_many poll ns r1 es1 = (ys, r', es')" and xs: "xs = x # ys"
    using Cons.prems(4) p by (auto split: prod.splits)
  note k = poll_sound [OF Cons.prems(1-3) p]
  show ?case
  proof (cases x)
    case (ReadErr e)
    with k Cons.prems(3) show ?thesis by (simp add: round_sound_def)
  next
    case (Delivered b)
    with k have n: "healthy es1" "ok r1"
        "tc r (arriving es) = (b @ fst (tc r1 (arriving es1)), snd (tc r1 (arriving es1)))"
      by (simp_all add: round_sound_def)
    with Cons.IH [OF n(1,2) _ q] Cons.prems(3) Delivered xs show ?thesis by simp
  next
    case NotYet
    with k have n: "healthy es1" "ok r1" "tc r1 (arriving es1) = tc r (arriving es)"
      by (simp_all add: round_sound_def)
    with Cons.IH [OF n(1,2) _ q] Cons.prems(3) NotYet xs show ?thesis by simp
  qed
qed simp

text \<open>What any sequence of polls delivers; end of file is reported only at the end.\<close>

lemma polls_deliver:
  assumes "healthy es" and "ok r" and "snd (tc r (arriving es))" and "poll_many poll ns r es = (xs, r', es')"
  shows "(\<forall>e. ReadErr e \<notin> set xs) \<and>
    delivered xs @ fst (tc r' (arriving es')) = fst (tc r (arriving es)) \<and>
    (\<forall>n > 0. fst (poll n r' es') = Delivered [] \<longrightarrow> delivered xs = fst (tc r (arriving es)))"
proof -
  note k = poll_many_sound [OF assms]
  have "fst (tc r' (arriving es')) = []" if "0 < n" "fst (poll n r' es') = Delivered []" for n
    using poll_at_end [of es' r' n "snd (poll n r' es')"] k that by (metis prod.collapse)
  with k show ?thesis by auto
qed

end

end
