(* ===== verification/EncStream.thy ===== *)
theory EncStream
  imports Xor Transport
begin

text \<open>
  The encrypted reader, \<^verbatim>\<open>src/vless/encryption/stream.rs\<close>: \<open>EncryptedReader::poll_read\<close> unmasks what arrives,
  collects whole records and opens them. It is a poll-based adapter like the Vision reader and is
  interpreted as a \<open>poll_reader\<close>; the AEAD is the parameter \<open>A\<close>, the same at both ends.
\<close>

section \<open>State and operations\<close>

record enc_reader =
  er_aead :: aead
  er_cipher :: aead_state
  er_xor :: "header_xor option"
  encrypted :: bytes
  plaintext :: bytes
  expected :: "nat option"

definition enc_reader_new :: "aead \<Rightarrow> aead_state \<Rightarrow> header_xor option \<Rightarrow> enc_reader" where
  "enc_reader_new A c x =
     \<lparr>er_aead = A, er_cipher = c, er_xor = x, encrypted = [], plaintext = [], expected = None\<rparr>"

definition invalid_data :: io_error where
  "invalid_data = InvalidData ''record''"

text \<open>\<open>expect_header\<close> is the first half of a round, which parses the header of the record at the front;
  \<open>take_in\<close> appends what arrived.\<close>

definition expect_header :: "enc_reader \<Rightarrow> record_error + enc_reader" where
  "expect_header r =
     (if expected r = None \<and> 5 \<le> length (encrypted r)
      then (case decode_header (take 5 (encrypted r)) of
              Inl e \<Rightarrow> Inl e
            | Inr n \<Rightarrow> Inr (r\<lparr>expected := Some n\<rparr>))
      else Inr r)"

definition take_in :: "enc_reader \<Rightarrow> bytes \<Rightarrow> record_error + enc_reader" where
  "take_in r b =
     (case er_xor r of
        None \<Rightarrow> Inr (r\<lparr>encrypted := encrypted r @ b\<rparr>)
      | Some hx \<Rightarrow>
          (case apply_xor hx b of
             Inl e \<Rightarrow> Inl e
           | Inr (c, hx') \<Rightarrow> Inr (r\<lparr>er_xor := Some hx', encrypted := encrypted r @ c\<rparr>)))"

text \<open>The length of the record at the front, when all of it is there.\<close>

definition whole_record :: "enc_reader \<Rightarrow> nat option" where
  "whole_record r =
     (case expected r of
        None \<Rightarrow> None
      | Some n \<Rightarrow> if 5 + n \<le> length (encrypted r) then Some n else None)"

lemma whole_record_Some: "whole_record r = Some n \<longleftrightarrow> expected r = Some n \<and> 5 + n \<le> length (encrypted r)"
  by (auto simp: whole_record_def split: option.splits)

definition er_round :: "nat \<Rightarrow> enc_reader \<Rightarrow> transport_event list \<Rightarrow> (enc_reader \<times> transport_event list) loop" where
  "er_round room r es =
     (if plaintext r \<noteq> [] then
        Return (Delivered (take room (plaintext r))) (r\<lparr>plaintext := drop room (plaintext r)\<rparr>, es)
      else (case expect_header r of
        Inl e \<Rightarrow> Return (ReadErr invalid_data) (r, es)
      | Inr r1 \<Rightarrow>
          (case whole_record r1 of
            Some n \<Rightarrow>
            (let rec = take (5 + n) (encrypted r1);
                 r2 = r1\<lparr>encrypted := drop (5 + n) (encrypted r1)\<rparr>
             in case open_record (er_aead r1) (er_cipher r1) (take 5 rec) (drop 5 rec) of
                  (Inl e, c) \<Rightarrow> Return (ReadErr invalid_data) (r2\<lparr>er_cipher := c\<rparr>, es)
                | (Inr p, c) \<Rightarrow> Again (r2\<lparr>er_cipher := c, plaintext := p, expected := None\<rparr>, es))
          | None \<Rightarrow>
            (case inner_read 8192 es of
               (InnerPending, es') \<Rightarrow> Return NotYet (r1, es')
             | (InnerErr e, es') \<Rightarrow> Return (ReadErr e) (r1, es')
             | (Filled b, es') \<Rightarrow>
                 if b = [] then
                   (if encrypted r1 = [] then Return (Delivered []) (r1, es')
                    else Return (ReadErr UnexpectedEof) (r1, es'))
                 else (case take_in r1 b of
                         Inl e \<Rightarrow> Return (ReadErr invalid_data) (r1, es')
                       | Inr r2 \<Rightarrow> Again (r2, es'))))))"

definition er_rank :: "enc_reader \<Rightarrow> nat" where
  "er_rank r = length (encrypted r)"

lemma expect_header_frame:
  "expect_header r = Inr r1 \<Longrightarrow> \<exists>x. r1 = r\<lparr>expected := x\<rparr>"
proof -
  assume "expect_header r = Inr r1"
  then have "r1 = r\<lparr>expected := expected r1\<rparr>"
    by (auto simp: expect_header_def split: if_splits sum.splits)
  then show ?thesis by blast
qed

lemma er_round_decreases:
  assumes "er_round room r es = Again (r', es')"
  shows "((weight es', er_rank r'), (weight es, er_rank r)) \<in> lex2"
proof -
  obtain r1 where r1: "expect_header r = Inr r1"
    using assms by (auto simp: er_round_def split: if_splits sum.splits)
  obtain x where x: "r1 = r\<lparr>expected := x\<rparr>" using expect_header_frame [OF r1] by blast
  show ?thesis
  proof (cases "whole_record r1")
    case (Some n)
    then have n: "5 + n \<le> length (encrypted r)" using x by (simp add: whole_record_Some)
    from Some assms r1 have "es' = es \<and> encrypted r' = drop (5 + n) (encrypted r1)"
      by (auto simp: er_round_def Let_def split: if_splits prod.splits sum.splits)
    with n x show ?thesis by (auto simp: er_rank_def)
  next
    case None
    then have "case inner_read 8192 es of (Filled b, es'') \<Rightarrow> es' = es'' \<and> b \<noteq> [] | _ \<Rightarrow> False"
      using assms r1 by (auto simp: er_round_def split: if_splits prod.splits sum.splits inner_poll.splits)
    then show ?thesis
      using inner_read_weight [of 8192 es] by (auto split: prod.splits inner_poll.splits)
  qed
qed

function er_poll :: "nat \<Rightarrow> enc_reader \<Rightarrow> transport_event list \<Rightarrow> read_result \<times> enc_reader \<times> transport_event list" where
  "er_poll room r es =
     (case er_round room r es of Again (r', es') \<Rightarrow> er_poll room r' es' | Return x s \<Rightarrow> (x, s))"
  by pat_completeness auto
termination
  by (relation "inv_image lex2 (\<lambda>(room, r, es). (weight es, er_rank r))")
    (auto dest: er_round_decreases)

declare er_poll.simps [simp del]

section \<open>What the reader has to deliver\<close>

text \<open>Opening a complete stream of records; \<open>False\<close> for a stream that is truncated, malformed or not
  authentic somewhere.\<close>

function open_stream :: "aead \<Rightarrow> aead_state \<Rightarrow> bytes \<Rightarrow> bytes \<times> bool" where
  "open_stream A st s =
     (if s = [] then ([], True)
      else if length s < 5 then ([], False)
      else (case decode_header (take 5 s) of
              Inl e \<Rightarrow> ([], False)
            | Inr n \<Rightarrow>
                if length s < 5 + n then ([], False)
                else (case open_record A st (take 5 s) (take n (drop 5 s)) of
                        (Inl e, st') \<Rightarrow> ([], False)
                      | (Inr p, st') \<Rightarrow>
                          (case open_stream A st' (drop (5 + n) s) of (x, ok) \<Rightarrow> (p @ x, ok)))))"
  by pat_completeness auto
termination
  by (relation "measure (\<lambda>(A, st, s). length s)") auto

declare open_stream.simps [simp del]

definition unmask :: "header_xor option \<Rightarrow> bytes \<Rightarrow> bytes option" where
  "unmask x bs =
     (case x of
        None \<Rightarrow> Some bs
      | Some hx \<Rightarrow> (case hx_bytes hx bs of Inl e \<Rightarrow> None | Inr (cs, hx') \<Rightarrow> Some cs))"

definition er_to_come :: "enc_reader \<Rightarrow> bytes \<Rightarrow> bytes \<times> bool" where
  "er_to_come r bs =
     (case unmask (er_xor r) bs of
        None \<Rightarrow> ([], False)
      | Some cs \<Rightarrow>
          (case open_stream (er_aead r) (er_cipher r) (encrypted r @ cs) of (x, ok) \<Rightarrow> (plaintext r @ x, ok)))"

definition er_ok :: "enc_reader \<Rightarrow> bool" where
  "er_ok r \<longleftrightarrow>
     (\<forall>n. expected r = Some n \<longrightarrow> 5 \<le> length (encrypted r) \<and> decode_header (take 5 (encrypted r)) = Inr n) \<and>
     (\<forall>hx. er_xor r = Some hx \<longrightarrow> hx_ok hx)"

lemma er_to_come_expected [simp]: "er_to_come (r\<lparr>expected := x\<rparr>) bs = er_to_come r bs"
  by (simp add: er_to_come_def split: option.split)

lemma open_stream_bad_header:
  "5 \<le> length x \<Longrightarrow> decode_header (take 5 x) = Inl e \<Longrightarrow> open_stream A st (x @ cs) = ([], False)"
  by (subst open_stream.simps) (cases x, simp_all)

lemma expect_header_ok:
  assumes "er_ok r" and "snd (er_to_come r bs)"
  obtains r1 x where "expect_header r = Inr r1" "r1 = r\<lparr>expected := x\<rparr>" "er_ok r1"
    "5 \<le> length (encrypted r) \<longrightarrow> (\<exists>n. x = Some n \<and> decode_header (take 5 (encrypted r)) = Inr n)"
proof (cases "expected r = None \<and> 5 \<le> length (encrypted r)")
  case True
  obtain n where n: "decode_header (take 5 (encrypted r)) = Inr n"
  proof (cases "decode_header (take 5 (encrypted r))")
    case (Inl e)
    then have "\<not> snd (er_to_come r bs)"
      using True by (auto simp: er_to_come_def open_stream_bad_header split: option.splits)
    with assms(2) show ?thesis by simp
  qed
  show ?thesis
    by (rule that [of "r\<lparr>expected := Some n\<rparr>" "Some n"]) (use True n assms(1) in \<open>auto simp: expect_header_def er_ok_def\<close>)
next
  case False
  have "r = r\<lparr>expected := expected r\<rparr>" by simp
  with False assms(1) that [of r "expected r"] show ?thesis
    by (auto simp: expect_header_def er_ok_def)
qed

lemma unmask_append:
  assumes "\<forall>hx. x = Some hx \<longrightarrow> hx_ok hx" and "unmask x (b @ bs) = Some cs"
  shows "case x of
      None \<Rightarrow> cs = b @ bs
    | Some hx \<Rightarrow> \<exists>c hx' cs'. apply_xor hx b = Inr (c, hx') \<and> hx_ok hx' \<and> unmask (Some hx') bs = Some cs' \<and> cs = c @ cs'"
proof (cases x)
  case None
  with assms(2) show ?thesis by (simp add: unmask_def)
next
  case (Some hx)
  with assms(1) have ok: "hx_ok hx" by simp
  from assms(2) Some obtain c hx' where c: "hx_bytes hx b = Inr (c, hx')"
    by (auto simp: unmask_def hx_bytes_append split: sum.splits)
  from assms(2) Some c obtain cs' hx'' where c': "hx_bytes hx' bs = Inr (cs', hx'')" "cs = c @ cs'"
    by (auto simp: unmask_def hx_bytes_append split: sum.splits)
  from hx_bytes_ok [OF c ok] c c' Some ok show ?thesis
    by (auto simp: unmask_def apply_is_bytes)
qed

lemma take_in_ok:
  assumes ok: "er_ok r" and i: "snd (er_to_come r (b @ bs))"
  shows "\<exists>r'. take_in r b = Inr r' \<and> er_ok r' \<and> er_to_come r' bs = er_to_come r (b @ bs)"
proof -
  have hx: "\<forall>hx. er_xor r = Some hx \<longrightarrow> hx_ok hx" using ok by (simp add: er_ok_def)
  obtain cs where cs: "unmask (er_xor r) (b @ bs) = Some cs"
    using i by (auto simp: er_to_come_def split: option.splits)
  note u = unmask_append [OF hx cs]
  show ?thesis
  proof (cases "er_xor r")
    case None
    with ok show ?thesis by (auto simp: take_in_def er_ok_def er_to_come_def unmask_def)
  next
    case (Some hx)
    with u obtain c hx' cs' where c: "apply_xor hx b = Inr (c, hx')" "hx_ok hx'"
        "unmask (Some hx') bs = Some cs'" "cs = c @ cs'" by auto
    with Some cs ok show ?thesis by (auto simp: take_in_def er_ok_def er_to_come_def)
  qed
qed

lemma open_front:
  assumes ok: "er_ok r1" and n: "expected r1 = Some n" "5 + n \<le> length (encrypted r1)" and p0: "plaintext r1 = []"
    and i: "snd (er_to_come r1 bs)"
  shows "\<exists>p c. open_record (er_aead r1) (er_cipher r1) (take 5 (encrypted r1)) (take n (drop 5 (encrypted r1))) = (Inr p, c) \<and>
     er_to_come (r1\<lparr>encrypted := drop (5 + n) (encrypted r1), er_cipher := c, plaintext := p, expected := None\<rparr>) bs =
       er_to_come r1 bs"
proof -
  obtain cs where cs: "unmask (er_xor r1) bs = Some cs"
    using i by (auto simp: er_to_come_def split: option.splits)
  let ?e = "encrypted r1"
  have hd: "decode_header (take 5 ?e) = Inr n" using ok n(1) by (simp add: er_ok_def)
  have f: "?e @ cs \<noteq> []" "\<not> length (?e @ cs) < 5" "take 5 (?e @ cs) = take 5 ?e"
      "\<not> length (?e @ cs) < 5 + n" "take n (drop 5 (?e @ cs)) = take n (drop 5 ?e)"
      "drop (5 + n) (?e @ cs) = drop (5 + n) ?e @ cs"
    using n(2) by auto
  obtain o1 c where o1: "open_record (er_aead r1) (er_cipher r1) (take 5 ?e) (take n (drop 5 ?e)) = (o1, c)"
    by fastforce
  have os: "open_stream (er_aead r1) (er_cipher r1) (?e @ cs) =
      (case o1 of Inl e \<Rightarrow> ([], False)
       | Inr p \<Rightarrow> (case open_stream (er_aead r1) c (drop (5 + n) ?e @ cs) of (x, ok) \<Rightarrow> (p @ x, ok)))"
    by (subst open_stream.simps) (simp only: f hd o1 if_False sum.case prod.case)
  then obtain p where "o1 = Inr p"
    using i cs by (cases o1) (auto simp: er_to_come_def)
  with o1 os cs p0 show ?thesis
    by (auto simp: er_to_come_def split: prod.splits)
qed

lemma unmask_Nil [simp]: "unmask x [] = Some []"
  by (simp add: unmask_def split: option.splits)

text \<open>At the end of the transport a partial record left over is a truncated stream.\<close>

lemma truncated_not_intact:
  assumes "snd (er_to_come r [])" and "encrypted r \<noteq> []"
  shows "5 \<le> length (encrypted r) \<and>
    (\<forall>n. decode_header (take 5 (encrypted r)) = Inr n \<longrightarrow> 5 + n \<le> length (encrypted r))"
  using assms
  by (auto simp: er_to_come_def open_stream.simps [of _ _ "encrypted r"] split: if_splits sum.splits)

lemma er_round_sound:
  assumes h: "healthy es" and ok: "er_ok r" and i: "snd (er_to_come r (arriving es))"
  shows "round_sound er_ok er_to_come r es (er_round room r es)"
proof (cases "plaintext r = []")
  case False
  have "er_to_come r bs = (take room (plaintext r) @ fst (er_to_come (r\<lparr>plaintext := drop room (plaintext r)\<rparr>) bs),
      snd (er_to_come (r\<lparr>plaintext := drop room (plaintext r)\<rparr>) bs))" if "snd (er_to_come r bs)" for bs
    using that by (auto simp: er_to_come_def split: option.splits prod.splits)
  with False h ok i show ?thesis by (simp add: er_round_def round_sound_def er_ok_def)
next
  case p0: True
  obtain r1 x where r1: "expect_header r = Inr r1" "r1 = r\<lparr>expected := x\<rparr>" "er_ok r1"
    "5 \<le> length (encrypted r) \<longrightarrow> (\<exists>n. x = Some n \<and> decode_header (take 5 (encrypted r)) = Inr n)"
    using expect_header_ok [OF ok i] .
  have tc: "er_to_come r1 bs = er_to_come r bs" for bs by (simp add: r1(2))
  show ?thesis
  proof (cases "whole_record r1")
    case (Some n)
    then have n: "expected r1 = Some n" "5 + n \<le> length (encrypted r1)" by (simp_all add: whole_record_Some)
    obtain p c where p: "open_record (er_aead r1) (er_cipher r1) (take 5 (encrypted r1)) (take n (drop 5 (encrypted r1))) = (Inr p, c)"
      "er_to_come (r1\<lparr>encrypted := drop (5 + n) (encrypted r1), er_cipher := c, plaintext := p, expected := None\<rparr>) (arriving es) =
         er_to_come r1 (arriving es)"
      using open_front [OF r1(3) n, of "arriving es"] p0 i tc r1(2) by auto
    have d: "drop 5 (take (5 + n) (encrypted r1)) = take n (drop 5 (encrypted r1))"
      "take 5 (take (5 + n) (encrypted r1)) = take 5 (encrypted r1)"
      by (simp_all add: drop_take)
    have "er_round room r es = Again (r1\<lparr>encrypted := drop (5 + n) (encrypted r1), er_cipher := c, plaintext := p, expected := None\<rparr>, es)"
      using p0 r1(1) Some p(1) d by (simp add: er_round_def Let_def)
    with p(2) h r1(3) tc show ?thesis by (simp add: round_sound_def er_ok_def)
  next
    case None
    obtain y es' where y: "inner_read 8192 es = (y, es')" by fastforce
    note hi = inner_read_healthy [OF h y]
    show ?thesis
    proof (cases y)
      case (Filled b)
      show ?thesis
      proof (cases "b = []")
        case True
        with Filled hi have es: "es = []" "es' = []" by simp_all
        have "encrypted r = []"
          using truncated_not_intact [of r] i es r1 None whole_record_Some [of r1] by fastforce
        with True Filled y p0 r1 None h es tc show ?thesis
          by (simp add: er_round_def round_sound_def)
      next
        case ne: False
        with Filled hi have b: "arriving es = b @ arriving es'" "healthy es'" by auto
        obtain r2 where "take_in r1 b = Inr r2" "er_ok r2" "er_to_come r2 (arriving es') = er_to_come r1 (b @ arriving es')"
          using take_in_ok [OF r1(3), of b "arriving es'"] i b(1) tc by auto
        with ne Filled y p0 r1 None b tc show ?thesis
          by (simp add: er_round_def round_sound_def)
      qed
    next
      case InnerPending
      with hi y p0 r1 None tc show ?thesis by (simp add: er_round_def round_sound_def)
    next
      case (InnerErr e)
      with hi show ?thesis by simp
    qed
  qed
qed

lemma er_round_eof:
  assumes h: "healthy es" and ok: "er_ok r" and i: "snd (er_to_come r (arriving es))" and room: "0 < room"
    and e: "er_round room r es = Return (Delivered []) s"
  shows "fst (er_to_come r (arriving es)) = []"
proof -
  have p0: "plaintext r = []"
    using e room by (auto simp: er_round_def split: if_splits)
  obtain r1 x where r1: "expect_header r = Inr r1" "r1 = r\<lparr>expected := x\<rparr>"
    using expect_header_ok [OF ok i] by blast
  have "encrypted r = [] \<and> fst (inner_read 8192 es) = Filled []"
    using e p0 r1 by (auto simp: er_round_def Let_def split: if_splits prod.splits sum.splits inner_poll.splits option.splits)
  then have "encrypted r = []" "es = []"
    using inner_read_healthy [OF h, of 8192] by (cases "inner_read 8192 es"; auto)+
  with p0 show ?thesis by (simp add: er_to_come_def open_stream.simps)
qed

interpretation er: poll_reader er_round er_poll er_ok er_to_come er_rank
  by unfold_locales
    (rule er_poll.simps, erule er_round_decreases, erule (2) er_round_sound, erule (4) er_round_eof)

section \<open>From the sender to the reader\<close>

lemma open_sealed:
  assumes A: "aead_correct A" and s: "seal_all A st ps = Some (outs, st')"
  shows "open_stream A st (concat outs) = (concat ps, True)"
  using s
proof (induction ps arbitrary: st outs)
  case Nil
  then show ?case by (simp add: open_stream.simps)
next
  case (Cons p ps)
  obtain b st1 bs where s1: "seal A st p = (Inr b, st1)" "seal_all A st1 ps = Some (bs, st')" "outs = b # bs"
    using Cons.prems by (auto split: sum.splits option.splits prod.splits)
  obtain header c where b: "b = header @ c" "length header = 5" "decode_header header = Inr (length c)"
    "open_record A st header c = (Inr p, st1)"
    using seal_then_open [OF A s1(1)] by blast
  have f: "concat outs = header @ c @ concat bs" using s1(3) b(1) by simp
  have "take 5 (concat outs) = header" "take (length c) (drop 5 (concat outs)) = c"
      "drop (5 + length c) (concat outs) = concat bs" "concat outs \<noteq> []"
      "\<not> length (concat outs) < 5" "\<not> length (concat outs) < 5 + length c"
    using b(2) by (auto simp: f)
  with b(3,4) Cons.IH [OF s1(2)] show ?case
    by (subst open_stream.simps) (simp only: if_False sum.case prod.case, simp)
qed

text \<open>One direction of an encrypted connection: plaintexts sealed by one end (across key changes),
  optionally with masked headers, are delivered by the encrypted reader of the other end exactly and
  in order, for every way the transport cuts and delays the bytes and for every buffer size; no poll
  fails, and end of file is reported only when everything has been delivered.\<close>

definition on_wire :: "header_xor option \<Rightarrow> bytes list \<Rightarrow> bytes \<Rightarrow> bool" where
  "on_wire x outs wire \<longleftrightarrow>
     (case x of None \<Rightarrow> wire = concat outs | Some hx \<Rightarrow> (\<exists>tx. apply_pieces hx outs = Inr (wire, tx)))"

lemma sealed_to_come:
  assumes "aead_correct A" and "seal_all A st ps = Some (outs, st')" and "on_wire tx outs wire"
    and "tx = None \<and> rx = None \<or> tx = Some (outbound ks united iv 0) \<and> rx = Some (inbound ks united iv 0)"
  shows "er_to_come (enc_reader_new A st rx) wire = (concat ps, True) \<and> er_ok (enc_reader_new A st rx)"
proof -
  have um: "unmask rx wire = Some (concat outs) \<and> (\<forall>hx. rx = Some hx \<longrightarrow> hx_ok hx)"
    using assms(4)
  proof
    assume "tx = None \<and> rx = None"
    with assms(3) show ?thesis by (simp add: unmask_def on_wire_def)
  next
    assume m: "tx = Some (outbound ks united iv 0) \<and> rx = Some (inbound ks united iv 0)"
    have ok: "hx_ok (outbound ks united iv 0)" "hx_ok (inbound ks united iv 0)"
      by (simp_all add: outbound_def inbound_def hx_ok_new)
    from m assms(3) obtain hx where "hx_bytes (outbound ks united iv 0) (concat outs) = Inr (wire, hx)"
      by (auto simp: on_wire_def apply_pieces_bytes [OF ok(1)])
    from paired_bytes [OF paired_new this(1)] m ok(2) show ?thesis by (auto simp: unmask_def)
  qed
  with open_sealed [OF assms(1,2)] show ?thesis
    by (simp add: er_to_come_def enc_reader_new_def er_ok_def)
qed

lemma sealed_stream_delivered:
  assumes "aead_correct A" and "seal_all A st ps = Some (outs, st')" and "on_wire tx outs wire"
    and "tx = None \<and> rx = None \<or> tx = Some (outbound ks united iv 0) \<and> rx = Some (inbound ks united iv 0)"
    and "healthy es" and "arriving es = wire"
    and "poll_many er_poll ns (enc_reader_new A st rx) es = (rs, r', es')"
  shows "(\<forall>e. ReadErr e \<notin> set rs) \<and>
         delivered rs @ fst (er_to_come r' (arriving es')) = concat ps \<and>
         (\<forall>n > 0. fst (er_poll n r' es') = Delivered [] \<longrightarrow> delivered rs = concat ps)"
  using er.polls_deliver [OF assms(5) _ _ assms(7)] sealed_to_come [OF assms(1-4)] assms(6) by simp

end
