(* ===== verification/Text.thy ===== *)
theory Text
  imports Prelude
begin

text \<open>
  The parts of \<open>str\<close> the crate's parsers use, on the UTF-8 bytes of the string: \<open>split\<close> and
  \<open>split_once\<close> at an ASCII character, \<open>strip_prefix\<close>, \<open>strip_suffix\<close>, \<open>join\<close>, \<open>trim\<close>, and decimal
  numbers (\<open>str::parse\<close> and \<open>Display\<close> of an unsigned integer).
\<close>

section \<open>Splitting and joining\<close>

fun split_on :: "'a \<Rightarrow> 'a list \<Rightarrow> 'a list list" where
  "split_on c [] = [[]]"
| "split_on c (x # xs) = (if x = c then [] # split_on c xs else (x # hd (split_on c xs)) # tl (split_on c xs))"

fun join_with :: "'a \<Rightarrow> 'a list list \<Rightarrow> 'a list" where
  "join_with c [] = []"
| "join_with c [x] = x"
| "join_with c (x # y # xs) = x @ c # join_with c (y # xs)"

fun split_once :: "'a \<Rightarrow> 'a list \<Rightarrow> ('a list \<times> 'a list) option" where
  "split_once c [] = None"
| "split_once c (x # xs) = (if x = c then Some ([], xs) else map_option (apfst ((#) x)) (split_once c xs))"

fun strip_prefix :: "'a list \<Rightarrow> 'a list \<Rightarrow> 'a list option" where
  "strip_prefix [] xs = Some xs"
| "strip_prefix (p # ps) [] = None"
| "strip_prefix (p # ps) (x # xs) = (if x = p then strip_prefix ps xs else None)"

definition strip_suffix :: "'a list \<Rightarrow> 'a list \<Rightarrow> 'a list option" where
  "strip_suffix p xs = map_option rev (strip_prefix (rev p) (rev xs))"

lemma split_on_not_Nil [simp]: "split_on c xs \<noteq> []"
  by (cases xs) auto

lemma split_on_append: "c \<notin> set x \<Longrightarrow> split_on c (x @ c # xs) = x # split_on c xs"
  by (induction x) auto

lemma split_on_single: "c \<notin> set x \<Longrightarrow> split_on c x = [x]"
  by (induction x) auto

lemma split_on_join: "xs \<noteq> [] \<Longrightarrow> \<forall>x \<in> set xs. c \<notin> set x \<Longrightarrow> split_on c (join_with c xs) = xs"
  by (induction c xs rule: join_with.induct) (auto simp: split_on_append split_on_single)

lemma join_split_on: "join_with c (split_on c xs) = xs"
proof (induction xs)
  case (Cons x xs)
  then show ?case by (cases "split_on c xs"; cases "tl (split_on c xs)") auto
qed simp

lemma split_on_parts: "p \<in> set (split_on c xs) \<Longrightarrow> c \<notin> set p"
proof (induction xs arbitrary: p)
  case (Cons x xs)
  have "hd (split_on c xs) \<in> set (split_on c xs)" by simp
  moreover have "q \<in> set (tl (split_on c xs)) \<Longrightarrow> q \<in> set (split_on c xs)" for q
    by (simp add: list.set_sel(2))
  ultimately show ?case using Cons by (auto split: if_splits)
qed simp

lemma join_with_append:
  "xs \<noteq> [] \<Longrightarrow> ys \<noteq> [] \<Longrightarrow> join_with c (xs @ ys) = join_with c xs @ c # join_with c ys"
proof (induction c xs rule: join_with.induct)
  case (2 c x)
  then show ?case by (cases ys) auto
qed auto

lemma split_once_append: "c \<notin> set x \<Longrightarrow> split_once c (x @ c # xs) = Some (x, xs)"
  by (induction x) auto

lemma split_once_None: "c \<notin> set x \<Longrightarrow> split_once c x = None"
  by (induction x) auto

lemma split_once_Some: "split_once c s = Some (a, b) \<Longrightarrow> s = a @ c # b \<and> c \<notin> set a"
  by (induction s arbitrary: a) (auto split: if_splits simp: apfst_def map_prod_def)

lemma strip_prefix_Some: "strip_prefix p xs = Some ys \<longleftrightarrow> xs = p @ ys"
  by (induction p xs rule: strip_prefix.induct) auto

lemma strip_prefix_append [simp]: "strip_prefix p (p @ ys) = Some ys"
  by (simp add: strip_prefix_Some)

lemma strip_suffix_append [simp]: "strip_suffix p (xs @ p) = Some xs"
  by (simp add: strip_suffix_def)

section \<open>Trimming\<close>

text \<open>The UTF-8 encodings of the characters with the Unicode property \<open>White_Space\<close>. A character at
  the front or at the end of a valid string is found by comparing its encoding with the bytes there.\<close>

definition whitespace_chars :: "bytes list" where
  "whitespace_chars =
     map (\<lambda>b. [b]) [0x09, 0x0A, 0x0B, 0x0C, 0x0D, 0x20] @ [[0xC2, 0x85], [0xC2, 0xA0], [0xE1, 0x9A, 0x80]] @
     map (\<lambda>b. [0xE2, 0x80, b]) [0x80, 0x81, 0x82, 0x83, 0x84, 0x85, 0x86, 0x87, 0x88, 0x89, 0x8A, 0xA8, 0xA9, 0xAF] @
     [[0xE2, 0x81, 0x9F], [0xE3, 0x80, 0x80]]"

text \<open>\<open>trim_front cs\<close> drops the characters \<open>cs\<close> (no encoding is empty) as long as one is in front.\<close>

function trim_front :: "bytes list \<Rightarrow> bytes \<Rightarrow> bytes" where
  "trim_front cs s =
     (case find (\<lambda>c. c \<noteq> [] \<and> strip_prefix c s \<noteq> None) cs of
        None \<Rightarrow> s
      | Some c \<Rightarrow> trim_front cs (drop (length c) s))"
  by pat_completeness auto
termination
  by (relation "measure (\<lambda>(cs, s). length s)")
    (auto simp: find_Some_iff strip_prefix_Some length_greater_0_conv simp del: length_greater_0_conv)

declare trim_front.simps [simp del]

definition trim :: "bytes \<Rightarrow> bytes" where
  "trim s = rev (trim_front (map rev whitespace_chars) (rev (trim_front whitespace_chars s)))"

section \<open>Decimal numbers\<close>

definition is_digit :: "u8 \<Rightarrow> bool" where
  "is_digit b \<longleftrightarrow> 0x30 \<le> b \<and> b \<le> 0x39"

fun digits_value :: "nat \<Rightarrow> bytes \<Rightarrow> nat" where
  "digits_value acc [] = acc"
| "digits_value acc (b # bs) = digits_value (10 * acc + (unat b - 48)) bs"

text \<open>\<open>str::parse\<close> of an unsigned integer of \<open>w\<close> bits: an optional plus sign, at least one digit,
  no overflow.\<close>

definition parse_uint :: "nat \<Rightarrow> bytes \<Rightarrow> nat option" where
  "parse_uint w s =
     (let ds = (case s of b # bs \<Rightarrow> if b = 0x2B then bs else s | [] \<Rightarrow> s)
      in if ds \<noteq> [] \<and> list_all is_digit ds \<and> digits_value 0 ds < 2 ^ w then Some (digits_value 0 ds) else None)"

function decimal :: "nat \<Rightarrow> bytes" where
  "decimal n = (if n < 10 then [of_nat (48 + n)] else decimal (n div 10) @ [of_nat (48 + n mod 10)])"
  by pat_completeness auto
termination
  by (relation "measure id") auto

declare decimal.simps [simp del]

lemma digit_unat: "d < 10 \<Longrightarrow> unat (of_nat (48 + d) :: u8) = 48 + d"
  unfolding unat_of_nat by simp

lemma digit_is_digit:
  assumes "d < 10"
  shows "is_digit (of_nat (48 + d))"
proof -
  have "unat (0x30 :: u8) \<le> unat (of_nat (48 + d) :: u8) \<and> unat (of_nat (48 + d) :: u8) \<le> unat (0x39 :: u8)"
    unfolding digit_unat [OF assms] using assms by simp
  then show ?thesis by (simp only: is_digit_def word_le_nat_alt)
qed

lemma digits_value_append: "digits_value acc (xs @ [b]) = 10 * digits_value acc xs + (unat b - 48)"
  by (induction xs arbitrary: acc) auto

lemma decimal_digits: "list_all is_digit (decimal n) \<and> decimal n \<noteq> []"
proof (induction n rule: decimal.induct)
  case (1 n)
  then show ?case
    using digit_is_digit [of n] digit_is_digit [of "n mod 10"]
    by (cases "n < 10") (simp_all add: decimal.simps [of n])
qed

lemma decimal_value: "digits_value 0 (decimal n) = n"
proof (induction n rule: decimal.induct)
  case (1 n)
  then show ?case
    using digit_unat [of n] digit_unat [of "n mod 10"]
    by (cases "n < 10") (simp_all add: decimal.simps [of n] digits_value_append)
qed

lemma not_digit: "list_all is_digit xs \<Longrightarrow> \<not> is_digit c \<Longrightarrow> c \<notin> set xs"
  by (auto simp: list_all_iff)

lemma decimal_no [simp]: "\<not> is_digit c \<Longrightarrow> c \<notin> set (decimal n)"
  using decimal_digits not_digit by blast

lemma parse_decimal: "n < 2 ^ w \<Longrightarrow> parse_uint w (decimal n) = Some n"
proof -
  assume n: "n < 2 ^ w"
  have "(0x2B :: u8) \<notin> set (decimal n)" by (rule decimal_no) (simp add: is_digit_def)
  then have "(case decimal n of b # bs \<Rightarrow> if b = 0x2B then bs else decimal n | [] \<Rightarrow> decimal n) = decimal n"
    by (cases "decimal n") auto
  with n decimal_digits [of n] show ?thesis by (simp add: parse_uint_def decimal_value)
qed

lemma parse_uint_bound: "parse_uint w s = Some n \<Longrightarrow> n < 2 ^ w"
  by (auto simp: parse_uint_def Let_def split: if_splits)

lemma trim_front_None:
  assumes "\<forall>c \<in> set cs. c \<noteq> [] \<longrightarrow> s \<noteq> [] \<longrightarrow> hd c \<noteq> hd s"
  shows "trim_front cs s = s"
proof -
  have "\<not> (c \<noteq> [] \<and> strip_prefix c s \<noteq> None)" if "c \<in> set cs" for c
    using that assms by (auto simp: strip_prefix_Some)
  then have "find (\<lambda>c. c \<noteq> [] \<and> strip_prefix c s \<noteq> None) cs = None"
    by (simp add: find_None_iff)
  then show ?thesis by (simp add: trim_front.simps)
qed

lemma digit_not_whitespace:
  assumes "is_digit b" and "c \<in> set whitespace_chars"
  shows "hd c \<noteq> b" and "last c \<noteq> b"
proof -
  have "\<forall>c \<in> set whitespace_chars. \<not> is_digit (hd c) \<and> \<not> is_digit (last c)"
    by (simp add: whitespace_chars_def is_digit_def)
  with assms show "hd c \<noteq> b" "last c \<noteq> b" by blast+
qed

lemma trim_digits:
  assumes "list_all is_digit s"
  shows "trim s = s"
proof -
  have "trim_front whitespace_chars s = s"
    using assms by (intro trim_front_None) (auto simp: list_all_iff dest: digit_not_whitespace)
  moreover have "trim_front (map rev whitespace_chars) (rev s) = rev s"
    using assms by (intro trim_front_None) (auto simp: list_all_iff hd_rev dest: digit_not_whitespace)
  ultimately show ?thesis by (simp add: trim_def)
qed

end
