(* ===== verification/EncConfig.thy ===== *)
theory EncConfig
  imports Text
begin

text \<open>
  The configuration of VLESS encryption, \<^verbatim>\<open>src/vless/encryption/config.rs\<close>, and the server's key
  material, \<^verbatim>\<open>src/vless/encryption/keys.rs\<close>. Strings are their UTF-8 bytes. The base64 decoder,
  X25519 and ML-KEM-768 are code of other crates: parameters of the definitions that call them.
\<close>

section \<open>\<open>EncryptionConfig\<close>\<close>

datatype encryption_mode = Native | XorPublic | Random

datatype key_seed = SeedX25519 bytes | SeedMlKem768 bytes

record encryption_config =
  ec_mode :: encryption_mode
  lifetime_from :: u16
  lifetime_to :: u16
  ec_padding :: bytes
  ec_keys :: "key_seed list"

datatype config_error = SchemeError | ModeError | LifetimeError | KeySeedError | PaddingAfterKey

definition parse_lifetime :: "bytes \<Rightarrow> config_error + u16" where
  "parse_lifetime s = (case parse_uint 16 s of None \<Rightarrow> Inl LifetimeError | Some n \<Rightarrow> Inr (of_nat n))"

definition parse_mode :: "bytes list \<Rightarrow> (encryption_mode \<times> bytes list) option" where
  "parse_mode parts =
     (case parts of
        [] \<Rightarrow> None
      | x # xs \<Rightarrow>
          if x = bytes_of ''native'' then Some (Native, xs)
          else if x = bytes_of ''xorpub'' then Some (XorPublic, xs)
          else if x = bytes_of ''random'' then Some (Random, xs)
          else None)"

definition parse_lifetimes :: "bytes \<Rightarrow> config_error + u16 \<times> u16" where
  "parse_lifetimes part =
     (case strip_suffix (bytes_of ''s'') part of
        None \<Rightarrow> Inl LifetimeError
      | Some l \<Rightarrow>
          (case split_once (of_char (CHR ''-'')) l of
             Some (a, b) \<Rightarrow>
               (case parse_lifetime a of
                  Inl e \<Rightarrow> Inl e
                | Inr x \<Rightarrow> (case parse_lifetime b of Inl e \<Rightarrow> Inl e | Inr y \<Rightarrow> Inr (x, y)))
           | None \<Rightarrow> (case parse_lifetime l of Inl e \<Rightarrow> Inl e | Inr x \<Rightarrow> Inr (x, 0))))"

text \<open>The loop over the remaining parts, with the padding and the keys found so far; \<open>b64\<close> is
  \<open>URL_SAFE_NO_PAD.decode\<close>.\<close>

fun parse_parts ::
  "(bytes \<Rightarrow> bytes option) \<Rightarrow> bytes list \<Rightarrow> key_seed list \<Rightarrow> bytes list \<Rightarrow> config_error + bytes list \<times> key_seed list" where
  "parse_parts b64 padding keys [] = Inr (padding, keys)"
| "parse_parts b64 padding keys (part # parts) =
     (if length part < 20 then
        (if keys \<noteq> [] then Inl PaddingAfterKey else parse_parts b64 (padding @ [part]) keys parts)
      else (case b64 part of
              None \<Rightarrow> Inl KeySeedError
            | Some decoded \<Rightarrow>
                if length decoded = 32 then parse_parts b64 padding (keys @ [SeedX25519 decoded]) parts
                else if length decoded = 64 then parse_parts b64 padding (keys @ [SeedMlKem768 decoded]) parts
                else Inl KeySeedError))"

definition parse_config :: "(bytes \<Rightarrow> bytes option) \<Rightarrow> bytes \<Rightarrow> config_error + encryption_config" where
  "parse_config b64 s =
     (case split_on (of_char (CHR ''.'')) s of
        [] \<Rightarrow> Inl SchemeError
      | scheme # parts \<Rightarrow>
          if scheme \<noteq> bytes_of ''mlkem768x25519plus'' then Inl SchemeError
          else (case parse_mode parts of
            None \<Rightarrow> Inl ModeError
          | Some (mode, parts1) \<Rightarrow>
              (case parts1 of
                 [] \<Rightarrow> Inl LifetimeError
               | lifetime # parts2 \<Rightarrow>
                   (case parse_lifetimes lifetime of
                      Inl e \<Rightarrow> Inl e
                    | Inr (from, to) \<Rightarrow>
                        (case parse_parts b64 [] [] parts2 of
                           Inl e \<Rightarrow> Inl e
                         | Inr (padding, keys) \<Rightarrow>
                             if keys = [] then Inl KeySeedError
                             else Inr \<lparr>ec_mode = mode, lifetime_from = from, lifetime_to = to,
                                       ec_padding = join_with (of_char (CHR ''.'')) padding, ec_keys = keys\<rparr>)))))"

section \<open>Writing a configuration\<close>

text \<open>The documented form of the setting,
  \<open>mlkem768x25519plus.<mode>.<lifetime>s[.<padding>...].<key>[.<key>...]\<close>; \<open>b64e\<close> encodes a seed.\<close>

definition mode_name :: "encryption_mode \<Rightarrow> bytes" where
  "mode_name m = bytes_of (case m of Native \<Rightarrow> ''native'' | XorPublic \<Rightarrow> ''xorpub'' | Random \<Rightarrow> ''random'')"

fun seed_bytes :: "key_seed \<Rightarrow> bytes" where
  "seed_bytes (SeedX25519 k) = k"
| "seed_bytes (SeedMlKem768 k) = k"

fun seed_ok :: "key_seed \<Rightarrow> bool" where
  "seed_ok (SeedX25519 k) = (length k = 32)"
| "seed_ok (SeedMlKem768 k) = (length k = 64)"

definition lifetime_text :: "u16 \<Rightarrow> u16 \<Rightarrow> bytes" where
  "lifetime_text from to =
     decimal (unat from) @ (if to = 0 then [] else of_char (CHR ''-'') # decimal (unat to)) @ bytes_of ''s''"

definition config_text :: "(bytes \<Rightarrow> bytes) \<Rightarrow> encryption_mode \<Rightarrow> u16 \<Rightarrow> u16 \<Rightarrow> bytes list \<Rightarrow> key_seed list \<Rightarrow> bytes" where
  "config_text b64e mode from to paddings keys =
     join_with (of_char (CHR ''.''))
       (bytes_of ''mlkem768x25519plus'' # mode_name mode # lifetime_text from to # paddings @ map (b64e \<circ> seed_bytes) keys)"

text \<open>What the parser relies on: the decoder inverts the encoder, whose alphabet has no dot, and a
  seed of 32 bytes or more is encoded in at least 20 characters.\<close>

definition base64_codec :: "(bytes \<Rightarrow> bytes) \<Rightarrow> (bytes \<Rightarrow> bytes option) \<Rightarrow> bool" where
  "base64_codec b64e b64 \<longleftrightarrow>
     (\<forall>k. b64 (b64e k) = Some k \<and> of_char (CHR ''.'') \<notin> set (b64e k) \<and> (32 \<le> length k \<longrightarrow> 20 \<le> length (b64e k)))"

lemma parse_mode_name: "parse_mode (mode_name m # xs) = Some (m, xs)"
  by (cases m) (simp_all add: parse_mode_def mode_name_def bytes_of_def)

lemma parse_lifetime_decimal: "parse_lifetime (decimal (unat (w :: u16))) = Inr w"
  using parse_decimal [of "unat w" 16] unsigned_less [of w, where 'a = nat] by (simp add: parse_lifetime_def)

lemma not_digit_chars [simp]:
  "\<not> is_digit 45" "\<not> is_digit 46" "\<not> is_digit 115"
  by (simp_all add: is_digit_def)

lemma parse_lifetime_text: "parse_lifetimes (lifetime_text from to) = Inr (from, to)"
proof -
  have "parse_lifetimes (l @ bytes_of ''s'') =
     (case split_once (of_char (CHR ''-'')) l of
             Some (a, b) \<Rightarrow>
               (case parse_lifetime a of
                  Inl e \<Rightarrow> Inl e
                | Inr x \<Rightarrow> (case parse_lifetime b of Inl e \<Rightarrow> Inl e | Inr y \<Rightarrow> Inr (x, y)))
           | None \<Rightarrow> (case parse_lifetime l of Inl e \<Rightarrow> Inl e | Inr x \<Rightarrow> Inr (x, 0)))" for l
    by (simp add: parse_lifetimes_def)
  from this [of "decimal (unat from) @ (if to = 0 then [] else of_char (CHR ''-'') # decimal (unat to))"]
  show ?thesis
    by (simp add: lifetime_text_def split_once_None split_once_append parse_lifetime_decimal)
qed

lemma lifetime_text_no_dot: "of_char (CHR ''.'') \<notin> set (lifetime_text from to)"
  by (simp add: lifetime_text_def bytes_of_def)

lemma parse_keys:
  assumes "base64_codec b64e b64" and "list_all seed_ok ks"
  shows "parse_parts b64 padding keys (map (b64e \<circ> seed_bytes) ks) = Inr (padding, keys @ ks)"
  using assms(2)
proof (induction ks arbitrary: keys)
  case (Cons k ks)
  then have "32 \<le> length (seed_bytes k)" by (cases k) auto
  with assms(1) have c: "b64 (b64e (seed_bytes k)) = Some (seed_bytes k)" "\<not> length (b64e (seed_bytes k)) < 20"
    by (auto simp: base64_codec_def not_less)
  from Cons c show ?case by (cases k) simp_all
qed simp

lemma parse_paddings:
  "list_all (\<lambda>p. length p < 20) ps \<Longrightarrow> parse_parts b64 padding [] (ps @ xs) = parse_parts b64 (padding @ ps) [] xs"
  by (induction ps arbitrary: padding) auto

lemma parse_config_text:
  assumes "base64_codec b64e b64" and "ks \<noteq> []" and "list_all seed_ok ks"
    and "list_all (\<lambda>p. length p < 20 \<and> of_char (CHR ''.'') \<notin> set p) ps"
  shows "parse_config b64 (config_text b64e mode from to ps ks) =
    Inr \<lparr>ec_mode = mode, lifetime_from = from, lifetime_to = to,
         ec_padding = join_with (of_char (CHR ''.'')) ps, ec_keys = ks\<rparr>"
proof -
  let ?dot = "of_char (CHR ''.'') :: u8"
  let ?parts = "bytes_of ''mlkem768x25519plus'' # mode_name mode # lifetime_text from to # ps @ map (b64e \<circ> seed_bytes) ks"
  have "?dot \<notin> set (mode_name mode)" by (cases mode) (simp_all add: mode_name_def bytes_of_def)
  moreover have "?dot \<notin> set (bytes_of ''mlkem768x25519plus'')" by (simp add: bytes_of_def)
  ultimately have "\<forall>x \<in> set ?parts. ?dot \<notin> set x"
    using assms(1,4) lifetime_text_no_dot by (auto simp: base64_codec_def list_all_iff)
  then have sp: "split_on ?dot (config_text b64e mode from to ps ks) = ?parts"
    unfolding config_text_def by (intro split_on_join) simp_all
  have "list_all (\<lambda>p. length p < 20) ps" using assms(4) by (simp add: list_all_iff)
  then have "parse_parts b64 [] [] (ps @ map (b64e \<circ> seed_bytes) ks) = Inr (ps, ks)"
    using parse_keys [OF assms(1,3)] by (simp add: parse_paddings)
  with assms(2) show ?thesis
    unfolding parse_config_def sp by (simp add: parse_mode_name parse_lifetime_text)
qed

text \<open>
  The encryption setting round-trips: every mode, lifetime range, list of padding parameters and
  non-empty list of key seeds, written in the documented form, is parsed back as exactly that
  configuration.
\<close>

lemma encryption_config_roundtrip:
  assumes "base64_codec b64e b64" and "ks \<noteq> []" and "list_all seed_ok ks"
    and "list_all (\<lambda>p. length p < 20 \<and> of_char (CHR ''.'') \<notin> set p) ps"
  shows "parse_config b64 (config_text b64e mode from to ps ks) =
    Inr \<lparr>ec_mode = mode, lifetime_from = from, lifetime_to = to,
         ec_padding = join_with (of_char (CHR ''.'')) ps, ec_keys = ks\<rparr>"
  using assms by (rule parse_config_text)

text \<open>A stand-in for the base64 crate: every byte as two letters.\<close>

definition letters_enc :: "bytes \<Rightarrow> bytes" where
  "letters_enc k = concat (map (\<lambda>b. [0x41 + drop_bit 4 b, 0x41 + (b AND 15)]) k)"

fun letters_dec :: "bytes \<Rightarrow> bytes option" where
  "letters_dec [] = Some []"
| "letters_dec (a # b # s) = map_option ((#) (push_bit 4 (a - 0x41) OR (b - 0x41))) (letters_dec s)"
| "letters_dec _ = None"

lemma letters_codec: "base64_codec letters_enc letters_dec"
proof -
  have "b AND 15 = take_bit 4 b" for b :: u8
    by (simp add: take_bit_eq_mask mask_eq_exp_minus_1)
  then have "push_bit 4 (drop_bit 4 b) OR (b AND 15) = b" for b :: u8
    by (simp only:) (rule bit_eqI, auto simp: bit_simps)
  then have d: "letters_dec (letters_enc k) = Some k" for k
    by (induction k) (simp_all add: letters_enc_def)
  have "0x41 + x \<noteq> of_char (CHR ''.'')" if "x \<le> 15" for x :: u8
  proof
    assume e: "0x41 + x = of_char (CHR ''.'')"
    have "x = (0x41 + x) - 0x41" by simp
    also have "\<dots> = 0xED" unfolding e by simp
    finally show False using that by simp
  qed
  moreover have "drop_bit 4 b \<le> (15 :: u8)" for b :: u8
    using unsigned_less [of b, where 'a = nat] by (simp add: word_le_nat_alt drop_bit_eq_div unat_div)
  moreover have "b AND 15 \<le> (15 :: u8)" for b :: u8
    by (rule word_and_le1)
  ultimately have "of_char (CHR ''.'') \<notin> set (letters_enc k)" for k
    unfolding letters_enc_def by (fastforce)
  moreover have "length (letters_enc k) = 2 * length k" for k
    by (induction k) (simp_all add: letters_enc_def)
  ultimately show ?thesis by (simp add: base64_codec_def d)
qed

lemma encryption_config_roundtrip_example:
  "parse_config letters_dec (config_text letters_enc Random 300 600 [bytes_of ''100-111-1111''] [SeedX25519 (replicate 32 7)]) =
    Inr \<lparr>ec_mode = Random, lifetime_from = 300, lifetime_to = 600,
         ec_padding = bytes_of ''100-111-1111'', ec_keys = [SeedX25519 (replicate 32 7)]\<rparr>"
  using encryption_config_roundtrip [OF letters_codec, of "[SeedX25519 (replicate 32 7)]" "[bytes_of ''100-111-1111'']" Random 300 600]
  by (simp add: bytes_of_def)

end
