(* ===== verification/ServerKeys.thy ===== *)
theory ServerKeys
  imports EncConfig
begin

text \<open>
  The server's key material and its half of the forward-secret exchange,
  \<^verbatim>\<open>src/vless/encryption/keys.rs\<close>. X25519, ML-KEM-768 and BLAKE3 hashing of other crates are the
  parameter \<open>crypto\<close>; randomness drawn from the operating system is an argument.
\<close>

record crypto =
  x_public :: "bytes \<Rightarrow> bytes"
  x_dh :: "bytes \<Rightarrow> bytes \<Rightarrow> bytes"
  contributory :: "bytes \<Rightarrow> bool"
  kem_keygen :: "bytes \<Rightarrow> bytes \<Rightarrow> bytes \<times> bytes"
  kem_decaps :: "bytes \<Rightarrow> bytes \<Rightarrow> bytes option"
  kem_encaps :: "bytes \<Rightarrow> bytes \<Rightarrow> (bytes \<times> bytes) option"
  blake3 :: "bytes \<Rightarrow> bytes"

text \<open>
  What is documented of them: public keys, shared secrets, ciphertexts and hashes have their fixed
  sizes, both ends of an X25519 exchange compute the same secret, and a key encapsulated for an
  ML-KEM key is decapsulated with it.
\<close>

definition crypto_correct :: "crypto \<Rightarrow> bool" where
  "crypto_correct C \<longleftrightarrow>
     (\<forall>a b. x_dh C a (x_public C b) = x_dh C b (x_public C a)) \<and>
     (\<forall>a. length (x_public C a) = 32) \<and> (\<forall>a p. length (x_dh C a p) = 32) \<and>
     (\<forall>d z dk ek r ct k. kem_keygen C d z = (dk, ek) \<longrightarrow> kem_encaps C ek r = Some (ct, k) \<longrightarrow>
        kem_decaps C dk ct = Some k) \<and>
     (\<forall>ek r ct k. kem_encaps C ek r = Some (ct, k) \<longrightarrow> length ct = 1088 \<and> length k = 32) \<and>
     (\<forall>d z dk ek. kem_keygen C d z = (dk, ek) \<longrightarrow> length ek = 1184) \<and>
     (\<forall>x. length (blake3 C x) = 32)"

datatype server_key = KeyX25519 bytes bytes | KeyMlKem768 bytes bytes

datatype key_error = PeerKey | X25519HighBit | NonContributory | Decapsulation | Encapsulation

fun public_key :: "server_key \<Rightarrow> bytes" where
  "public_key (KeyX25519 sec pub) = pub"
| "public_key (KeyMlKem768 sec pub) = pub"

fun relay_len :: "server_key \<Rightarrow> nat" where
  "relay_len (KeyX25519 sec pub) = 32"
| "relay_len (KeyMlKem768 sec pub) = 1088"

fun decapsulate :: "crypto \<Rightarrow> server_key \<Rightarrow> bytes \<Rightarrow> key_error + bytes" where
  "decapsulate C (KeyX25519 sec pub) peer =
     (if length peer \<noteq> 32 then Inl PeerKey
      else if 127 < peer ! 31 then Inl X25519HighBit
      else let shared = x_dh C sec peer in if contributory C shared then Inr shared else Inl NonContributory)"
| "decapsulate C (KeyMlKem768 sec pub) peer =
     (if length peer \<noteq> 1088 then Inl PeerKey
      else case kem_decaps C sec peer of None \<Rightarrow> Inl Decapsulation | Some shared \<Rightarrow> Inr shared)"

record server_keys =
  sk_keys :: "server_key list"
  sk_relay_len :: nat

fun key_of_seed :: "crypto \<Rightarrow> key_seed \<Rightarrow> server_key" where
  "key_of_seed C (SeedX25519 seed) = KeyX25519 seed (x_public C seed)"
| "key_of_seed C (SeedMlKem768 seed) =
     (case kem_keygen C (take 32 seed) (drop 32 seed) of (dk, ek) \<Rightarrow> KeyMlKem768 dk ek)"

definition from_seeds :: "crypto \<Rightarrow> key_seed list \<Rightarrow> server_keys" where
  "from_seeds C seeds =
     (let keys = map (key_of_seed C) seeds
      in \<lparr>sk_keys = keys, sk_relay_len = sum_list (map (\<lambda>k. relay_len k + 32) keys) - 32\<rparr>)"

definition generate_pfs_response ::
  "crypto \<Rightarrow> bytes \<Rightarrow> bytes \<Rightarrow> bytes \<Rightarrow> bytes \<Rightarrow> key_error + bytes \<times> bytes" where
  "generate_pfs_response C rnd secret mlkem_public x25519_public =
     (if length mlkem_public \<noteq> 1184 then Inl PeerKey
      else case kem_encaps C mlkem_public rnd of
        None \<Rightarrow> Inl Encapsulation
      | Some (ct, mlkem_shared) \<Rightarrow>
          if length x25519_public \<noteq> 32 then Inl PeerKey
          else let shared = x_dh C secret x25519_public
               in if \<not> contributory C shared then Inl NonContributory
                  else Inr (ct @ x_public C secret, mlkem_shared @ shared))"

text \<open>The client's half of the exchange, the inverse of the response.\<close>

definition open_pfs_response :: "crypto \<Rightarrow> bytes \<Rightarrow> bytes \<Rightarrow> bytes \<Rightarrow> bytes option" where
  "open_pfs_response C dk secret response =
     (case kem_decaps C dk (take 1088 response) of
        None \<Rightarrow> None
      | Some k \<Rightarrow> Some (k @ x_dh C secret (drop 1088 response)))"

lemma crypto_dh: "crypto_correct C \<Longrightarrow> x_dh C a (x_public C b) = x_dh C b (x_public C a)"
  unfolding crypto_correct_def by (drule conjunct1) (erule allE [of _ a], erule allE [of _ b])

lemma crypto_lengths:
  "crypto_correct C \<Longrightarrow> length (x_public C a) = 32 \<and> length (x_dh C a p) = 32 \<and> length (blake3 C x) = 32"
  by (simp add: crypto_correct_def)

lemma pfs_exchange:
  assumes C: "crypto_correct C" and k: "kem_keygen C d z = (dk, ek)"
    and g: "generate_pfs_response C rnd sec ek (x_public C x) = Inr (resp, pfs)"
  shows "open_pfs_response C dk x resp = Some pfs \<and> length resp = 1120 \<and> length pfs = 64"
proof -
  obtain ct ks where e: "kem_encaps C ek rnd = Some (ct, ks)"
    "resp = ct @ x_public C sec" "pfs = ks @ x_dh C sec (x_public C x)"
    using g by (auto simp: generate_pfs_response_def Let_def split: if_splits option.splits)
  from C k e(1) have "kem_decaps C dk ct = Some ks" "length ct = 1088" "length ks = 32"
    unfolding crypto_correct_def by blast+
  moreover note crypto_dh [OF C, of sec x] crypto_lengths [OF C, of sec x]
  moreover have "length (x_dh C sec (x_public C x)) = 32" using crypto_lengths [OF C] by blast
  ultimately show ?thesis using e by (simp add: open_pfs_response_def)
qed

text \<open>A stand-in for the cryptography: a key is its own public key and secrets combine by XOR.\<close>

definition xor_bytes :: "bytes \<Rightarrow> bytes \<Rightarrow> bytes" where
  "xor_bytes a b = map (\<lambda>i. (if i < length a then a ! i else 0) XOR (if i < length b then b ! i else 0)) [0..<32]"

definition toy_crypto :: crypto where
  "toy_crypto =
     \<lparr>x_public = (\<lambda>a. take 32 (a @ replicate 32 0)), x_dh = (\<lambda>a p. xor_bytes (take 32 (a @ replicate 32 0)) p),
      contributory = (\<lambda>_. True), kem_keygen = (\<lambda>d z. (d, replicate 1184 0)),
      kem_decaps = (\<lambda>dk ct. Some (take 32 (ct @ replicate 32 0))),
      kem_encaps = (\<lambda>ek r. Some (take 32 (r @ replicate 32 0) @ replicate 1056 0, take 32 (r @ replicate 32 0))),
      blake3 = (\<lambda>x. replicate 32 0)\<rparr>"

lemma xor_bytes_comm: "xor_bytes a b = xor_bytes b a"
  by (simp add: xor_bytes_def xor.commute)

lemma toy_crypto_correct: "crypto_correct toy_crypto"
  by (auto simp: crypto_correct_def toy_crypto_def xor_bytes_comm) (auto simp: xor_bytes_def)

end
