(* ===== verification/Handshake.thy ===== *)
theory Handshake
  imports ServerKeys Xor
begin

text \<open>
  The server side of the VLESS encryption handshake, \<^verbatim>\<open>src/vless/encryption/handshake.rs\<close>: the relay chain,
  the 1-RTT exchange with its ticket, and 0-RTT resumption with replay protection. The AEAD, the
  AES-CTR key stream and the key exchange are parameters; randomness and the clock are arguments, and
  the callback that sends to the client is \<open>send_ok\<close>, whether the download stream still takes data.
\<close>

section \<open>State\<close>

record ticket_session =
  pfs_key :: bytes
  replay_keys :: "bytes set"
  expires :: nat

record server =
  s_config :: encryption_config
  s_keys :: server_keys
  tickets :: "bytes \<rightharpoonup> ticket_session"

record handshake_result =
  hr_decrypt :: aead_state
  hr_encrypt :: aead_state
  inbound_xor :: "header_xor option"
  outbound_xor :: "header_xor option"
  zero_rtt :: bool

text \<open>\<open>HsPanic\<close> stands for a panic of the source: an empty range given to \<open>gen_range\<close>, or a length field
  that does not decrypt to two bytes.\<close>

datatype handshake_error =
    HsIo io_error | HsRecord record_error | HsKey key_error | HsRelay | HsRelayHash | HsAuthentication
  | HsPfsLength nat | HsPadding | HsZeroRttDisabled | HsTicket | HsExpiredTicket | HsReplay | HsSend | HsPanic

text \<open>What the handshake draws from \<open>OsRng\<close>, in the order of the code.\<close>

record draws =
  d_kem :: bytes
  d_secret :: bytes
  d_lifetime :: nat
  d_ticket :: bytes
  d_random :: bytes
  d_decoy_len :: nat
  d_decoy :: "nat \<Rightarrow> bytes"

definition draws_ok :: "draws \<Rightarrow> bool" where
  "draws_ok d \<longleftrightarrow> length (d_ticket d) = 16 \<and> length (d_random d) = 16"

definition new_server :: "crypto \<Rightarrow> encryption_config \<Rightarrow> server" where
  "new_server C cfg = \<lparr>s_config = cfg, s_keys = from_seeds C (ec_keys cfg), tickets = Map.empty\<rparr>"

text \<open>\<open>Rng::gen_range(lo..=hi)\<close> panics on an empty range.\<close>

definition gen_range :: "nat \<Rightarrow> nat \<Rightarrow> nat \<Rightarrow> nat option" where
  "gen_range lo hi draw = (if hi < lo then None else Some (lo + draw mod (hi - lo + 1)))"

section \<open>Operations\<close>

definition new_ctr :: "keystream \<Rightarrow> bytes \<Rightarrow> bytes \<Rightarrow> nat \<Rightarrow> u8" where
  "new_ctr ks k iv = ks (derive_key (bytes_of ''VLESS'') k) iv"

text \<open>The loop over the keys, on the relay bytes from \<open>offset\<close> on. A counter that has masked a hash is
  at position 32 when it masks the next relay.\<close>

definition mask_previous :: "(nat \<Rightarrow> u8) option \<Rightarrow> bytes \<Rightarrow> bytes" where
  "mask_previous prev relay =
     (case prev of None \<Rightarrow> relay | Some ctr \<Rightarrow> apply_keystream ctr 32 (take 32 relay) @ drop 32 relay)"

definition mask_public :: "keystream \<Rightarrow> encryption_mode \<Rightarrow> bytes \<Rightarrow> server_key \<Rightarrow> bytes \<Rightarrow> bytes" where
  "mask_public ks mode iv k relay =
     (if mode \<noteq> Native then apply_keystream (new_ctr ks (public_key k) iv) 0 relay else relay)"

fun process_relays ::
  "crypto \<Rightarrow> keystream \<Rightarrow> encryption_mode \<Rightarrow> bytes \<Rightarrow> (nat \<Rightarrow> u8) option \<Rightarrow> bytes \<Rightarrow> server_key list \<Rightarrow> bytes \<Rightarrow>
     handshake_error + bytes" where
  "process_relays C ks mode iv prev nfs [] relays = Inr nfs"
| "process_relays C ks mode iv prev nfs (k # keys) relays =
     (if length relays < relay_len k then Inl HsRelay
      else
        let relay = take (relay_len k) relays
        in case decapsulate C k (mask_public ks mode iv k (mask_previous prev relay)) of
             Inl e \<Rightarrow> Inl (HsKey e)
           | Inr nfs' \<Rightarrow>
               let rest = drop (relay_len k) relays
               in if keys = [] then Inr nfs'
                  else if length rest < 32 then Inl HsRelay
                  else
                    let ctr = new_ctr ks nfs' iv
                    in if apply_keystream ctr 0 (take 32 rest) \<noteq> blake3 C (public_key (hd keys)) then Inl HsRelayHash
                       else process_relays C ks mode iv (Some ctr) nfs' keys (drop 32 rest))"

definition open_first_length :: "aead \<Rightarrow> bytes \<Rightarrow> bytes \<Rightarrow> bytes \<Rightarrow> handshake_error + aead_state \<times> cipher_kind \<times> bytes" where
  "open_first_length A iv nfs c =
     (case open_raw A (aead_state_new iv nfs Aes256Gcm) c [] None of
        (Inr p, st) \<Rightarrow> Inr (st, Aes256Gcm, p)
      | (Inl _, _) \<Rightarrow>
          (case open_raw A (aead_state_new iv nfs ChaCha20Poly1305) c [] None of
             (Inr p, st) \<Rightarrow> Inr (st, ChaCha20Poly1305, p)
           | (Inl _, _) \<Rightarrow> Inl HsAuthentication))"

definition create_ticket :: "server \<Rightarrow> draws \<Rightarrow> nat \<Rightarrow> bytes \<Rightarrow> (bytes \<times> server) option" where
  "create_ticket srv d now pfs =
     (let from = unat (lifetime_from (s_config srv)); to = unat (lifetime_to (s_config srv))
      in case (if to \<noteq> 0 then gen_range from to (d_lifetime d)
               else if from \<noteq> 0 then gen_range (from div 2) from (d_lifetime d)
               else Some 0) of
           None \<Rightarrow> None
         | Some lifetime \<Rightarrow>
             let ticket = be_len16 lifetime @ drop 2 (d_ticket d)
             in Some (ticket,
                  if lifetime \<noteq> 0
                  then srv\<lparr>tickets := (tickets srv)(ticket \<mapsto>
                         \<lparr>pfs_key = pfs, replay_keys = {}, expires = now + lifetime * 1000000000\<rparr>)\<rparr>
                  else srv))"

definition cleanup_tickets :: "nat \<Rightarrow> server \<Rightarrow> server" where
  "cleanup_tickets now srv =
     srv\<lparr>tickets := (\<lambda>t. case tickets srv t of
        None \<Rightarrow> None
      | Some s \<Rightarrow> if now < expires s then Some s else None)\<rparr>"

definition result_of ::
  "keystream \<Rightarrow> server \<Rightarrow> bytes \<Rightarrow> bytes \<Rightarrow> bytes \<Rightarrow> aead_state \<Rightarrow> aead_state \<Rightarrow> bool \<Rightarrow> handshake_result" where
  "result_of ks srv united iv out_iv dec enc z =
     (if ec_mode (s_config srv) = Random
      then \<lparr>hr_decrypt = dec, hr_encrypt = enc, inbound_xor = Some (inbound ks united iv 0),
            outbound_xor = Some (outbound ks united out_iv 0), zero_rtt = z\<rparr>
      else \<lparr>hr_decrypt = dec, hr_encrypt = enc, inbound_xor = None, outbound_xor = None, zero_rtt = z\<rparr>)"

text \<open>The outcome of a handshake: the result with the unread stream, the server afterwards and what was
  sent.\<close>

type_synonym hs_outcome = "(handshake_error + handshake_result \<times> bytes) \<times> server \<times> bytes list"

definition handshake_zero_rtt ::
  "aead \<Rightarrow> keystream \<Rightarrow> server \<Rightarrow> draws \<Rightarrow> nat \<Rightarrow> bool \<Rightarrow> bytes \<Rightarrow> bytes \<Rightarrow> bytes \<Rightarrow> aead_state \<Rightarrow> cipher_kind \<Rightarrow> hs_outcome" where
  "handshake_zero_rtt A ks srv d now send_ok s iv nfs nfs_aead k =
     (if lifetime_from (s_config srv) = 0 \<and> lifetime_to (s_config srv) = 0 then (Inl HsZeroRttDisabled, srv, [])
      else case read_exact 32 s of
        Inl e \<Rightarrow> (Inl (HsIo e), srv, [])
      | Inr (encrypted_ticket, s') \<Rightarrow>
          (case open_raw A nfs_aead encrypted_ticket [] None of
             (Inl e, _) \<Rightarrow> (Inl (HsRecord e), srv, [])
           | (Inr ticket, _) \<Rightarrow>
               if length ticket \<noteq> 16 then (Inl HsTicket, srv, [])
               else
                 let srv1 = cleanup_tickets now srv
                 in (case tickets srv1 ticket of
                       None \<Rightarrow>
                         let decoy = d_decoy d (the (gen_range 1279 2279 (d_decoy_len d)))
                         in (if send_ok then (Inl HsExpiredTicket, srv1, [decoy]) else (Inl HsSend, srv1, []))
                     | Some session \<Rightarrow>
                         if nfs \<in> replay_keys session then (Inl HsReplay, srv1, [])
                         else
                           let srv2 = srv1\<lparr>tickets := (tickets srv1)(ticket \<mapsto>
                                 session\<lparr>replay_keys := insert nfs (replay_keys session)\<rparr>)\<rparr>;
                               united = pfs_key session @ nfs
                           in if \<not> send_ok then (Inl HsSend, srv2, [])
                              else (Inr (result_of ks srv2 united iv (d_random d)
                                          (aead_state_new encrypted_ticket united k)
                                          (aead_state_new (d_random d) united k) True, s'),
                                    srv2, [d_random d]))))"

text \<open>The three records the server sends under its new key: the ticket, the padding length and the
  padding.\<close>

definition seal_rest :: "aead \<Rightarrow> aead_state \<Rightarrow> bytes \<Rightarrow> record_error + bytes \<times> aead_state" where
  "seal_rest A enc ticket =
     (case seal_raw A enc ticket [] None of
        (Inl e, _) \<Rightarrow> Inl e
      | (Inr c1, enc1) \<Rightarrow>
          (case seal_raw A enc1 (be_len16 (111 - 18)) [] None of
             (Inl e, _) \<Rightarrow> Inl e
           | (Inr c2, enc2) \<Rightarrow>
               (case seal_raw A enc2 (replicate (111 - 34) 0) [] None of
                  (Inl e, _) \<Rightarrow> Inl e
                | (Inr c3, enc3) \<Rightarrow> Inr (c1 @ c2 @ c3, enc3))))"

definition read_client_padding :: "aead \<Rightarrow> aead_state \<Rightarrow> bytes \<Rightarrow> handshake_error + bytes" where
  "read_client_padding A nfs_aead s =
     (case read_exact 18 s of
        Inl e \<Rightarrow> Inl (HsIo e)
      | Inr (c, s1) \<Rightarrow>
          (case open_raw A nfs_aead c [] None of
             (Inl e, _) \<Rightarrow> Inl (HsRecord e)
           | (Inr l, nfs1) \<Rightarrow>
               if length l \<noteq> 2 then Inl HsPadding
               else (case read_exact (len16 (l ! 0) (l ! 1)) s1 of
                       Inl e \<Rightarrow> Inl (HsIo e)
                     | Inr (c', s2) \<Rightarrow>
                         (case open_raw A nfs1 c' [] None of
                            (Inl e, _) \<Rightarrow> Inl (HsRecord e)
                          | (Inr _, _) \<Rightarrow> Inr s2))))"

definition handshake_pfs ::
  "aead \<Rightarrow> keystream \<Rightarrow> crypto \<Rightarrow> server \<Rightarrow> draws \<Rightarrow> nat \<Rightarrow> bool \<Rightarrow> bytes \<Rightarrow> bytes \<Rightarrow> bytes \<Rightarrow> aead_state \<Rightarrow> cipher_kind \<Rightarrow> nat \<Rightarrow> hs_outcome" where
  "handshake_pfs A ks C srv d now send_ok s iv nfs nfs_aead k len =
     (case read_exact len s of
        Inl e \<Rightarrow> (Inl (HsIo e), srv, [])
      | Inr (encrypted_pfs, s1) \<Rightarrow>
          (case open_raw A nfs_aead encrypted_pfs [] None of
             (Inl e, _) \<Rightarrow> (Inl (HsRecord e), srv, [])
           | (Inr plain, nfs1) \<Rightarrow>
               if length plain < 1216 then (Inl (HsPfsLength (length plain)), srv, [])
               else (case generate_pfs_response C (d_kem d) (d_secret d) (take 1184 plain) (take 32 (drop 1184 plain)) of
                 Inl e \<Rightarrow> (Inl (HsKey e), srv, [])
               | Inr (response, pfs) \<Rightarrow>
                   let united = pfs @ nfs;
                       enc = aead_state_new response united k;
                       dec = aead_state_new (take 1216 plain) united k
                   in (case seal_raw A nfs1 response [] (Some MAX_NONCE) of
                         (Inl e, _) \<Rightarrow> (Inl (HsRecord e), srv, [])
                       | (Inr hello0, nfs2) \<Rightarrow>
                           (case create_ticket srv d now pfs of
                              None \<Rightarrow> (Inl HsPanic, srv, [])
                            | Some (ticket, srv') \<Rightarrow>
                                (case seal_rest A enc ticket of
                                   Inl e \<Rightarrow> (Inl (HsRecord e), srv', [])
                                 | Inr (tail1, enc') \<Rightarrow>
                                     if \<not> send_ok then (Inl HsSend, srv', [])
                                     else (case read_client_padding A nfs2 s1 of
                                             Inl e \<Rightarrow> (Inl e, srv', [hello0 @ tail1])
                                           | Inr s2 \<Rightarrow>
                                               (Inr (result_of ks srv' united iv ticket dec enc' False, s2),
                                                srv', [hello0 @ tail1]))))))))"

definition handshake :: "aead \<Rightarrow> keystream \<Rightarrow> crypto \<Rightarrow> server \<Rightarrow> draws \<Rightarrow> nat \<Rightarrow> bool \<Rightarrow> bytes \<Rightarrow> hs_outcome" where
  "handshake A ks C srv d now send_ok s =
     (case read_exact (16 + sk_relay_len (s_keys srv)) s of
        Inl e \<Rightarrow> (Inl (HsIo e), srv, [])
      | Inr (iv_and_relays, s1) \<Rightarrow>
          let iv = take 16 iv_and_relays
          in (case process_relays C ks (ec_mode (s_config srv)) iv None (replicate 32 0) (sk_keys (s_keys srv)) (drop 16 iv_and_relays) of
                Inl e \<Rightarrow> (Inl e, srv, [])
              | Inr nfs \<Rightarrow>
                  (case read_exact 18 s1 of
                     Inl e \<Rightarrow> (Inl (HsIo e), srv, [])
                   | Inr (c, s2) \<Rightarrow>
                       (case open_first_length A iv nfs c of
                          Inl e \<Rightarrow> (Inl e, srv, [])
                        | Inr (nfs_aead, k, l) \<Rightarrow>
                            if length l \<noteq> 2 then (Inl HsPanic, srv, [])
                            else
                              let len = len16 (l ! 0) (l ! 1)
                              in if len = 32 then handshake_zero_rtt A ks srv d now send_ok s2 iv nfs nfs_aead k
                                 else if len < 1184 + 32 + 16 then (Inl (HsPfsLength len), srv, [])
                                 else handshake_pfs A ks C srv d now send_ok s2 iv nfs nfs_aead k len))))"

section \<open>Relay chains\<close>

text \<open>The chain a client builds for the server keys: for each key the relay \<open>r\<close> (an X25519 public key or
  an ML-KEM ciphertext) and the secret \<open>x\<close> it stands for.\<close>

fun client_relays ::
  "crypto \<Rightarrow> keystream \<Rightarrow> encryption_mode \<Rightarrow> bytes \<Rightarrow> (nat \<Rightarrow> u8) option \<Rightarrow> (server_key \<times> bytes \<times> bytes) list \<Rightarrow> bytes" where
  "client_relays C ks mode iv prev [] = []"
| "client_relays C ks mode iv prev ((k, r, x) # chain) =
     (mask_previous prev (mask_public ks mode iv k r) @
              (if chain = [] then []
               else apply_keystream (new_ctr ks x iv) 0 (blake3 C (public_key (fst (hd chain)))) @
                    client_relays C ks mode iv (Some (new_ctr ks x iv)) chain))"

lemma apply_keystream_twice [simp]: "apply_keystream s p (apply_keystream s p bs) = bs"
  by (induction bs arbitrary: p) (simp_all add: apply_keystream_Cons xor.assoc)

lemma length_masks [simp]:
  "length (mask_public ks mode iv k r) = length r" "32 \<le> length r \<Longrightarrow> length (mask_previous prev r) = length r"
  by (simp_all add: mask_public_def mask_previous_def split: option.split)

lemma masks_twice [simp]:
  "mask_public ks mode iv k (mask_public ks mode iv k r) = r"
  "32 \<le> length r \<Longrightarrow> mask_previous prev (mask_previous prev r) = r"
  by (simp_all add: mask_public_def mask_previous_def split: option.split)

lemma relay_len_ge: "32 \<le> relay_len k"
  by (cases k) simp_all

lemma process_client_relays:
  assumes C: "crypto_correct C" and "chain \<noteq> []"
    and "\<forall>(k, r, x) \<in> set chain. length r = relay_len k \<and> decapsulate C k r = Inr x"
  shows "process_relays C ks mode iv prev nfs (map fst chain) (client_relays C ks mode iv prev chain) =
      Inr (snd (snd (last chain))) \<and>
    length (client_relays C ks mode iv prev chain) + 32 = sum_list (map (\<lambda>e. relay_len (fst e) + 32) chain)"
  using assms(2,3)
proof (induction chain arbitrary: prev nfs)
  case (Cons c chain)
  obtain k r x where c: "c = (k, r, x)" by (cases c)
  have k: "length r = relay_len k" "decapsulate C k r = Inr x" using Cons.prems(2) c by auto
  let ?r = "mask_previous prev (mask_public ks mode iv k r)"
  have l: "length ?r = relay_len k" "mask_public ks mode iv k (mask_previous prev ?r) = r"
    using k(1) relay_len_ge [of k] by simp_all
  let ?ctr = "new_ctr ks x iv"
  have h: "length (blake3 C z) = 32" for z using crypto_lengths [OF C] by blast
  show ?case
  proof (cases "chain = []")
    case True
    with c l k show ?thesis by simp
  next
    case False
    have IH: "process_relays C ks mode iv (Some ?ctr) x (map fst chain) (client_relays C ks mode iv (Some ?ctr) chain) =
        Inr (snd (snd (last chain))) \<and>
      length (client_relays C ks mode iv (Some ?ctr) chain) + 32 = sum_list (map (\<lambda>e. relay_len (fst e) + 32) chain)"
      using Cons.IH [OF False] Cons.prems(2) by simp
    have "hd (map fst chain) = fst (hd chain)" using False by (simp add: hd_map)
    with False c l k IH h show ?thesis by (simp add: Let_def)
  qed
qed simp

text \<open>
  Relay chains: for every key list of a server (X25519 and ML-KEM keys in any order), every mode
  and IV, the chain a client builds with the secrets \<open>x\<close> for the relays \<open>r\<close> has exactly the length the
  server reads, is accepted, and yields the secret of the last key.
\<close>

lemma relay_chain_accepted:
  assumes "crypto_correct C" and "chain \<noteq> []" and "map fst chain = sk_keys (from_seeds C seeds)"
    and "\<forall>(k, r, x) \<in> set chain. length r = relay_len k \<and> decapsulate C k r = Inr x"
  shows "process_relays C ks mode iv None (replicate 32 0) (sk_keys (from_seeds C seeds)) (client_relays C ks mode iv None chain) =
      Inr (snd (snd (last chain))) \<and>
    length (client_relays C ks mode iv None chain) = sk_relay_len (from_seeds C seeds)"
proof -
  have "map (key_of_seed C) seeds = map fst chain"
    using assms(3) by (simp add: from_seeds_def Let_def)
  moreover have "sum_list (map (\<lambda>e. relay_len (fst e) + 32) chain) = sum_list (map (\<lambda>k. relay_len k + 32) (map fst chain))"
    by (simp add: comp_def)
  ultimately have "sum_list (map (\<lambda>e. relay_len (fst e) + 32) chain) = sum_list (map (\<lambda>k. relay_len k + 32) (map (key_of_seed C) seeds))"
    by simp
  with process_client_relays [OF assms(1,2,4), of ks mode iv None "replicate 32 0"] assms(3) show ?thesis
    by (auto simp: from_seeds_def Let_def dest: arg_cong [of _ _ "\<lambda>n. n - 32"])
qed

lemma relay_chain_accepted_example:
  "length (client_relays toy_crypto (\<lambda>_ _ i. of_nat i) Random [1, 2] None
      [(KeyX25519 (replicate 32 1) (replicate 32 1), replicate 32 5, xor_bytes (replicate 32 1) (replicate 32 5)),
       (KeyX25519 (replicate 32 2) (replicate 32 2), replicate 32 6, xor_bytes (replicate 32 2) (replicate 32 6))]) = 96"
proof -
  let ?chain = "[(KeyX25519 (replicate 32 1) (replicate 32 1), replicate 32 5, xor_bytes (replicate 32 1) (replicate 32 5)),
       (KeyX25519 (replicate 32 2) (replicate 32 2), replicate 32 6, xor_bytes (replicate 32 2) (replicate 32 6))]"
  let ?seeds = "[SeedX25519 (replicate 32 1), SeedX25519 (replicate 32 2)]"
  have k: "map fst ?chain = sk_keys (from_seeds toy_crypto ?seeds)"
    by (simp add: from_seeds_def toy_crypto_def)
  have c: "\<forall>(k, r, x) \<in> set ?chain. length r = relay_len k \<and> decapsulate toy_crypto k r = Inr x"
    by (simp add: toy_crypto_def)
  have "sk_relay_len (from_seeds toy_crypto ?seeds) = 96"
    by (simp add: from_seeds_def)
  with relay_chain_accepted [OF toy_crypto_correct _ k c, of "\<lambda>_ _ i. of_nat i" Random "[1, 2]"] show ?thesis by simp
qed

section \<open>Agreement of client and server\<close>

text \<open>Encryption of a message of less than 64 KiB does not fail.\<close>

definition aead_total :: "aead \<Rightarrow> bool" where
  "aead_total A \<longleftrightarrow> (\<forall>k key n p aad. length p < 2 ^ 16 \<longrightarrow> aead_encrypt A k key n p aad \<noteq> None)"

lemma seal_raw_open:
  assumes "aead_correct A" and "seal_raw A st p aad ex = (Inr c, st')"
  shows "open_raw A st c aad ex = (Inr p, st') \<and> length c = length p + 16"
  using assms
  by (auto simp: seal_raw_def open_raw_def encrypt_def decrypt_def aead_correct_def split: prod.splits option.splits)

lemma seal_raw_total:
  assumes "aead_total A" and "length p < 2 ^ 16"
  obtains c st' where "seal_raw A st p aad ex = (Inr c, st')"
proof -
  obtain n st' where n: "next_nonce st ex = (n, st')" by (cases "next_nonce st ex")
  obtain c where "aead_encrypt A (kind st') (key st') n p aad = Some c"
    using assms by (fastforce simp: aead_total_def)
  with n that show thesis by (simp add: seal_raw_def encrypt_def)
qed

fun seal_raws :: "aead \<Rightarrow> aead_state \<Rightarrow> bytes list \<Rightarrow> (bytes list \<times> aead_state) option" where
  "seal_raws A st [] = Some ([], st)"
| "seal_raws A st (p # ps) =
     (case seal_raw A st p [] None of
        (Inl e, st') \<Rightarrow> None
      | (Inr c, st') \<Rightarrow> (case seal_raws A st' ps of None \<Rightarrow> None | Some (cs, st'') \<Rightarrow> Some (c # cs, st'')))"

text \<open>What a client sends, and how it reads the answer (as in the tests of the source).\<close>

definition client_hello :: "aead \<Rightarrow> bytes \<Rightarrow> bytes \<Rightarrow> bytes \<Rightarrow> cipher_kind \<Rightarrow> bytes \<Rightarrow> bytes \<Rightarrow> bytes option" where
  "client_hello A iv relays nfs k plain pad =
     (case seal_raws A (aead_state_new iv nfs k) [be_len16 (length plain + 16), plain, be_len16 (length pad + 16), pad] of
        None \<Rightarrow> None
      | Some (cs, st) \<Rightarrow> Some (iv @ relays @ concat cs))"

definition client_open :: "aead \<Rightarrow> crypto \<Rightarrow> cipher_kind \<Rightarrow> bytes \<Rightarrow> bytes \<Rightarrow> bytes \<Rightarrow> bytes \<Rightarrow> bytes \<Rightarrow> (bytes \<times> bytes \<times> aead_state) option" where
  "client_open A C k iv nfs dk x hello =
     (case open_raw A (aead_state_new iv nfs k) (take 1136 hello) [] (Some MAX_NONCE) of
        (Inl e, _) \<Rightarrow> None
      | (Inr response, _) \<Rightarrow>
          (case open_pfs_response C dk x response of
             None \<Rightarrow> None
           | Some pfs \<Rightarrow>
               let united = pfs @ nfs; rest = drop 1136 hello
               in (case open_raw A (aead_state_new response united k) (take 32 rest) [] None of
                     (Inl e, _) \<Rightarrow> None
                   | (Inr ticket, st1) \<Rightarrow>
                       (case open_raw A st1 (take 18 (drop 32 rest)) [] None of
                          (Inl e, _) \<Rightarrow> None
                        | (Inr l, st2) \<Rightarrow>
                            (case open_raw A st2 (take (len16 (l ! 0) (l ! 1)) (drop 50 rest)) [] None of
                               (Inl e, _) \<Rightarrow> None
                             | (Inr padding, st3) \<Rightarrow> Some (ticket, united, st3))))))"

lemma seal_raw_explicit:
  assumes "aead_total A" and "length p < 2 ^ 16"
  shows "\<exists>c. seal_raw A st p aad (Some n) = (Inr c, st)"
  using seal_raw_total [OF assms, of st aad "Some n"] by (auto simp: seal_raw_def next_nonce_def)

lemma length_be16_nth: "n < 2 ^ 16 \<Longrightarrow> len16 (be_len16 n ! 0) (be_len16 n ! 1) = n"
  by (simp add: be_len16_Cons len16_be_len16)

lemma seal_rest_open:
  assumes A: "aead_correct A" "aead_total A" and t: "length ticket = 16"
  obtains c1 c2 c3 st1 st2 st3 where "seal_rest A enc ticket = Inr (c1 @ c2 @ c3, st3)"
    "length c1 = 32" "length c2 = 18" "length c3 = 93"
    "open_raw A enc c1 [] None = (Inr ticket, st1)" "open_raw A st1 c2 [] None = (Inr (be_len16 93), st2)"
    "open_raw A st2 c3 [] None = (Inr (replicate 77 0), st3)"
proof -
  obtain c1 st1 where 1: "seal_raw A enc ticket [] None = (Inr c1, st1)"
    by (rule seal_raw_total [OF A(2), of ticket]) (simp_all add: t)
  obtain c2 st2 where 2: "seal_raw A st1 (be_len16 93) [] None = (Inr c2, st2)"
    by (rule seal_raw_total [OF A(2), of "be_len16 93"]) simp_all
  obtain c3 st3 where 3: "seal_raw A st2 (replicate 77 0) [] None = (Inr c3, st3)"
    by (rule seal_raw_total [OF A(2), of "replicate 77 0"]) simp_all
  show thesis
    using that [of c1 c2 c3 st3 st1 st2] seal_raw_open [OF A(1) 1] seal_raw_open [OF A(1) 2] seal_raw_open [OF A(1) 3] t
    by (simp add: seal_rest_def 1 2 3)
qed

lemma read_client_padding_ok:
  assumes A: "aead_correct A" and "length pad + 16 < 2 ^ 16"
    and 3: "seal_raw A st (be_len16 (length pad + 16)) [] None = (Inr c3, st3)" and 4: "seal_raw A st3 pad [] None = (Inr c4, st4)"
  shows "read_client_padding A st (c3 @ c4 @ rest) = Inr rest"
  using seal_raw_open [OF A 3] seal_raw_open [OF A 4] length_be16_nth [of "length pad + 16"] assms(2)
  by (simp add: read_client_padding_def)

lemma gen_range_in:
  assumes "lo \<le> hi"
  shows "\<exists>n. gen_range lo hi x = Some n \<and> lo \<le> n \<and> n \<le> hi"
  using assms mod_less_divisor [of "hi - lo + 1" x] by (auto simp: gen_range_def simp del: mod_less_divisor)

lemma create_ticket_ok:
  assumes "lifetime_to (s_config srv) = 0 \<or> lifetime_from (s_config srv) \<le> lifetime_to (s_config srv)" and "length (d_ticket d) = 16"
  obtains ticket srv' where "create_ticket srv d now pfs = Some (ticket, srv')" "length ticket = 16"
    "s_config srv' = s_config srv" "s_keys srv' = s_keys srv"
    "srv' = srv \<or> tickets srv' ticket = Some \<lparr>pfs_key = pfs, replay_keys = {}, expires = now + len16 (ticket ! 0) (ticket ! 1) * 1000000000\<rparr>"
proof -
  let ?from = "unat (lifetime_from (s_config srv))" and ?to = "unat (lifetime_to (s_config srv))"
  have b: "?from < 2 ^ 16" "?to < 2 ^ 16" 
    using unsigned_less [of "lifetime_from (s_config srv)", where 'a = nat] unsigned_less [of "lifetime_to (s_config srv)", where 'a = nat]
    by simp_all
  have "\<exists>n < 2 ^ 16. (if ?to \<noteq> 0 then gen_range ?from ?to (d_lifetime d)
               else if ?from \<noteq> 0 then gen_range (?from div 2) ?from (d_lifetime d)
               else Some 0) = Some n"
    using assms(1) b gen_range_in [of ?from ?to "d_lifetime d"] gen_range_in [of "?from div 2" ?from "d_lifetime d"]
    by (fastforce simp: word_le_nat_alt unat_eq_0)
  then obtain n where n: "n < 2 ^ 16" "(if ?to \<noteq> 0 then gen_range ?from ?to (d_lifetime d)
               else if ?from \<noteq> 0 then gen_range (?from div 2) ?from (d_lifetime d)
               else Some 0) = Some n" by blast
  let ?t = "be_len16 n @ drop 2 (d_ticket d)"
  have "len16 (?t ! 0) (?t ! 1) = n" using length_be16_nth [OF n(1)] by (simp add: nth_append)
  with n(2) assms(2) that [of ?t "snd (the (create_ticket srv d now pfs))"] show thesis
    by (simp add: create_ticket_def Let_def)
qed

text \<open>The ciphers and masks both ends must agree on.\<close>

definition agree ::
  "keystream \<Rightarrow> encryption_mode \<Rightarrow> handshake_result \<Rightarrow> bytes \<Rightarrow> bytes \<Rightarrow> bytes \<Rightarrow> aead_state \<Rightarrow> aead_state \<Rightarrow> bool" where
  "agree ks mode res united iv out_iv client_write client_read \<longleftrightarrow>
     hr_decrypt res = client_write \<and> hr_encrypt res = client_read \<and>
     (if mode = Random
      then inbound_xor res = Some (inbound ks united iv 0) \<and> outbound_xor res = Some (outbound ks united out_iv 0)
      else inbound_xor res = None \<and> outbound_xor res = None)"

lemma agree_result_of:
  "agree ks (ec_mode (s_config srv)) (result_of ks srv united iv oiv dec enc z) united iv oiv dec enc \<and>
   zero_rtt (result_of ks srv united iv oiv dec enc z) = z"
  by (simp add: agree_def result_of_def)

lemma open_first_length_ok:
  assumes "aead_correct A" and "seal_raw A (aead_state_new iv nfs k) p [] None = (Inr c, st)"
    and "k = ChaCha20Poly1305 \<longrightarrow> (\<exists>e. fst (open_raw A (aead_state_new iv nfs Aes256Gcm) c [] None) = Inl e)"
  shows "open_first_length A iv nfs c = Inr (st, k, p)"
  using seal_raw_open [OF assms(1,2)] assms(3)
  by (cases k) (auto simp: open_first_length_def split: prod.splits sum.splits)

lemma handshake_pfs_agrees:
  assumes A: "aead_correct A" "aead_total A" and C: "crypto_correct C"
    and key: "kem_keygen C dd zz = (dk, ek)" and plain: "plain = ek @ x_public C x"
    and seals: "seal_raw A st1 plain [] None = (Inr c2, st2)"
      "seal_raw A st2 (be_len16 (length pad + 16)) [] None = (Inr c3, st3)" "seal_raw A st3 pad [] None = (Inr c4, st4)"
    and pad: "length pad + 16 < 2 ^ 16"
    and st: "\<exists>n. st1 = (aead_state_new iv nfs k)\<lparr>nonce := n\<rparr>"
    and g: "generate_pfs_response C (d_kem d) (d_secret d) ek (x_public C x) = Inr (response, pfs)"
    and d: "length (d_ticket d) = 16"
    and life: "lifetime_to (s_config srv) = 0 \<or> lifetime_from (s_config srv) \<le> lifetime_to (s_config srv)"
  shows "\<exists>res srv' hello ticket united read.
    (\<forall>rest. handshake_pfs A ks C srv d now True (c2 @ c3 @ c4 @ rest) iv nfs st1 k (length c2) = (Inr (res, rest), srv', [hello])) \<and>
    length hello = 1279 \<and> client_open A C k iv nfs dk x hello = Some (ticket, united, read) \<and>
    agree ks (ec_mode (s_config srv)) res united iv ticket (aead_state_new plain united k) read \<and> \<not> zero_rtt res"
proof -
  have lx: "length (x_public C x) = 32" using crypto_lengths [OF C] by blast
  have le: "length ek = 1184" using C key unfolding crypto_correct_def by blast
  note pe = pfs_exchange [OF C key g]
  obtain hello0 where h0: "seal_raw A st2 response [] (Some MAX_NONCE) = (Inr hello0, st2)"
    using seal_raw_explicit [OF A(2), of response st2 "[]" MAX_NONCE] pe by auto
  obtain ticket srv' where t: "create_ticket srv d now pfs = Some (ticket, srv')" "length ticket = 16"
      "s_config srv' = s_config srv"
    using create_ticket_ok [OF life d] by metis
  let ?united = "pfs @ nfs"
  obtain k1 k2 k3 e1 e2 e3 where r: "seal_rest A (aead_state_new response ?united k) ticket = Inr (k1 @ k2 @ k3, e3)"
    "length k1 = 32" "length k2 = 18" "length k3 = 93"
    "open_raw A (aead_state_new response ?united k) k1 [] None = (Inr ticket, e1)"
    "open_raw A e1 k2 [] None = (Inr (be_len16 93), e2)" "open_raw A e2 k3 [] None = (Inr (replicate 77 0), e3)"
    by (rule seal_rest_open [OF A t(2), of "aead_state_new response ?united k"])
  let ?res = "result_of ks srv' ?united iv ticket (aead_state_new plain ?united k) e3 False"
  have hs: "handshake_pfs A ks C srv d now True (c2 @ c3 @ c4 @ rest) iv nfs st1 k (length c2) =
      (Inr (?res, rest), srv', [hello0 @ k1 @ k2 @ k3])" for rest
    using seal_raw_open [OF A(1) seals(1)] read_client_padding_ok [OF A(1) pad seals(2,3)] lx le g h0 t(1) r(1)
    by (simp add: handshake_pfs_def plain Let_def)
  have same: "open_raw A (aead_state_new iv nfs k) c [] (Some n) = (o1, aead_state_new iv nfs k)"
    if "open_raw A st2 c [] (Some n) = (o1, st2)" for c n o1
  proof -
    obtain m where "st2 = (aead_state_new iv nfs k)\<lparr>nonce := m\<rparr>"
      using seals(1) st by (auto simp: seal_raw_def next_nonce_def Let_def split: prod.splits)
    with that show ?thesis by (simp add: open_raw_def next_nonce_def decrypt_def)
  qed
  have "client_open A C k iv nfs dk x (hello0 @ k1 @ k2 @ k3) = Some (ticket, ?united, e3)"
    using seal_raw_open [OF A(1) h0] same [of hello0 MAX_NONCE "Inr response"] pe r length_be16_nth [of 93]
    by (simp add: client_open_def Let_def)
  with hs agree_result_of [of ks srv' ?united iv ticket] t(3) pe r(2,3,4) seal_raw_open [OF A(1) h0]
  show ?thesis by (intro exI [of _ ?res] exI) auto
qed

text \<open>What a well-behaved client needs: the relay chain is accepted with the secret \<open>nfs\<close>, and a client
  that uses ChaCha20-Poly1305 is not mistaken for one that uses AES-GCM.\<close>

definition good_client :: "aead \<Rightarrow> keystream \<Rightarrow> crypto \<Rightarrow> server \<Rightarrow> bytes \<Rightarrow> bytes \<Rightarrow> bytes \<Rightarrow> cipher_kind \<Rightarrow> bytes \<Rightarrow> bool" where
  "good_client A ks C srv iv relays nfs k wire \<longleftrightarrow>
     length iv = 16 \<and> length relays = sk_relay_len (s_keys srv) \<and>
     process_relays C ks (ec_mode (s_config srv)) iv None (replicate 32 0) (sk_keys (s_keys srv)) relays = Inr nfs \<and>
     (k = ChaCha20Poly1305 \<longrightarrow>
        (\<exists>e. fst (open_raw A (aead_state_new iv nfs Aes256Gcm) (take 18 (drop (16 + length relays) wire)) [] None) = Inl e))"

lemma good_client_tail:
  assumes "good_client A ks C srv iv relays nfs k (iv @ relays @ c1 @ t)" and "length c1 = 18"
  shows "good_client A ks C srv iv relays nfs k (iv @ relays @ c1 @ t')"
proof -
  have "take 18 (drop (16 + length relays) (iv @ relays @ c1 @ x)) = c1" for x
    using assms by (auto simp: good_client_def)
  with assms(1) show ?thesis unfolding good_client_def by metis
qed

lemma handshake_front:
  assumes A: "aead_correct A" and gc: "good_client A ks C srv iv relays nfs k (iv @ relays @ c1 @ tail1)"
    and c1: "seal_raw A (aead_state_new iv nfs k) (be_len16 n) [] None = (Inr c1, st1)" and n: "n < 2 ^ 16"
  shows "handshake A ks C srv d now ok (iv @ relays @ c1 @ tail1) =
    (if n = 32 then handshake_zero_rtt A ks srv d now ok tail1 iv nfs st1 k
     else if n < 1232 then (Inl (HsPfsLength n), srv, [])
     else handshake_pfs A ks C srv d now ok tail1 iv nfs st1 k n)"
proof -
  have l: "length c1 = 18" using seal_raw_open [OF A c1] by simp
  have f: "open_first_length A iv nfs c1 = Inr (st1, k, be_len16 n)"
    using gc l by (intro open_first_length_ok [OF A c1]) (auto simp: good_client_def)
  have "read_exact (16 + sk_relay_len (s_keys srv)) (iv @ relays @ c1 @ tail1) = Inr (iv @ relays, c1 @ tail1)"
    using gc by (simp add: read_exact_def good_client_def)
  with gc l f length_be16_nth [OF n] show ?thesis
    by (simp add: handshake_def good_client_def)
qed

lemma handshake_agrees:
  assumes A: "aead_correct A" "aead_total A" and C: "crypto_correct C"
    and gc: "good_client A ks C srv iv relays nfs k wire"
    and key: "kem_keygen C dd zz = (dk, ek)"
    and w: "client_hello A iv relays nfs k (ek @ x_public C x) pad = Some wire" and pad: "length pad + 16 < 2 ^ 16"
    and g: "generate_pfs_response C (d_kem d) (d_secret d) ek (x_public C x) = Inr (response, pfs)"
    and d: "length (d_ticket d) = 16"
    and life: "lifetime_to (s_config srv) = 0 \<or> lifetime_from (s_config srv) \<le> lifetime_to (s_config srv)"
  shows "\<exists>res srv' hello ticket united read.
    (\<forall>rest. handshake A ks C srv d now True (wire @ rest) = (Inr (res, rest), srv', [hello])) \<and>
    length hello = 1279 \<and> client_open A C k iv nfs dk x hello = Some (ticket, united, read) \<and>
    agree ks (ec_mode (s_config srv)) res united iv ticket (aead_state_new (ek @ x_public C x) united k) read \<and> \<not> zero_rtt res"
proof -
  let ?plain = "ek @ x_public C x" and ?st0 = "aead_state_new iv nfs k"
  have lp: "length ?plain = 1216"
    using C key crypto_lengths [OF C, of x] unfolding crypto_correct_def by fastforce
  obtain c1 st1 c2 st2 c3 st3 c4 st4 where c:
    "seal_raw A ?st0 (be_len16 1232) [] None = (Inr c1, st1)" "seal_raw A st1 ?plain [] None = (Inr c2, st2)"
    "seal_raw A st2 (be_len16 (length pad + 16)) [] None = (Inr c3, st3)" "seal_raw A st3 pad [] None = (Inr c4, st4)"
    "wire = iv @ relays @ c1 @ c2 @ c3 @ c4"
    using w lp by (auto simp: client_hello_def split: prod.splits sum.splits option.splits)
  have st1: "\<exists>n. st1 = ?st0\<lparr>nonce := n\<rparr>"
    using c(1) by (auto simp: seal_raw_def next_nonce_def Let_def split: prod.splits)
  have "length c1 = 18" "length c2 = 1232"
    using seal_raw_open [OF A(1) c(1)] seal_raw_open [OF A(1) c(2)] lp by simp_all
  with gc c(5) have "good_client A ks C srv iv relays nfs k (iv @ relays @ c1 @ c2 @ c3 @ c4 @ rest)" for rest
    by (auto intro: good_client_tail)
  from handshake_front [OF A(1) this c(1), of d now True]
  have "handshake A ks C srv d now True (wire @ rest) =
      handshake_pfs A ks C srv d now True (c2 @ c3 @ c4 @ rest) iv nfs st1 k (length c2)" for rest
    using c(5) \<open>length c2 = 1232\<close> by simp
  with handshake_pfs_agrees [OF A C key refl c(2,3,4) pad st1 g d life, of ks now] show ?thesis by simp
qed

section \<open>Resumption without replay\<close>

lemma cleanup_frame [simp]:
  "s_config (cleanup_tickets now srv) = s_config srv" "s_keys (cleanup_tickets now srv) = s_keys srv"
  by (simp_all add: cleanup_tickets_def)

lemma cleanup_tickets_Some:
  "tickets (cleanup_tickets now srv) t = Some x \<longleftrightarrow> tickets srv t = Some x \<and> now < expires x"
  by (auto simp: cleanup_tickets_def split: option.splits)

text \<open>The flight of a client that resumes with a ticket.\<close>

definition client_resume :: "aead \<Rightarrow> bytes \<Rightarrow> bytes \<Rightarrow> bytes \<Rightarrow> cipher_kind \<Rightarrow> bytes \<Rightarrow> (bytes \<times> bytes) option" where
  "client_resume A iv relays nfs k ticket =
     (case seal_raws A (aead_state_new iv nfs k) [be_len16 32, ticket] of
        Some ([c1, c2], st) \<Rightarrow> Some (iv @ relays @ c1 @ c2, c2)
      | _ \<Rightarrow> None)"

lemma zero_rtt_agrees:
  assumes A: "aead_correct A" and gc: "good_client A ks C srv iv relays nfs k wire"
    and w: "client_resume A iv relays nfs k ticket = Some (wire, c2)" and t: "length ticket = 16"
    and x: "tickets srv ticket = Some x" "now < expires x" "nfs \<notin> replay_keys x"
    and life: "lifetime_from (s_config srv) \<noteq> 0 \<or> lifetime_to (s_config srv) \<noteq> 0"
  shows "\<exists>res srv'. handshake A ks C srv d now True (wire @ rest) = (Inr (res, rest), srv', [d_random d]) \<and>
    agree ks (ec_mode (s_config srv)) res (pfs_key x @ nfs) iv (d_random d)
      (aead_state_new c2 (pfs_key x @ nfs) k) (aead_state_new (d_random d) (pfs_key x @ nfs) k) \<and> zero_rtt res"
proof -
  obtain c1 st1 st2 where c: "seal_raw A (aead_state_new iv nfs k) (be_len16 32) [] None = (Inr c1, st1)"
      "seal_raw A st1 ticket [] None = (Inr c2, st2)" "wire = iv @ relays @ c1 @ c2"
    using w by (auto simp: client_resume_def split: prod.splits sum.splits option.splits)
  note o2 = seal_raw_open [OF A c(2)]
  have "length c1 = 18" using seal_raw_open [OF A c(1)] by simp
  with gc c(3) have "good_client A ks C srv iv relays nfs k (iv @ relays @ c1 @ c2 @ rest)"
    by (auto intro: good_client_tail)
  from handshake_front [OF A this c(1), of d now True]
  have hs: "handshake A ks C srv d now True (wire @ rest) = handshake_zero_rtt A ks srv d now True (c2 @ rest) iv nfs st1 k"
    using c(3) by simp
  have "tickets (cleanup_tickets now srv) ticket = Some x" using x by (simp add: cleanup_tickets_Some)
  with life x(3) o2 t hs agree_result_of show ?thesis
    by (fastforce simp: handshake_zero_rtt_def Let_def agree_def result_of_def)
qed

text \<open>The ticket and the relay secret a client stream presents for 0-RTT; it depends only on the keys and
  the mode of the server.\<close>

definition presented :: "aead \<Rightarrow> keystream \<Rightarrow> crypto \<Rightarrow> server \<Rightarrow> bytes \<Rightarrow> (bytes \<times> bytes) option" where
  "presented A ks C srv s =
     (let n = 16 + sk_relay_len (s_keys srv); iv = take 16 s
      in case process_relays C ks (ec_mode (s_config srv)) iv None (replicate 32 0) (sk_keys (s_keys srv)) (drop 16 (take n s)) of
           Inl e \<Rightarrow> None
         | Inr nfs \<Rightarrow>
             (case open_first_length A iv nfs (take 18 (drop n s)) of
                Inl e \<Rightarrow> None
              | Inr (st, k, l) \<Rightarrow>
                  (case open_raw A st (take 32 (drop (n + 18) s)) [] None of
                     (Inl e, _) \<Rightarrow> None
                   | (Inr ticket, _) \<Rightarrow> Some (ticket, nfs))))"

definition spent :: "bytes \<Rightarrow> bytes \<Rightarrow> server \<Rightarrow> bool" where
  "spent t nfs srv \<longleftrightarrow> (\<forall>s. tickets srv t = Some s \<longrightarrow> nfs \<in> replay_keys s)"

lemma result_of_zero [simp]: "zero_rtt (result_of ks srv united iv oiv dec enc z) = z"
  "hr_decrypt (result_of ks srv united iv oiv dec enc z) = dec"
  by (simp_all add: result_of_def)

lemma create_ticket_frame:
  assumes "create_ticket srv d now pfs = Some (ticket, srv')"
  shows "s_config srv' = s_config srv \<and> s_keys srv' = s_keys srv \<and>
    (drop 2 (d_ticket d) \<noteq> drop 2 t \<longrightarrow> tickets srv' t = tickets srv t)"
  using assms
  by (auto simp: create_ticket_def Let_def be_len16_def to_be16_def split: if_splits option.splits)

lemma handshake_pfs_frame:
  assumes "handshake_pfs A ks C srv d now ok s iv nfs st k n = (o1, srv', sent)"
  shows "s_config srv' = s_config srv \<and> s_keys srv' = s_keys srv \<and>
    (drop 2 (d_ticket d) \<noteq> drop 2 t \<longrightarrow> tickets srv' t = tickets srv t) \<and>
    (\<forall>res r. o1 = Inr (res, r) \<longrightarrow> \<not> zero_rtt res)"
proof -
  have "srv' = srv \<or> (\<exists>pfs ticket. create_ticket srv d now pfs = Some (ticket, srv'))"
    using assms
    by (auto simp: handshake_pfs_def Let_def split: sum.splits option.splits prod.splits if_splits)
  moreover have "\<not> zero_rtt res" if "o1 = Inr (res, r)" for res r
    using assms that
    by (auto simp: handshake_pfs_def Let_def split: sum.splits option.splits prod.splits if_splits)
  ultimately show ?thesis using create_ticket_frame by blast
qed

lemma zero_rtt_frame:
  assumes "handshake_zero_rtt A ks srv d now ok s iv nfs st k = (o1, srv', sent)"
  shows "s_config srv' = s_config srv \<and> s_keys srv' = s_keys srv \<and> (spent t n srv \<longrightarrow> spent t n srv')"
proof -
  let ?c = "cleanup_tickets now srv"
  have "srv' = srv \<or> srv' = ?c \<or>
     (\<exists>ticket x. tickets ?c ticket = Some x \<and>
        srv' = ?c\<lparr>tickets := (tickets ?c)(ticket \<mapsto> x\<lparr>replay_keys := insert nfs (replay_keys x)\<rparr>)\<rparr>)"
    using assms
    by (auto simp: handshake_zero_rtt_def Let_def split: sum.splits option.splits prod.splits if_splits)
  then show ?thesis
    by (elim disjE exE conjE) (auto simp: spent_def cleanup_tickets_Some split: if_splits)
qed

lemma zero_rtt_accepted:
  assumes "handshake_zero_rtt A ks srv d now ok s iv nfs st k = (Inr (res, r), srv', sent)"
  shows "\<exists>ticket x. fst (open_raw A st (take 32 s) [] None) = Inr ticket \<and> tickets srv ticket = Some x \<and>
    now < expires x \<and> nfs \<notin> replay_keys x \<and> spent ticket nfs srv' \<and> united_key (hr_decrypt res) = pfs_key x @ nfs"
proof -
  obtain ticket x st' where
    "open_raw A st (take 32 s) [] None = (Inr ticket, st')" "tickets (cleanup_tickets now srv) ticket = Some x"
    "nfs \<notin> replay_keys x" "united_key (hr_decrypt res) = pfs_key x @ nfs"
    "tickets srv' ticket = Some (x\<lparr>replay_keys := insert nfs (replay_keys x)\<rparr>)"
    using assms
    by (auto simp: handshake_zero_rtt_def read_exact_def Let_def aead_state_new_def
        split: sum.splits option.splits prod.splits if_splits)
  then show ?thesis by (auto simp: cleanup_tickets_Some spent_def)
qed

lemma handshake_cases:
  assumes "handshake A ks C srv d now ok s = (o1, srv', sent)"
  obtains (failed) e where "o1 = Inl e" "srv' = srv"
  | (zero) s2 iv nfs st k where "handshake_zero_rtt A ks srv d now ok s2 iv nfs st k = (o1, srv', sent)"
      "\<forall>t. fst (open_raw A st (take 32 s2) [] None) = Inr t \<longrightarrow> presented A ks C srv s = Some (t, nfs)"
  | (pfs) s2 iv nfs st k n where "handshake_pfs A ks C srv d now ok s2 iv nfs st k n = (o1, srv', sent)"
proof (cases "length s < 16 + sk_relay_len (s_keys srv) + 18")
  case True
  then show ?thesis
    using assms failed
    by (auto simp: handshake_def read_exact_def Let_def split: if_splits sum.splits)
next
  case False
  let ?n = "16 + sk_relay_len (s_keys srv)"
  define s2 where "s2 = drop (?n + 18) s"
  have r: "read_exact ?n s = Inr (take ?n s, drop ?n s)" "read_exact 18 (drop ?n s) = Inr (take 18 (drop ?n s), s2)"
    using False by (auto simp: read_exact_def s2_def add.commute)
  let ?iv = "take 16 s"
  let ?p = "process_relays C ks (ec_mode (s_config srv)) ?iv None (replicate 32 0) (sk_keys (s_keys srv)) (drop 16 (take ?n s))"
  have iv: "take 16 (take ?n s) = ?iv" by (simp add: min_def)
  show ?thesis
  proof (cases ?p)
    case (Inl e)
    with assms r iv failed [of e] show ?thesis by (auto simp: handshake_def)
  next
    case nfs: (Inr nfs)
    show ?thesis
    proof (cases "open_first_length A ?iv nfs (take 18 (drop ?n s))")
      case (Inl e)
      with assms r iv nfs failed [of e] show ?thesis by (auto simp: handshake_def)
    next
      case (Inr x)
      obtain st k l where x: "x = (st, k, l)" by (cases x)
      have p: "\<forall>t. fst (open_raw A st (take 32 s2) [] None) = Inr t \<longrightarrow> presented A ks C srv s = Some (t, nfs)"
        using nfs Inr x by (auto simp: s2_def presented_def Let_def split: prod.splits sum.splits)
      have "handshake A ks C srv d now ok s = (if length l \<noteq> 2 then (Inl HsPanic, srv, [])
          else let len = len16 (l ! 0) (l ! 1)
               in if len = 32 then handshake_zero_rtt A ks srv d now ok s2 ?iv nfs st k
                  else if len < 1184 + 32 + 16 then (Inl (HsPfsLength len), srv, [])
                  else handshake_pfs A ks C srv d now ok s2 ?iv nfs st k len)"
        by (simp only: handshake_def r sum.case prod.case Let_def iv nfs Inr x)
      with assms p failed zero pfs show ?thesis by (auto simp: Let_def split: if_splits)
    qed
  qed
qed

lemma handshake_frame:
  assumes "handshake A ks C srv d now ok s = (o1, srv', sent)"
  shows "s_config srv' = s_config srv \<and> s_keys srv' = s_keys srv \<and>
    (drop 2 (d_ticket d) \<noteq> drop 2 t \<longrightarrow> spent t n srv \<longrightarrow> spent t n srv')"
  using assms
proof (cases rule: handshake_cases)
  case failed
  then show ?thesis by simp
next
  case (zero s2 iv nfs st k)
  with zero_rtt_frame [OF zero(1)] show ?thesis by blast
next
  case (pfs s2 iv nfs st k m)
  from handshake_pfs_frame [OF this, of t] show ?thesis by (auto simp: spent_def)
qed

lemma handshake_zero_rtt_accepted:
  assumes "handshake A ks C srv d now ok s = (Inr (res, r), srv', sent)" and "zero_rtt res"
  shows "\<exists>t nfs x. presented A ks C srv s = Some (t, nfs) \<and> tickets srv t = Some x \<and> now < expires x \<and>
    nfs \<notin> replay_keys x \<and> spent t nfs srv' \<and> united_key (hr_decrypt res) = pfs_key x @ nfs"
  using assms(1)
proof (cases rule: handshake_cases)
  case (zero s2 iv nfs st k)
  with zero_rtt_accepted [OF zero(1)] show ?thesis by blast
next
  case (pfs s2 iv nfs st k m)
  from handshake_pfs_frame [OF this, of t] assms(2) show ?thesis by auto
qed simp

lemma presented_frame:
  "s_config srv' = s_config srv \<Longrightarrow> s_keys srv' = s_keys srv \<Longrightarrow> presented A ks C srv' s = presented A ks C srv s"
  by (simp add: presented_def)

text \<open>A run of handshakes on one server, in the order in which they take the lock of the tickets.\<close>

fun hs_run :: "aead \<Rightarrow> keystream \<Rightarrow> crypto \<Rightarrow> server \<Rightarrow> (draws \<times> nat \<times> bool \<times> bytes) list \<Rightarrow> server" where
  "hs_run A ks C srv [] = srv"
| "hs_run A ks C srv ((d, now, ok, s) # hs) = hs_run A ks C (fst (snd (handshake A ks C srv d now ok s))) hs"

lemma hs_run_frame:
  assumes "\<forall>(d, now, ok, s) \<in> set hs. drop 2 (d_ticket d) \<noteq> drop 2 t" and "spent t n srv"
  shows "s_config (hs_run A ks C srv hs) = s_config srv \<and> s_keys (hs_run A ks C srv hs) = s_keys srv \<and>
    spent t n (hs_run A ks C srv hs)"
  using assms
proof (induction hs arbitrary: srv)
  case (Cons h hs)
  obtain d now ok s where h: "h = (d, now, ok, s)" by (cases h)
  obtain o1 srv1 sent where 1: "handshake A ks C srv d now ok s = (o1, srv1, sent)" by (metis prod_cases3)
  note f = handshake_frame [OF 1, of t n]
  with Cons.prems h have "spent t n srv1" by auto
  with Cons.IH [of srv1] Cons.prems(1) f h 1 show ?case by auto
qed simp

text \<open>
  C6. 0-RTT resumption is replay-protected: a handshake is accepted as 0-RTT only with a ticket the
  server holds and that has not expired, keyed by the forward-secret key of that ticket; and once a
  client flight is accepted, no later handshake that presents the same ticket and the same relay
  secret (in particular a replay of the same bytes) is accepted as 0-RTT, whatever handshakes happen
  in between, unless the server draws the same random ticket again.
\<close>

theorem zero_rtt_no_replay:
  assumes "handshake A ks C srv d now ok s = (Inr (res, r), srv1, sent)" and "zero_rtt res"
  shows "\<exists>t nfs x. presented A ks C srv s = Some (t, nfs) \<and> tickets srv t = Some x \<and> now < expires x \<and>
    united_key (hr_decrypt res) = pfs_key x @ nfs \<and>
    (\<forall>hs d' now' ok' s' res' r'.
       (\<forall>(dh, nowh, okh, sh) \<in> set hs. drop 2 (d_ticket dh) \<noteq> drop 2 t) \<longrightarrow>
       presented A ks C srv s' = Some (t, nfs) \<longrightarrow>
       fst (handshake A ks C (hs_run A ks C srv1 hs) d' now' ok' s') = Inr (res', r') \<longrightarrow> \<not> zero_rtt res')"
proof -
  from handshake_zero_rtt_accepted [OF assms] obtain t nfs x where a:
    "presented A ks C srv s = Some (t, nfs)" "tickets srv t = Some x" "now < expires x" "spent t nfs srv1"
    "united_key (hr_decrypt res) = pfs_key x @ nfs" by blast
  have "\<not> zero_rtt res'" if hs: "\<forall>(dh, nowh, okh, sh) \<in> set hs. drop 2 (d_ticket dh) \<noteq> drop 2 t"
    and p: "presented A ks C srv s' = Some (t, nfs)"
    and h: "fst (handshake A ks C (hs_run A ks C srv1 hs) d' now' ok' s') = Inr (res', r')" for hs d' now' ok' s' res' r'
  proof
    assume z: "zero_rtt res'"
    let ?srv = "hs_run A ks C srv1 hs"
    obtain srv2 sent2 where h2: "handshake A ks C ?srv d' now' ok' s' = (Inr (res', r'), srv2, sent2)"
      using h by (metis prod.collapse)
    note f = hs_run_frame [OF hs a(4), of A ks C] handshake_frame [OF assms(1)]
    from handshake_zero_rtt_accepted [OF h2 z] p f show False
      by (auto simp: presented_frame [of ?srv srv] spent_def)
  qed
  with a show ?thesis by blast
qed

text \<open>A server with one X25519 key that holds one ticket, and a client that resumes with it.\<close>

definition demo_server :: server where
  "demo_server =
     \<lparr>s_config = \<lparr>ec_mode = Native, lifetime_from = 600, lifetime_to = 0, ec_padding = [], ec_keys = [SeedX25519 (replicate 32 1)]\<rparr>,
      s_keys = from_seeds toy_crypto [SeedX25519 (replicate 32 1)],
      tickets = [replicate 16 7 \<mapsto> \<lparr>pfs_key = replicate 64 9, replay_keys = {}, expires = 100\<rparr>]\<rparr>"

definition demo_draws :: draws where
  "demo_draws = \<lparr>d_kem = replicate 32 3, d_secret = replicate 32 4, d_lifetime = 5, d_ticket = replicate 16 8,
     d_random = replicate 16 6, d_decoy_len = 0, d_decoy = (\<lambda>n. replicate n 0)\<rparr>"

definition demo_nfs :: bytes where
  "demo_nfs = xor_bytes (replicate 32 1) (replicate 32 2)"

lemma demo_client: "good_client toy_aead (\<lambda>_ _ _. 0) toy_crypto demo_server (replicate 16 5) (replicate 32 2) demo_nfs Aes256Gcm wire"
proof -
  have r: "replicate 32 (2 :: u8) ! 31 = 2" by (rule nth_replicate) simp
  have t: "take 32 (replicate 32 (1 :: u8) @ x) = replicate 32 1" for x by simp
  show ?thesis
    by (simp add: good_client_def demo_server_def from_seeds_def toy_crypto_def mask_public_def mask_previous_def demo_nfs_def r)
qed

theorem zero_rtt_no_replay_witness:
  "\<exists>wire c2 res srv' t nfs.
     client_resume toy_aead (replicate 16 5) (replicate 32 2) demo_nfs Aes256Gcm (replicate 16 7) = Some (wire, c2) \<and>
     handshake toy_aead (\<lambda>_ _ _. 0) toy_crypto demo_server demo_draws 50 True wire = (Inr (res, []), srv', [d_random demo_draws]) \<and>
     presented toy_aead (\<lambda>_ _ _. 0) toy_crypto demo_server wire = Some (t, nfs) \<and>
     (\<forall>now' res' r'. fst (handshake toy_aead (\<lambda>_ _ _. 0) toy_crypto srv' demo_draws now' True wire) = Inr (res', r') \<longrightarrow> \<not> zero_rtt res')"
proof -
  let ?ks = "\<lambda>_ _ _. 0 :: u8"
  obtain wire c2 where w: "client_resume toy_aead (replicate 16 5) (replicate 32 2) demo_nfs Aes256Gcm (replicate 16 7) = Some (wire, c2)"
    by (simp add: client_resume_def toy_aead_def seal_raw_def encrypt_def next_nonce_def Let_def)
  have "tickets demo_server (replicate 16 7) = Some \<lparr>pfs_key = replicate 64 9, replay_keys = {}, expires = 100\<rparr>"
    by (simp add: demo_server_def)
  from zero_rtt_agrees [OF toy_aead_correct demo_client w _ this, of 50 demo_draws "[]"]
  obtain res srv' where h: "handshake toy_aead ?ks toy_crypto demo_server demo_draws 50 True wire = (Inr (res, []), srv', [d_random demo_draws])"
    and z: "zero_rtt res"
    by (auto simp: demo_server_def)
  from zero_rtt_no_replay [OF h z] obtain t nfs where p: "presented toy_aead ?ks toy_crypto demo_server wire = Some (t, nfs)"
    and r: "\<forall>hs d' now' ok' s' res' r'.
       (\<forall>(dh, nowh, okh, sh) \<in> set hs. drop 2 (d_ticket dh) \<noteq> drop 2 t) \<longrightarrow>
       presented toy_aead ?ks toy_crypto demo_server s' = Some (t, nfs) \<longrightarrow>
       fst (handshake toy_aead ?ks toy_crypto (hs_run toy_aead ?ks toy_crypto srv' hs) d' now' ok' s') = Inr (res', r') \<longrightarrow> \<not> zero_rtt res'"
    by blast
  from r [rule_format, of "[]"] p have "\<forall>now' res' r'. fst (handshake toy_aead ?ks toy_crypto srv' demo_draws now' True wire) = Inr (res', r') \<longrightarrow> \<not> zero_rtt res'"
    by simp
  with w h p show ?thesis by blast
qed

end
