(* ===== verification/EncSession.thy ===== *)
theory EncSession
  imports EncStream Handshake
begin

text \<open>
  VLESS encryption as a whole: the 1-RTT handshake followed by encrypted records in both directions,
  and what a bad ticket lifetime in the configuration does.
\<close>

text \<open>The masks of the client end.\<close>

definition client_out :: "keystream \<Rightarrow> encryption_mode \<Rightarrow> bytes \<Rightarrow> bytes \<Rightarrow> header_xor option" where
  "client_out ks mode united iv = (if mode = Random then Some (outbound ks united iv 0) else None)"

definition client_in :: "keystream \<Rightarrow> encryption_mode \<Rightarrow> bytes \<Rightarrow> bytes \<Rightarrow> header_xor option" where
  "client_in ks mode united iv = (if mode = Random then Some (inbound ks united iv 0) else None)"

text \<open>Every stream sealed from \<open>st\<close> and masked by \<open>tx\<close> is delivered to a reader with \<open>st'\<close> and \<open>rx\<close>.\<close>

definition carries :: "aead \<Rightarrow> aead_state \<Rightarrow> header_xor option \<Rightarrow> aead_state \<Rightarrow> header_xor option \<Rightarrow> bool" where
  "carries A st tx st' rx \<longleftrightarrow>
     (\<forall>ps outs st1 wire es ns rs r es'.
        seal_all A st ps = Some (outs, st1) \<and> on_wire tx outs wire \<and> healthy es \<and> arriving es = wire \<and>
        poll_many er_poll ns (enc_reader_new A st' rx) es = (rs, r, es') \<longrightarrow>
          (\<forall>e. ReadErr e \<notin> set rs) \<and>
          delivered rs @ fst (er_to_come r (arriving es')) = concat ps \<and>
          (\<forall>n > 0. fst (er_poll n r es') = Delivered [] \<longrightarrow> delivered rs = concat ps))"

lemma carries_masked:
  assumes "aead_correct A"
    and "tx = None \<and> rx = None \<or> tx = Some (outbound ks united iv 0) \<and> rx = Some (inbound ks united iv 0)"
  shows "carries A st tx st rx"
  unfolding carries_def
proof (intro allI impI, elim conjE)
  fix ps outs st1 wire es ns rs r es'
  assume "seal_all A st ps = Some (outs, st1)" "on_wire tx outs wire" "healthy es" "arriving es = wire"
    "poll_many er_poll ns (enc_reader_new A st rx) es = (rs, r, es')"
  from sealed_stream_delivered [OF assms(1) this(1,2) assms(2) this(3-5)]
  show "(\<forall>e. ReadErr e \<notin> set rs) \<and>
          delivered rs @ fst (er_to_come r (arriving es')) = concat ps \<and>
          (\<forall>n > 0. fst (er_poll n r es') = Delivered [] \<longrightarrow> delivered rs = concat ps)" .
qed

lemma agree_carries:
  assumes "aead_correct A" and "agree ks mode res united iv oiv cw cr"
  shows "carries A cw (client_out ks mode united iv) (hr_decrypt res) (inbound_xor res) \<and>
    carries A (hr_encrypt res) (outbound_xor res) cr (client_in ks mode united oiv)"
  using assms carries_masked [OF assms(1)]
  by (auto simp: agree_def client_out_def client_in_def split: if_splits)

text \<open>
  Encrypted connections end to end: when a client whose relay chain the server accepts sends its
  hello, the handshake completes and leaves exactly the bytes after it, the client can open the one
  message the server sends, and from then on every sequence of plaintexts sealed by either end
  (with masked record headers in random mode, across key changes) is delivered to the other end
  exactly and in order, for every chunking and delay of the transport and every buffer size, with end
  of file only at the end.
\<close>

lemma encrypted_connection:
  assumes "aead_correct A" and "aead_total A" and "crypto_correct C"
    and "good_client A ks C srv iv relays nfs k wire"
    and "kem_keygen C dd zz = (dk, ek)" and "client_hello A iv relays nfs k (ek @ x_public C x) pad = Some wire"
    and "length pad + 16 < 2 ^ 16"
    and "generate_pfs_response C (d_kem d) (d_secret d) ek (x_public C x) = Inr (response, pfs)"
    and "length (d_ticket d) = 16"
    and "lifetime_to (s_config srv) = 0 \<or> lifetime_from (s_config srv) \<le> lifetime_to (s_config srv)"
  shows "\<exists>res srv' hello ticket united read.
       handshake A ks C srv d now True (wire @ rest) = (Inr (res, rest), srv', [hello]) \<and>
       client_open A C k iv nfs dk x hello = Some (ticket, united, read) \<and>
       carries A (aead_state_new (ek @ x_public C x) united k) (client_out ks (ec_mode (s_config srv)) united iv)
         (hr_decrypt res) (inbound_xor res) \<and>
       carries A (hr_encrypt res) (outbound_xor res) read (client_in ks (ec_mode (s_config srv)) united ticket)"
  using handshake_agrees [OF assms, of now] agree_carries [OF assms(1)] by blast

lemma toy_aead_total: "aead_total toy_aead"
  by (simp add: aead_total_def toy_aead_def)

lemma demo_hello:
  obtains wire where "client_hello toy_aead (replicate 16 5) (replicate 32 2) demo_nfs Aes256Gcm
    (replicate 1184 0 @ x_public toy_crypto [8]) [] = Some wire"
  by (simp add: client_hello_def toy_aead_def seal_raw_def encrypt_def next_nonce_def Let_def)

lemma demo_pfs:
  obtains response pfs where "generate_pfs_response toy_crypto (d_kem demo_draws) (d_secret demo_draws)
    (replicate 1184 0) (x_public toy_crypto [8]) = Inr (response, pfs)"
  by (simp add: generate_pfs_response_def toy_crypto_def Let_def)

lemma demo_keygen: "kem_keygen toy_crypto [1] [2] = ([1], replicate 1184 0)"
  by (simp add: toy_crypto_def)

lemma encrypted_connection_example:
  "\<exists>wire res srv' hello ticket united read.
     client_hello toy_aead (replicate 16 5) (replicate 32 2) demo_nfs Aes256Gcm
       (replicate 1184 0 @ x_public toy_crypto [8]) [] = Some wire \<and>
     handshake toy_aead (\<lambda>_ _ _. 0) toy_crypto demo_server demo_draws 50 True (wire @ [1, 2]) = (Inr (res, [1, 2]), srv', [hello]) \<and>
     client_open toy_aead toy_crypto Aes256Gcm (replicate 16 5) demo_nfs [1] [8] hello = Some (ticket, united, read) \<and>
     carries toy_aead (hr_encrypt res) (outbound_xor res) read None"
proof -
  obtain wire where w: "client_hello toy_aead (replicate 16 5) (replicate 32 2) demo_nfs Aes256Gcm
    (replicate 1184 0 @ x_public toy_crypto [8]) [] = Some wire" by (rule demo_hello)
  obtain response pfs where g: "generate_pfs_response toy_crypto (d_kem demo_draws) (d_secret demo_draws)
    (replicate 1184 0) (x_public toy_crypto [8]) = Inr (response, pfs)" by (rule demo_pfs)
  have c: "length (d_ticket demo_draws) = 16" "lifetime_to (s_config demo_server) = 0" "ec_mode (s_config demo_server) = Native"
    by (simp_all add: demo_draws_def demo_server_def)
  from encrypted_connection [OF toy_aead_correct toy_aead_total toy_crypto_correct demo_client demo_keygen w _ g c(1), of 50 "[1, 2]"]
    c(2,3) w show ?thesis
    by (fastforce simp: client_in_def)
qed

text \<open>
  C26. Resumed connections end to end: a client that presents a live, unspent ticket is accepted without
  a round trip, and both directions then carry every stream as after a full handshake.
\<close>

theorem resumed_connection:
  assumes "aead_correct A" and "good_client A ks C srv iv relays nfs k wire"
    and "client_resume A iv relays nfs k ticket = Some (wire, c2)" and "length ticket = 16"
    and "tickets srv ticket = Some t" and "now < expires t" and "nfs \<notin> replay_keys t"
    and "lifetime_from (s_config srv) \<noteq> 0 \<or> lifetime_to (s_config srv) \<noteq> 0"
  shows "\<exists>res srv'. handshake A ks C srv d now True (wire @ rest) = (Inr (res, rest), srv', [d_random d]) \<and>
       carries A (aead_state_new c2 (pfs_key t @ nfs) k) (client_out ks (ec_mode (s_config srv)) (pfs_key t @ nfs) iv)
         (hr_decrypt res) (inbound_xor res) \<and>
       carries A (hr_encrypt res) (outbound_xor res) (aead_state_new (d_random d) (pfs_key t @ nfs) k)
         (client_in ks (ec_mode (s_config srv)) (pfs_key t @ nfs) (d_random d))"
  using zero_rtt_agrees [OF assms, of d rest] agree_carries [OF assms(1)] by blast

theorem resumed_connection_witness:
  "\<exists>wire c2 res srv'. client_resume toy_aead (replicate 16 5) (replicate 32 2) demo_nfs Aes256Gcm (replicate 16 7) = Some (wire, c2) \<and>
     handshake toy_aead (\<lambda>_ _ _. 0) toy_crypto demo_server demo_draws 50 True (wire @ []) = (Inr (res, []), srv', [d_random demo_draws]) \<and>
     carries toy_aead (aead_state_new c2 (replicate 64 9 @ demo_nfs) Aes256Gcm) None (hr_decrypt res) (inbound_xor res)"
proof -
  obtain wire c2 where w: "client_resume toy_aead (replicate 16 5) (replicate 32 2) demo_nfs Aes256Gcm (replicate 16 7) = Some (wire, c2)"
    by (simp add: client_resume_def toy_aead_def seal_raw_def encrypt_def next_nonce_def Let_def)
  have t: "tickets demo_server (replicate 16 7) = Some \<lparr>pfs_key = replicate 64 9, replay_keys = {}, expires = 100\<rparr>"
    "lifetime_from (s_config demo_server) = 600" "ec_mode (s_config demo_server) = Native"
    by (simp_all add: demo_server_def)
  from resumed_connection [OF toy_aead_correct demo_client w _ t(1), of 50 demo_draws "[]"] t(2,3) w show ?thesis
    by (auto simp: client_out_def)
qed

text \<open>
  An inverted ticket lifetime is accepted and fatal: the parser takes a setting such as
  \<open>600-300s\<close>, and a server with a range whose end is below its start panics in every full handshake of
  a client that got through the key exchange, before it answers.
\<close>

lemma inverted_lifetime_panics:
  assumes "aead_correct A" and "aead_total A" and "crypto_correct C" and "base64_codec b64e b64"
    and "good_client A ks C srv iv relays nfs k wire"
    and "kem_keygen C dd zz = (dk, ek)" and "client_hello A iv relays nfs k (ek @ x_public C x) pad = Some wire"
    and "generate_pfs_response C (d_kem d) (d_secret d) ek (x_public C x) = Inr (response, pfs)"
    and "lifetime_to (s_config srv) \<noteq> 0" and "lifetime_to (s_config srv) < lifetime_from (s_config srv)"
  shows "parse_config b64 (config_text b64e mode 600 300 [] [SeedX25519 (replicate 32 1)]) =
      Inr \<lparr>ec_mode = mode, lifetime_from = 600, lifetime_to = 300, ec_padding = [], ec_keys = [SeedX25519 (replicate 32 1)]\<rparr> \<and>
    handshake A ks C srv d now ok wire = (Inl HsPanic, srv, [])"
proof
  show "parse_config b64 (config_text b64e mode 600 300 [] [SeedX25519 (replicate 32 1)]) =
      Inr \<lparr>ec_mode = mode, lifetime_from = 600, lifetime_to = 300, ec_padding = [], ec_keys = [SeedX25519 (replicate 32 1)]\<rparr>"
    using parse_config_text [OF assms(4), of "[SeedX25519 (replicate 32 1)]" "[]"] by simp
  let ?plain = "ek @ x_public C x"
  have le: "length ek = 1184" "length (x_public C x) = 32"
    using assms(3,6) crypto_lengths [OF assms(3), of x] unfolding crypto_correct_def by blast+
  obtain c1 st1 c2 st2 tail1 where c:
    "seal_raw A (aead_state_new iv nfs k) (be_len16 1232) [] None = (Inr c1, st1)"
    "seal_raw A st1 ?plain [] None = (Inr c2, st2)" "wire = iv @ relays @ c1 @ c2 @ tail1"
    using assms(7) le by (auto simp: client_hello_def split: prod.splits sum.splits option.splits)
  have "length response = 1120" using pfs_exchange [OF assms(3,6,8)] by simp
  then obtain h0 where h0: "seal_raw A st2 response [] (Some MAX_NONCE) = (Inr h0, st2)"
    using seal_raw_explicit [OF assms(2), of response st2 "[]" MAX_NONCE] by auto
  have "create_ticket srv d now pfs = None"
    using assms(9,10) by (simp add: create_ticket_def gen_range_def word_less_nat_alt unat_eq_0 Let_def)
  with h0 seal_raw_open [OF assms(1) c(2)] le assms(8)
  have "handshake_pfs A ks C srv d now ok (c2 @ tail1) iv nfs st1 k 1232 = (Inl HsPanic, srv, [])"
    by (simp add: handshake_pfs_def Let_def)
  with handshake_front [OF assms(1) assms(5) [unfolded c(3)] c(1), of d now ok] c(3)
  show "handshake A ks C srv d now ok wire = (Inl HsPanic, srv, [])" by simp
qed

lemma inverted_lifetime_demo:
  "\<exists>wire. let srv = demo_server\<lparr>s_config := (s_config demo_server)\<lparr>lifetime_to := 300\<rparr>\<rparr> in
     handshake toy_aead (\<lambda>_ _ _. 0) toy_crypto srv demo_draws 50 True wire = (Inl HsPanic, srv, [])"
proof -
  let ?srv = "demo_server\<lparr>s_config := (s_config demo_server)\<lparr>lifetime_to := 300\<rparr>\<rparr>"
  obtain wire where w: "client_hello toy_aead (replicate 16 5) (replicate 32 2) demo_nfs Aes256Gcm
    (replicate 1184 0 @ x_public toy_crypto [8]) [] = Some wire" by (rule demo_hello)
  obtain response pfs where g: "generate_pfs_response toy_crypto (d_kem demo_draws) (d_secret demo_draws)
    (replicate 1184 0) (x_public toy_crypto [8]) = Inr (response, pfs)" by (rule demo_pfs)
  have "good_client toy_aead (\<lambda>_ _ _. 0) toy_crypto ?srv (replicate 16 5) (replicate 32 2) demo_nfs Aes256Gcm wire"
    using demo_client [of wire] by (simp add: good_client_def)
  from inverted_lifetime_panics [OF toy_aead_correct toy_aead_total toy_crypto_correct letters_codec this demo_keygen w g, of Native 50 True]
  show ?thesis by (auto simp: Let_def demo_server_def)
qed

end
