(* ===== verification/Vision.thy ===== *)
theory Vision
  imports Transport
begin

text \<open>
  The XTLS Vision padding codec, \<^verbatim>\<open>src/vless/vision.rs\<close>: the frame encoder, the writer that frames the
  first packets of a stream, and the reader that removes the framing. The number the random generator
  returns is an argument. The reader is the poll-based state machine of the source over a transport
  that may deliver its bytes in any pieces, report \<open>Pending\<close> at any point, fail, or end.
\<close>

section \<open>Frames\<close>

definition COMMAND_CONTINUE :: u8 where "COMMAND_CONTINUE = 0"
definition COMMAND_END :: u8 where "COMMAND_END = 1"
definition COMMAND_DIRECT :: u8 where "COMMAND_DIRECT = 2"
definition MAX_FRAME_CONTENT :: nat where "MAX_FRAME_CONTENT = 8192 - 21"

lemmas vision_commands = COMMAND_CONTINUE_def COMMAND_END_def COMMAND_DIRECT_def

definition known_command :: "u8 \<Rightarrow> bool" where
  "known_command c \<longleftrightarrow> c = COMMAND_CONTINUE \<or> c = COMMAND_END \<or> c = COMMAND_DIRECT"

datatype vision_error = VisionCommand u8 | ContentLength nat

definition vision_encode_frame ::
  "nat \<Rightarrow> bytes \<Rightarrow> u8 \<Rightarrow> bytes option \<Rightarrow> bool \<Rightarrow> vision_error + bytes" where
  "vision_encode_frame rnd content command user_uuid long_padding =
     (if \<not> known_command command then Inl (VisionCommand command)
      else if MAX_FRAME_CONTENT < length content \<or> 2 ^ 16 - 1 < length content
      then Inl (ContentLength (length content))
      else
        let max_padding = MAX_FRAME_CONTENT - length content;
            wanted = (if length content < 900 \<and> long_padding then rnd + 900 - length content else rnd);
            padding_len = min wanted max_padding
        in Inr ((case user_uuid of None \<Rightarrow> [] | Some u \<Rightarrow> u) @ [command] @
                be_len16 (length content) @ be_len16 padding_len @ content @ replicate padding_len 0))"

section \<open>The writer\<close>

record tls_filter =
  packets_left :: u8
  is_tls :: bool

definition new_filter :: tls_filter where
  "new_filter = \<lparr>packets_left = 8, is_tls = False\<rparr>"

definition observe :: "tls_filter \<Rightarrow> bytes \<Rightarrow> tls_filter" where
  "observe f data =
     (let f' = f\<lparr>packets_left := (if packets_left f = 0 then 0 else packets_left f - 1)\<rparr>
      in if 6 \<le> length data \<and>
            (data ! 0 = 0x16 \<and> data ! 1 = 3 \<or> data ! 0 = 0x17 \<and> data ! 1 = 3 \<and> data ! 2 = 3)
         then f'\<lparr>is_tls := True\<rparr> else f')"

record vision_writer =
  vw_uuid :: "bytes option"
  vw_filter :: tls_filter
  vw_padding :: bool

definition new_vision_writer :: "bytes \<Rightarrow> vision_writer" where
  "new_vision_writer u = \<lparr>vw_uuid = Some u, vw_filter = new_filter, vw_padding = True\<rparr>"

text \<open>The body of the loop of \<open>VisionWriter::encode\<close> for one chunk.\<close>

definition encode_chunk ::
  "nat \<Rightarrow> vision_writer \<Rightarrow> bytes \<Rightarrow> vision_error + bytes \<times> vision_writer" where
  "encode_chunk rnd w chunk =
     (let f = observe (vw_filter w) chunk;
          application_data = (5 \<le> length chunk \<and> take 3 chunk = [0x17, 3, 3]);
          ending = (is_tls f \<and> application_data \<or> packets_left f = 0)
      in case vision_encode_frame rnd chunk (if ending then COMMAND_END else COMMAND_CONTINUE)
                (vw_uuid w) (is_tls f) of
           Inl e \<Rightarrow> Inl e
         | Inr b \<Rightarrow> Inr (b, \<lparr>vw_uuid = None, vw_filter = f,
                            vw_padding = (if ending then False else vw_padding w)\<rparr>))"

fun encode_chunks ::
  "(nat \<Rightarrow> nat) \<Rightarrow> vision_writer \<Rightarrow> bytes list \<Rightarrow> vision_error + bytes list \<times> vision_writer" where
  "encode_chunks rnd w [] = Inr ([], w)"
| "encode_chunks rnd w (c # cs) =
     (case encode_chunk (rnd (length cs)) w c of
        Inl e \<Rightarrow> Inl e
      | Inr (b, w') \<Rightarrow>
          (case encode_chunks rnd w' cs of Inl e \<Rightarrow> Inl e | Inr (bs, w'') \<Rightarrow> Inr (b # bs, w'')))"

definition vision_encode ::
  "(nat \<Rightarrow> nat) \<Rightarrow> vision_writer \<Rightarrow> bytes \<Rightarrow> vision_error + bytes list \<times> vision_writer" where
  "vision_encode rnd w data =
     (if \<not> vw_padding w then Inr ([data], w)
      else encode_chunks rnd w (chunks MAX_FRAME_CONTENT data))"

section \<open>The reader\<close>

datatype read_state =
    Header bytes
  | Content nat nat u8
  | Padding nat u8

record vision_reader =
  vr_uuid :: bytes
  vr_prefix :: bytes
  vr_raw :: bool
  vr_state :: read_state
  vr_output :: bytes

definition new_vision_reader :: "bytes \<Rightarrow> vision_reader" where
  "new_vision_reader u = \<lparr>vr_uuid = u, vr_prefix = [], vr_raw = False, vr_state = Header [], vr_output = []\<rparr>"

definition read_prefix :: "vision_reader \<Rightarrow> transport_event list \<Rightarrow> (vision_reader \<times> transport_event list) loop" where
  "read_prefix r es =
     (case inner_read (16 - length (vr_prefix r)) es of
        (InnerPending, es') \<Rightarrow> Return NotYet (r, es')
      | (InnerErr e, es') \<Rightarrow> Return (ReadErr e) (r, es')
      | (Filled b, es') \<Rightarrow>
          if b = [] then Return (ReadErr UnexpectedEof) (r, es')
          else let r' = r\<lparr>vr_prefix := vr_prefix r @ b\<rparr>
               in if length (vr_prefix r') < 16 then Again (r', es')
                  else if vr_prefix r' \<noteq> vr_uuid r'
                  then Return (ReadErr (InvalidData ''Vision UUID prefix mismatch'')) (r', es')
                  else Again (r', es'))"

definition read_header :: "vision_reader \<Rightarrow> bytes \<Rightarrow> transport_event list \<Rightarrow> (vision_reader \<times> transport_event list) loop" where
  "read_header r hs es =
     (case inner_read (5 - length hs) es of
        (InnerPending, es') \<Rightarrow> Return NotYet (r, es')
      | (InnerErr e, es') \<Rightarrow> Return (ReadErr e) (r, es')
      | (Filled b, es') \<Rightarrow>
          if b = [] then Return (Delivered []) (r, es')
          else let h = hs @ b
               in if length h < 5 then Again (r\<lparr>vr_state := Header h\<rparr>, es')
                  else if \<not> known_command (h ! 0)
                  then Return (ReadErr (InvalidData ''unknown Vision command'')) (r\<lparr>vr_state := Header h\<rparr>, es')
                  else Again (r\<lparr>vr_state := Content (len16 (h ! 1) (h ! 2)) (len16 (h ! 3) (h ! 4)) (h ! 0)\<rparr>, es'))"

definition read_content :: "vision_reader \<Rightarrow> nat \<Rightarrow> nat \<Rightarrow> u8 \<Rightarrow> transport_event list \<Rightarrow> (vision_reader \<times> transport_event list) loop" where
  "read_content r remaining pad c es =
     (if remaining = 0 then Again (r\<lparr>vr_state := Padding pad c\<rparr>, es)
      else case inner_read (min remaining (32 * 1024)) es of
        (InnerPending, es') \<Rightarrow> Return NotYet (r, es')
      | (InnerErr e, es') \<Rightarrow> Return (ReadErr e) (r, es')
      | (Filled b, es') \<Rightarrow>
          if b = [] then Return (ReadErr UnexpectedEof) (r, es')
          else Again (r\<lparr>vr_state := Content (remaining - length b) pad c, vr_output := b\<rparr>, es'))"

definition read_padding :: "vision_reader \<Rightarrow> nat \<Rightarrow> u8 \<Rightarrow> transport_event list \<Rightarrow> (vision_reader \<times> transport_event list) loop" where
  "read_padding r remaining c es =
     (if remaining = 0
      then Again (if c = COMMAND_CONTINUE then r\<lparr>vr_state := Header []\<rparr> else r\<lparr>vr_raw := True\<rparr>, es)
      else case inner_read (min remaining 8192) es of
        (InnerPending, es') \<Rightarrow> Return NotYet (r, es')
      | (InnerErr e, es') \<Rightarrow> Return (ReadErr e) (r, es')
      | (Filled b, es') \<Rightarrow>
          if b = [] then Return (ReadErr UnexpectedEof) (r, es')
          else Again (r\<lparr>vr_state := Padding (remaining - length b) c\<rparr>, es'))"

text \<open>One round of the loop with a destination that has \<open>room\<close> bytes left. When the prefix is
  complete the round goes on with the state; here that is the next round, which finds the same
  state.\<close>

definition vision_round :: "nat \<Rightarrow> vision_reader \<Rightarrow> transport_event list \<Rightarrow> (vision_reader \<times> transport_event list) loop" where
  "vision_round room r es =
     (if vr_output r \<noteq> [] then
        Return (Delivered (take room (vr_output r))) (r\<lparr>vr_output := drop room (vr_output r)\<rparr>, es)
      else if vr_raw r then
        (case inner_read room es of
           (InnerPending, es') \<Rightarrow> Return NotYet (r, es')
         | (InnerErr e, es') \<Rightarrow> Return (ReadErr e) (r, es')
         | (Filled b, es') \<Rightarrow> Return (Delivered b) (r, es'))
      else if length (vr_prefix r) < 16 then read_prefix r es
      else (case vr_state r of
              Header hs \<Rightarrow> read_header r hs es
            | Content n p c \<Rightarrow> read_content r n p c es
            | Padding n c \<Rightarrow> read_padding r n c es))"

definition vr_rank :: "vision_reader \<Rightarrow> nat" where
  "vr_rank r = (if vr_raw r then 0 else case vr_state r of Header _ \<Rightarrow> 1 | Padding _ _ \<Rightarrow> 2 | Content _ _ _ \<Rightarrow> 3)"

lemma vision_round_decreases:
  assumes "vision_round room r es = Again (r', es')"
  shows "((weight es', vr_rank r'), (weight es, vr_rank r)) \<in> lex2"
proof -
  consider "length (vr_prefix r) < 16" "read_prefix r es = Again (r', es')"
    | hs where "vr_state r = Header hs" "read_header r hs es = Again (r', es')"
    | n p c where "vr_state r = Content n p c" "read_content r n p c es = Again (r', es')" "\<not> vr_raw r"
    | n c where "vr_state r = Padding n c" "read_padding r n c es = Again (r', es')" "\<not> vr_raw r"
    using assms by (auto simp: vision_round_def split: if_splits prod.splits inner_poll.splits read_state.splits)
  then show ?thesis
    by cases (auto simp: read_prefix_def read_header_def read_content_def read_padding_def Let_def vr_rank_def
        split: prod.splits inner_poll.splits if_splits dest: inner_read_weight)
qed

function vision_poll ::
  "nat \<Rightarrow> vision_reader \<Rightarrow> transport_event list \<Rightarrow> read_result \<times> vision_reader \<times> transport_event list" where
  "vision_poll room r es =
     (case vision_round room r es of
        Again (r', es') \<Rightarrow> vision_poll room r' es'
      | Return x s \<Rightarrow> (x, s))"
  by pat_completeness auto
termination
  by (relation "inv_image lex2 (\<lambda>(room, r, es). (weight es, vr_rank r))")
    (auto dest: vision_round_decreases)

declare vision_poll.simps [simp del]

section \<open>What the reader has to deliver\<close>

text \<open>
  \<open>deframe st bs\<close> removes the framing from a complete byte string: the contents it carries, and whether
  it is intact up to its end. A stream may end before or inside a frame header.
\<close>

function deframe :: "read_state \<Rightarrow> bytes \<Rightarrow> bytes \<times> bool" where
  "deframe (Header hs) bs =
     (if 5 \<le> length hs \<or> length (hs @ bs) < 5 then ([], True)
      else let h = take 5 (hs @ bs)
           in if \<not> known_command (h ! 0) then ([], False)
              else deframe (Content (len16 (h ! 1) (h ! 2)) (len16 (h ! 3) (h ! 4)) (h ! 0)) (drop 5 (hs @ bs)))"
| "deframe (Content n p c) bs =
     (if length bs < n then (bs, False)
      else case deframe (Padding p c) (drop n bs) of (x, ok) \<Rightarrow> (take n bs @ x, ok))"
| "deframe (Padding n c) bs =
     (if length bs < n then ([], False)
      else if c = COMMAND_CONTINUE then deframe (Header []) (drop n bs)
      else (drop n bs, True))"
  by pat_completeness auto
termination
  by (relation "inv_image (less_than <*lex*> less_than)
      (\<lambda>(st, bs). case st of Header hs \<Rightarrow> (length hs + length bs, 0)
         | Content _ _ _ \<Rightarrow> (length bs, 2) | Padding _ _ \<Rightarrow> (length bs, 1 :: nat))")
    (auto simp: le_less)

declare deframe.simps [simp del]

definition deframe_stream :: "bytes \<Rightarrow> bytes \<Rightarrow> bytes \<times> bool" where
  "deframe_stream u bs =
     (if length bs < 16 \<or> take 16 bs \<noteq> u then ([], False) else deframe (Header []) (drop 16 bs))"

definition to_come :: "vision_reader \<Rightarrow> bytes \<Rightarrow> bytes \<times> bool" where
  "to_come r bs =
     (case (if vr_raw r then (bs, True)
            else if length (vr_prefix r) < 16 then
              (if length (vr_prefix r @ bs) < 16 \<or> take 16 (vr_prefix r @ bs) \<noteq> vr_uuid r then ([], False)
               else deframe (vr_state r) (drop 16 (vr_prefix r @ bs)))
            else deframe (vr_state r) bs)
      of (x, ok) \<Rightarrow> (vr_output r @ x, ok))"

definition reader_ok :: "vision_reader \<Rightarrow> bool" where
  "reader_ok r \<longleftrightarrow> length (vr_uuid r) = 16 \<and> length (vr_prefix r) \<le> 16 \<and>
     (length (vr_prefix r) < 16 \<longrightarrow> vr_output r = [] \<and> vr_state r = Header [] \<and> \<not> vr_raw r) \<and>
     (\<forall>hs. vr_state r = Header hs \<longrightarrow> length hs < 5)"

abbreviation round_ok :: "vision_reader \<Rightarrow> transport_event list \<Rightarrow> (vision_reader \<times> transport_event list) loop \<Rightarrow> bool" where
  "round_ok \<equiv> round_sound reader_ok to_come"

lemmas round_ok_def = round_sound_def

lemma read_prefix_round:
  assumes h: "healthy es" and ok: "reader_ok r" and len: "length (vr_prefix r) < 16"
  shows "round_ok r es (read_prefix r es)"
proof -
  obtain x es' where i: "inner_read (16 - length (vr_prefix r)) es = (x, es')" by fastforce
  note hi = inner_read_healthy [OF h i]
  have st: "vr_output r = []" "vr_state r = Header []" "\<not> vr_raw r" "length (vr_uuid r) = 16"
    using ok len by (simp_all add: reader_ok_def)
  show ?thesis
  proof (cases x)
    case (Filled b)
    have "length (vr_prefix r @ b) < 16 \<longrightarrow> vr_prefix r @ b \<noteq> vr_uuid r"
      using st(4) by (metis less_irrefl)
    with Filled hi len st ok show ?thesis
      by (auto simp: read_prefix_def i Let_def round_ok_def to_come_def reader_ok_def)
  qed (use hi ok in \<open>auto simp: read_prefix_def i round_ok_def\<close>)
qed

lemma deframe_header_more:
  assumes "length (hs @ b) < 5"
  shows "deframe (Header (hs @ b)) t = deframe (Header hs) (b @ t)"
  using assms by (simp add: deframe.simps(1) Let_def)

lemma read_header_round:
  assumes h: "healthy es" and ok: "reader_ok r" and st: "vr_state r = Header hs"
    and r: "vr_output r = []" "\<not> vr_raw r" "\<not> length (vr_prefix r) < 16"
  shows "round_ok r es (read_header r hs es)"
proof -
  obtain x es' where i: "inner_read (5 - length hs) es = (x, es')" by fastforce
  note hi = inner_read_healthy [OF h i]
  have hs: "length hs < 5" using ok st by (simp add: reader_ok_def)
  show ?thesis
  proof (cases x)
    case (Filled b)
    show ?thesis
    proof (cases "b = [] \<or> length (hs @ b) < 5")
      case True
      with Filled hi hs r st ok deframe_header_more [of hs b "arriving es'"] show ?thesis
        by (auto simp: read_header_def i Let_def round_ok_def to_come_def reader_ok_def deframe.simps(1))
    next
      case False
      with Filled hi have l: "length (hs @ b) = 5" "arriving es = b @ arriving es'" using hs by auto
      then have t: "take 5 (hs @ arriving es) = hs @ b" "drop 5 (hs @ arriving es) = arriving es'"
        by simp_all
      from l t hs have d: "deframe (Header hs) (arriving es) =
          (if \<not> known_command ((hs @ b) ! 0) then ([], False)
           else deframe (Content (len16 ((hs @ b) ! 1) ((hs @ b) ! 2)) (len16 ((hs @ b) ! 3) ((hs @ b) ! 4)) ((hs @ b) ! 0)) (arriving es'))"
        by (simp add: deframe.simps(1) Let_def del: append_assoc)
      with Filled False hi r st ok l show ?thesis
        by (simp add: read_header_def i Let_def round_ok_def to_come_def reader_ok_def)
    qed
  qed (use hi ok in \<open>auto simp: read_header_def i round_ok_def\<close>)
qed

lemma read_content_round:
  assumes h: "healthy es" and ok: "reader_ok r" and st: "vr_state r = Content n p c"
    and r: "vr_output r = []" "\<not> vr_raw r" "\<not> length (vr_prefix r) < 16"
  shows "round_ok r es (read_content r n p c es)"
proof (cases "n = 0")
  case True
  with h ok st r show ?thesis
    by (simp add: read_content_def round_ok_def to_come_def reader_ok_def deframe.simps(2) split: prod.splits)
next
  case False
  obtain x es' where i: "inner_read (min n 32768) es = (x, es')" by fastforce
  note hi = inner_read_healthy [OF h i]
  show ?thesis
  proof (cases x)
    case (Filled b)
    show ?thesis
    proof (cases "b = []")
      case True
      with Filled hi False st r show ?thesis
        by (simp add: read_content_def i round_ok_def to_come_def deframe.simps(2))
    next
      case ne: False
      from Filled hi have l: "length b \<le> n" "arriving es = b @ arriving es'" "healthy es'" by auto
      then have "deframe (Content n p c) (arriving es) =
          (b @ fst (deframe (Content (n - length b) p c) (arriving es')),
           snd (deframe (Content (n - length b) p c) (arriving es')))"
        by (auto simp: deframe.simps(2) split: prod.splits)
      with Filled False ne l st r ok show ?thesis
        by (simp add: read_content_def i round_ok_def to_come_def reader_ok_def case_prod_beta)
    qed
  qed (use hi ok False in \<open>auto simp: read_content_def i round_ok_def\<close>)
qed

lemma read_padding_round:
  assumes h: "healthy es" and ok: "reader_ok r" and st: "vr_state r = Padding n c"
    and r: "vr_output r = []" "\<not> vr_raw r" "\<not> length (vr_prefix r) < 16"
  shows "round_ok r es (read_padding r n c es)"
proof (cases "n = 0")
  case True
  with h ok st r show ?thesis
    by (auto simp: read_padding_def round_ok_def to_come_def reader_ok_def deframe.simps(3))
next
  case False
  obtain x es' where i: "inner_read (min n 8192) es = (x, es')" by fastforce
  note hi = inner_read_healthy [OF h i]
  show ?thesis
  proof (cases x)
    case (Filled b)
    show ?thesis
    proof (cases "b = []")
      case True
      with Filled hi False st r show ?thesis
        by (simp add: read_padding_def i round_ok_def to_come_def deframe.simps(3))
    next
      case ne: False
      from Filled hi have l: "length b \<le> n" "arriving es = b @ arriving es'" "healthy es'" by auto
      then have "deframe (Padding n c) (arriving es) = deframe (Padding (n - length b) c) (arriving es')"
        by (auto simp: deframe.simps(3))
      with Filled False ne l st r ok show ?thesis
        by (simp add: read_padding_def i round_ok_def to_come_def reader_ok_def)
    qed
  qed (use hi ok False in \<open>auto simp: read_padding_def i round_ok_def\<close>)
qed

lemma vision_round_ok:
  assumes h: "healthy es" and ok: "reader_ok r"
  shows "round_ok r es (vision_round room r es)"
proof -
  consider "vr_output r \<noteq> []" | "vr_output r = []" "vr_raw r"
    | "vr_output r = []" "\<not> vr_raw r" "length (vr_prefix r) < 16"
    | "vr_output r = []" "\<not> vr_raw r" "\<not> length (vr_prefix r) < 16" by blast
  then show ?thesis
  proof cases
    case 1
    then have "to_come r x = (take room (vr_output r) @ fst (to_come (r\<lparr>vr_output := drop room (vr_output r)\<rparr>) x),
        snd (to_come (r\<lparr>vr_output := drop room (vr_output r)\<rparr>) x))" for x
      by (simp add: to_come_def split: prod.splits)
    with 1 h ok show ?thesis by (auto simp: vision_round_def round_ok_def reader_ok_def)
  next
    case 2
    obtain x es' where i: "inner_read room es = (x, es')" by fastforce
    with 2 inner_read_healthy [OF h i] ok show ?thesis
      by (auto simp: vision_round_def round_ok_def to_come_def split: inner_poll.splits)
  next
    case 3
    with read_prefix_round [OF h ok] show ?thesis by (simp add: vision_round_def)
  next
    case 4
    with read_header_round [OF h ok] read_content_round [OF h ok] read_padding_round [OF h ok] show ?thesis
      by (cases "vr_state r") (simp_all add: vision_round_def)
  qed
qed

lemma vision_round_eof:
  assumes "healthy es" and "reader_ok r" and "0 < room"
    and "vision_round room r es = Return (Delivered []) s"
  shows "fst (to_come r (arriving es)) = []"
proof -
  have cap: "es = []" if "inner_read cap es = (Filled [], es')" "0 < cap" for cap es'
    using inner_read_healthy [OF assms(1) that(1)] that(2) by simp
  have hs: "0 < 5 - length hs" if "vr_state r = Header hs" for hs
    using that assms(2) by (simp add: reader_ok_def)
  have "vr_output r = []"
    using assms(3,4) by (auto simp: vision_round_def split: if_splits)
  moreover from this have "(vr_raw r \<or> \<not> length (vr_prefix r) < 16 \<and> (\<exists>hs. vr_state r = Header hs)) \<and> es = []"
    using assms(3,4) cap hs
    by (auto simp: vision_round_def read_prefix_def read_header_def read_content_def read_padding_def Let_def
        split: if_splits prod.splits inner_poll.splits read_state.splits)
  ultimately show ?thesis
    using assms(2) by (auto simp: to_come_def deframe.simps(1) reader_ok_def)
qed

section \<open>The stream through the reader\<close>

interpretation vr: poll_reader vision_round vision_poll reader_ok to_come vr_rank
  by unfold_locales
    (rule vision_poll.simps, erule vision_round_decreases, erule (1) vision_round_ok,
      erule (3) vision_round_eof)

lemma reader_ok_new: "length u = 16 \<Longrightarrow> reader_ok (new_vision_reader u)"
  by (simp add: reader_ok_def new_vision_reader_def)

lemma to_come_new: "length u = 16 \<Longrightarrow> to_come (new_vision_reader u) bs = deframe_stream u bs"
  by (simp add: to_come_def new_vision_reader_def deframe_stream_def)

text \<open>
  C11. The Vision reader delivers exactly the contents of the framed stream, however the transport
  cuts the bytes into pieces, however often it is not ready, and whatever the sizes of the buffers
  it is polled with: if the stream is intact, no poll fails, and what the polls delivered followed
  by what the reader still has to deliver is the deframed stream; a poll with room that returns
  nothing (end of file) happens only when nothing is left.
\<close>

theorem vision_reader_delivers:
  assumes "length u = 16" and "healthy es" and "snd (deframe_stream u (arriving es))"
    and "poll_many vision_poll ns (new_vision_reader u) es = (xs, r, es')"
  shows "(\<forall>e. ReadErr e \<notin> set xs) \<and>
         delivered xs @ fst (to_come r (arriving es')) = fst (deframe_stream u (arriving es)) \<and>
         (\<forall>n > 0. fst (vision_poll n r es') = Delivered [] \<longrightarrow>
            delivered xs = fst (deframe_stream u (arriving es)))"
  using vr.polls_deliver [OF assms(2) reader_ok_new [OF assms(1)] _ assms(4)] assms(3)
  by (simp add: to_come_new [OF assms(1)])

section \<open>The stream through the writer\<close>

lemma be_len16_nth: "be_len16 n = [be_len16 n ! 0, be_len16 n ! 1]"
  by (simp add: be_len16_Cons)

lemma len16_be_len16_nth: "n < 2 ^ 16 \<Longrightarrow> len16 (be_len16 n ! 0) (be_len16 n ! 1) = n"
  by (simp add: be_len16_Cons len16_be_len16)

lemma deframe_frame:
  assumes "vision_encode_frame rnd content c u lp = Inr b"
  shows "\<exists>f. b = (case u of None \<Rightarrow> [] | Some v \<Rightarrow> v) @ f \<and>
    deframe (Header []) (f @ t) =
      (if c = COMMAND_CONTINUE
       then (content @ fst (deframe (Header []) t), snd (deframe (Header []) t)) else (content @ t, True))"
proof -
  define pl where "pl = min (if length content < 900 \<and> lp then rnd + 900 - length content else rnd)
      (MAX_FRAME_CONTENT - length content)"
  define f where "f = [c] @ be_len16 (length content) @ be_len16 pl @ content @ replicate pl 0"
  from assms have b: "b = (case u of None \<Rightarrow> [] | Some v \<Rightarrow> v) @ f" and c: "known_command c"
    and len: "length content < 2 ^ 16" "pl < 2 ^ 16"
    by (auto simp: vision_encode_frame_def Let_def f_def pl_def MAX_FRAME_CONTENT_def split: if_splits)
  let ?x = "be_len16 (length content)" and ?y = "be_len16 pl"
  have ft: "f @ t = [c, ?x ! 0, ?x ! 1, ?y ! 0, ?y ! 1] @ content @ replicate pl 0 @ t"
    unfolding f_def by (subst (1) be_len16_nth, subst (2) be_len16_nth) simp
  have "deframe (Header []) (f @ t) = deframe (Content (length content) pl c) (content @ replicate pl 0 @ t)"
    unfolding ft using c by (simp add: deframe.simps(1) Let_def len16_be_len16_nth [OF len(1), simplified] len16_be_len16_nth [OF len(2), simplified])
  also have "\<dots> = (if c = COMMAND_CONTINUE
       then (content @ fst (deframe (Header []) t), snd (deframe (Header []) t)) else (content @ t, True))"
    by (simp add: deframe.simps(2,3) case_prod_beta)
  finally show ?thesis using b by blast
qed

text \<open>A run of the writer: the frames of one call after the other; \<open>rnd n\<close> are the draws of the call that has
  \<open>n\<close> calls after it.\<close>

fun write_all ::
  "(nat \<Rightarrow> nat \<Rightarrow> nat) \<Rightarrow> vision_writer \<Rightarrow> bytes list \<Rightarrow> vision_error + bytes" where
  "write_all rnd w [] = Inr []"
| "write_all rnd w (d # ds) =
     (case vision_encode (rnd (length ds)) w d of
        Inl e \<Rightarrow> Inl e
      | Inr (fs, w') \<Rightarrow> (case write_all rnd w' ds of Inl e \<Rightarrow> Inl e | Inr bs \<Rightarrow> Inr (concat fs @ bs)))"

lemma chunks_small: "d \<noteq> [] \<Longrightarrow> length d \<le> n \<Longrightarrow> chunks n d = [d]"
  by (cases "n = 0") (simp_all add: chunks.simps [of n d])

lemma encode_frame_total:
  assumes "known_command c" and "length d \<le> MAX_FRAME_CONTENT"
  shows "\<exists>b. vision_encode_frame rnd d c u lp = Inr b"
  using assms by (simp add: vision_encode_frame_def MAX_FRAME_CONTENT_def Let_def)

lemma encode_chunk_total:
  assumes "length d \<le> MAX_FRAME_CONTENT"
  obtains b w' c where "encode_chunk rnd w d = Inr (b, w')"
    "vision_encode_frame rnd d c (vw_uuid w) (is_tls (vw_filter w')) = Inr b"
    "vw_uuid w' = None" "vw_padding w' = (c = COMMAND_CONTINUE \<and> vw_padding w)"
proof -
  define f where "f = observe (vw_filter w) d"
  define e where "e = (is_tls f \<and> 5 \<le> length d \<and> take 3 d = [0x17, 3, 3] \<or> packets_left f = 0)"
  define c where "c = (if e then COMMAND_END else COMMAND_CONTINUE)"
  have "known_command c" by (simp add: c_def known_command_def)
  then obtain b where b: "vision_encode_frame rnd d c (vw_uuid w) (is_tls f) = Inr b"
    using encode_frame_total [OF _ assms] by blast
  then have "encode_chunk rnd w d = Inr (b, \<lparr>vw_uuid = None, vw_filter = f, vw_padding = (if e then False else vw_padding w)\<rparr>)"
    by (simp add: encode_chunk_def Let_def f_def [symmetric] e_def c_def)
  then show thesis
    by (rule that) (use b in \<open>auto simp: c_def vision_commands\<close>)
qed

lemma encode_small:
  assumes "vw_padding w" and "d \<noteq> []" and "length d \<le> MAX_FRAME_CONTENT"
  obtains f w' c where "vision_encode rnd w d = Inr ([f], w')" "vw_uuid w' = None"
    "vision_encode_frame (rnd 0) d c (vw_uuid w) (is_tls (vw_filter w')) = Inr f"
    "vw_padding w' = (c = COMMAND_CONTINUE)"
proof -
  obtain b w' c where e: "encode_chunk (rnd 0) w d = Inr (b, w')"
    "vision_encode_frame (rnd 0) d c (vw_uuid w) (is_tls (vw_filter w')) = Inr b"
    "vw_uuid w' = None" "vw_padding w' = (c = COMMAND_CONTINUE \<and> vw_padding w)"
    using encode_chunk_total [OF assms(3)] .
  show thesis
    by (rule that [of b w' c]) (use e assms in \<open>simp_all add: vision_encode_def chunks_small\<close>)
qed

lemma write_all_raw: "\<not> vw_padding w \<Longrightarrow> write_all rnd w ds = Inr (concat ds)"
  by (induction ds) (simp_all add: vision_encode_def)

lemma write_all_deframes:
  assumes "\<forall>d \<in> set ds. d \<noteq> [] \<and> length d \<le> MAX_FRAME_CONTENT" and "vw_padding w" and "vw_uuid w = None"
  shows "\<exists>bs. write_all rnd w ds = Inr bs \<and> deframe (Header []) bs = (concat ds, True)"
  using assms
proof (induction ds arbitrary: w)
  case Nil
  show ?case by (simp add: deframe.simps(1))
next
  case (Cons d ds)
  obtain f w' c where e: "vision_encode (rnd (length ds)) w d = Inr ([f], w')" "vw_uuid w' = None"
    and fr: "vision_encode_frame (rnd (length ds) 0) d c None (is_tls (vw_filter w')) = Inr f"
    and pw: "vw_padding w' = (c = COMMAND_CONTINUE)"
    using encode_small [of w d "rnd (length ds)"] Cons.prems by auto
  show ?case
  proof (cases "vw_padding w'")
    case True
    with Cons.IH [of w'] Cons.prems(1) e(2) obtain bs
      where "write_all rnd w' ds = Inr bs" "deframe (Header []) bs = (concat ds, True)" by auto
    with e deframe_frame [OF fr, of bs] True pw show ?thesis by auto
  next
    case False
    with write_all_raw [OF False, of rnd ds] e deframe_frame [OF fr, of "concat ds"] pw show ?thesis by auto
  qed
qed

lemma written_deframed:
  assumes "length u = 16" and "ds \<noteq> []" and "\<forall>d \<in> set ds. d \<noteq> [] \<and> length d \<le> MAX_FRAME_CONTENT"
  shows "\<exists>bs. write_all rnd (new_vision_writer u) ds = Inr bs \<and> deframe_stream u bs = (concat ds, True)"
proof -
  obtain d ds' where ds: "ds = d # ds'" using assms(2) by (cases ds) auto
  let ?w = "new_vision_writer u"
  obtain f w' c where e: "vision_encode (rnd (length ds')) ?w d = Inr ([f], w')" "vw_uuid w' = None"
    and fr: "vision_encode_frame (rnd (length ds') 0) d c (Some u) (is_tls (vw_filter w')) = Inr f"
    and pw: "vw_padding w' = (c = COMMAND_CONTINUE)"
    using encode_small [of ?w d "rnd (length ds')"] assms(3) ds by (auto simp: new_vision_writer_def)
  have main: "\<exists>bs. write_all rnd w' ds' = Inr bs \<and>
      (if c = COMMAND_CONTINUE then deframe (Header []) bs = (concat ds', True) else bs = concat ds')"
    using write_all_deframes [of ds' w' rnd] write_all_raw [of w' rnd ds'] assms(3) ds e(2) pw by auto
  then obtain bs where bs: "write_all rnd w' ds' = Inr bs"
      "if c = COMMAND_CONTINUE then deframe (Header []) bs = (concat ds', True) else bs = concat ds'" by blast
  obtain g where "f = u @ g" "deframe (Header []) (g @ bs) = (concat ds, True)"
    using deframe_frame [OF fr, of bs] bs(2) ds by (auto split: if_splits)
  with bs(1) e ds assms(1) show ?thesis by (simp add: deframe_stream_def)
qed

text \<open>
  Vision end to end: whatever the writer is given, in calls of at most \<open>MAX_FRAME_CONTENT\<close> bytes,
  and whatever padding it draws, its output is accepted and deframed by a reader that expects the
  same UUID to exactly the bytes written, across the switch from framed to raw bytes.
\<close>

lemma vision_roundtrip:
  assumes "length u = 16" and "ds \<noteq> []" and "\<forall>d \<in> set ds. d \<noteq> [] \<and> length d \<le> MAX_FRAME_CONTENT"
  shows "\<exists>bs. write_all rnd (new_vision_writer u) ds = Inr bs \<and> deframe_stream u bs = (concat ds, True)"
  using assms by (rule written_deframed)

lemma vision_roundtrip_example:
  "\<exists>bs. write_all (\<lambda>_ _. 3) (new_vision_writer (replicate 16 7)) [[1, 2], [0x17, 3, 3, 0, 1, 9]] = Inr bs \<and>
     deframe_stream (replicate 16 7) bs = ([1, 2, 0x17, 3, 3, 0, 1, 9], True)"
  using vision_roundtrip [of "replicate 16 7" "[[1, 2], [0x17, 3, 3, 0, 1, 9]]" "\<lambda>_ _. 3"]
  by (simp add: MAX_FRAME_CONTENT_def)

theorem vision_reader_delivers_witness:
  "\<exists>xs r es'. poll_many vision_poll [4, 4] (new_vision_reader (replicate 16 7))
       [Arrives (replicate 16 7 @ [0, 0]), NotReady, Arrives [2, 0, 1, 5, 6, 0]] = (xs, r, es') \<and>
     delivered xs @ fst (to_come r (arriving es')) = [5, 6]"
proof -
  let ?u = "replicate 16 (7 :: u8)" and ?es = "[Arrives (replicate 16 7 @ [0, 0]), NotReady, Arrives [2, 0, 1, 5, 6, 0]]"
  obtain xs r es' where p: "poll_many vision_poll [4, 4] (new_vision_reader ?u) ?es = (xs, r, es')" by (metis prod_cases3)
  have "deframe_stream ?u (arriving ?es) = ([5, 6], True)"
    by (simp add: deframe_stream_def deframe.simps known_command_def vision_commands Let_def len16_def from_be16_def)
  with vision_reader_delivers [OF _ _ _ p] p show ?thesis by simp
qed

text \<open>A frame without a UUID around a content.\<close>

definition framed_as :: "bytes \<Rightarrow> bytes \<Rightarrow> bool" where
  "framed_as c f \<longleftrightarrow> (\<exists>cmd pad. known_command cmd \<and>
     f = [cmd] @ be_len16 (length c) @ be_len16 pad @ c @ replicate pad 0)"

lemma encode_frame_framed: "vision_encode_frame rnd c cmd None lp = Inr f \<Longrightarrow> framed_as c f"
  unfolding framed_as_def by (auto simp: vision_encode_frame_def Let_def split: if_splits)

lemma framed_as_length: "list_all2 framed_as cs fs \<Longrightarrow> length (concat cs) + 5 * length cs \<le> length (concat fs)"
  by (induction rule: list_all2_induct) (auto simp: framed_as_def)

lemma encode_chunks_framed:
  assumes "\<forall>c \<in> set cs. length c \<le> MAX_FRAME_CONTENT" and "vw_uuid w = None"
  shows "\<exists>fs w'. encode_chunks rnd w cs = Inr (fs, w') \<and> list_all2 framed_as cs fs \<and> (\<not> vw_padding w \<longrightarrow> \<not> vw_padding w')"
  using assms
proof (induction cs arbitrary: w)
  case (Cons c cs)
  have l: "length c \<le> MAX_FRAME_CONTENT" using Cons.prems(1) by simp
  obtain b w' k where e: "encode_chunk (rnd (length cs)) w c = Inr (b, w')"
    "vision_encode_frame (rnd (length cs)) c k (vw_uuid w) (is_tls (vw_filter w')) = Inr b"
    "vw_uuid w' = None" "vw_padding w' = (k = COMMAND_CONTINUE \<and> vw_padding w)"
    using encode_chunk_total [OF l] .
  obtain fs w2 where "encode_chunks rnd w' cs = Inr (fs, w2)" "list_all2 framed_as cs fs" "\<not> vw_padding w' \<longrightarrow> \<not> vw_padding w2"
    using Cons.IH [of w'] Cons.prems(1) e(3) by auto
  with e encode_frame_framed [of "rnd (length cs)" c k] Cons.prems(2) show ?case by auto
qed simp

text \<open>
  C33. The bound of \<open>MAX_FRAME_CONTENT\<close> bytes a write is needed: once a chunk has ended the framing, the loop of
  \<open>VisionWriter::encode\<close> still frames the remaining chunks of the same call, although the reader now
  takes everything that follows as raw bytes. Whatever the first write of a session is, when it is longer than the bound and starts
  like a TLS application-data record (the dispatcher passes up to 32 KiB at once), then it is
  received as its first \<open>MAX_FRAME_CONTENT\<close> bytes followed by a whole frame, command, lengths and padding included, for
  each of the chunks of its rest: at least five bytes too many for every such chunk. Later writes follow raw.
\<close>

theorem vision_large_write_corrupts:
  assumes "length u = 16" and "MAX_FRAME_CONTENT < length d" and "take 3 d = [0x17, 3, 3]"
  shows "\<exists>bs fs. write_all rnd (new_vision_writer u) (d # ds) = Inr bs \<and>
           list_all2 framed_as (chunks MAX_FRAME_CONTENT (drop MAX_FRAME_CONTENT d)) fs \<and>
           deframe_stream u bs = (take MAX_FRAME_CONTENT d @ concat fs @ concat ds, True) \<and>
           length d + 5 \<le> length (take MAX_FRAME_CONTENT d @ concat fs)"
proof -
  let ?w = "new_vision_writer u" and ?c = "take MAX_FRAME_CONTENT d" and ?cs = "chunks MAX_FRAME_CONTENT (drop MAX_FRAME_CONTENT d)"
  let ?f = "observe new_filter ?c" and ?r = "rnd (length ds)"
  have c: "length ?c = MAX_FRAME_CONTENT" "5 \<le> length ?c" "6 \<le> length ?c" "take 3 ?c = [0x17, 3, 3]"
    using assms(2,3) by (simp_all add: MAX_FRAME_CONTENT_def)
  have tls: "is_tls ?f"
  proof -
    have "?c ! i = [0x17, 3, 3] ! i" if "i < 3" for i using c(3,4) that by (metis nth_take)
    from this [of 0] this [of 1] this [of 2] c(3) show ?thesis by (simp add: observe_def new_filter_def Let_def)
  qed
  obtain b1 where b1: "vision_encode_frame (?r (length ?cs)) ?c COMMAND_END (Some u) (is_tls ?f) = Inr b1"
    using encode_frame_total [of COMMAND_END ?c "?r (length ?cs)" "Some u" "is_tls ?f"] c(1) by (auto simp: known_command_def)
  define w1 where "w1 = \<lparr>vw_uuid = None, vw_filter = ?f, vw_padding = False\<rparr>"
  have c1: "encode_chunk (?r (length ?cs)) ?w ?c = Inr (b1, w1)"
    using b1 c tls by (simp add: encode_chunk_def new_vision_writer_def Let_def w1_def)
  obtain fs w2 where r: "encode_chunks ?r w1 ?cs = Inr (fs, w2)" "list_all2 framed_as ?cs fs" "\<not> vw_padding w2"
    using encode_chunks_framed [of ?cs w1 ?r] chunks_length by (fastforce simp: w1_def)
  have ch: "chunks MAX_FRAME_CONTENT d = ?c # ?cs" using assms(2) by (subst chunks.simps) (auto simp: MAX_FRAME_CONTENT_def)
  have "write_all rnd ?w (d # ds) = Inr (b1 @ concat fs @ concat ds)"
    using c1 r(1) write_all_raw [OF r(3), of rnd ds] by (simp add: vision_encode_def ch) (simp add: new_vision_writer_def)
  moreover obtain g where "b1 = u @ g" "deframe (Header []) (g @ concat fs @ concat ds) = (?c @ concat fs @ concat ds, True)"
    using deframe_frame [OF b1, of "concat fs @ concat ds"] by (auto simp: vision_commands)
  moreover have "length d + 5 \<le> length (?c @ concat fs)"
  proof -
    have "concat ?cs = drop MAX_FRAME_CONTENT d" by (rule concat_chunks) (simp add: MAX_FRAME_CONTENT_def)
    moreover have "?cs \<noteq> []" using calculation assms(2) by auto
    moreover obtain n where "length ?cs = Suc n" using calculation(2) by (cases ?cs) auto
    ultimately show ?thesis using framed_as_length [OF r(2)] assms(2) by simp
  qed
  ultimately show ?thesis using r(2) assms(1) by (auto simp: deframe_stream_def)
qed

definition big_record :: bytes where
  "big_record = [0x17, 3, 3] @ replicate (MAX_FRAME_CONTENT - 3) 0"

theorem vision_large_write_corrupts_witness:
  "\<exists>bs x. write_all (\<lambda>_ _. 0) (new_vision_writer (replicate 16 7)) [big_record @ [0]] = Inr bs \<and>
     deframe_stream (replicate 16 7) bs = (x, True) \<and> length (big_record @ [0]) + 5 \<le> length x"
proof -
  have "MAX_FRAME_CONTENT < length (big_record @ [0])" "take 3 (big_record @ [0]) = [0x17, 3, 3]"
    by (simp_all add: big_record_def MAX_FRAME_CONTENT_def)
  from vision_large_write_corrupts [OF _ this, of "replicate 16 7" "\<lambda>_ _. 0" "[]"] show ?thesis by auto
qed

end
