(* ===== verification/Addons.thy ===== *)
theory Addons
  imports Prelude
begin

text \<open>
  The VLESS header addons, \<^verbatim>\<open>src/vless/addons.rs\<close>: a hand-written protobuf codec. Rust strings are the
  bytes of their UTF-8 encoding. The decoder indexes with \<open>usize\<close> arithmetic that wraps in release
  builds and slices that panic, and its loop need not end, so it is a \<open>partial_function\<close> whose value
  \<open>None\<close> is an endless loop and whose results include the panic.
\<close>

section \<open>Data\<close>

definition XRV :: bytes where
  "XRV = bytes_of ''xtls-rprx-vision''"

record addons =
  flow :: bytes
  seed :: bytes

definition default_addons :: addons where
  "default_addons = \<lparr>flow = [], seed = []\<rparr>"

datatype addons_error = Truncated | TooLong nat | BadWire | BadUtf8

datatype addons_outcome = AddonsOk addons | AddonsErr addons_error | AddonsPanic

section \<open>Varints\<close>

text \<open>\<open>read_varint\<close>: the loop state is the index of the next byte, the value so far and the shift.\<close>

fun read_varint_from :: "nat \<Rightarrow> u64 \<Rightarrow> nat \<Rightarrow> bytes \<Rightarrow> (u64 \<times> nat) option" where
  "read_varint_from i acc shift [] = None"
| "read_varint_from i acc shift (b # bs) =
     (if 64 \<le> shift then None
      else let acc' = acc OR push_bit shift (ucast (b AND 0x7F))
           in if b AND 0x80 = 0 then Some (acc', i + 1)
              else read_varint_from (i + 1) acc' (shift + 7) bs)"

definition read_varint :: "bytes \<Rightarrow> (u64 \<times> nat) option" where
  "read_varint bs = read_varint_from 0 0 0 bs"

lemma drop_bit_7_less: "drop_bit 7 v \<noteq> 0 \<Longrightarrow> unat (drop_bit 7 v) < unat (v :: u64)"
proof -
  assume "drop_bit 7 v \<noteq> 0"
  then have "v \<noteq> 0" by auto
  then have "0 < unat v" by (simp add: unat_gt_0)
  then show ?thesis by (simp add: drop_bit_eq_div unat_div)
qed

function write_varint :: "u64 \<Rightarrow> bytes" where
  "write_varint v =
     (let b = ucast (v AND 0x7F); v' = drop_bit 7 v
      in if v' = 0 then [b] else (b OR 0x80) # write_varint v')"
  by pat_completeness auto
termination
  by (relation "measure unat") (auto simp: drop_bit_7_less)

declare write_varint.simps [simp del]

section \<open>The codec\<close>

text \<open>One step reads the field at index \<open>i\<close> and continues at a new index; \<open>usize\<close> addition wraps.\<close>

partial_function (option) decode_addons_from :: "bytes \<Rightarrow> nat \<Rightarrow> addons \<Rightarrow> addons_outcome option" where
  "decode_addons_from body i a =
     (if length body \<le> i then Some (AddonsOk a)
      else
        let tag = body ! i; i1 = i + 1; field = drop_bit 3 tag; wire = tag AND 7
        in if (field = 1 \<or> field = 2) \<and> wire = 2 then
             (case read_varint (drop i1 body) of
                None \<Rightarrow> Some (AddonsErr BadWire)
              | Some (len, adv) \<Rightarrow>
                  let i2 = i1 + adv; e = usize_wrapping_add i2 (unat len)
                  in if length body < e then Some (AddonsErr Truncated)
                     else if e < i2 then Some AddonsPanic
                     else let slice = take (e - i2) (drop i2 body)
                          in if field = 1
                             then (if utf8_valid slice
                                   then decode_addons_from body e (a\<lparr>flow := slice\<rparr>)
                                   else Some (AddonsErr BadUtf8))
                             else decode_addons_from body e (a\<lparr>seed := slice\<rparr>))
           else if wire = 0 then
             (case read_varint (drop i1 body) of
                None \<Rightarrow> Some (AddonsErr BadWire)
              | Some (v, adv) \<Rightarrow> decode_addons_from body (i1 + adv) a)
           else if wire = 2 then
             (case read_varint (drop i1 body) of
                None \<Rightarrow> Some (AddonsErr BadWire)
              | Some (len, adv) \<Rightarrow>
                  decode_addons_from body (usize_wrapping_add i1 (usize_wrapping_add adv (unat len))) a)
           else Some (AddonsErr BadWire))"

definition decode_addons_body :: "bytes \<Rightarrow> addons_outcome option" where
  "decode_addons_body body = decode_addons_from body 0 default_addons"

definition encode_addons :: "addons \<Rightarrow> addons_error + bytes" where
  "encode_addons a =
     (if flow a \<noteq> XRV then Inr [0]
      else let body = [push_bit 3 1 OR 2] @ write_varint (of_nat (length (flow a))) @ flow a @
                 (if seed a = [] then []
                  else [push_bit 3 2 OR 2] @ write_varint (of_nat (length (seed a))) @ seed a)
           in if 255 < length body then Inl (TooLong (length body))
              else Inr (of_nat (length body) # body))"

section \<open>Varints round-trip\<close>

lemma read_varint_from_adv:
  "read_varint_from i acc sh bs = Some (v, adv) \<Longrightarrow> i < adv \<and> adv \<le> i + length bs"
  by (induction i acc sh bs rule: read_varint_from.induct) (auto simp: Let_def split: if_splits)

lemma read_varint_adv: "read_varint bs = Some (v, adv) \<Longrightarrow> 0 < adv \<and> adv \<le> length bs"
  using read_varint_from_adv [of 0 0 0 bs v adv] by (simp add: read_varint_def)

lemma bit_127 [simp]: "bit (127 :: int) n \<longleftrightarrow> n < 7"
proof -
  have "(127 :: int) = mask 7" by (simp add: mask_eq_exp_minus_1)
  then show ?thesis by (simp only: bit_mask_iff) simp
qed

lemma bit_128 [simp]: "bit (128 :: int) n \<longleftrightarrow> n = 7"
proof -
  have "(128 :: int) = 2 ^ 7" by simp
  then show ?thesis by (simp only: bit_exp_iff) auto
qed

lemma and_7F: "(v :: u64) AND 0x7F = take_bit 7 v"
  by (rule bit_eqI) (auto simp: bit_simps)

lemma varint_byte:
  "(ucast (v AND 0x7F :: u64) :: u8) AND 0x80 = 0"
  "((ucast (v AND 0x7F :: u64) :: u8) OR 0x80) AND 0x80 \<noteq> 0"
  "ucast ((ucast (v AND 0x7F) :: u8) AND 0x7F) = v AND (0x7F :: u64)"
  "ucast (((ucast (v AND 0x7F) :: u8) OR 0x80) AND 0x7F) = v AND (0x7F :: u64)"
proof -
  show "(ucast (v AND 0x7F :: u64) :: u8) AND 0x80 = 0"
    by (rule bit_eqI) (auto simp: bit_simps)
  have "bit (((ucast (v AND 0x7F :: u64) :: u8) OR 0x80) AND 0x80) 7"
    by (simp add: bit_and_iff bit_or_iff)
  then show "((ucast (v AND 0x7F :: u64) :: u8) OR 0x80) AND 0x80 \<noteq> 0" by (metis bit_0_eq bot_apply bot_bool_def)
  show "ucast ((ucast (v AND 0x7F) :: u8) AND 0x7F) = v AND (0x7F :: u64)"
    by (rule bit_eqI) (auto simp: bit_simps)
  show "ucast (((ucast (v AND 0x7F) :: u8) OR 0x80) AND 0x7F) = v AND (0x7F :: u64)"
    by (rule bit_eqI) (auto simp: bit_simps)
qed

text \<open>Reading back a varint whose low \<open>sh\<close> bits are already in the accumulator.\<close>

lemma varint_accumulate:
  "acc OR push_bit sh v = (acc OR push_bit sh (v AND 0x7F)) OR push_bit (sh + 7) (drop_bit 7 (v :: u64))"
  proof (rule bit_eqI)
  fix n
  show "bit (acc OR push_bit sh v) n =
      bit ((acc OR push_bit sh (v AND 0x7F)) OR push_bit (sh + 7) (drop_bit 7 v)) n"
    by (cases "n < sh + 7") (auto simp: bit_simps)
qed

lemma read_varint_from_write:
  assumes "unat v < 2 ^ (64 - sh)" and "sh < 64"
  shows "read_varint_from i acc sh (write_varint v @ rest) =
    Some (acc OR push_bit sh v, i + length (write_varint v))"
  using assms
proof (induction v arbitrary: i acc sh rule: write_varint.induct)
  case (1 v)
  show ?case
  proof (cases "drop_bit 7 v = 0")
    case True
    then have "v AND 0x7F = v"
      using bits_ident [of 7 v] by (simp add: and_7F)
    with True "1.prems" varint_byte(1,3) [of v] show ?thesis
      by (simp add: write_varint.simps [of v] Let_def)
  next
    case False
    have div: "unat (drop_bit 7 v) = unat v div 128"
      by (simp add: drop_bit_eq_div unat_div)
    have big: "128 \<le> unat v"
      using False div by (metis div_less not_le unat_0 word_unat_eq_iff)
    have sh: "sh + 7 < 64"
    proof (rule ccontr)
      assume "\<not> sh + 7 < 64"
      then have "(2 :: nat) ^ (64 - sh) \<le> 2 ^ 7" by (intro power_increasing) simp_all
      with big "1.prems"(1) show False by simp
    qed
    have "(2 :: nat) ^ (64 - sh) = 2 ^ (64 - (sh + 7)) * 128"
    proof -
      have "64 - sh = (64 - (sh + 7)) + 7" using sh by simp
      then have "(2 :: nat) ^ (64 - sh) = 2 ^ (64 - (sh + 7)) * 2 ^ 7" by (simp only: power_add)
      then show ?thesis by simp
    qed
    with "1.prems"(1) div have "unat (drop_bit 7 v) < 2 ^ (64 - (sh + 7))"
      by (simp add: less_mult_imp_div_less)
    from "1.IH" [OF refl refl False this sh] "1.prems"(2) False
    show ?thesis
      by (simp add: write_varint.simps [of v] Let_def varint_byte(2,4) varint_accumulate [of acc sh v])
  qed
qed

lemma read_varint_write [codec_simps]:
  "read_varint (write_varint v @ rest) = Some (v, length (write_varint v))"
  using read_varint_from_write [of v 0 0 0 rest] by (simp add: read_varint_def)

section \<open>Round trip\<close>

lemmas decode_step = decode_addons_from.simps

lemma decode_len_field:
  assumes body: "body = pre @ (tag # write_varint (of_nat (length x)) @ x) @ post"
    and tag: "tag = 0x0A \<or> tag = 0x12" and len: "length body < 2 ^ 64"
    and utf: "tag = 0x0A \<longrightarrow> utf8_valid x"
  shows "decode_addons_from body (length pre) a =
    decode_addons_from body (length (pre @ tag # write_varint (of_nat (length x)) @ x))
      (if tag = 0x0A then a\<lparr>flow := x\<rparr> else a\<lparr>seed := x\<rparr>)"
proof -
  let ?n = "of_nat (length x) :: u64" and ?i1 = "length pre + 1"
  have lx: "unat ?n = length x" using len body by (intro unat_of_nat_u64) simp
  have nth: "body ! length pre = tag" and lt: "\<not> length body \<le> length pre" by (simp_all add: body)
  have rv: "read_varint (drop (Suc (length pre)) body) = Some (?n, length (write_varint ?n))"
    by (simp add: body read_varint_write)
  have e: "usize_wrapping_add (Suc (length pre + length (write_varint ?n))) (unat ?n) =
      Suc (length pre + (length (write_varint ?n) + length x))"
    using len by (simp add: lx usize_wrapping_add_def body)
  have sl: "take (length x) (drop (Suc (length pre + length (write_varint ?n))) body) = x"
    by (simp add: body)
  have le: "\<not> length body < Suc (length pre + (length (write_varint ?n) + length x))"
    by (simp add: body)
  have fin: "length (pre @ tag # write_varint ?n @ x) = Suc (length pre + (length (write_varint ?n) + length x))"
    by simp
  have diff: "length pre + (length (write_varint ?n) + length x) - (length pre + length (write_varint ?n)) = length x"
    by simp
  note facts = nth lt rv e sl le diff
  have "decode_addons_from body (length pre) a =
      decode_addons_from body (Suc (length pre + (length (write_varint ?n) + length x)))
        (if tag = 0x0A then a\<lparr>flow := x\<rparr> else a\<lparr>seed := x\<rparr>)"
    using tag
  proof
    assume "tag = 0x0A"
    with utf show ?thesis by (subst decode_step) (simp add: Let_def facts)
  next
    assume "tag = 0x12"
    then show ?thesis by (subst decode_step) (simp add: Let_def facts)
  qed
  then show ?thesis unfolding fin .
qed

lemma decode_end: "decode_addons_from body (length body) a = Some (AddonsOk a)"
  by (subst decode_step) simp

lemma utf8_XRV: "utf8_valid XRV"
  by (rule utf8_valid_ascii) (simp add: XRV_def bytes_of_def of_char_def)

lemma decode_encoded:
  fixes f sd :: bytes
  assumes f: "f = 0x0A # write_varint (of_nat (length XRV)) @ XRV"
    and sd: "sd = (if x = [] then [] else 0x12 # write_varint (of_nat (length x)) @ x)"
    and len: "length (f @ sd) < 2 ^ 64"
  shows "decode_addons_body (f @ sd) = Some (AddonsOk \<lparr>flow = XRV, seed = x\<rparr>)"
proof -
  have 1: "decode_addons_from (f @ sd) 0 default_addons = decode_addons_from (f @ sd) (length f) (default_addons\<lparr>flow := XRV\<rparr>)"
    using decode_len_field [of "f @ sd" "[]" "0x0A" XRV sd default_addons] len utf8_XRV by (simp add: f)
  show ?thesis
  proof (cases "x = []")
    case True
    then show ?thesis
      using 1 decode_end [of f] by (simp add: decode_addons_body_def sd default_addons_def)
  next
    case False
    have "decode_addons_from (f @ sd) (length f) (default_addons\<lparr>flow := XRV\<rparr>) =
        decode_addons_from (f @ sd) (length (f @ sd)) (default_addons\<lparr>flow := XRV, seed := x\<rparr>)"
      using decode_len_field [of "f @ sd" f "0x12" x "[]"] len False by (simp add: sd)
    then show ?thesis
      using 1 decode_end [of "f @ sd"] by (simp add: decode_addons_body_def default_addons_def)
  qed
qed

lemma encode_addons_decodes:
  assumes "encode_addons a = Inr field"
  shows "\<exists>n body. field = n # body \<and> unat n = length body \<and>
    decode_addons_body body = Some (AddonsOk (if flow a = XRV then a else default_addons))"
proof -
  have core: "unat n = length body \<and>
      decode_addons_body body = Some (AddonsOk (if flow a = XRV then a else default_addons))"
    if e: "encode_addons a = Inr (n # body)" for n body
  proof (cases "flow a = XRV")
    case False
    with e show ?thesis
      using decode_end [of "[]"] by (simp add: encode_addons_def decode_addons_body_def)
  next
    case True
    let ?f = "0x0A # write_varint (of_nat (length XRV)) @ XRV"
    let ?s = "if seed a = [] then [] else 0x12 # write_varint (of_nat (length (seed a))) @ seed a"
    from e True have b: "body = ?f @ ?s" "n = of_nat (length body)" "length body \<le> 255"
      by (auto simp: encode_addons_def Let_def split: if_splits)
    have "unat n = length body" unfolding b(2) using b(3) by (simp add: unat_of_nat)
    moreover have "decode_addons_body body = Some (AddonsOk \<lparr>flow = XRV, seed = seed a\<rparr>)"
      unfolding b(1) by (rule decode_encoded) (use b in simp_all)
    ultimately show ?thesis using True by (cases a) simp
  qed
  obtain n body where "field = n # body"
    using assms by (auto simp: encode_addons_def Let_def split: if_splits)
  with core assms show ?thesis by blast
qed

section \<open>Termination, and its limits\<close>

text \<open>The fields of a body as the decoder walks through them: the first starts at 0, and a field that is a number or
  has a length is followed by the next one. \<open>length_field body i n\<close>: the field at \<open>i\<close> has the length \<open>n\<close>.\<close>

inductive length_field :: "bytes \<Rightarrow> nat \<Rightarrow> u64 \<Rightarrow> bool" and field_start :: "bytes \<Rightarrow> nat \<Rightarrow> bool" for body where
  first: "field_start body 0"
| after_number: "field_start body i \<Longrightarrow> i < length body \<Longrightarrow> body ! i AND 7 = 0 \<Longrightarrow>
    read_varint (drop (i + 1) body) = Some (v, adv) \<Longrightarrow> field_start body (i + 1 + adv)"
| has_length: "field_start body i \<Longrightarrow> i < length body \<Longrightarrow> body ! i AND 7 = 2 \<Longrightarrow>
    read_varint (drop (i + 1) body) = Some (n, adv) \<Longrightarrow> length_field body i n"
| after_length: "length_field body i n \<Longrightarrow> read_varint (drop (i + 1) body) = Some (n, adv) \<Longrightarrow>
    field_start body (i + 1 + adv + unat n)"

text \<open>
  C31. The decoder returns, without a panic, on every body of which no field has a length of \<open>2 ^ 63\<close> or more; the bytes
  inside the fields and the values of number fields can be anything (a body is at most 255 bytes long, so no
  honest one has such a length).
\<close>

theorem addons_decoder_returns:
  assumes "length body < 2 ^ 62" and "\<forall>i n. length_field body i n \<longrightarrow> unat n < 2 ^ 63"
  shows "\<exists>r. decode_addons_body body = Some r \<and> r \<noteq> AddonsPanic"
proof -
  have "\<exists>r. decode_addons_from body i a = Some r \<and> r \<noteq> AddonsPanic" if "field_start body i" for i a
    using that
  proof (induction "length body - i" arbitrary: i a rule: less_induct)
    case less
    show ?case
    proof (cases "length body \<le> i")
      case True
      then show ?thesis by (subst decode_step) simp
    next
      case False
      have go: "\<exists>r. decode_addons_from body j b = Some r \<and> r \<noteq> AddonsPanic" if "field_start body j" "i < j" for j b
        using less(1) [of j b] that False by simp
      have number: "field_start body (Suc (i + adv))" if "body ! i AND 7 = 0" "read_varint (drop (Suc i) body) = Some (v, adv)" for v adv
        using after_number [OF less(2), of v adv] that False by simp
      have len: "length_field body i n" if "body ! i AND 7 = 2" "read_varint (drop (Suc i) body) = Some (n, adv)" for n adv
        using has_length [OF less(2), of n adv] that False by simp
      have lengths: "field_start body (Suc (i + adv + unat n)) \<and> usize_wrapping_add (Suc (i + adv)) (unat n) = Suc (i + adv + unat n) \<and>
          usize_wrapping_add (Suc i) (usize_wrapping_add adv (unat n)) = Suc (i + adv + unat n)"
        if w: "body ! i AND 7 = 2" "read_varint (drop (Suc i) body) = Some (n, adv)" for n adv
      proof -
        have "unat n < 2 ^ 63" "adv \<le> length body" using assms(2) len [OF w] read_varint_adv [OF w(2)] by auto
        then show ?thesis using after_length [OF len [OF w], of adv] w(2) assms(1) False by (simp add: usize_wrapping_add_def)
      qed
      show ?thesis
        by (subst decode_step)
          (auto simp: Let_def False not_less lengths split: option.splits intro!: go dest: number)
    qed
  qed
  then show ?thesis by (simp add: decode_addons_body_def first)
qed

text \<open>The flow \<open>a\<close>, then a number field whose value is not a length.\<close>

definition demo_body :: bytes where
  "demo_body = [0x0A, 0x01, 0x61, 0x08, 0xFF, 0xFF, 0xFF, 0xFF, 0xFF, 0xFF, 0xFF, 0xFF, 0xFF, 0x01]"

lemma demo_facts:
  "read_varint (drop (Suc 0) demo_body) = Some (1, 1)"
  "read_varint (drop 4 demo_body) = Some (18446744073709551615, 10)"
  "demo_body ! 0 = 0x0A" "demo_body ! 3 = 0x08" "length demo_body = 14"
  by (simp_all add: read_varint_def demo_body_def Let_def)

lemma demo_fields:
  "(length_field demo_body i n \<longrightarrow> i = 0 \<and> n = 1) \<and> (field_start demo_body j \<longrightarrow> j \<in> {0, 3, 14})"
  by (rule length_field_field_start.induct) (auto simp: demo_facts)

theorem addons_decoder_returns_witness:
  "length_field demo_body 0 1 \<and> (\<exists>r. decode_addons_body demo_body = Some r \<and> r \<noteq> AddonsPanic)"
proof
  show "length_field demo_body 0 1"
    by (rule has_length [OF first, of _ _ 1]) (simp_all add: demo_facts)
  have "unat n < 2 ^ 63" if "length_field demo_body i n" for i n
    using demo_fields [of i n] that by simp
  then show "\<exists>r. decode_addons_body demo_body = Some r \<and> r \<noteq> AddonsPanic"
    by (intro addons_decoder_returns) (simp_all add: demo_facts)
qed

definition endless_body :: bytes where
  "endless_body = [0x1A, 0xF5, 0xFF, 0xFF, 0xFF, 0xFF, 0xFF, 0xFF, 0xFF, 0xFF, 0x01]"

definition panic_body :: bytes where
  "panic_body = [0x0A, 0xFF, 0xFF, 0xFF, 0xFF, 0xFF, 0xFF, 0xFF, 0xFF, 0xFF, 0x01]"

lemma endless_facts:
  "read_varint (drop (Suc 0) endless_body) = Some (18446744073709551605, 10)"
  "endless_body ! 0 = 0x1A" "length endless_body = 11"
  by (simp_all add: read_varint_def endless_body_def Let_def)

lemma panic_facts:
  "read_varint (drop (Suc 0) panic_body) = Some (18446744073709551615, 10)"
  "panic_body ! 0 = 0x0A" "length panic_body = 11"
  by (simp_all add: read_varint_def panic_body_def Let_def)

lemma endless_returns_never:
  assumes "decode_addons_from body i a = Some r"
  shows "\<not> (body = endless_body \<and> i = 0)"
proof (rule decode_addons_from.raw_induct [OF _ assms], goal_cases)
  case (1 f body i a r)
  show ?case
  proof
    assume b: "body = endless_body \<and> i = 0"
    with "1"(2) have "f body 0 a = Some r"
      by (simp add: Let_def endless_facts usize_wrapping_add_def)
    from "1"(1) [OF this] b show False by simp
  qed
qed

lemma endless_none: "decode_addons_body endless_body = None"
  using endless_returns_never [of endless_body 0 default_addons]
  by (cases "decode_addons_body endless_body") (auto simp: decode_addons_body_def)

lemma panic_some: "decode_addons_body panic_body = Some AddonsPanic"
  unfolding decode_addons_body_def
  by (subst decode_step) (simp add: Let_def panic_facts usize_wrapping_add_def)

text \<open>
  C34. The bound on the lengths of fields is needed for the decoder to return, and an authenticated client can break it
  with an 11-byte body: the length of an unknown field can be chosen so that the wrapped index is 0
  again and the decoder never returns, and the length of the flow can be chosen so that the bounds
  test passes after the wrap-around and the slice panics, which aborts the process.
\<close>

theorem addons_decoder_can_be_stuck:
  "\<exists>b1 b2. length b1 = 11 \<and> length b2 = 11 \<and> decode_addons_body b1 = None \<and>
     decode_addons_body b2 = Some AddonsPanic"
  by (intro exI [of _ endless_body] exI [of _ panic_body])
    (simp add: endless_none panic_some endless_facts panic_facts)

end
