(* ===== verification/Address.thy ===== *)
theory Address
  imports Prelude
begin

text \<open>
  VLESS addresses, \<^verbatim>\<open>src/vless/address.rs\<close>: the \<open>PortThenAddress\<close> codec on byte slices. IP addresses are
  their octets, domains the bytes of the string.
\<close>

section \<open>Data\<close>

datatype address =
    Ipv4 u8 u8 u8 u8
  | Ipv6 bytes
  | Domain bytes

definition ADDR_TYPE_IPV4 :: u8 where "ADDR_TYPE_IPV4 = 1"
definition ADDR_TYPE_DOMAIN :: u8 where "ADDR_TYPE_DOMAIN = 2"
definition ADDR_TYPE_IPV6 :: u8 where "ADDR_TYPE_IPV6 = 3"

lemmas addr_type_defs = ADDR_TYPE_IPV4_def ADDR_TYPE_DOMAIN_def ADDR_TYPE_IPV6_def

datatype addr_error = Underrun | UnknownType u8 | EmptyDomain | BadDomainUtf8

text \<open>What the Rust types guarantee (16 octets, a string) and what the one-byte length can carry.\<close>

fun address_ok :: "address \<Rightarrow> bool" where
  "address_ok (Ipv4 a b c d) = True"
| "address_ok (Ipv6 o6) = (length o6 = 16)"
| "address_ok (Domain d) = (utf8_valid d \<and> d \<noteq> [] \<and> length d \<le> 255)"

section \<open>Operations\<close>

definition parse_port_then_address :: "bytes \<Rightarrow> addr_error + u16 \<times> address \<times> nat" where
  "parse_port_then_address buf =
     (if length buf < 3 then Inl Underrun
      else
        let port = from_be16 (buf ! 0) (buf ! 1); atype = buf ! 2; off = 3
        in if atype = ADDR_TYPE_IPV4 then
             (if length buf < off + 4 then Inl Underrun
              else Inr (port, Ipv4 (buf ! off) (buf ! (off + 1)) (buf ! (off + 2)) (buf ! (off + 3)), off + 4))
           else if atype = ADDR_TYPE_IPV6 then
             (if length buf < off + 16 then Inl Underrun
              else Inr (port, Ipv6 (take 16 (drop off buf)), off + 16))
           else if atype = ADDR_TYPE_DOMAIN then
             (if length buf < off + 1 then Inl Underrun
              else
                let dlen = unat (buf ! off); off' = off + 1
                in if dlen = 0 then Inl EmptyDomain
                   else if length buf < off' + dlen then Inl Underrun
                   else let d = take dlen (drop off' buf)
                        in if utf8_valid d then Inr (port, Domain d, off' + dlen)
                           else Inl BadDomainUtf8)
           else Inl (UnknownType atype))"

fun write_address :: "address \<Rightarrow> bytes" where
  "write_address (Ipv4 a b c d) = [ADDR_TYPE_IPV4, a, b, c, d]"
| "write_address (Ipv6 o6) = ADDR_TYPE_IPV6 # o6"
| "write_address (Domain d) = ADDR_TYPE_DOMAIN # of_nat (length d) # d"

definition write_port_then_address :: "u16 \<Rightarrow> address \<Rightarrow> bytes" where
  "write_port_then_address port addr = to_be16 port @ write_address addr"

section \<open>Round trip\<close>

lemma unat_of_nat_u8: "n \<le> 255 \<Longrightarrow> unat (of_nat n :: u8) = n"
  by (simp add: unat_of_nat)

lemma write_then_parse:
  assumes "address_ok a"
  shows "parse_port_then_address (write_port_then_address p a @ rest) =
           Inr (p, a, length (write_port_then_address p a))"
proof (cases a)
  case (Ipv4 x1 x2 x3 x4)
  then show ?thesis
    by (simp add: parse_port_then_address_def write_port_then_address_def to_be16_def addr_type_defs
        Let_def nth_Cons' numeral_2_eq_2 numeral_3_eq_3)
next
  case (Ipv6 o6)
  with assms show ?thesis
    by (simp add: parse_port_then_address_def write_port_then_address_def to_be16_def addr_type_defs
        Let_def numeral_2_eq_2 numeral_3_eq_3)
next
  case (Domain d)
  with assms have "unat (of_nat (length d) :: u8) = length d" "0 < length d"
    by (simp_all add: unat_of_nat_u8)
  with Domain assms show ?thesis
    by (simp add: parse_port_then_address_def write_port_then_address_def to_be16_def addr_type_defs
        Let_def numeral_2_eq_2 numeral_3_eq_3)
qed

lemma parse_port_then_address_ok:
  assumes "parse_port_then_address buf = Inr (p, a, n)"
  shows "address_ok a \<and> n \<le> length buf"
proof -
  have "unat (buf ! 3) < 2 ^ 8" using unsigned_less [of "buf ! 3"] by simp
  with assms show ?thesis
    by (auto simp: parse_port_then_address_def Let_def split: if_splits)
qed

end
