(* ===== verification/Validator.thy ===== *)
theory Validator
  imports Prelude
begin

text \<open>
  The VLESS user table, \<^verbatim>\<open>src/vless/validator.rs\<close>. A request is authenticated by its UUID with bytes 6
  and 7 zeroed. \<open>validator\<close> is the current snapshot \<open>Inner\<close>; \<open>replace\<close> swaps it as a whole, so a
  reader sees one snapshot. The constant-time comparison of \<open>subtle\<close> decides equality.
\<close>

section \<open>Data\<close>

record user =
  user_id :: bytes
  email :: bytes
  user_flow :: bytes

record validator =
  by_id :: "(bytes \<times> user) list"

section \<open>Operations\<close>

definition process_uuid :: "bytes \<Rightarrow> bytes" where
  "process_uuid i = i[6 := 0, 7 := 0]"

definition insert_user :: "(bytes \<times> user) list \<Rightarrow> user \<Rightarrow> (bytes \<times> user) list" where
  "insert_user m u = (let u' = u\<lparr>user_id := process_uuid (user_id u)\<rparr> in AList.update (user_id u') u' m)"

definition new_validator :: "user list \<Rightarrow> validator" where
  "new_validator users = \<lparr>by_id = foldl insert_user [] users\<rparr>"

definition replace :: "validator \<Rightarrow> user list \<Rightarrow> validator" where
  "replace v users = v\<lparr>by_id := foldl insert_user [] users\<rparr>"

definition get_shared :: "validator \<Rightarrow> bytes \<Rightarrow> user option" where
  "get_shared v raw_id =
     (let key = process_uuid raw_id
      in case map_of (by_id v) key of
           None \<Rightarrow> None
         | Some candidate \<Rightarrow> if user_id candidate = key then Some candidate else None)"

definition get :: "validator \<Rightarrow> bytes \<Rightarrow> user option" where
  "get v raw_id = get_shared v raw_id"

definition validator_len :: "validator \<Rightarrow> nat" where
  "validator_len v = length (by_id v)"

definition validator_is_empty :: "validator \<Rightarrow> bool" where
  "validator_is_empty v \<longleftrightarrow> validator_len v = 0"

section \<open>Lookup\<close>

lemma process_uuid_idem [simp]: "process_uuid (process_uuid i) = process_uuid i"
  by (simp add: process_uuid_def list_update_swap)

lemma process_uuid_eq_iff:
  "length i = length j \<Longrightarrow>
     process_uuid i = process_uuid j \<longleftrightarrow> (\<forall>k < length i. k \<noteq> 6 \<longrightarrow> k \<noteq> 7 \<longrightarrow> i ! k = j ! k)"
proof -
  assume l: "length i = length j"
  have nth: "process_uuid x ! k = (if k = 6 \<or> k = 7 then 0 else x ! k)" if "k < length x" for x k
    using that by (auto simp: process_uuid_def nth_list_update)
  have len: "length (process_uuid x) = length x" for x by (simp add: process_uuid_def)
  show ?thesis
    using l len by (auto simp: list_eq_iff_nth_eq nth)
qed

definition processed :: "user \<Rightarrow> user" where
  "processed u = u\<lparr>user_id := process_uuid (user_id u)\<rparr>"

lemma foldl_insert_user:
  "map_of (foldl insert_user m users) k =
     (case find (\<lambda>u. process_uuid (user_id u) = k) (rev users) of
        Some u \<Rightarrow> Some (processed u) | None \<Rightarrow> map_of m k)"
proof (induction users rule: rev_induct)
  case (snoc u us)
  then show ?case
    by (simp add: insert_user_def Let_def update_conv' processed_def)
qed simp

lemma get_shared_foldl:
  "get_shared \<lparr>by_id = foldl insert_user [] users\<rparr> raw =
     map_option processed (find (\<lambda>u. process_uuid (user_id u) = process_uuid raw) (rev users))"
proof (cases "find (\<lambda>u. process_uuid (user_id u) = process_uuid raw) (rev users)")
  case (Some u)
  then have "process_uuid (user_id u) = process_uuid raw" by (auto simp: find_Some_iff)
  with Some show ?thesis by (simp add: get_shared_def Let_def foldl_insert_user processed_def)
qed (simp add: get_shared_def Let_def foldl_insert_user)

text \<open>
  Authentication looks up exactly the configured users: a request is matched with the last
  user of the configuration whose UUID agrees with it outside bytes 6 and 7 (the two route bytes are
  ignored on both sides), a request that agrees with no user is refused, and after a reload only the
  new configuration counts.
\<close>

lemma validator_lookup:
  assumes "length raw = 16" and "\<forall>u \<in> set users. length (user_id u) = 16"
  shows "get_shared (replace (new_validator old) users) raw = get_shared (new_validator users) raw \<and>
         get_shared (new_validator users) raw =
           map_option processed
             (find (\<lambda>u. \<forall>k < 16. k \<noteq> 6 \<longrightarrow> k \<noteq> 7 \<longrightarrow> user_id u ! k = raw ! k) (rev users))"
proof -
  have "find (\<lambda>u. process_uuid (user_id u) = process_uuid raw) (rev users) =
      find (\<lambda>u. \<forall>k < 16. k \<noteq> 6 \<longrightarrow> k \<noteq> 7 \<longrightarrow> user_id u ! k = raw ! k) (rev users)"
    using assms by (intro find_cong refl) (simp add: process_uuid_eq_iff)
  then show ?thesis
    by (simp add: replace_def new_validator_def get_shared_foldl)
qed

lemma validator_lookup_example:
  "get_shared (new_validator [\<lparr>user_id = replicate 16 5, email = [], user_flow = []\<rparr>])
     ((replicate 16 5)[6 := 1, 7 := 2]) \<noteq> None"
proof -
  let ?us = "[\<lparr>user_id = replicate 16 5, email = [], user_flow = []\<rparr>]"
  have "find (\<lambda>u. \<forall>k < 16. k \<noteq> 6 \<longrightarrow> k \<noteq> 7 \<longrightarrow>
      user_id u ! k = (replicate 16 (5 :: u8))[6 := 1, 7 := 2] ! k) (rev ?us) \<noteq> None"
    by simp
  with validator_lookup [of "(replicate 16 5)[6 := 1, 7 := 2]" ?us "[]"] show ?thesis
    by simp
qed

end
