(* ===== verification/Header.thy ===== *)
theory Header
  imports Addons Address Validator
begin

text \<open>
  The VLESS request and response header, \<^verbatim>\<open>src/vless/header.rs\<close>. The request decoder pulls its bytes from
  a stream; its result carries the rest of the stream. A panic of the addons decoder is \<open>Panicked\<close>, and
  \<open>None\<close> is a decoder that does not return.
\<close>

section \<open>Data\<close>

definition VERSION :: u8 where "VERSION = 0"

datatype command = Tcp | Udp | Mux | Reverse

definition command_from_byte :: "u8 \<Rightarrow> command option" where
  "command_from_byte b =
     (if b = 1 then Some Tcp else if b = 2 then Some Udp else if b = 3 then Some Mux
      else if b = 4 then Some Reverse else None)"

record request_header =
  version :: u8
  raw_id :: bytes
  command :: command
  req_address :: "address option"
  port :: u16

datatype header_error =
    Io io_error | BadVersion u8 | AuthFailed | BadCommand u8 | ReverseUnsupported
  | AddonsError addons_error | AddressError addr_error

datatype 'a res = Ok 'a | Err header_error | Panicked

section \<open>Operations\<close>

fun lift_io :: "io_error + 'a \<Rightarrow> ('a \<Rightarrow> 'b res option) \<Rightarrow> 'b res option" where
  "lift_io (Inl e) k = Some (Err (Io e))"
| "lift_io (Inr x) k = k x"

definition read_address_port :: "bytes \<Rightarrow> header_error + (u16 \<times> address) \<times> bytes" where
  "read_address_port s =
     (case read_exact 3 s of
        Inl e \<Rightarrow> Inl (Io e)
      | Inr (head, s1) \<Rightarrow>
          let port = from_be16 (head ! 0) (head ! 1); t = head ! 2
          in if t = ADDR_TYPE_IPV4 then
               (case read_exact 4 s1 of
                  Inl e \<Rightarrow> Inl (Io e)
                | Inr (octets, s2) \<Rightarrow>
                    Inr ((port, Ipv4 (octets ! 0) (octets ! 1) (octets ! 2) (octets ! 3)), s2))
             else if t = ADDR_TYPE_IPV6 then
               (case read_exact 16 s1 of
                  Inl e \<Rightarrow> Inl (Io e)
                | Inr (octets, s2) \<Rightarrow> Inr ((port, Ipv6 octets), s2))
             else if t = ADDR_TYPE_DOMAIN then
               (case read_u8 s1 of
                  Inl e \<Rightarrow> Inl (Io e)
                | Inr (dlen, s2) \<Rightarrow>
                    if dlen = 0 then Inl (AddressError EmptyDomain)
                    else (case read_exact (unat dlen) s2 of
                            Inl e \<Rightarrow> Inl (Io e)
                          | Inr (domain, s3) \<Rightarrow>
                              if utf8_valid domain then Inr ((port, Domain domain), s3)
                              else Inl (AddressError BadDomainUtf8)))
             else Inl (AddressError (UnknownType t)))"

definition read_command ::
  "user \<Rightarrow> u8 \<Rightarrow> bytes \<Rightarrow> addons \<Rightarrow> bytes \<Rightarrow> ((user \<times> request_header \<times> addons) \<times> bytes) res option" where
  "read_command user ver i a s =
     lift_io (read_u8 s) (\<lambda>(cmd_byte, s1).
       case command_from_byte cmd_byte of
         None \<Rightarrow> Some (Err (BadCommand cmd_byte))
       | Some cmd \<Rightarrow>
           if cmd = Reverse then Some (Err ReverseUnsupported)
           else if cmd = Tcp \<or> cmd = Udp then
             (case read_address_port s1 of
                Inl e \<Rightarrow> Some (Err e)
              | Inr ((p, addr), s2) \<Rightarrow>
                  Some (Ok ((user, \<lparr>version = ver, raw_id = i, command = cmd,
                                    req_address = Some addr, port = p\<rparr>, a), s2)))
           else Some (Ok ((user, \<lparr>version = ver, raw_id = i, command = cmd,
                                  req_address = None, port = 0\<rparr>, a), s1)))"

definition decode_request_header_shared ::
  "validator \<Rightarrow> bytes \<Rightarrow> ((user \<times> request_header \<times> addons) \<times> bytes) res option" where
  "decode_request_header_shared v s =
     lift_io (read_u8 s) (\<lambda>(ver, s1).
       if ver \<noteq> VERSION then Some (Err (BadVersion ver))
       else lift_io (read_exact 16 s1) (\<lambda>(i, s2).
         case get_shared v i of
           None \<Rightarrow> Some (Err AuthFailed)
         | Some user \<Rightarrow>
             lift_io (read_u8 s2) (\<lambda>(addons_len, s3).
               if addons_len \<noteq> 0 then
                 lift_io (read_exact (unat addons_len) s3) (\<lambda>(body, s4).
                   case decode_addons_body body of
                     None \<Rightarrow> None
                   | Some AddonsPanic \<Rightarrow> Some Panicked
                   | Some (AddonsErr e) \<Rightarrow> Some (Err (AddonsError e))
                   | Some (AddonsOk a) \<Rightarrow> read_command user ver i a s4)
               else read_command user ver i default_addons s3)))"

definition decode_request_header ::
  "validator \<Rightarrow> bytes \<Rightarrow> ((user \<times> request_header \<times> addons) \<times> bytes) res option" where
  "decode_request_header v s = decode_request_header_shared v s"

definition encode_response_header :: "u8 \<Rightarrow> addons \<Rightarrow> header_error + bytes" where
  "encode_response_header ver a =
     (case encode_addons a of Inl e \<Rightarrow> Inl (AddonsError e) | Inr b \<Rightarrow> Inr (ver # b))"

section \<open>The two address parsers agree\<close>

lemma read_exact_short: "length s < n \<Longrightarrow> read_exact n s = Inl UnexpectedEof"
  by (simp add: read_exact_def)

lemma read_exact_long: "n \<le> length s \<Longrightarrow> read_exact n s = Inr (take n s, drop n s)"
  by (simp add: read_exact_def)

lemma read_address_port_parse:
  "read_address_port s =
     (case parse_port_then_address s of
        Inl Underrun \<Rightarrow> Inl (Io UnexpectedEof)
      | Inl e \<Rightarrow> Inl (AddressError e)
      | Inr (p, a, n) \<Rightarrow> Inr ((p, a), drop n s))"
proof (cases "length s < 3")
  case True
  then show ?thesis
    by (simp add: read_address_port_def parse_port_then_address_def read_exact_short)
next
  case False
  then obtain x y t r where s: "s = x # y # t # r"
    by (metis One_nat_def Suc_1 length_Cons less_Suc_eq list.exhaust list.size(3) numeral_3_eq_3 zero_less_Suc)
  have rd: "read_exact 3 s = Inr ([x, y, t], r)"
    by (simp add: s read_exact_def)
  show ?thesis
  proof (cases "t = ADDR_TYPE_DOMAIN")
    case True
    then show ?thesis
      by (cases r) (simp_all add: read_address_port_def parse_port_then_address_def rd s Let_def
          addr_type_defs read_exact_def unat_eq_0 numeral_3_eq_3)
  next
    case False
    then show ?thesis
      by (simp add: read_address_port_def parse_port_then_address_def rd s Let_def
          addr_type_defs read_exact_def numeral_3_eq_3 numeral_2_eq_2)
  qed
qed

section \<open>Decoding what a client sends\<close>

text \<open>The request a client writes: version, id, addons, command, and the target of a TCP or UDP
  command.\<close>

fun command_byte :: "command \<Rightarrow> u8" where
  "command_byte Tcp = 1"
| "command_byte Udp = 2"
| "command_byte Mux = 3"
| "command_byte Reverse = 4"

definition request_bytes :: "bytes \<Rightarrow> bytes \<Rightarrow> command \<Rightarrow> (u16 \<times> address) option \<Rightarrow> bytes" where
  "request_bytes i addons_field cmd target =
     VERSION # i @ addons_field @ [command_byte cmd] @
     (case target of None \<Rightarrow> [] | Some (p, a) \<Rightarrow> write_port_then_address p a)"

lemma command_from_command_byte [simp]: "command_from_byte (command_byte c) = Some c"
  by (cases c) (simp_all add: command_from_byte_def)

lemma read_address_port_written:
  assumes "address_ok a"
  shows "read_address_port (write_port_then_address p a @ rest) = Inr ((p, a), rest)"
proof -
  have "parse_port_then_address (write_port_then_address p a @ rest) =
      Inr (p, a, length (write_port_then_address p a))"
    using assms by (rule write_then_parse)
  then show ?thesis by (simp add: read_address_port_parse)
qed

definition target_ok :: "command \<Rightarrow> (u16 \<times> address) option \<Rightarrow> bool" where
  "target_ok cmd target \<longleftrightarrow>
     (case target of
        None \<Rightarrow> cmd = Mux
      | Some (p, a) \<Rightarrow> (cmd = Tcp \<or> cmd = Udp) \<and> address_ok a)"

definition header_of :: "bytes \<Rightarrow> command \<Rightarrow> (u16 \<times> address) option \<Rightarrow> request_header" where
  "header_of i cmd target =
     \<lparr>version = VERSION, raw_id = i, command = cmd, req_address = map_option snd target,
      port = (case target of None \<Rightarrow> 0 | Some (p, a) \<Rightarrow> p)\<rparr>"

lemma read_command_written:
  assumes "target_ok cmd target"
  shows "read_command u VERSION i a ([command_byte cmd] @
      (case target of None \<Rightarrow> [] | Some (p, a) \<Rightarrow> write_port_then_address p a) @ rest) =
    Some (Ok ((u, header_of i cmd target, a), rest))"
  using assms
  by (cases target)
    (auto simp: read_command_def target_ok_def header_of_def read_address_port_written
      command_from_byte_def)

lemma decode_written:
  assumes "length i = 16" and "get_shared v i = Some u" and "target_ok cmd target"
    and "encode_addons a = Inr field"
  shows "decode_request_header_shared v (request_bytes i field cmd target @ rest) =
    Some (Ok ((u, header_of i cmd target, if flow a = XRV then a else default_addons), rest))"
proof -
  obtain n body where f: "field = n # body" and n: "unat n = length body"
      "decode_addons_body body = Some (AddonsOk (if flow a = XRV then a else default_addons))"
    using encode_addons_decodes [OF assms(4)] by blast
  have sp: "request_bytes i field cmd target @ rest = VERSION # i @ n # body @ [command_byte cmd] @
      (case target of None \<Rightarrow> [] | Some (p, a) \<Rightarrow> write_port_then_address p a) @ rest"
    by (simp add: request_bytes_def f)
  show ?thesis
  proof (cases "n = 0")
    case True
    with n have "body = []" by simp
    with n(2) have "(if flow a = XRV then a else default_addons) = default_addons"
      using decode_end [of "[]"] by (simp add: decode_addons_body_def)
    with True \<open>body = []\<close> show ?thesis
      using assms(1,2) read_command_written [OF assms(3), of u i default_addons rest]
      by (simp add: decode_request_header_shared_def sp)
  next
    case False
    with assms(1,2) n show ?thesis
      using read_command_written [OF assms(3), of u i _ rest]
      by (simp add: decode_request_header_shared_def sp)
  qed
qed

text \<open>
  C25. Decoding the header a client wrote for a known user yields that user, the header and the
  addons, and leaves the payload that follows untouched, for every command and target the wire
  format can express and for the addons \<open>encode_addons\<close> writes.
\<close>

theorem request_header_roundtrip:
  assumes "length i = 16" and "get_shared v i = Some u" and "target_ok cmd target"
    and "encode_addons a = Inr field"
  shows "decode_request_header v (request_bytes i field cmd target @ rest) =
    Some (Ok ((u, header_of i cmd target, if flow a = XRV then a else default_addons), rest))"
  using decode_written [OF assms] by (simp add: decode_request_header_def)

theorem request_header_roundtrip_witness:
  "decode_request_header (new_validator [\<lparr>user_id = replicate 16 5, email = [], user_flow = []\<rparr>])
     (request_bytes (replicate 16 5) [0] Tcp (Some (80, Ipv4 1 2 3 4)) @ [9]) \<noteq> None"
proof -
  let ?v = "new_validator [\<lparr>user_id = replicate 16 5, email = [], user_flow = []\<rparr>]"
  obtain u where u: "get_shared ?v (replicate 16 5) = Some u"
    by (simp add: new_validator_def get_shared_def insert_user_def Let_def process_uuid_def)
  show ?thesis
    using request_header_roundtrip [OF _ u, of Tcp "Some (80, Ipv4 1 2 3 4)" default_addons "[0]" "[9]"]
    by (simp add: target_ok_def encode_addons_def default_addons_def XRV_def bytes_of_def)
qed

section \<open>Authentication\<close>

lemma lift_io_Ok: "lift_io x k = Some (Ok y) \<longleftrightarrow> (\<exists>z. x = Inr z \<and> k z = Some (Ok y))"
  by (cases x) auto

lemma read_address_port_rest: "read_address_port s = Inr (x, r) \<Longrightarrow> \<exists>used. s = used @ r"
  unfolding read_address_port_parse
  by (auto split: sum.splits addr_error.splits) (metis append_take_drop_id)

lemma read_command_ok:
  assumes "read_command u ver i a s = Some (Ok ((u', h, a'), r))"
  shows "u' = u \<and> a' = a \<and> version h = ver \<and> raw_id h = i \<and> command h \<noteq> Reverse \<and>
    (req_address h = None \<longleftrightarrow> command h = Mux) \<and> (\<exists>used. s = used @ r)"
proof -
  obtain b s1 where b: "s = b # s1"
    using assms by (auto simp: read_command_def lift_io_Ok read_u8_Inr)
  have cons: "\<exists>used. b # x @ y = used @ y" for x y :: bytes by (metis append_Cons)
  obtain cmd where cmd: "command_from_byte b = Some cmd"
    using assms by (auto simp: read_command_def b split: option.splits)
  show ?thesis
  proof (cases cmd)
    case Mux
    with assms cmd show ?thesis by (auto simp: read_command_def b)
  qed (use assms cmd in \<open>auto simp: read_command_def b cons split: sum.splits dest!: read_address_port_rest\<close>)
qed

lemma decode_accepts:
  assumes "decode_request_header_shared v s = Some (Ok ((u, h, a), rest))"
  shows "(\<exists>t. s = VERSION # raw_id h @ t) \<and> length (raw_id h) = 16 \<and> get_shared v (raw_id h) = Some u \<and>
      version h = VERSION \<and> command h \<noteq> Reverse \<and>
      (req_address h = None \<longleftrightarrow> command h = Mux) \<and> (\<exists>used. s = used @ rest)"
proof (intro conjI)
  from assms obtain s1 where s1: "s = VERSION # s1"
    by (auto simp: decode_request_header_shared_def lift_io_Ok read_u8_Inr
        split: if_splits)
  obtain i2 s2 user n s3 where s2: "s1 = i2 @ n # s3" "length i2 = 16" "get_shared v i2 = Some user"
    and k: "if n \<noteq> 0 then lift_io (read_exact (unat n) s3) (\<lambda>(body, s4).
          case decode_addons_body body of
            None \<Rightarrow> None
          | Some AddonsPanic \<Rightarrow> Some Panicked
          | Some (AddonsErr e) \<Rightarrow> Some (Err (AddonsError e))
          | Some (AddonsOk a) \<Rightarrow> read_command user VERSION i2 a s4) = Some (Ok ((u, h, a), rest))
        else read_command user VERSION i2 default_addons s3 = Some (Ok ((u, h, a), rest))"
    using assms unfolding s1
    by (auto simp: decode_request_header_shared_def lift_io_Ok read_u8_Inr
        split: if_splits option.splits dest!: read_exact_Inr)
  obtain a0 s4 pre where r: "read_command user VERSION i2 a0 s4 = Some (Ok ((u, h, a), rest))" "s3 = pre @ s4"
  proof (cases "n = 0")
    case True
    with k that [of default_addons s3 "[]"] show thesis by simp
  next
    case False
    with k obtain body s4 where b: "read_exact (unat n) s3 = Inr (body, s4)"
      and c: "(case decode_addons_body body of
            None \<Rightarrow> None
          | Some AddonsPanic \<Rightarrow> Some Panicked
          | Some (AddonsErr e) \<Rightarrow> Some (Err (AddonsError e))
          | Some (AddonsOk a) \<Rightarrow> read_command user VERSION i2 a s4) = Some (Ok ((u, h, a), rest))"
      by (auto simp: lift_io_Ok)
    then obtain a0 where "decode_addons_body body = Some (AddonsOk a0)"
      by (cases "decode_addons_body body") (auto split: addons_outcome.splits)
    with b c that [of a0 s4 body] read_exact_Inr [OF b] show thesis by simp
  qed
  from read_command_ok [OF r(1)] obtain us where u: "u = user" "version h = VERSION" "raw_id h = i2"
      "command h \<noteq> Reverse" "(req_address h = None) = (command h = Mux)" "s4 = us @ rest"
    by auto
  show "\<exists>t. s = VERSION # raw_id h @ t" "length (raw_id h) = 16" "get_shared v (raw_id h) = Some u"
    "version h = VERSION" "command h \<noteq> Reverse" "(req_address h = None) = (command h = Mux)"
    using s1 s2 u by auto
  have "s = (VERSION # i2 @ n # pre @ us) @ rest" by (simp add: s1 s2 r(2) u(6))
  then show "\<exists>used. s = used @ rest" by blast
qed

text \<open>
  A header is accepted only from a user of the table, found under the id in the request, with
  the right version and a supported command; and a request of an unknown user is refused with the
  one error \<open>AuthFailed\<close>, whatever follows the id.
\<close>

lemma header_authenticated:
  "(decode_request_header v s = Some (Ok ((u, h, a), rest)) \<longrightarrow>
      (\<exists>t. s = VERSION # raw_id h @ t) \<and> length (raw_id h) = 16 \<and> get_shared v (raw_id h) = Some u \<and>
      version h = VERSION \<and> command h \<noteq> Reverse \<and>
      (req_address h = None \<longleftrightarrow> command h = Mux) \<and> (\<exists>used. s = used @ rest)) \<and>
   (length i = 16 \<longrightarrow> get_shared v i = None \<longrightarrow>
      decode_request_header v (VERSION # i @ t) = Some (Err AuthFailed))"
  using decode_accepts [of v s u h a rest]
  by (auto simp: decode_request_header_def decode_request_header_shared_def)

lemma header_authenticated_example:
  "decode_request_header (new_validator []) (VERSION # replicate 16 5 @ [1, 2]) = Some (Err AuthFailed)"
proof -
  have "get_shared (new_validator []) (replicate 16 5) = None"
    by (simp add: new_validator_def get_shared_def)
  then show ?thesis
    using header_authenticated [of "new_validator []" _ _ _ _ _ "replicate 16 5" "[1, 2]"] by simp
qed

end
