(* ===== verification/Xudp.thy ===== *)
theory Xudp
  imports Codec Address
begin

text \<open>
  XUDP Mux frames and plain VLESS datagrams, \<^verbatim>\<open>src/xudp.rs\<close>. \<open>frame_ok\<close> singles out the frames the
  wire format can represent; both formats are interpreted as stream codecs.
\<close>

section \<open>Data\<close>

definition STATUS_NEW :: u8 where "STATUS_NEW = 1"
definition STATUS_KEEP :: u8 where "STATUS_KEEP = 2"
definition STATUS_END :: u8 where "STATUS_END = 3"
definition STATUS_KEEP_ALIVE :: u8 where "STATUS_KEEP_ALIVE = 4"
definition OPTION_DATA :: u8 where "OPTION_DATA = 1"
definition NETWORK_UDP :: u8 where "NETWORK_UDP = 2"
definition MAX_METADATA_LEN :: nat where "MAX_METADATA_LEN = 512"

lemmas xudp_consts = STATUS_NEW_def STATUS_KEEP_def STATUS_END_def STATUS_KEEP_ALIVE_def
  OPTION_DATA_def NETWORK_UDP_def MAX_METADATA_LEN_def

record target =
  tg_address :: address
  tg_port :: u16

record frame =
  session_id :: u16
  status :: u8
  option :: u8
  fr_target :: "target option"
  global_id :: "bytes option"
  fr_payload :: bytes

datatype xudp_error =
    XIo io_error | MetadataLength nat | PayloadLength nat | Status u8 | Network u8
  | XAddress addr_error

section \<open>Operations\<close>

text \<open>\<open>metadata.get(i)\<close>\<close>

definition get_byte :: "bytes \<Rightarrow> nat \<Rightarrow> u8 option" where
  "get_byte bs i = (if i < length bs then Some (bs ! i) else None)"

text \<open>The target and the global id in the metadata after the four fixed bytes.\<close>

definition read_target ::
  "u8 \<Rightarrow> u8 \<Rightarrow> bytes \<Rightarrow> xudp_error + target option \<times> bytes option" where
  "read_target st opt metadata =
     (if st = STATUS_NEW \<or> st = STATUS_KEEP \<and> get_byte metadata 4 = Some NETWORK_UDP then
        (if get_byte metadata 4 \<noteq> Some NETWORK_UDP
         then Inl (Network (case get_byte metadata 4 of Some b \<Rightarrow> b | None \<Rightarrow> 0))
         else (case parse_port_then_address (drop 5 metadata) of
                 Inl e \<Rightarrow> Inl (XAddress e)
               | Inr (p, a, consumed) \<Rightarrow>
                   let tail = drop (5 + consumed) metadata
                   in Inr (Some \<lparr>tg_address = a, tg_port = p\<rparr>,
                           if st = STATUS_NEW \<and> opt AND OPTION_DATA \<noteq> 0 \<and> 8 \<le> length tail
                           then Some (take 8 tail) else None)))
      else Inr (None, None))"

definition read_frame :: "bytes \<Rightarrow> xudp_error + frame \<times> bytes" where
  "read_frame s =
     (case read_u16 s of
        Inl e \<Rightarrow> Inl (XIo e)
      | Inr (len_word, s1) \<Rightarrow>
          let metadata_len = unat len_word
          in if \<not> (4 \<le> metadata_len \<and> metadata_len \<le> MAX_METADATA_LEN)
             then Inl (MetadataLength metadata_len)
             else (case read_exact metadata_len s1 of
                     Inl e \<Rightarrow> Inl (XIo e)
                   | Inr (metadata, s2) \<Rightarrow>
                       let sid = from_be16 (metadata ! 0) (metadata ! 1);
                           st = metadata ! 2; opt = metadata ! 3
                       in if st \<notin> {STATUS_NEW, STATUS_KEEP, STATUS_END, STATUS_KEEP_ALIVE}
                          then Inl (Status st)
                          else (case read_target st opt metadata of
                                  Inl e \<Rightarrow> Inl e
                                | Inr (tg, gid) \<Rightarrow>
                                    if opt AND OPTION_DATA \<noteq> 0 then
                                      (case read_u16 s2 of
                                         Inl e \<Rightarrow> Inl (XIo e)
                                       | Inr (pl, s3) \<Rightarrow>
                                           (case read_exact (unat pl) s3 of
                                              Inl e \<Rightarrow> Inl (XIo e)
                                            | Inr (p, s4) \<Rightarrow>
                                                Inr (\<lparr>session_id = sid, status = st, option = opt,
                                                      fr_target = tg, global_id = gid,
                                                      fr_payload = p\<rparr>, s4)))
                                    else Inr (\<lparr>session_id = sid, status = st, option = opt,
                                               fr_target = tg, global_id = gid,
                                               fr_payload = []\<rparr>, s2))))"

definition encode_metadata :: "frame \<Rightarrow> bytes" where
  "encode_metadata f =
     to_be16 (session_id f) @ [status f, option f] @
     (case fr_target f of
        None \<Rightarrow> []
      | Some t \<Rightarrow>
          NETWORK_UDP # write_port_then_address (tg_port t) (tg_address t) @
          (if status f = STATUS_NEW
           then (case global_id f of None \<Rightarrow> [] | Some g \<Rightarrow> g) else []))"

definition encode_frame :: "frame \<Rightarrow> xudp_error + bytes" where
  "encode_frame f =
     (let metadata = encode_metadata f
      in if MAX_METADATA_LEN < length metadata then Inl (MetadataLength (length metadata))
         else if 2 ^ 16 - 1 < length (fr_payload f) then Inl (PayloadLength (length (fr_payload f)))
         else Inr (be_len16 (length metadata) @ metadata @
                   (if option f AND OPTION_DATA \<noteq> 0
                    then be_len16 (length (fr_payload f)) @ fr_payload f else [])))"

definition read_plain_datagram :: "bytes \<Rightarrow> xudp_error + bytes \<times> bytes" where
  "read_plain_datagram s =
     (case read_u16 s of
        Inl e \<Rightarrow> Inl (XIo e)
      | Inr (len, s1) \<Rightarrow>
          (case read_exact (unat len) s1 of Inl e \<Rightarrow> Inl (XIo e) | Inr r \<Rightarrow> Inr r))"

definition encode_plain_datagram :: "bytes \<Rightarrow> xudp_error + bytes" where
  "encode_plain_datagram p =
     (if 2 ^ 16 - 1 < length p then Inl (PayloadLength (length p))
      else Inr (be_len16 (length p) @ p))"

section \<open>Round trips\<close>

text \<open>A frame the format can represent: a target exactly where the status has one, an eight-byte
  global id only on a new session with data, no payload without the data option.\<close>

definition frame_ok :: "frame \<Rightarrow> bool" where
  "frame_ok f \<longleftrightarrow>
     status f \<in> {STATUS_NEW, STATUS_KEEP, STATUS_END, STATUS_KEEP_ALIVE} \<and>
     (status f = STATUS_NEW \<longrightarrow> fr_target f \<noteq> None) \<and>
     (fr_target f \<noteq> None \<longrightarrow> status f = STATUS_NEW \<or> status f = STATUS_KEEP) \<and>
     (\<forall>t. fr_target f = Some t \<longrightarrow> address_ok (tg_address t)) \<and>
     (\<forall>g. global_id f = Some g \<longrightarrow>
        length g = 8 \<and> status f = STATUS_NEW \<and> option f AND OPTION_DATA \<noteq> 0) \<and>
     (option f AND OPTION_DATA = 0 \<longrightarrow> fr_payload f = [])"

lemma read_target_encoded:
  assumes ok: "frame_ok f"
  shows "read_target (status f) (option f) (encode_metadata f) = Inr (fr_target f, global_id f)"
proof (cases "fr_target f")
  case None
  then have "length (encode_metadata f) = 4" by (simp add: encode_metadata_def)
  with None ok show ?thesis
    by (cases "global_id f") (auto simp: read_target_def get_byte_def frame_ok_def)
next
  case (Some t)
  let ?w = "write_port_then_address (tg_port t) (tg_address t)"
  let ?g = "if status f = STATUS_NEW then (case global_id f of None \<Rightarrow> [] | Some g \<Rightarrow> g) else []"
  have m: "encode_metadata f = to_be16 (session_id f) @ [status f, option f, NETWORK_UDP] @ ?w @ ?g"
    using Some by (simp add: encode_metadata_def)
  have four: "get_byte (encode_metadata f) 4 = Some NETWORK_UDP"
    by (simp add: get_byte_def m to_be16_def)
  have d5: "drop 5 (encode_metadata f) = ?w @ ?g" by (simp add: m to_be16_def)
  have tail: "drop (5 + length ?w) (encode_metadata f) = ?g"
    using drop_drop [of "length ?w" 5 "encode_metadata f"] unfolding d5 by (simp add: add.commute)
  have parse: "parse_port_then_address (drop 5 (encode_metadata f)) = Inr (tg_port t, tg_address t, length ?w)"
    unfolding d5 using ok Some by (intro write_then_parse) (simp add: frame_ok_def)
  have st: "status f = STATUS_NEW \<or> status f = STATUS_KEEP" using ok Some by (auto simp: frame_ok_def)
  have gid: "(if status f = STATUS_NEW \<and> option f AND OPTION_DATA \<noteq> 0 \<and> 8 \<le> length ?g
         then Some (take 8 ?g) else None) = global_id f"
    using ok by (cases "global_id f") (auto simp: frame_ok_def)
  let ?tail = "drop (5 + length ?w) (encode_metadata f)"
  have "read_target (status f) (option f) (encode_metadata f) =
      Inr (Some \<lparr>tg_address = tg_address t, tg_port = tg_port t\<rparr>,
        if status f = STATUS_NEW \<and> option f AND OPTION_DATA \<noteq> 0 \<and> 8 \<le> length ?tail
        then Some (take 8 ?tail) else None)"
    using st by (simp only: read_target_def four parse Let_def sum.case prod.case simp_thms if_True if_False)
  then show ?thesis unfolding tail gid using Some by simp
qed

lemma unat_of_nat_u16: "n < 2 ^ 16 \<Longrightarrow> unat (of_nat n :: u16) = n"
  by (simp add: unat_of_nat)

lemma frame_decodes:
  assumes ok: "frame_ok f" and enc: "encode_frame f = Inr b"
  shows "read_frame (b @ rest) = Inr (f, rest)"
proof -
  let ?m = "encode_metadata f"
  let ?p = "if option f AND OPTION_DATA \<noteq> 0 then be_len16 (length (fr_payload f)) @ fr_payload f else []"
  have b: "b = be_len16 (length ?m) @ ?m @ ?p"
    and len: "length ?m \<le> 512" "length (fr_payload f) < 2 ^ 16"
    using enc by (auto simp: encode_frame_def Let_def MAX_METADATA_LEN_def split: if_splits)
  have m: "?m ! 0 = ucast (drop_bit 8 (session_id f))" "?m ! 1 = ucast (session_id f)"
      "?m ! 2 = status f" "?m ! 3 = option f" "4 \<le> length ?m"
    by (simp_all add: encode_metadata_def to_be16_def)
  have lm: "unat (of_nat (length ?m) :: u16) = length ?m" using len(1) by (intro unat_of_nat_u16) simp
  have st: "status f \<in> {STATUS_NEW, STATUS_KEEP, STATUS_END, STATUS_KEEP_ALIVE}"
    using ok by (simp add: frame_ok_def)
  note facts = read_frame_def b read_u16_be_len16 lm Let_def read_target_encoded [OF ok]
    MAX_METADATA_LEN_def m len(1) unat_of_nat_u16 [OF len(2)]
  show ?thesis
  proof (cases "option f AND OPTION_DATA = 0")
    case True
    with ok have "fr_payload f = []" by (simp add: frame_ok_def)
    with True st show ?thesis by (auto simp: facts simp del: One_nat_def)
  next
    case False
    with st show ?thesis by (auto simp: facts simp del: One_nat_def)
  qed
qed

lemma datagram_decodes:
  "encode_plain_datagram p = Inr b \<Longrightarrow> read_plain_datagram (b @ rest) = Inr (p, rest)"
  by (auto simp: encode_plain_datagram_def read_plain_datagram_def read_u16_be_len16 unat_of_nat_u16
      split: if_splits)

interpretation xudp: stream_codec encode_frame read_frame frame_ok
  by unfold_locales (rule frame_decodes)

interpretation plain: stream_codec encode_plain_datagram read_plain_datagram "\<lambda>_. True"
  by unfold_locales (rule datagram_decodes)

text \<open>
  Any sequence of representable XUDP frames, written one after the other, is read back as the
  same sequence, and the bytes after it are left alone.
\<close>

lemma xudp_stream_roundtrip:
  assumes "list_all frame_ok fs" and "write_many encode_frame fs = Inr bs"
  shows "read_many read_frame (length fs) (bs @ rest) = Inr (fs, rest)"
  using assms by (rule xudp.read_write_many)

lemma xudp_stream_roundtrip_example:
  "\<exists>bs. write_many encode_frame
      [\<lparr>session_id = 7, status = STATUS_NEW, option = OPTION_DATA,
        fr_target = Some \<lparr>tg_address = Ipv4 1 2 3 4, tg_port = 53\<rparr>, global_id = Some (replicate 8 9),
        fr_payload = [1, 2]\<rparr>] = Inr bs \<and>
    read_many read_frame 1 (bs @ [5]) =
      Inr ([\<lparr>session_id = 7, status = STATUS_NEW, option = OPTION_DATA,
        fr_target = Some \<lparr>tg_address = Ipv4 1 2 3 4, tg_port = 53\<rparr>, global_id = Some (replicate 8 9),
        fr_payload = [1, 2]\<rparr>], [5])"
proof -
  let ?f = "\<lparr>session_id = 7, status = STATUS_NEW, option = OPTION_DATA,
      fr_target = Some \<lparr>tg_address = Ipv4 1 2 3 4, tg_port = 53\<rparr>, global_id = Some (replicate 8 9),
      fr_payload = [1, 2]\<rparr>"
  have "\<exists>bs. write_many encode_frame [?f] = Inr bs"
    by (simp add: encode_frame_def Let_def encode_metadata_def xudp_consts write_port_then_address_def)
  moreover have "list_all frame_ok [?f]" by (simp add: frame_ok_def xudp_consts)
  ultimately show ?thesis using xudp_stream_roundtrip [of "[?f]" _ "[5]"] by fastforce
qed

end
