(* ===== verification/ClientIo.thy ===== *)
theory ClientIo
  imports EncSession Vision Header Xudp "HOL-Library.Sublist"
begin

text \<open>
  The two ends of a client connection in \<^verbatim>\<open>src/dispatcher.rs\<close>: the reader \<open>ClientReader\<close> (the uplink as it is, or
  through the encrypted reader), the writer \<open>ProtocolWriter\<close> (the downlink as it is, or sealed records with
  masked headers), and the copy loops of \<open>pump_tcp\<close> between them and a TCP target. Two tasks that \<open>select!\<close>
  interleaves are two step functions and a schedule that says whose iteration comes next. The far ends
  are values: the reads a target will answer, how many bytes it will still take, and after how many
  messages the download request goes away. Waiting for room in the downlink is not a step of its own:
  a send is complete when it returns.
\<close>

section \<open>Errors\<close>

text \<open>\<open>DispatchError\<close>; a panic inside a task, which the source has no value for, is \<open>DPanic\<close>.\<close>

datatype dispatch_error =
    DHeader header_error | DXudp xudp_error | DVision vision_error | DHandshake handshake_error
  | DRecord record_error | DXor record_error | DIo io_error
  | FlowMismatch | VisionUdpUnsupported | VisionXudpUnavailable | UnsupportedCommand command
  | MissingAddress | ConnectTimeout | HandshakeTimeout | UdpIdle | AssociationClosed
  | UnknownAssociation u16 | UnsupportedXudpStatus u8 | DownloadClosed | ShuttingDown | DPanic

section \<open>The reader\<close>

datatype client_reader = PlainReader | EncryptedReader enc_reader

fun client_poll :: "nat \<Rightarrow> client_reader \<Rightarrow> transport_event list \<Rightarrow> read_result \<times> client_reader \<times> transport_event list" where
  "client_poll room PlainReader es =
     (case inner_read room es of
        (Filled b, es') \<Rightarrow> (Delivered b, PlainReader, es')
      | (InnerPending, es') \<Rightarrow> (NotYet, PlainReader, es')
      | (InnerErr e, es') \<Rightarrow> (ReadErr e, PlainReader, es'))"
| "client_poll room (EncryptedReader r) es =
     (case er_poll room r es of (x, r', es') \<Rightarrow> (x, EncryptedReader r', es'))"

text \<open>One round of the loop inside \<open>poll_read\<close>: the plain reader has no loop.\<close>

fun client_round :: "nat \<Rightarrow> client_reader \<Rightarrow> transport_event list \<Rightarrow> (client_reader \<times> transport_event list) loop" where
  "client_round room PlainReader es = (case client_poll room PlainReader es of (x, s) \<Rightarrow> Return x s)"
| "client_round room (EncryptedReader r) es =
     (case er_round room r es of
        Again (r', es') \<Rightarrow> Again (EncryptedReader r', es')
      | Return x (r', es') \<Rightarrow> Return x (EncryptedReader r', es'))"

fun client_to_come :: "client_reader \<Rightarrow> bytes \<Rightarrow> bytes \<times> bool" where
  "client_to_come PlainReader bs = (bs, True)"
| "client_to_come (EncryptedReader r) bs = er_to_come r bs"

fun client_ok :: "client_reader \<Rightarrow> bool" where
  "client_ok PlainReader = True"
| "client_ok (EncryptedReader r) = er_ok r"

fun client_rank :: "client_reader \<Rightarrow> nat" where
  "client_rank PlainReader = 0"
| "client_rank (EncryptedReader r) = er_rank r"

fun client_left :: "client_reader \<Rightarrow> nat" where
  "client_left PlainReader = 0"
| "client_left (EncryptedReader r) = length (plaintext r)"

text \<open>A reader that waits has used up an event of its transport, so waiting comes to an end.\<close>

locale poll_source = poll_reader +
  assumes waits: "round room r es = Return NotYet (r', es') \<Longrightarrow> weight es' < weight es"
begin

lemma poll_waits: "poll room r es = (NotYet, r', es') \<Longrightarrow> weight es' < weight es"
proof (induction r es rule: poll_induct [of room])
  case (1 r es)
  show ?case
  proof (cases "round room r es")
    case (Again s)
    obtain r1 es1 where s: "s = (r1, es1)" by fastforce
    with 1 Again have "weight es' < weight es1" by (simp add: poll_unfold [of room r es])
    with decreases [OF Again [unfolded s]] show ?thesis by auto
  next
    case (Return x s)
    with 1(2) waits show ?thesis by (simp add: poll_unfold [of room r es])
  qed
qed

end

lemma inner_read_waits: "inner_read cap es = (InnerPending, es') \<Longrightarrow> weight es' < weight es"
  by (cases es rule: weight.cases) auto

lemma er_round_waits: "er_round room r es = Return NotYet (r', es') \<Longrightarrow> weight es' < weight es"
  by (auto simp: er_round_def Let_def inner_read_waits
      split: if_splits sum.splits option.splits prod.splits inner_poll.splits)

lemma vision_round_waits: "vision_round room r es = Return NotYet (r', es') \<Longrightarrow> weight es' < weight es"
  by (auto simp: vision_round_def read_prefix_def read_header_def read_content_def read_padding_def Let_def inner_read_waits
      split: if_splits prod.splits inner_poll.splits read_state.splits)

interpretation vs: poll_source vision_round vision_poll reader_ok to_come vr_rank
  by unfold_locales (rule vision_round_waits)

lemma client_round_sound:
  assumes "healthy es" and "client_ok c" and "snd (client_to_come c (arriving es))"
  shows "round_sound client_ok client_to_come c es (client_round room c es)"
proof (cases c)
  case PlainReader
  obtain x es' where x: "inner_read room es = (x, es')" by fastforce
  from inner_read_healthy [OF assms(1) x] x PlainReader show ?thesis
    by (simp add: round_sound_def split: inner_poll.splits)
next
  case (EncryptedReader r)
  with er_round_sound [OF assms(1), of r room] assms(2,3) show ?thesis
    by (auto simp: round_sound_def split: loop.splits read_result.splits prod.splits)
qed

lemma client_round_eof:
  assumes "healthy es" and "client_ok c" and "snd (client_to_come c (arriving es))" and "0 < room"
    and "client_round room c es = Return (Delivered []) s"
  shows "fst (client_to_come c (arriving es)) = []"
proof (cases c)
  case PlainReader
  obtain x es' where x: "inner_read room es = (x, es')" by fastforce
  from inner_read_healthy [OF assms(1) x] x PlainReader assms(4,5) show ?thesis
    by (auto split: inner_poll.splits)
next
  case (EncryptedReader r)
  with er_round_eof [OF assms(1), of r room] assms(2-5) show ?thesis
    by (auto split: loop.splits prod.splits)
qed

interpretation cr: poll_source client_round client_poll client_ok client_to_come client_rank
proof
  show "client_poll room c es =
      (case client_round room c es of Again (r', es') \<Rightarrow> client_poll room r' es' | Return x s \<Rightarrow> (x, s))" for room c es
    by (cases c) (auto simp: er_poll.simps [of room] split: loop.splits prod.splits)
  show "((weight es', client_rank r'), (weight es, client_rank c)) \<in> lex2"
    if "client_round room c es = Again (r', es')" for room c es r' es'
    using that er_round_decreases by (cases c) (fastforce split: loop.splits prod.splits)+
  show "weight es' < weight es" if "client_round room c es = Return NotYet (r', es')" for room c es r' es'
    using that er_round_waits inner_read_waits
    by (cases c) (fastforce split: loop.splits prod.splits inner_poll.splits)+
qed (rule client_round_sound client_round_eof; assumption)+

section \<open>Everything a reader delivers\<close>

text \<open>What reading to the end gives, and the error that ended it if there was one. The decoders of the
  protocol read on demand; they see a prefix of this.\<close>

lemma client_round_delivers:
  assumes "client_round 32768 c es = Return (Delivered b) (c', es')" and "b \<noteq> []"
  shows "weight es' < weight es \<or> es' = es \<and> client_rank c' = client_rank c \<and> client_left c' < client_left c"
proof (cases c)
  case PlainReader
  with assms inner_read_weight [of 32768 es] show ?thesis
    by (auto split: prod.splits inner_poll.splits)
next
  case (EncryptedReader r)
  then obtain r' where r: "er_round 32768 r es = Return (Delivered b) (r', es')" "c' = EncryptedReader r'"
    using assms(1) by (auto split: loop.splits prod.splits)
  then have "plaintext r \<noteq> [] \<and> es' = es \<and> r' = r\<lparr>plaintext := drop 32768 (plaintext r)\<rparr>"
    using assms(2) by (auto simp: er_round_def Let_def split: if_splits sum.splits option.splits prod.splits inner_poll.splits)
  with r(2) EncryptedReader show ?thesis by (simp add: er_rank_def)
qed

function read_stream :: "client_reader \<Rightarrow> transport_event list \<Rightarrow> bytes \<times> io_error option" where
  "read_stream c es =
     (case client_round 32768 c es of
        Again (c', es') \<Rightarrow> read_stream c' es'
      | Return (Delivered b) (c', es') \<Rightarrow>
          (if b = [] then ([], None) else case read_stream c' es' of (x, e) \<Rightarrow> (b @ x, e))
      | Return NotYet (c', es') \<Rightarrow> read_stream c' es'
      | Return (ReadErr e) s \<Rightarrow> ([], Some e))"
  by pat_completeness auto
termination
proof (relation "inv_image (less_than <*lex*> less_than <*lex*> less_than)
    (\<lambda>(c, es). (weight es, client_rank c, client_left c))", goal_cases)
  case 1
  show ?case by (simp add: wf_lex_prod)
next
  case (2 c es x c' es')
  then show ?case using cr.decreases [of 32768 c es c' es'] by auto
next
  case (3 c es x y z c' es')
  then show ?case using client_round_delivers [of c es z c' es'] by auto
next
  case (4 c es x y c' es')
  then show ?case using cr.waits [of 32768 c es c' es'] by auto
qed

declare read_stream.simps [simp del]

lemma read_stream_intact:
  assumes "healthy es" and "client_ok c" and "snd (client_to_come c (arriving es))"
  shows "read_stream c es = (fst (client_to_come c (arriving es)), None)"
  using assms
proof (induction c es rule: read_stream.induct)
  case (1 c es)
  note rk = client_round_sound [OF "1.prems", of 32768]
  show ?case
  proof (cases "client_round 32768 c es")
    case (Again s)
    obtain c1 es1 where s: "s = (c1, es1)" by fastforce
    with Again rk "1.IH"(1) [OF Again s [symmetric]] "1.prems"(3) show ?thesis
      by (simp add: round_sound_def read_stream.simps [of c es])
  next
    case (Return x s)
    obtain c1 es1 where s: "s = (c1, es1)" by fastforce
    show ?thesis
    proof (cases x)
      case (Delivered b)
      show ?thesis
      proof (cases "b = []")
        case True
        with client_round_eof [OF "1.prems", of 32768 s] Return Delivered s show ?thesis
          by (simp add: read_stream.simps [of c es])
      next
        case False
        with Delivered Return s rk "1.IH"(2) [OF Return Delivered s [symmetric] False] "1.prems"(3) show ?thesis
          by (simp add: round_sound_def read_stream.simps [of c es])
      qed
    next
      case NotYet
      with Return s rk "1.IH"(3) [OF Return NotYet s [symmetric]] "1.prems"(3) show ?thesis
        by (simp add: round_sound_def read_stream.simps [of c es])
    next
      case (ReadErr e)
      with Return s rk "1.prems"(3) show ?thesis by (simp add: round_sound_def)
    qed
  qed
qed

section \<open>The writer\<close>

text \<open>The sending end of a downlink: the messages it took, and after how many more the other end is gone.\<close>

record sink =
  sk_sent :: "bytes list"
  sk_left :: "nat option"

definition sink_send :: "sink \<Rightarrow> bytes \<Rightarrow> sink option" where
  "sink_send k b =
     (if b = [] then Some k
      else case sk_left k of
             None \<Rightarrow> Some (k\<lparr>sk_sent := sk_sent k @ [b]\<rparr>)
           | Some 0 \<Rightarrow> None
           | Some (Suc n) \<Rightarrow> Some (k\<lparr>sk_sent := sk_sent k @ [b], sk_left := Some n\<rparr>))"

datatype protocol_writer = PlainWriter | EncryptedWriter aead_state "header_xor option"

definition mask_record :: "header_xor option \<Rightarrow> bytes \<Rightarrow> record_error + bytes \<times> header_xor option" where
  "mask_record x rec =
     (case x of
        None \<Rightarrow> Inr (rec, None)
      | Some hx \<Rightarrow> (case apply_xor hx rec of Inl e \<Rightarrow> Inl e | Inr (out, hx') \<Rightarrow> Inr (out, Some hx')))"

fun send_records ::
  "aead \<Rightarrow> aead_state \<Rightarrow> header_xor option \<Rightarrow> sink \<Rightarrow> bytes list \<Rightarrow> dispatch_error option \<times> protocol_writer \<times> sink" where
  "send_records A st x k [] = (None, EncryptedWriter st x, k)"
| "send_records A st x k (p # ps) =
     (case seal A st p of
        (Inl e, st') \<Rightarrow> (Some (DRecord e), EncryptedWriter st' x, k)
      | (Inr rec, st') \<Rightarrow>
          (case mask_record x rec of
             Inl e \<Rightarrow> (Some (DXor e), EncryptedWriter st' x, k)
           | Inr (out, x') \<Rightarrow>
               (case sink_send k out of
                  None \<Rightarrow> (Some DownloadClosed, EncryptedWriter st' x', k)
                | Some k' \<Rightarrow> send_records A st' x' k' ps)))"

fun writer_send :: "aead \<Rightarrow> protocol_writer \<Rightarrow> sink \<Rightarrow> bytes \<Rightarrow> dispatch_error option \<times> protocol_writer \<times> sink" where
  "writer_send A PlainWriter k b =
     (case sink_send k b of None \<Rightarrow> (Some DownloadClosed, PlainWriter, k) | Some k' \<Rightarrow> (None, PlainWriter, k'))"
| "writer_send A (EncryptedWriter st x) k b = send_records A st x k (chunks 8192 b)"

fun send_all :: "aead \<Rightarrow> protocol_writer \<Rightarrow> sink \<Rightarrow> bytes list \<Rightarrow> dispatch_error option \<times> protocol_writer \<times> sink" where
  "send_all A w k [] = (None, w, k)"
| "send_all A w k (b # bs) =
     (case writer_send A w k b of
        (Some e, w', k') \<Rightarrow> (Some e, w', k')
      | (None, w', k') \<Rightarrow> send_all A w' k' bs)"

section \<open>The copy loops\<close>

datatype copy_status = Running | Done "dispatch_error option"

text \<open>A target connection: what was written, how many more bytes it will take, whether its write side was
  shut down, and the error of that call if it fails.\<close>

record target_conn =
  written :: bytes
  takes :: "nat option"
  shut :: bool
  shut_error :: "io_error option"

definition target_write :: "target_conn \<Rightarrow> bytes \<Rightarrow> dispatch_error option \<times> target_conn" where
  "target_write t b =
     (case takes t of
        None \<Rightarrow> (None, t\<lparr>written := written t @ b\<rparr>)
      | Some n \<Rightarrow>
          if length b \<le> n then (None, t\<lparr>written := written t @ b, takes := Some (n - length b)\<rparr>)
          else (Some (DIo BrokenPipe), t\<lparr>written := written t @ take n b, takes := Some 0\<rparr>))"

record 'r upload =
  up_reader :: 'r
  up_events :: "transport_event list"
  up_target :: target_conn

text \<open>One iteration of \<open>copy_upload\<close>, generic in the reader as the source is.\<close>

definition copy_upload ::
  "(nat \<Rightarrow> 'r \<Rightarrow> transport_event list \<Rightarrow> read_result \<times> 'r \<times> transport_event list) \<Rightarrow> 'r upload \<Rightarrow> copy_status \<times> 'r upload" where
  "copy_upload poll u =
     (case poll (32 * 1024) (up_reader u) (up_events u) of
        (x, r', es') \<Rightarrow>
          let u1 = u\<lparr>up_reader := r', up_events := es'\<rparr>
          in case x of
               NotYet \<Rightarrow> (Running, u1)
             | ReadErr e \<Rightarrow> (Done (Some (DIo e)), u1)
             | Delivered b \<Rightarrow>
                 if b = [] then
                   (case shut_error (up_target u1) of
                      Some e \<Rightarrow> (Done (Some (DIo e)), u1)
                    | None \<Rightarrow> (Done None, u1\<lparr>up_target := (up_target u1)\<lparr>shut := True\<rparr>\<rparr>))
                 else (case target_write (up_target u1) b of
                         (Some e, t) \<Rightarrow> (Done (Some e), u1\<lparr>up_target := t\<rparr>)
                       | (None, t) \<Rightarrow> (Running, u1\<lparr>up_target := t\<rparr>)))"

text \<open>What successive reads of the target return; after the last one the target has closed.\<close>

datatype target_read = Got bytes | ReadFails io_error

record download =
  dn_reads :: "target_read list"
  dn_writer :: protocol_writer
  dn_sink :: sink
  dn_vision :: "vision_writer option"
  download_bytes :: u64

definition copy_download :: "aead \<Rightarrow> (nat \<Rightarrow> nat \<Rightarrow> nat) \<Rightarrow> download \<Rightarrow> copy_status \<times> download" where
  "copy_download A rnd d =
     (case dn_reads d of
        [] \<Rightarrow> (Done None, d)
      | ReadFails e # rs \<Rightarrow> (Done (Some (DIo e)), d\<lparr>dn_reads := rs\<rparr>)
      | Got b # rs \<Rightarrow>
          if b = [] then (Done None, d\<lparr>dn_reads := rs\<rparr>)
          else
            let d1 = d\<lparr>dn_reads := rs, download_bytes := download_bytes d + of_nat (length b)\<rparr>
            in case (case dn_vision d of
                       None \<Rightarrow> Inr ([b], None)
                     | Some v \<Rightarrow> (case vision_encode (rnd (length rs)) v b of
                                   Inl e \<Rightarrow> Inl e
                                 | Inr (frames, v') \<Rightarrow> Inr (frames, Some v'))) of
                 Inl e \<Rightarrow> (Done (Some (DVision e)), d1)
               | Inr (msgs, v') \<Rightarrow>
                   (case send_all A (dn_writer d) (dn_sink d) msgs of
                      (Some e, w, k) \<Rightarrow> (Done (Some e), d1\<lparr>dn_vision := v', dn_writer := w, dn_sink := k\<rparr>)
                    | (None, w, k) \<Rightarrow> (Running, d1\<lparr>dn_vision := v', dn_writer := w, dn_sink := k\<rparr>)))"

text \<open>\<open>pump_tcp\<close>: \<open>True\<close> in the schedule is an iteration of the upload, \<open>False\<close> one of the download. The end of
  the download ends the connection, as does a failed upload; after a complete upload the download goes
  on alone.\<close>

fun pump_tcp ::
  "(nat \<Rightarrow> 'r \<Rightarrow> transport_event list \<Rightarrow> read_result \<times> 'r \<times> transport_event list) \<Rightarrow> aead \<Rightarrow> (nat \<Rightarrow> nat \<Rightarrow> nat) \<Rightarrow>
     bool list \<Rightarrow> bool \<Rightarrow> 'r upload \<Rightarrow> download \<Rightarrow> copy_status \<times> bool \<times> 'r upload \<times> download" where
  "pump_tcp poll A rnd [] fin u d = (Running, fin, u, d)"
| "pump_tcp poll A rnd (b # bs) fin u d =
     (if b then
        (if fin then pump_tcp poll A rnd bs fin u d
         else case copy_upload poll u of
                (Running, u') \<Rightarrow> pump_tcp poll A rnd bs fin u' d
              | (Done None, u') \<Rightarrow> pump_tcp poll A rnd bs True u' d
              | (Done (Some e), u') \<Rightarrow> (Done (Some e), fin, u', d))
      else (case copy_download A rnd d of
              (Running, d') \<Rightarrow> pump_tcp poll A rnd bs fin u d'
            | (Done x, d') \<Rightarrow> (Done x, fin, u, d')))"

section \<open>The upload\<close>

fun upload_run ::
  "(nat \<Rightarrow> 'r \<Rightarrow> transport_event list \<Rightarrow> read_result \<times> 'r \<times> transport_event list) \<Rightarrow> nat \<Rightarrow> 'r upload \<Rightarrow> copy_status \<times> 'r upload" where
  "upload_run poll 0 u = (Running, u)"
| "upload_run poll (Suc n) u =
     (case copy_upload poll u of (Running, u') \<Rightarrow> upload_run poll n u' | (Done x, u') \<Rightarrow> (Done x, u'))"

definition open_target :: target_conn where
  "open_target = \<lparr>written = [], takes = None, shut = False, shut_error = None\<rparr>"

context poll_source
begin

definition carrying :: "bytes \<Rightarrow> 'a upload \<Rightarrow> bool" where
  "carrying p u \<longleftrightarrow>
     healthy (up_events u) \<and> ok (up_reader u) \<and> snd (tc (up_reader u) (arriving (up_events u))) \<and>
     written (up_target u) @ fst (tc (up_reader u) (arriving (up_events u))) = p \<and>
     takes (up_target u) = None \<and> shut_error (up_target u) = None"

lemma copy_upload_step:
  assumes "carrying p u"
  obtains u' where "copy_upload poll u = (Running, u')" "carrying p u'"
      "((length (fst (tc (up_reader u') (arriving (up_events u')))), weight (up_events u')),
        (length (fst (tc (up_reader u) (arriving (up_events u)))), weight (up_events u))) \<in> lex2"
    | u' where "copy_upload poll u = (Done None, u')" "written (up_target u') = p" "shut (up_target u')"
proof -
  obtain x r' es' where p: "poll (32 * 1024) (up_reader u) (up_events u) = (x, r', es')" by (metis prod_cases3)
  have h: "healthy (up_events u)" "ok (up_reader u)" "snd (tc (up_reader u) (arriving (up_events u)))"
    using assms by (simp_all add: carrying_def)
  note k = poll_sound [OF h p]
  show thesis
  proof (cases x)
    case (Delivered b)
    show thesis
    proof (cases "b = []")
      case True
      with poll_at_end [OF h, of "32 * 1024" "(r', es')"] p Delivered have "fst (tc (up_reader u) (arriving (up_events u))) = []" by simp
      with True Delivered p assms that(2) show thesis
        by (simp add: copy_upload_def carrying_def Let_def)
    next
      case False
      let ?u = "u\<lparr>up_reader := r', up_events := es', up_target := (up_target u)\<lparr>written := written (up_target u) @ b\<rparr>\<rparr>"
      have "copy_upload poll u = (Running, ?u)"
        using False Delivered p assms by (simp add: copy_upload_def carrying_def Let_def target_write_def)
      moreover have "carrying p ?u"
        using False Delivered k h assms by (auto simp: carrying_def round_sound_def)
      ultimately show thesis
        by (rule that(1)) (use False Delivered k in \<open>auto simp: round_sound_def\<close>)
    qed
  next
    case NotYet
    let ?u = "u\<lparr>up_reader := r', up_events := es'\<rparr>"
    have "copy_upload poll u = (Running, ?u)"
      using NotYet p by (simp add: copy_upload_def Let_def)
    moreover have "carrying p ?u"
      using NotYet k h assms by (auto simp: carrying_def round_sound_def)
    ultimately show thesis
      by (rule that(1)) (use NotYet k p poll_waits in \<open>auto simp: round_sound_def\<close>)
  next
    case (ReadErr e)
    with k h show thesis by (simp add: round_sound_def)
  qed
qed

text \<open>At any time the target has a prefix of the stream, and after enough iterations all of it and the end.\<close>

lemma upload_run_prefix:
  assumes "carrying p u" and "upload_run poll n u = (st, u')"
  shows "prefix (written (up_target u')) p \<and>
    (st \<noteq> Running \<longrightarrow> st = Done None \<and> written (up_target u') = p \<and> shut (up_target u'))"
  using assms
proof (induction n arbitrary: u)
  case 0
  then show ?case by (auto simp: carrying_def prefix_def)
next
  case (Suc n)
  from Suc.prems(1) show ?case
  proof (cases rule: copy_upload_step)
    case (1 u1)
    with Suc.IH [of u1] Suc.prems(2) show ?thesis by simp
  next
    case (2 u1)
    with Suc.prems(2) show ?thesis by auto
  qed
qed

lemma upload_run_ends:
  assumes "carrying p u"
  shows "\<exists>N. \<forall>n \<ge> N. fst (upload_run poll n u) = Done None"
proof -
  have "wf (inv_image lex2 (\<lambda>u. (length (fst (tc (up_reader u) (arriving (up_events u)))), weight (up_events u))))"
    by (simp add: wf_lex_prod)
  then show ?thesis using assms
  proof (induction u rule: wf_induct_rule)
    case (less u)
    from less.prems show ?case
    proof (cases rule: copy_upload_step)
      case (1 u1)
      with less.IH [of u1] obtain N where "\<forall>n \<ge> N. fst (upload_run poll n u1) = Done None" by auto
      with 1 have "fst (upload_run poll n u) = Done None" if "Suc N \<le> n" for n
        using that by (cases n) auto
      then show ?thesis by blast
    next
      case (2 u1)
      then have "fst (upload_run poll n u) = Done None" if "1 \<le> n" for n
        using that by (cases n) auto
      then show ?thesis by blast
    qed
  qed
qed

end

section \<open>The download\<close>

text \<open>A mask between two records.\<close>

definition at_boundary :: "header_xor \<Rightarrow> bool" where
  "at_boundary hx \<longleftrightarrow> skip hx = 0 \<and> hx_header hx = [] \<and> \<not> hx_decrypt hx"

lemma hx_bytes_passes: "length bs \<le> skip hx \<Longrightarrow> hx_bytes hx bs = Inr (bs, hx\<lparr>skip := skip hx - length bs\<rparr>)"
  by (induction bs arbitrary: hx) (simp_all add: hx_step_def)

lemma hx_bytes_record:
  assumes "at_boundary hx" and "length h = 5" and "decode_header h = Inr (length c)"
  shows "\<exists>out hx'. hx_bytes hx (h @ c) = Inr (out, hx') \<and> at_boundary hx'"
proof -
  obtain a1 a2 a3 a4 a5 where h: "h = [a1, a2, a3, a4, a5]"
    using assms(2) by (auto simp: numeral_eq_Suc length_Suc_conv)
  have "\<exists>out hx1. hx_bytes hx h = Inr (out, hx1) \<and> skip hx1 = length c \<and> hx_header hx1 = [] \<and> \<not> hx_decrypt hx1"
    using assms(1,3) unfolding h by (simp add: hx_step_def at_boundary_def Let_def)
  then obtain out hx1 where 1: "hx_bytes hx h = Inr (out, hx1)" "skip hx1 = length c" "hx_header hx1 = []" "\<not> hx_decrypt hx1"
    by blast
  with hx_bytes_passes [of c hx1] show ?thesis by (simp add: hx_bytes_append at_boundary_def)
qed

fun writer_ok :: "protocol_writer \<Rightarrow> bool" where
  "writer_ok PlainWriter = True"
| "writer_ok (EncryptedWriter st None) = True"
| "writer_ok (EncryptedWriter st (Some hx)) = at_boundary hx"

text \<open>The writer went from \<open>w\<close>, \<open>k\<close> to \<open>w'\<close>, \<open>k'\<close> and put the plaintext \<open>p\<close> on the wire.\<close>

fun emitted :: "aead \<Rightarrow> protocol_writer \<Rightarrow> sink \<Rightarrow> bytes \<Rightarrow> protocol_writer \<Rightarrow> sink \<Rightarrow> bool" where
  "emitted A PlainWriter k p w' k' \<longleftrightarrow> w' = PlainWriter \<and> concat (sk_sent k') = concat (sk_sent k) @ p"
| "emitted A (EncryptedWriter st x) k p w' k' \<longleftrightarrow>
     (\<exists>ps outs st' wire x'. w' = EncryptedWriter st' x' \<and> concat ps = p \<and> seal_all A st ps = Some (outs, st') \<and>
        concat (sk_sent k') = concat (sk_sent k) @ wire \<and>
        (case x of
           None \<Rightarrow> x' = None \<and> wire = concat outs
         | Some hx \<Rightarrow> \<exists>hx'. x' = Some hx' \<and> hx_bytes hx (concat outs) = Inr (wire, hx')))"

lemma seal_all_append:
  "seal_all A st ps = Some (outs, st1) \<Longrightarrow> seal_all A st1 qs = Some (outs', st2) \<Longrightarrow>
     seal_all A st (ps @ qs) = Some (outs @ outs', st2)"
  by (induction ps arbitrary: st outs) (auto split: prod.splits sum.splits option.splits)

lemma emitted_refl: "emitted A w k [] w k"
  by (cases w) (auto intro!: exI [of _ "[]"] split: option.splits)

lemma emitted_trans:
  assumes "emitted A w k p w1 k1" and "emitted A w1 k1 q w2 k2"
  shows "emitted A w k (p @ q) w2 k2"
proof (cases w)
  case PlainWriter
  with assms show ?thesis by auto
next
  case (EncryptedWriter st x)
  then obtain ps outs st1 wire x1 where 1: "w1 = EncryptedWriter st1 x1" "concat ps = p"
      "seal_all A st ps = Some (outs, st1)" "concat (sk_sent k1) = concat (sk_sent k) @ wire"
      "case x of None \<Rightarrow> x1 = None \<and> wire = concat outs
       | Some hx \<Rightarrow> \<exists>hx'. x1 = Some hx' \<and> hx_bytes hx (concat outs) = Inr (wire, hx')"
    using assms(1) by auto
  then obtain qs outs' st2 wire' x2 where 2: "w2 = EncryptedWriter st2 x2" "concat qs = q"
      "seal_all A st1 qs = Some (outs', st2)" "concat (sk_sent k2) = concat (sk_sent k1) @ wire'"
      "case x1 of None \<Rightarrow> x2 = None \<and> wire' = concat outs'
       | Some hx \<Rightarrow> \<exists>hx'. x2 = Some hx' \<and> hx_bytes hx (concat outs') = Inr (wire', hx')"
    using assms(2) by auto
  have "case x of None \<Rightarrow> x2 = None \<and> wire @ wire' = concat (outs @ outs')
      | Some hx \<Rightarrow> \<exists>hx'. x2 = Some hx' \<and> hx_bytes hx (concat (outs @ outs')) = Inr (wire @ wire', hx')"
    using 1(5) 2(5) by (cases x) (auto simp: hx_bytes_append)
  with 1(2,4) 2(1,2,4) seal_all_append [OF 1(3) 2(3)] EncryptedWriter show ?thesis
    by (simp only: emitted.simps)
      (rule exI [of _ "ps @ qs"], rule exI [of _ "outs @ outs'"], rule exI [of _ st2],
        rule exI [of _ "wire @ wire'"], rule exI [of _ x2], simp)
qed

declare emitted.simps [simp del]

lemma seal_ok:
  assumes "aead_total A" and "p \<noteq> []" and "length p \<le> 8192"
  obtains rec st' where "seal A st p = (Inr rec, st')"
proof -
  have h: "\<exists>h. encode_header (length p + TAG_LEN) = Inr h"
    using assms(2,3) by (cases p) (simp_all add: encode_header_def TAG_LEN_def)
  then obtain h where h: "encode_header (length p + TAG_LEN) = Inr h" ..
  have "length p < 2 ^ 16" using assms(3) by simp
  then obtain c st1 where "seal_raw A st p h None = (Inr c, st1)"
    using seal_raw_total [OF assms(1)] by metis
  with h assms(3) that show thesis by (simp add: seal_def Let_def)
qed

lemma mask_record_ok:
  assumes "aead_correct A" and "seal A st p = (Inr rec, st')" and "writer_ok (EncryptedWriter st x)"
  obtains out x' where "mask_record x rec = Inr (out, x')" "writer_ok (EncryptedWriter st' x')" "out \<noteq> []"
    "case x of None \<Rightarrow> x' = None \<and> out = rec | Some hx \<Rightarrow> \<exists>hx'. x' = Some hx' \<and> hx_bytes hx rec = Inr (out, hx')"
proof -
  obtain h c where rec: "rec = h @ c" "length h = 5" "decode_header h = Inr (length c)"
    using seal_then_open [OF assms(1,2)] by metis
  then have ne: "rec \<noteq> []" by auto
  show thesis
  proof (cases x)
    case None
    with that ne show thesis by (simp add: mask_record_def)
  next
    case (Some hx)
    then have b: "at_boundary hx" using assms(3) by simp
    then have ok: "hx_ok hx" by (simp add: at_boundary_def hx_ok_def)
    obtain out hx' where o: "hx_bytes hx rec = Inr (out, hx')" "at_boundary hx'"
      using hx_bytes_record [OF b rec(2,3)] rec(1) by blast
    have "out \<noteq> []" using hx_bytes_ok [OF o(1) ok] ne by auto
    with that [of out "Some hx'"] o Some ok show thesis by (simp add: mask_record_def apply_is_bytes)
  qed
qed

lemma send_records_ok:
  assumes A: "aead_correct A" "aead_total A" and "\<forall>p \<in> set ps. p \<noteq> [] \<and> length p \<le> 8192"
    and "writer_ok (EncryptedWriter st x)" and "sk_left k = None"
  shows "\<exists>w' k'. send_records A st x k ps = (None, w', k') \<and> writer_ok w' \<and> sk_left k' = None \<and>
    emitted A (EncryptedWriter st x) k (concat ps) w' k'"
  using assms(3-)
proof (induction ps arbitrary: st x k)
  case Nil
  then show ?case using emitted_refl [of A "EncryptedWriter st x" k] by simp
next
  case (Cons p ps)
  have p: "p \<noteq> []" "length p \<le> 8192" using Cons.prems(1) by simp_all
  obtain rec st1 where s: "seal A st p = (Inr rec, st1)" using seal_ok [OF A(2) p] .
  obtain out x1 where m: "mask_record x rec = Inr (out, x1)" "writer_ok (EncryptedWriter st1 x1)" "out \<noteq> []"
    "case x of None \<Rightarrow> x1 = None \<and> out = rec | Some hx \<Rightarrow> \<exists>hx'. x1 = Some hx' \<and> hx_bytes hx rec = Inr (out, hx')"
    using mask_record_ok [OF A(1) s Cons.prems(2)] .
  let ?k = "k\<lparr>sk_sent := sk_sent k @ [out]\<rparr>"
  have k: "sink_send k out = Some ?k" "sk_left ?k = None" using m(3) Cons.prems(3) by (simp_all add: sink_send_def)
  obtain w' k' where IH: "send_records A st1 x1 ?k ps = (None, w', k')" "writer_ok w'" "sk_left k' = None"
      "emitted A (EncryptedWriter st1 x1) ?k (concat ps) w' k'"
    using Cons.IH [OF _ m(2) k(2)] Cons.prems(1) by auto
  have "emitted A (EncryptedWriter st x) k p (EncryptedWriter st1 x1) ?k"
    using s m(4)
    by (simp only: emitted.simps)
      (rule exI [of _ "[p]"], rule exI [of _ "[rec]"], rule exI [of _ st1], rule exI [of _ out], rule exI [of _ x1],
        simp split: option.splits)
  from emitted_trans [OF this IH(4)] IH s m(1) k(1) show ?case by simp
qed

lemma chunks_sizes: "p \<in> set (chunks n xs) \<Longrightarrow> p \<noteq> [] \<and> length p \<le> n"
  by (induction n xs rule: chunks.induct) (subst (asm) (2) chunks.simps, auto split: if_splits)

lemma writer_send_ok:
  assumes "aead_correct A" and "aead_total A" and "writer_ok w" and "sk_left k = None"
  obtains w' k' where "writer_send A w k b = (None, w', k')" "writer_ok w'" "sk_left k' = None" "emitted A w k b w' k'"
proof (cases w)
  case PlainWriter
  with assms(4) that [of PlainWriter k] that [of PlainWriter "k\<lparr>sk_sent := sk_sent k @ [b]\<rparr>"] show thesis
    by (cases "b = []") (simp_all add: sink_send_def emitted.simps)
next
  case (EncryptedWriter st x)
  have "concat (chunks 8192 b) = b" by (simp add: concat_chunks)
  with send_records_ok [OF assms(1,2), of "chunks 8192 b" st x k] chunks_sizes assms(3,4) EncryptedWriter that
  show thesis by fastforce
qed

lemma send_all_ok:
  assumes "aead_correct A" and "aead_total A" and "writer_ok w" and "sk_left k = None"
  shows "\<exists>w' k'. send_all A w k bs = (None, w', k') \<and> writer_ok w' \<and> sk_left k' = None \<and>
    emitted A w k (concat bs) w' k'"
  using assms(3,4)
proof (induction bs arbitrary: w k)
  case Nil
  then show ?case by (simp add: emitted_refl)
next
  case (Cons b bs)
  obtain w1 k1 where 1: "writer_send A w k b = (None, w1, k1)" "writer_ok w1" "sk_left k1 = None" "emitted A w k b w1 k1"
    using writer_send_ok [OF assms(1,2) Cons.prems] .
  with Cons.IH [OF 1(2,3)] emitted_trans [OF 1(4)] show ?case by fastforce
qed

text \<open>Iterations of the download, and the plaintext the given reads stand for: the bytes themselves or their
  Vision frames.\<close>

fun download_run :: "aead \<Rightarrow> (nat \<Rightarrow> nat \<Rightarrow> nat) \<Rightarrow> nat \<Rightarrow> download \<Rightarrow> copy_status \<times> download" where
  "download_run A rnd 0 d = (Running, d)"
| "download_run A rnd (Suc n) d =
     (case copy_download A rnd d of (Running, d') \<Rightarrow> download_run A rnd n d' | (Done x, d') \<Rightarrow> (Done x, d'))"

definition framed :: "(nat \<Rightarrow> nat \<Rightarrow> nat) \<Rightarrow> vision_writer option \<Rightarrow> bytes list \<Rightarrow> bytes option" where
  "framed rnd v ds =
     (case v of
        None \<Rightarrow> Some (concat ds)
      | Some w \<Rightarrow> (case write_all rnd w ds of Inl e \<Rightarrow> None | Inr p \<Rightarrow> Some p))"

lemma encode_chunks_total:
  "\<forall>c \<in> set cs. length c \<le> MAX_FRAME_CONTENT \<Longrightarrow> \<exists>fs w'. encode_chunks rnd w cs = Inr (fs, w')"
proof (induction cs arbitrary: w)
  case (Cons c cs)
  then have "length c \<le> MAX_FRAME_CONTENT" by simp
  from encode_chunk_total [OF this] obtain b w1 where "encode_chunk (rnd (length cs)) w c = Inr (b, w1)" by metis
  with Cons.IH [of w1] Cons.prems show ?case by auto
qed simp

lemma vision_encode_total: "\<exists>fs w'. vision_encode rnd w d = Inr (fs, w')"
proof (cases "vw_padding w")
  case True
  have "\<forall>c \<in> set (chunks MAX_FRAME_CONTENT d). length c \<le> MAX_FRAME_CONTENT" using chunks_sizes by blast
  from encode_chunks_total [OF this] True show ?thesis by (simp add: vision_encode_def)
qed (simp add: vision_encode_def)

lemma copy_download_ok:
  assumes "aead_correct A" and "aead_total A" and "writer_ok (dn_writer d)" and "sk_left (dn_sink d) = None"
    and "dn_reads d = Got b # rs" and "b \<noteq> []"
  obtains d' msgs where "copy_download A rnd d = (Running, d')" "dn_reads d' = rs"
    "writer_ok (dn_writer d')" "sk_left (dn_sink d') = None"
    "emitted A (dn_writer d) (dn_sink d) (concat msgs) (dn_writer d') (dn_sink d')"
    "case dn_vision d of None \<Rightarrow> dn_vision d' = None \<and> concat msgs = b
     | Some v \<Rightarrow> \<exists>v'. dn_vision d' = Some v' \<and> vision_encode (rnd (length rs)) v b = Inr (msgs, v')"
proof -
  obtain msgs v' where m: "(case dn_vision d of
        None \<Rightarrow> Inr ([b], None)
      | Some v \<Rightarrow> (case vision_encode (rnd (length rs)) v b of
                    Inl e \<Rightarrow> Inl e | Inr (frames, v') \<Rightarrow> Inr (frames, Some v'))) = Inr (msgs, v')"
    "case dn_vision d of None \<Rightarrow> v' = None \<and> concat msgs = b
     | Some v \<Rightarrow> \<exists>v1. v' = Some v1 \<and> vision_encode (rnd (length rs)) v b = Inr (msgs, v1)"
  proof (cases "dn_vision d")
    case None
    with that [of "[b]" None] show thesis by simp
  next
    case (Some v)
    obtain fs v1 where "vision_encode (rnd (length rs)) v b = Inr (fs, v1)" using vision_encode_total by blast
    with that [of fs "Some v1"] Some show thesis by simp
  qed
  obtain w k where s: "send_all A (dn_writer d) (dn_sink d) msgs = (None, w, k)" "writer_ok w" "sk_left k = None"
      "emitted A (dn_writer d) (dn_sink d) (concat msgs) w k"
    using send_all_ok [OF assms(1-4)] by blast
  let ?d = "d\<lparr>dn_reads := rs, download_bytes := download_bytes d + of_nat (length b), dn_vision := v', dn_writer := w, dn_sink := k\<rparr>"
  have "copy_download A rnd d = (Running, ?d)"
    using assms(5,6) m(1) s(1) by (simp add: copy_download_def Let_def)
  then show thesis by (rule that [of _ msgs]) (use s m(2) in \<open>auto split: option.splits\<close>)
qed

lemma framed_Cons:
  assumes "framed rnd v' ds = Some p"
    and "case v of None \<Rightarrow> v' = None \<and> concat msgs = b
     | Some w \<Rightarrow> \<exists>w'. v' = Some w' \<and> vision_encode (rnd (length ds)) w b = Inr (msgs, w')"
  shows "framed rnd v (b # ds) = Some (concat msgs @ p)"
  using assms by (auto simp: framed_def split: option.splits sum.splits)

lemma download_run_ok:
  assumes A: "aead_correct A" "aead_total A"
    and "writer_ok (dn_writer d)" and "sk_left (dn_sink d) = None"
    and "dn_reads d = map Got ds @ rs" and "[] \<notin> set ds"
  shows "\<exists>d' p. download_run A rnd (length ds) d = (Running, d') \<and> dn_reads d' = rs \<and>
    framed (\<lambda>k. rnd (k + length rs)) (dn_vision d) ds = Some p \<and>
    emitted A (dn_writer d) (dn_sink d) p (dn_writer d') (dn_sink d')"
  using assms(3-)
proof (induction ds arbitrary: d)
  case Nil
  have "framed (\<lambda>k. rnd (k + length rs)) (dn_vision d) [] = Some []"
    by (simp add: framed_def split: option.splits)
  with Nil emitted_refl show ?case by auto
next
  case (Cons b ds)
  have r: "dn_reads d = Got b # (map Got ds @ rs)" "b \<noteq> []" using Cons.prems by auto
  obtain d1 msgs where 1: "copy_download A rnd d = (Running, d1)" "dn_reads d1 = map Got ds @ rs"
    "writer_ok (dn_writer d1)" "sk_left (dn_sink d1) = None"
    "emitted A (dn_writer d) (dn_sink d) (concat msgs) (dn_writer d1) (dn_sink d1)"
    "case dn_vision d of None \<Rightarrow> dn_vision d1 = None \<and> concat msgs = b
     | Some v \<Rightarrow> \<exists>v'. dn_vision d1 = Some v' \<and> vision_encode (rnd (length (map Got ds @ rs))) v b = Inr (msgs, v')"
    using copy_download_ok [OF A Cons.prems(1,2) r] .
  obtain d' p where 2: "download_run A rnd (length ds) d1 = (Running, d')" "dn_reads d' = rs"
    "framed (\<lambda>k. rnd (k + length rs)) (dn_vision d1) ds = Some p"
    "emitted A (dn_writer d1) (dn_sink d1) p (dn_writer d') (dn_sink d')"
    using Cons.IH [OF 1(3,4,2)] Cons.prems(4) by auto
  have "framed (\<lambda>k. rnd (k + length rs)) (dn_vision d) (b # ds) = Some (concat msgs @ p)"
    by (rule framed_Cons [OF 2(3)]) (use 1(6) in \<open>simp split: option.splits\<close>)
  with 1(1) 2 emitted_trans [OF 1(5) 2(4)] show ?case by auto
qed

text \<open>A schedule of the pump is a run of each of its two loops.\<close>

lemma pump_alone:
  "pump_tcp poll A rnd bs True u d = (st, fin, u', d') \<Longrightarrow>
     fin \<and> u' = u \<and> (\<exists>m. download_run A rnd m d = (st, d') \<and> (st = Running \<longrightarrow> m = count_list bs False))"
proof (induction bs arbitrary: d)
  case (Cons b bs)
  show ?case
  proof (cases b)
    case True
    with Cons.prems Cons.IH [of d] show ?thesis by simp
  next
    case False
    show ?thesis
    proof (cases "copy_download A rnd d")
      case (Pair x d1)
      show ?thesis
      proof (cases x)
        case Running
        with Pair False Cons.prems Cons.IH [of d1] obtain m where "fin" "u' = u" "download_run A rnd m d1 = (st, d')"
          "st = Running \<longrightarrow> m = count_list bs False" by auto
        with Pair Running False show ?thesis by (auto intro!: exI [of _ "Suc m"])
      next
        case (Done e)
        with Pair False Cons.prems show ?thesis by (auto intro!: exI [of _ "Suc 0"])
      qed
    qed
  qed
qed auto

lemma pump_runs:
  assumes "pump_tcp poll A rnd bs False u d = (st, fin, u', d')"
  shows "\<exists>n m us ds. upload_run poll n u = (us, u') \<and> (fin \<longleftrightarrow> us = Done None) \<and> download_run A rnd m d = (ds, d') \<and>
    (st = Running \<longrightarrow> ds = Running \<and> m = count_list bs False \<and> (us = Running \<longrightarrow> n = count_list bs True)) \<and>
    (st \<noteq> Running \<longrightarrow> st = ds \<or> st = us \<and> us \<noteq> Done None)"
  using assms
proof (induction bs arbitrary: u d)
  case Nil
  then show ?case by (auto intro!: exI [of _ 0])
next
  case (Cons b bs)
  show ?case
  proof (cases b)
    case True
    obtain x u1 where x: "copy_upload poll u = (x, u1)" by fastforce
    show ?thesis
    proof (cases x)
      case Running
      with x True Cons obtain n m us ds where "upload_run poll n u1 = (us, u')" "fin \<longleftrightarrow> us = Done None"
        "download_run A rnd m d = (ds, d')"
        "st = Running \<longrightarrow> ds = Running \<and> m = count_list bs False \<and> (us = Running \<longrightarrow> n = count_list bs True)"
        "st \<noteq> Running \<longrightarrow> st = ds \<or> st = us \<and> us \<noteq> Done None" by fastforce
      with x Running True show ?thesis by (intro exI [of _ "Suc n"] exI [of _ m]) auto
    next
      case (Done e)
      show ?thesis
      proof (cases e)
        case None
        with x Done True Cons.prems have "pump_tcp poll A rnd bs True u1 d = (st, fin, u', d')" by simp
        from pump_alone [OF this] obtain m where m: "fin" "u' = u1" "download_run A rnd m d = (st, d')"
          "st = Running \<longrightarrow> m = count_list bs False" by blast
        with x Done None True show ?thesis
          by (intro exI [of _ "Suc 0"] exI [of _ m]) auto
      next
        case (Some e')
        with x Done True Cons.prems show ?thesis
          by (intro exI [of _ "Suc 0"] exI [of _ 0]) auto
      qed
    qed
  next
    case False
    obtain x d1 where x: "copy_download A rnd d = (x, d1)" by fastforce
    show ?thesis
    proof (cases x)
      case Running
      with x False Cons obtain n m us ds where "upload_run poll n u = (us, u')" "fin \<longleftrightarrow> us = Done None"
        "download_run A rnd m d1 = (ds, d')"
        "st = Running \<longrightarrow> ds = Running \<and> m = count_list bs False \<and> (us = Running \<longrightarrow> n = count_list bs True)"
        "st \<noteq> Running \<longrightarrow> st = ds \<or> st = us \<and> us \<noteq> Done None" by fastforce
      with x Running False show ?thesis by (intro exI [of _ n] exI [of _ "Suc m"]) auto
    next
      case (Done e)
      with x False Cons.prems show ?thesis
        by (intro exI [of _ 0] exI [of _ "Suc 0"]) auto
    qed
  qed
qed

lemma download_run_add:
  "download_run A rnd n d = (Running, d1) \<Longrightarrow> download_run A rnd (n + k) d = download_run A rnd k d1"
  by (induction n arbitrary: d) (auto split: prod.splits copy_status.splits)

lemma download_run_any:
  assumes A: "aead_correct A" "aead_total A" and w: "writer_ok (dn_writer d)" "sk_left (dn_sink d) = None"
    and r: "dn_reads d = map Got ds" "[] \<notin> set ds" and run: "download_run A rnd m d = (st, d')"
  shows "(st = Running \<longrightarrow> m \<le> length ds) \<and> (st \<noteq> Running \<longrightarrow> st = Done None \<and> length ds < m) \<and>
    (\<exists>q. framed (\<lambda>k. rnd (k + (length ds - m))) (dn_vision d) (take m ds) = Some q \<and>
      emitted A (dn_writer d) (dn_sink d) q (dn_writer d') (dn_sink d'))"
proof (cases "m \<le> length ds")
  case True
  have "dn_reads d = map Got (take m ds) @ map Got (drop m ds)" "[] \<notin> set (take m ds)"
    using r by (simp_all flip: map_append, meson in_set_takeD)
  from download_run_ok [OF A w this, of rnd] True run show ?thesis by auto
next
  case False
  have "dn_reads d = map Got ds @ []" using r(1) by simp
  from download_run_ok [OF A w this r(2), of rnd] obtain d1 q where 1:
    "download_run A rnd (length ds) d = (Running, d1)" "dn_reads d1 = []"
    "framed rnd (dn_vision d) ds = Some q" "emitted A (dn_writer d) (dn_sink d) q (dn_writer d1) (dn_sink d1)"
    by auto
  obtain k where k: "m = length ds + Suc k" using False by (metis add_Suc_right less_iff_Suc_add not_le)
  have "download_run A rnd m d = (Done None, d1)"
    unfolding k using download_run_add [OF 1(1), of "Suc k"] 1(2) by (simp add: copy_download_def)
  with run 1 k show ?thesis by simp
qed

context poll_source
begin

text \<open>What a connection has done whenever one looks at it, and that both directions come to their end.\<close>

lemma pump_delivers:
  assumes A: "aead_correct A" "aead_total A" and w: "writer_ok (dn_writer d)" "sk_left (dn_sink d) = None"
    and r: "dn_reads d = map Got ds" "[] \<notin> set ds" and c: "carrying p u"
    and pump: "pump_tcp poll A rnd bs False u d = (st, fin, u', d')"
  shows "prefix (written (up_target u')) p \<and> (fin \<longrightarrow> written (up_target u') = p \<and> shut (up_target u')) \<and>
    (st \<noteq> Running \<longrightarrow> st = Done None) \<and> (length ds < count_list bs False \<longrightarrow> st = Done None) \<and>
    (\<exists>m q. framed (\<lambda>k. rnd (k + (length ds - m))) (dn_vision d) (take m ds) = Some q \<and>
      emitted A (dn_writer d) (dn_sink d) q (dn_writer d') (dn_sink d') \<and> (st = Done None \<longrightarrow> length ds < m))"
proof -
  obtain n m us dst where run: "upload_run poll n u = (us, u')" "fin \<longleftrightarrow> us = Done None" "download_run A rnd m d = (dst, d')"
    "st = Running \<longrightarrow> dst = Running \<and> m = count_list bs False \<and> (us = Running \<longrightarrow> n = count_list bs True)"
    "st \<noteq> Running \<longrightarrow> st = dst \<or> st = us \<and> us \<noteq> Done None"
    using pump_runs [OF pump] by blast
  note up = upload_run_prefix [OF c run(1)] and dn = download_run_any [OF A w r run(3)]
  show ?thesis using up dn run by fastforce
qed

lemma pump_uploads:
  assumes "carrying p u"
  shows "\<exists>N. \<forall>bs d st fin u' d'. N \<le> count_list bs True \<and> pump_tcp poll A rnd bs False u d = (st, fin, u', d') \<longrightarrow>
    st = Running \<longrightarrow> fin"
proof -
  obtain N where N: "\<forall>n \<ge> N. fst (upload_run poll n u) = Done None" using upload_run_ends [OF assms] by blast
  show ?thesis
  proof (intro exI [of _ N] allI impI, elim conjE)
    fix bs d st fin u' d'
    assume b: "N \<le> count_list bs True" "pump_tcp poll A rnd bs False u d = (st, fin, u', d')" "st = Running"
    from pump_runs [OF b(2)] b(3) obtain n us where "upload_run poll n u = (us, u')" "fin \<longleftrightarrow> us = Done None"
      "us = Running \<longrightarrow> n = count_list bs True" by blast
    with N b(1) upload_run_prefix [OF assms] show fin by (metis copy_status.distinct(1) fst_conv)
  qed
qed

end

end
