(* ===== verification/Dispatcher.thy ===== *)
theory Dispatcher
  imports ClientIo
begin

text \<open>
  The dispatcher, \<^verbatim>\<open>src/dispatcher.rs\<close>: opening a session (encryption handshake, request header, flow check, response
  header, choice of the service) and the TCP service. The uplink is the list of what its polls find
  until it ends; \<open>stalls\<close> says that instead of ending it stays open without further bytes, so that the
  timer of a handshake fires. Random draws and the clock are arguments as in the handshake. The request
  decoder reads on demand from the client reader; as it only ever looks at a prefix, it is applied to all
  the reader delivers, and the services continue with the rest.
\<close>

section \<open>State\<close>

text \<open>The dispatcher with the counters of \<open>Metrics\<close> it changes. Its timeouts and socket options only set timers and
  sockets, which are events and arguments here; waiting for one of the \<open>dp_targets\<close> permits comes before
  a service starts.\<close>

record dispatcher =
  dp_validator :: validator
  dp_encryption :: "server option"
  dp_targets :: nat
  encryption_handshake_failures :: u64
  vless_auth_failures :: u64
  target_connect_failures :: u64
  active_target_conns :: int

definition new_dispatcher :: "validator \<Rightarrow> nat \<Rightarrow> dispatcher" where
  "new_dispatcher v max_targets =
     \<lparr>dp_validator = v, dp_encryption = None, dp_targets = max max_targets 1,
      encryption_handshake_failures = 0, vless_auth_failures = 0, target_connect_failures = 0,
      active_target_conns = 0\<rparr>"

definition with_encryption :: "server option \<Rightarrow> dispatcher \<Rightarrow> dispatcher" where
  "with_encryption e dp = dp\<lparr>dp_encryption := e\<rparr>"

datatype served = ServeTcp address u16 "bytes option" | ServeUdp address u16 | ServeXudp

text \<open>An opened session: the service, the rest of the client stream with the error at its end, and the
  writer.\<close>

datatype opened = Refused dispatch_error | Opened served bytes "io_error option" protocol_writer

section \<open>Opening a session\<close>

text \<open>The events that are left when the first \<open>n\<close> bytes have been read.\<close>

fun drop_events :: "nat \<Rightarrow> transport_event list \<Rightarrow> transport_event list" where
  "drop_events n [] = []"
| "drop_events n (Arrives d # es) =
     (if n = 0 then Arrives d # es
      else if length d \<le> n then drop_events (n - length d) es
      else Arrives (drop n d) # es)"
| "drop_events n (e # es) = (if n = 0 then e # es else drop_events n es)"

definition send_quietly :: "sink \<Rightarrow> bytes \<Rightarrow> sink" where
  "send_quietly k b = (case sink_send k b of Some k' \<Rightarrow> k' | None \<Rightarrow> k)"

definition handshake_failure :: "bool \<Rightarrow> handshake_error \<Rightarrow> dispatch_error" where
  "handshake_failure stalls e =
     (if e = HsPanic then DPanic
      else if stalls \<and> e = HsIo UnexpectedEof then HandshakeTimeout
      else DHandshake e)"

definition open_client ::
  "aead \<Rightarrow> keystream \<Rightarrow> crypto \<Rightarrow> dispatcher \<Rightarrow> draws \<Rightarrow> nat \<Rightarrow> bool \<Rightarrow> transport_event list \<Rightarrow> sink \<Rightarrow>
     (dispatch_error + client_reader \<times> transport_event list \<times> protocol_writer) \<times> dispatcher \<times> sink" where
  "open_client A ks C dp d now stalls es k =
     (case dp_encryption dp of
        None \<Rightarrow> (Inr (PlainReader, es, PlainWriter), dp, k)
      | Some srv \<Rightarrow>
          (case handshake A ks C srv d now (sk_left k \<noteq> Some 0) (arriving es) of
             (r, srv', outs) \<Rightarrow>
               let dp1 = dp\<lparr>dp_encryption := Some srv'\<rparr>; k1 = foldl send_quietly k outs
               in (case r of
                     Inl e \<Rightarrow>
                       (Inl (handshake_failure stalls e),
                        (if e = HsPanic then dp1
                         else dp1\<lparr>encryption_handshake_failures := encryption_handshake_failures dp1 + 1\<rparr>), k1)
                   | Inr (res, rest) \<Rightarrow>
                       (Inr (EncryptedReader (enc_reader_new A (hr_decrypt res) (inbound_xor res)),
                             drop_events (length (arriving es) - length rest) es,
                             EncryptedWriter (hr_encrypt res) (outbound_xor res)), dp1, k1))))"

text \<open>An end of stream in the middle of the header is the error that ended the stream, if there was one,
  or the timer when the stream only stalls.\<close>

definition header_failure :: "bool \<Rightarrow> io_error option \<Rightarrow> header_error \<Rightarrow> dispatch_error" where
  "header_failure stalls fin e =
     (if e = Io UnexpectedEof
      then (case fin of Some e' \<Rightarrow> DHeader (Io e') | None \<Rightarrow> if stalls then HandshakeTimeout else DHeader e)
      else DHeader e)"

definition choose_service :: "request_header \<Rightarrow> addons \<Rightarrow> dispatch_error + served" where
  "choose_service h a =
     (let vision_uuid = (if flow a = XRV then Some (raw_id h) else None)
      in case command h of
           Tcp \<Rightarrow> (case req_address h of None \<Rightarrow> Inl MissingAddress | Some ad \<Rightarrow> Inr (ServeTcp ad (port h) vision_uuid))
         | Udp \<Rightarrow>
             (if vision_uuid \<noteq> None then Inl VisionUdpUnsupported
              else (case req_address h of None \<Rightarrow> Inl MissingAddress | Some ad \<Rightarrow> Inr (ServeUdp ad (port h))))
         | Mux \<Rightarrow> (if vision_uuid = None then Inr ServeXudp else Inl VisionXudpUnavailable)
         | cmd \<Rightarrow> Inl (UnsupportedCommand cmd))"

definition flow_matches :: "user \<Rightarrow> addons \<Rightarrow> bool" where
  "flow_matches u a \<longleftrightarrow> \<not> (flow a \<noteq> user_flow u \<or> flow a \<noteq> [] \<and> flow a \<noteq> XRV)"

text \<open>\<open>None\<close> is a decoder that does not return.\<close>

definition serve_request ::
  "aead \<Rightarrow> dispatcher \<Rightarrow> bool \<Rightarrow> client_reader \<Rightarrow> transport_event list \<Rightarrow> protocol_writer \<Rightarrow> sink \<Rightarrow>
     opened option \<times> dispatcher \<times> sink" where
  "serve_request A dp stalls c es w k =
     (case read_stream c es of
        (plain, fin) \<Rightarrow>
          (case decode_request_header_shared (dp_validator dp) plain of
             None \<Rightarrow> (None, dp, k)
           | Some Panicked \<Rightarrow> (Some (Refused DPanic), dp, k)
           | Some (Err e) \<Rightarrow>
               (Some (Refused (header_failure stalls fin e)),
                dp\<lparr>vless_auth_failures := vless_auth_failures dp + 1\<rparr>, k)
           | Some (Ok ((u, h, a), rest)) \<Rightarrow>
               if \<not> flow_matches u a then (Some (Refused FlowMismatch), dp, k)
               else (case encode_response_header (version h) default_addons of
                       Inl e \<Rightarrow> (Some (Refused (DHeader e)), dp, k)
                     | Inr resp \<Rightarrow>
                         (case writer_send A w k resp of
                            (Some e, w', k') \<Rightarrow> (Some (Refused e), dp, k')
                          | (None, w', k') \<Rightarrow>
                              (case choose_service h a of
                                 Inl e \<Rightarrow> (Some (Refused e), dp, k')
                               | Inr sv \<Rightarrow> (Some (Opened sv rest fin w'), dp, k'))))))"

definition serve ::
  "aead \<Rightarrow> keystream \<Rightarrow> crypto \<Rightarrow> dispatcher \<Rightarrow> draws \<Rightarrow> nat \<Rightarrow> bool \<Rightarrow> transport_event list \<Rightarrow> sink \<Rightarrow>
     opened option \<times> dispatcher \<times> sink" where
  "serve A ks C dp d now stalls es k =
     (case open_client A ks C dp d now stalls es k of
        (Inl e, dp1, k1) \<Rightarrow> (Some (Refused e), dp1, k1)
      | (Inr (c, es1, w), dp1, k1) \<Rightarrow> serve_request A dp1 stalls c es1 w k1)"

section \<open>The TCP service\<close>

datatype connect_result = Connected target_conn | ConnectFailed io_error | ConnectTimedOut

text \<open>The two readers a TCP service can pull from: the client stream as it is, or through Vision.\<close>

datatype tcp_reader = RawReader | FramedReader vision_reader

fun tcp_poll :: "nat \<Rightarrow> tcp_reader \<Rightarrow> transport_event list \<Rightarrow> read_result \<times> tcp_reader \<times> transport_event list" where
  "tcp_poll room RawReader es =
     (case client_poll room PlainReader es of (x, _, es') \<Rightarrow> (x, RawReader, es'))"
| "tcp_poll room (FramedReader r) es =
     (case vision_poll room r es of (x, r', es') \<Rightarrow> (x, FramedReader r', es'))"

text \<open>\<open>serve_tcp\<close> once a permit is held. \<open>ue\<close> are the reads the client reader answers from now on: some cut of the
  rest of its stream.\<close>

definition serve_tcp ::
  "aead \<Rightarrow> (nat \<Rightarrow> nat \<Rightarrow> nat) \<Rightarrow> bool list \<Rightarrow> dispatcher \<Rightarrow> connect_result \<Rightarrow> bytes option \<Rightarrow> transport_event list \<Rightarrow> target_read list \<Rightarrow>
     protocol_writer \<Rightarrow> sink \<Rightarrow> copy_status \<times> dispatcher \<times> (bool \<times> tcp_reader upload \<times> download) option" where
  "serve_tcp A rnd sched dp conn vision_uuid ue reads w k =
     (case conn of
        ConnectFailed e \<Rightarrow> (Done (Some (DIo e)), dp\<lparr>target_connect_failures := target_connect_failures dp + 1\<rparr>, None)
      | ConnectTimedOut \<Rightarrow> (Done (Some ConnectTimeout), dp\<lparr>target_connect_failures := target_connect_failures dp + 1\<rparr>, None)
      | Connected t \<Rightarrow>
          let dp1 = dp\<lparr>active_target_conns := active_target_conns dp + 1\<rparr>;
              r = (case vision_uuid of None \<Rightarrow> RawReader | Some u \<Rightarrow> FramedReader (new_vision_reader u));
              u = \<lparr>up_reader = r, up_events = ue, up_target = t\<rparr>;
              d = \<lparr>dn_reads = reads, dn_writer = w, dn_sink = k,
                   dn_vision = map_option new_vision_writer vision_uuid, download_bytes = 0\<rparr>
          in (case pump_tcp tcp_poll A rnd sched False u d of
                (Running, s) \<Rightarrow> (Running, dp1, Some s)
              | (Done x, s) \<Rightarrow> (Done x, dp1\<lparr>active_target_conns := active_target_conns dp1 - 1\<rparr>, Some s)))"

section \<open>Who gets a service\<close>

lemma response_header: "encode_response_header v default_addons = Inr [v, 0]"
  by (simp add: encode_response_header_def encode_addons_def default_addons_def XRV_def bytes_of_def)

lemma choose_service_ok:
  assumes "choose_service h a = Inr sv"
  shows "case sv of
      ServeTcp ad p v \<Rightarrow> command h = Tcp \<and> req_address h = Some ad \<and> port h = p \<and> v = (if flow a = XRV then Some (raw_id h) else None)
    | ServeUdp ad p \<Rightarrow> command h = Udp \<and> req_address h = Some ad \<and> port h = p \<and> flow a \<noteq> XRV
    | ServeXudp \<Rightarrow> command h = Mux \<and> flow a \<noteq> XRV"
  using assms by (auto simp: choose_service_def Let_def split: command.splits option.splits if_splits)

text \<open>The user a service is for: one of the table, with the flow the service needs.\<close>

definition entitled :: "validator \<Rightarrow> bytes \<Rightarrow> served \<Rightarrow> bool" where
  "entitled v plain sv \<longleftrightarrow>
     (\<exists>i t u. plain = VERSION # i @ t \<and> length i = 16 \<and> get_shared v i = Some u \<and>
        (case sv of
           ServeTcp ad p None \<Rightarrow> user_flow u = []
         | ServeTcp ad p (Some i') \<Rightarrow> i' = i \<and> user_flow u = XRV
         | _ \<Rightarrow> user_flow u = []))"

lemma serve_request_opened:
  assumes "serve_request A dp stalls c es w k = (Some (Opened sv rest fin w'), dp', k')"
  shows "entitled (dp_validator dp) (fst (read_stream c es)) sv \<and> dp' = dp \<and> snd (read_stream c es) = fin \<and>
    writer_send A w k [VERSION, 0] = (None, w', k') \<and> (\<exists>used. fst (read_stream c es) = used @ rest)"
proof -
  obtain plain f where p: "read_stream c es = (plain, f)" by fastforce
  obtain u h a where d: "decode_request_header_shared (dp_validator dp) plain = Some (Ok ((u, h, a), rest))"
    "flow_matches u a" "choose_service h a = Inr sv" "writer_send A w k [version h, 0] = (None, w', k')"
    "dp' = dp" "f = fin"
    using assms unfolding serve_request_def p
    by (auto simp: response_header split: option.splits res.splits if_splits sum.splits prod.splits)
  from decode_accepts [OF d(1)] choose_service_ok [OF d(3)] d(2)
  have "entitled (dp_validator dp) plain sv"
    by (auto simp: entitled_def flow_matches_def split: served.splits option.splits if_splits)
  with decode_accepts [OF d(1)] d p show ?thesis by auto
qed

lemma foldl_quietly: "sk_left k = None \<Longrightarrow> [] \<notin> set bs \<Longrightarrow> foldl send_quietly k bs = k\<lparr>sk_sent := sk_sent k @ bs\<rparr>"
  by (induction bs arbitrary: k) (auto simp: send_quietly_def sink_send_def)

text \<open>What was sent to a session that is refused for its header or its flow: only the handshake.\<close>

definition before_auth :: "dispatch_error \<Rightarrow> bool" where
  "before_auth e \<longleftrightarrow> (\<exists>h. e = DHeader h) \<or> e = FlowMismatch \<or> e = HandshakeTimeout \<or> (\<exists>h. e = DHandshake h)"

lemma send_records_error:
  "send_records A st x k ps = (Some e, w', k') \<Longrightarrow> \<not> before_auth e"
  by (induction ps arbitrary: st x k)
    (auto simp: before_auth_def split: prod.splits sum.splits option.splits)

lemma writer_send_error: "writer_send A w k b = (Some e, w', k') \<Longrightarrow> \<not> before_auth e"
  using send_records_error by (cases w) (fastforce simp: before_auth_def split: option.splits)+

lemma choose_service_error: "choose_service h a = Inl e \<Longrightarrow> \<not> before_auth e"
  by (auto simp: choose_service_def before_auth_def Let_def split: command.splits option.splits if_splits)

lemma header_before_auth: "before_auth (header_failure stalls fin e) \<and> header_failure stalls fin e \<noteq> FlowMismatch"
  by (auto simp: header_failure_def before_auth_def split: option.splits)

text \<open>A refusal of a user of the table: the response header could not be sent, or the service is not one for Vision.\<close>

definition refused_user :: "aead \<Rightarrow> validator \<Rightarrow> bytes \<Rightarrow> protocol_writer \<Rightarrow> sink \<Rightarrow> dispatch_error \<Rightarrow> sink \<Rightarrow> bool" where
  "refused_user A v plain w k e k' \<longleftrightarrow>
     (\<exists>i t u w'. plain = VERSION # i @ t \<and> length i = 16 \<and> get_shared v i = Some u \<and> user_flow u \<in> {[], XRV} \<and>
        (writer_send A w k [VERSION, 0] = (Some e, w', k') \<or>
         writer_send A w k [VERSION, 0] = (None, w', k') \<and> user_flow u = XRV \<and>
         e \<in> {VisionUdpUnsupported, VisionXudpUnavailable}))"

lemma choose_service_refused:
  assumes "choose_service h a = Inl e" and "command h \<noteq> Reverse" and "req_address h = None \<longleftrightarrow> command h = Mux"
  shows "flow a = XRV \<and> e \<in> {VisionUdpUnsupported, VisionXudpUnavailable}"
  using assms by (auto simp: choose_service_def Let_def split: command.splits option.splits if_splits)

lemma serve_request_refused:
  assumes "serve_request A dp stalls c es w k = (Some (Refused e), dp', k')"
  shows "encryption_handshake_failures dp' = encryption_handshake_failures dp \<and>
    (if before_auth e
     then k' = k \<and> vless_auth_failures dp' = vless_auth_failures dp + (if e = FlowMismatch then 0 else 1)
     else vless_auth_failures dp' = vless_auth_failures dp \<and>
       (e = DPanic \<and> k' = k \<or> refused_user A (dp_validator dp) (fst (read_stream c es)) w k e k'))"
proof -
  obtain plain f where p: "read_stream c es = (plain, f)" by fastforce
  consider (panic) "e = DPanic" "dp' = dp" "k' = k"
    | (header) h where "e = header_failure stalls f h" "dp' = dp\<lparr>vless_auth_failures := vless_auth_failures dp + 1\<rparr>" "k' = k"
    | (flow) "e = FlowMismatch" "dp' = dp" "k' = k"
    | (user) u h a rest w' where "decode_request_header_shared (dp_validator dp) plain = Some (Ok ((u, h, a), rest))"
        "flow_matches u a" "dp' = dp"
        "writer_send A w k [version h, 0] = (Some e, w', k') \<or>
         writer_send A w k [version h, 0] = (None, w', k') \<and> choose_service h a = Inl e"
    using assms unfolding serve_request_def p
    by (auto simp: response_header split: prod.splits option.splits res.splits if_splits sum.splits)
  then show ?thesis
  proof cases
    case panic
    then show ?thesis by (simp add: before_auth_def)
  next
    case header
    then show ?thesis using header_before_auth by simp
  next
    case flow
    then show ?thesis by (simp add: before_auth_def)
  next
    case user
    note d = decode_accepts [OF user(1)]
    have "\<not> before_auth e" using user(4) writer_send_error choose_service_error by blast
    moreover have "refused_user A (dp_validator dp) plain w k e k'"
      using user(2,4) d choose_service_refused [of h a e] unfolding refused_user_def flow_matches_def by fastforce
    ultimately show ?thesis using p user(3) by simp
  qed
qed

lemma open_client_frame:
  assumes "open_client A ks C dp d now stalls es k = (r, dp1, k1)"
  shows "dp_validator dp1 = dp_validator dp \<and> vless_auth_failures dp1 = vless_auth_failures dp \<and>
    (case r of
       Inl e \<Rightarrow> dp_encryption dp \<noteq> None \<and> e \<noteq> FlowMismatch \<and> (before_auth e \<or> e = DPanic) \<and>
         encryption_handshake_failures dp1 = encryption_handshake_failures dp + (if before_auth e then 1 else 0)
     | Inr (c, es1, w) \<Rightarrow>
         encryption_handshake_failures dp1 = encryption_handshake_failures dp \<and>
         (dp_encryption dp = None \<longrightarrow> k1 = k) \<and> (dp_encryption dp \<noteq> None \<longrightarrow> c \<noteq> PlainReader \<and> w \<noteq> PlainWriter))"
  using assms
  by (auto simp: open_client_def Let_def handshake_failure_def before_auth_def split: option.splits prod.splits sum.splits if_splits)

text \<open>
  C2. Only entitled users get a service: whatever arrives on the uplink, when a session goes on to a target,
  its stream starts with the version and the id of a user of the table whose flow is the one the
  service needs (Vision only for TCP and with this id, none for UDP and multiplexed UDP), and when
  encryption is configured it went through the handshake and both directions are encrypted. Every refusal is
  of one of three kinds. One for the handshake, the header or the flow: nothing but the messages
  of the handshake was sent (nothing at all without encryption), and it is counted once, as a failed handshake or
  a failed authentication, except that a wrong flow is not counted. A panic: again nothing more was sent. Or
  the client is a user of the table with one of the two flows, and either the response header, the only thing
  sent after the handshake, could not be sent, or it was sent and the user has the Vision flow but asked for UDP
  or multiplexed UDP; these refusals are not counted.
\<close>

theorem session_authorised:
  "(serve A ks C dp d now stalls es k = (Some (Opened sv rest fin w'), dp', k') \<longrightarrow>
      (\<exists>c es1 w dp1 k1. open_client A ks C dp d now stalls es k = (Inr (c, es1, w), dp1, k1) \<and>
         (dp_encryption dp \<noteq> None \<longrightarrow> c \<noteq> PlainReader \<and> w \<noteq> PlainWriter) \<and>
         entitled (dp_validator dp) (fst (read_stream c es1)) sv \<and> (\<exists>used. fst (read_stream c es1) = used @ rest) \<and>
         writer_send A w k1 [VERSION, 0] = (None, w', k'))) \<and>
   (serve A ks C dp d now stalls es k = (Some (Refused e), dp', k') \<longrightarrow>
      (if before_auth e
       then k' = snd (snd (open_client A ks C dp d now stalls es k)) \<and> (dp_encryption dp = None \<longrightarrow> k' = k) \<and>
         encryption_handshake_failures dp' + vless_auth_failures dp' =
         encryption_handshake_failures dp + vless_auth_failures dp + (if e = FlowMismatch then 0 else 1)
       else encryption_handshake_failures dp' = encryption_handshake_failures dp \<and>
         vless_auth_failures dp' = vless_auth_failures dp \<and>
         (e = DPanic \<and> k' = snd (snd (open_client A ks C dp d now stalls es k)) \<or>
          (\<exists>c es1 w dp1 k1. open_client A ks C dp d now stalls es k = (Inr (c, es1, w), dp1, k1) \<and>
             (dp_encryption dp \<noteq> None \<longrightarrow> c \<noteq> PlainReader \<and> w \<noteq> PlainWriter) \<and>
             refused_user A (dp_validator dp) (fst (read_stream c es1)) w k1 e k'))))"
proof -
  obtain r dp1 k1 where o: "open_client A ks C dp d now stalls es k = (r, dp1, k1)" by (metis prod_cases3)
  note f = open_client_frame [OF o]
  show ?thesis
  proof (cases r)
    case (Inl e1)
    with f o show ?thesis by (auto simp: serve_def)
  next
    case (Inr s)
    obtain c es1 w where s: "s = (c, es1, w)" by (cases s)
    have sv: "serve A ks C dp d now stalls es k = serve_request A dp1 stalls c es1 w k1"
      using o Inr s by (simp add: serve_def)
    show ?thesis (is "(_ \<longrightarrow> ?opened) \<and> (_ \<longrightarrow> ?refused)")
    proof (intro conjI impI)
      assume "serve A ks C dp d now stalls es k = (Some (Opened sv rest fin w'), dp', k')"
      with serve_request_opened [of A dp1 stalls c es1 w k1 sv rest fin w' dp' k'] f Inr s o sv show ?opened by auto
    next
      assume "serve A ks C dp d now stalls es k = (Some (Refused e), dp', k')"
      with serve_request_refused [of A dp1 stalls c es1 w k1 e dp' k'] f Inr s o sv show ?refused
        by (cases "before_auth e") auto
    qed
  qed
qed

section \<open>Relaying a TCP connection\<close>

fun tcp_round :: "nat \<Rightarrow> tcp_reader \<Rightarrow> transport_event list \<Rightarrow> (tcp_reader \<times> transport_event list) loop" where
  "tcp_round room RawReader es = (case tcp_poll room RawReader es of (x, s) \<Rightarrow> Return x s)"
| "tcp_round room (FramedReader r) es =
     (case vision_round room r es of
        Again (r', es') \<Rightarrow> Again (FramedReader r', es')
      | Return x (r', es') \<Rightarrow> Return x (FramedReader r', es'))"

fun tcp_to_come :: "tcp_reader \<Rightarrow> bytes \<Rightarrow> bytes \<times> bool" where
  "tcp_to_come RawReader bs = (bs, True)"
| "tcp_to_come (FramedReader r) bs = to_come r bs"

fun tcp_ok :: "tcp_reader \<Rightarrow> bool" where
  "tcp_ok RawReader = True"
| "tcp_ok (FramedReader r) = reader_ok r"

fun tcp_rank :: "tcp_reader \<Rightarrow> nat" where
  "tcp_rank RawReader = 0"
| "tcp_rank (FramedReader r) = vr_rank r"

lemma tcp_round_sound:
  assumes "healthy es" and "tcp_ok c" and "snd (tcp_to_come c (arriving es))"
  shows "round_sound tcp_ok tcp_to_come c es (tcp_round room c es)"
proof (cases c)
  case RawReader
  with client_round_sound [OF assms(1), of PlainReader room] show ?thesis
    by (auto simp: round_sound_def split: prod.splits inner_poll.splits)
next
  case (FramedReader r)
  with vr.sound [OF assms(1), of r room] assms(2,3) show ?thesis
    by (auto simp: round_sound_def split: loop.splits read_result.splits prod.splits)
qed

lemma tcp_round_eof:
  assumes "healthy es" and "tcp_ok c" and "snd (tcp_to_come c (arriving es))" and "0 < room"
    and "tcp_round room c es = Return (Delivered []) s"
  shows "fst (tcp_to_come c (arriving es)) = []"
proof (cases c)
  case RawReader
  with client_round_eof [OF assms(1), of PlainReader room] assms(4,5) show ?thesis
    by (auto split: prod.splits inner_poll.splits)
next
  case (FramedReader r)
  with vr.at_end [OF assms(1), of r room] assms(2-5) show ?thesis
    by (auto split: loop.splits prod.splits)
qed

interpretation tr: poll_source tcp_round tcp_poll tcp_ok tcp_to_come tcp_rank
proof
  show "tcp_poll room c es =
      (case tcp_round room c es of Again (r', es') \<Rightarrow> tcp_poll room r' es' | Return x s \<Rightarrow> (x, s))" for room c es
    by (cases c) (auto simp: vision_poll.simps [of room] split: loop.splits prod.splits)
  show "((weight es', tcp_rank r'), (weight es, tcp_rank c)) \<in> lex2"
    if "tcp_round room c es = Again (r', es')" for room c es r' es'
    using that vision_round_decreases by (cases c) (fastforce split: loop.splits prod.splits)+
  show "weight es' < weight es" if "tcp_round room c es = Return NotYet (r', es')" for room c es r' es'
    using that vision_round_waits inner_read_waits
    by (cases c) (fastforce split: loop.splits prod.splits inner_poll.splits)+
qed (rule tcp_round_sound tcp_round_eof; assumption)+

text \<open>
  A relay does its job: for every cut of the client stream into reads and every schedule of the two
  directions, the target has at any time a prefix of the payload, and when the upload is over all of it
  with the end of the stream; the client has what the first \<open>m\<close> reads of the target stand for, all of them
  when the connection is over; and enough iterations of either direction bring it to its end.
\<close>

definition relays ::
  "aead \<Rightarrow> dispatcher \<Rightarrow> bytes option \<Rightarrow> bytes \<Rightarrow> bytes \<Rightarrow> nat \<Rightarrow> protocol_writer \<Rightarrow> sink \<Rightarrow> (sink \<Rightarrow> bytes list \<Rightarrow> bool) \<Rightarrow> bool" where
  "relays A dp vision stream pay lim w k gets \<longleftrightarrow>
     (\<forall>rnd ue. healthy ue \<and> arriving ue = stream \<longrightarrow>
        (\<exists>N. \<forall>ds sched st dp' fin up dn.
           (\<forall>b \<in> set ds. b \<noteq> [] \<and> length b \<le> lim) \<and>
           serve_tcp A rnd sched dp (Connected open_target) vision ue (map Got ds) w k = (st, dp', Some (fin, up, dn)) \<longrightarrow>
             prefix (written (up_target up)) pay \<and>
             (fin \<longrightarrow> written (up_target up) = pay \<and> shut (up_target up)) \<and>
             (N \<le> count_list sched True \<and> st = Running \<longrightarrow> fin) \<and>
             (length ds < count_list sched False \<longrightarrow> st = Done None) \<and>
             (\<exists>m. (st = Done None \<longrightarrow> length ds \<le> m) \<and> gets (dn_sink dn) (take m ds))))"

lemma serve_tcp_pump:
  assumes "serve_tcp A rnd sched dp (Connected t) vision ue reads w k = (st, dp', Some (fin, up, dn))"
  shows "pump_tcp tcp_poll A rnd sched False
      \<lparr>up_reader = (case vision of None \<Rightarrow> RawReader | Some u \<Rightarrow> FramedReader (new_vision_reader u)), up_events = ue, up_target = t\<rparr>
      \<lparr>dn_reads = reads, dn_writer = w, dn_sink = k, dn_vision = map_option new_vision_writer vision, download_bytes = 0\<rparr> =
    (st, fin, up, dn)"
  using assms by (auto simp: serve_tcp_def Let_def split: prod.splits copy_status.splits)

lemma relaysI:
  assumes A: "aead_correct A" "aead_total A" and w: "writer_ok w" "sk_left k = None"
    and v: "case vision of None \<Rightarrow> pay = stream | Some u \<Rightarrow> length u = 16 \<and> deframe_stream u stream = (pay, True)"
    and gets: "\<And>rnd ds q w' k'. framed rnd (map_option new_vision_writer vision) ds = Some q \<Longrightarrow> emitted A w k q w' k' \<Longrightarrow>
      \<forall>b \<in> set ds. b \<noteq> [] \<and> length b \<le> lim \<Longrightarrow> gets k' ds"
  shows "relays A dp vision stream pay lim w k gets"
  unfolding relays_def
proof (intro allI impI, elim conjE)
  fix rnd ue assume ue: "healthy ue" "arriving ue = stream"
  let ?r = "case vision of None \<Rightarrow> RawReader | Some u \<Rightarrow> FramedReader (new_vision_reader u)"
  let ?u = "\<lparr>up_reader = ?r, up_events = ue, up_target = open_target\<rparr>"
  have c: "tr.carrying pay ?u"
    using ue v by (cases vision) (simp_all add: tr.carrying_def open_target_def reader_ok_new to_come_new)
  obtain N where N: "\<forall>bs d st fin u' d'. N \<le> count_list bs True \<and> pump_tcp tcp_poll A rnd bs False ?u d = (st, fin, u', d') \<longrightarrow>
      st = Running \<longrightarrow> fin"
    using tr.pump_uploads [OF c] by blast
  show "\<exists>N. \<forall>ds sched st dp' fin up dn.
           (\<forall>b \<in> set ds. b \<noteq> [] \<and> length b \<le> lim) \<and>
           serve_tcp A rnd sched dp (Connected open_target) vision ue (map Got ds) w k = (st, dp', Some (fin, up, dn)) \<longrightarrow>
             prefix (written (up_target up)) pay \<and>
             (fin \<longrightarrow> written (up_target up) = pay \<and> shut (up_target up)) \<and>
             (N \<le> count_list sched True \<and> st = Running \<longrightarrow> fin) \<and>
             (length ds < count_list sched False \<longrightarrow> st = Done None) \<and>
             (\<exists>m. (st = Done None \<longrightarrow> length ds \<le> m) \<and> gets (dn_sink dn) (take m ds))"
  proof (intro exI [of _ N] allI impI, elim conjE)
    fix ds sched st dp' fin up dn
    assume ds: "\<forall>b \<in> set ds. b \<noteq> [] \<and> length b \<le> lim"
      and "serve_tcp A rnd sched dp (Connected open_target) vision ue (map Got ds) w k = (st, dp', Some (fin, up, dn))"
    note pump = serve_tcp_pump [OF this(2)]
    let ?d = "\<lparr>dn_reads = map Got ds, dn_writer = w, dn_sink = k, dn_vision = map_option new_vision_writer vision, download_bytes = 0\<rparr>"
    have d: "writer_ok (dn_writer ?d)" "sk_left (dn_sink ?d) = None" "dn_reads ?d = map Got ds" "[] \<notin> set ds"
      using w ds by auto
    obtain m q where m: "prefix (written (up_target up)) pay" "fin \<longrightarrow> written (up_target up) = pay \<and> shut (up_target up)"
      "length ds < count_list sched False \<longrightarrow> st = Done None"
      "framed (\<lambda>k. rnd (k + (length ds - m))) (dn_vision ?d) (take m ds) = Some q"
      "emitted A (dn_writer ?d) (dn_sink ?d) q (dn_writer dn) (dn_sink dn)" "st = Done None \<longrightarrow> length ds < m"
      using tr.pump_delivers [OF A d c pump] by blast
    have e: "framed (\<lambda>k. rnd (k + (length ds - m))) (map_option new_vision_writer vision) (take m ds) = Some q"
      "emitted A w k q (dn_writer dn) (dn_sink dn)" using m(4,5) by simp_all
    have "\<forall>b \<in> set (take m ds). b \<noteq> [] \<and> length b \<le> lim" using ds by (meson in_set_takeD)
    from gets [OF e this] m(1-3,6) N [rule_format, OF conjI, OF _ pump]
    show "prefix (written (up_target up)) pay \<and> (fin \<longrightarrow> written (up_target up) = pay \<and> shut (up_target up)) \<and>
      (N \<le> count_list sched True \<and> st = Running \<longrightarrow> fin) \<and> (length ds < count_list sched False \<longrightarrow> st = Done None) \<and>
      (\<exists>m. (st = Done None \<longrightarrow> length ds \<le> m) \<and> gets (dn_sink dn) (take m ds))"
      by (auto intro!: exI [of _ m])
  qed
qed

section \<open>Sessions from end to end\<close>

lemma drop_events_ok:
  "healthy es \<Longrightarrow> arriving (drop_events n es) = drop n (arriving es) \<and> healthy (drop_events n es)"
  by (induction n es rule: drop_events.induct) auto

lemma serve_request_ok:
  assumes A: "aead_correct A" "aead_total A" and w: "writer_ok w" "sk_left k = None"
    and i: "length i = 16" "get_shared (dp_validator dp) i = Some u" and ad: "address_ok ad"
    and f: "encode_addons a = Inr field" "user_flow u = (if flow a = XRV then XRV else [])"
    and r: "read_stream c es = (request_bytes i field Tcp (Some (p, ad)) @ rest, None)"
  shows "\<exists>w' k'. serve_request A dp stalls c es w k =
      (Some (Opened (ServeTcp ad p (if flow a = XRV then Some i else None)) rest None w'), dp, k') \<and>
    writer_ok w' \<and> sk_left k' = None \<and> emitted A w k [VERSION, 0] w' k'"
proof -
  have t: "target_ok Tcp (Some (p, ad))" using ad by (simp add: target_ok_def)
  obtain w' k' where s: "writer_send A w k [VERSION, 0] = (None, w', k')" "writer_ok w'" "sk_left k' = None"
      "emitted A w k [VERSION, 0] w' k'"
    using writer_send_ok [OF A w] .
  have "XRV \<noteq> []" "flow default_addons = []" by (simp_all add: XRV_def bytes_of_def default_addons_def)
  with decode_written [OF i t f(1), of rest] f(2) r s show ?thesis
    by (auto simp: serve_request_def flow_matches_def response_header header_of_def choose_service_def Let_def)
qed

lemma serve_plain:
  assumes A: "aead_correct A" "aead_total A" and "dp_encryption dp = None"
    and "length i = 16" "get_shared (dp_validator dp) i = Some u" "address_ok ad"
    and "encode_addons a = Inr field" "user_flow u = (if flow a = XRV then XRV else [])"
    and "healthy es" "arriving es = request_bytes i field Tcp (Some (p, ad)) @ rest" and "sk_left k = None"
  shows "\<exists>k'. serve A ks C dp d now stalls es k =
      (Some (Opened (ServeTcp ad p (if flow a = XRV then Some i else None)) rest None PlainWriter), dp, k') \<and>
    sk_left k' = None \<and> concat (sk_sent k') = concat (sk_sent k) @ [VERSION, 0]"
proof -
  have "read_stream PlainReader es = (request_bytes i field Tcp (Some (p, ad)) @ rest, None)"
    using read_stream_intact [OF assms(9), of PlainReader] assms(10) by simp
  from serve_request_ok [OF A _ assms(11,4,5,6,7,8) this, of PlainWriter stalls] assms(3) show ?thesis
    by (auto simp: serve_def open_client_def emitted.simps)
qed

text \<open>What the client end of an encrypted connection reads from a wire.\<close>

definition client_gets :: "aead \<Rightarrow> aead_state \<Rightarrow> header_xor option \<Rightarrow> bytes \<Rightarrow> bytes \<Rightarrow> bool" where
  "client_gets A st rx wire p \<longleftrightarrow>
     (\<forall>es ns rs r es'. healthy es \<and> arriving es = wire \<and> poll_many er_poll ns (enc_reader_new A st rx) es = (rs, r, es') \<longrightarrow>
        (\<forall>e. ReadErr e \<notin> set rs) \<and> delivered rs @ fst (er_to_come r (arriving es')) = p \<and>
        (\<forall>n > 0. fst (er_poll n r es') = Delivered [] \<longrightarrow> delivered rs = p))"

lemma emitted_gets:
  assumes "emitted A (EncryptedWriter st tx) k p w' k'" and "carries A st tx st' rx" and "writer_ok (EncryptedWriter st tx)"
  shows "\<exists>wire. concat (sk_sent k') = concat (sk_sent k) @ wire \<and> client_gets A st' rx wire p"
proof -
  obtain ps outs st1 wire x' where e: "concat ps = p" "seal_all A st ps = Some (outs, st1)"
      "concat (sk_sent k') = concat (sk_sent k) @ wire"
      "case tx of None \<Rightarrow> x' = None \<and> wire = concat outs
       | Some hx \<Rightarrow> \<exists>hx'. x' = Some hx' \<and> hx_bytes hx (concat outs) = Inr (wire, hx')"
    using assms(1) unfolding emitted.simps by blast
  have "on_wire tx outs wire"
    using e(4) assms(3) by (auto simp: on_wire_def at_boundary_def hx_ok_def apply_pieces_bytes split: option.splits)
  with e assms(2) have "client_gets A st' rx wire p"
    unfolding client_gets_def carries_def by blast
  with e(3) show ?thesis by blast
qed

lemma boundary_outbound: "at_boundary (outbound ks united iv 0)"
  by (simp add: at_boundary_def outbound_def header_xor_new_def)

lemma open_client_encrypted:
  assumes "dp_encryption dp = Some srv" and "healthy es" and "arriving es = wire @ body" and "sk_left k = None"
    and "handshake A ks C srv d now True (wire @ body) = (Inr (res, body), srv', [hello])" and "hello \<noteq> []"
  obtains es1 where "open_client A ks C dp d now stalls es k =
      (Inr (EncryptedReader (enc_reader_new A (hr_decrypt res) (inbound_xor res)), es1,
            EncryptedWriter (hr_encrypt res) (outbound_xor res)),
       dp\<lparr>dp_encryption := Some srv'\<rparr>, k\<lparr>sk_sent := sk_sent k @ [hello]\<rparr>)"
    "healthy es1" "arriving es1 = body"
proof
  show "open_client A ks C dp d now stalls es k =
      (Inr (EncryptedReader (enc_reader_new A (hr_decrypt res) (inbound_xor res)), drop_events (length wire) es,
            EncryptedWriter (hr_encrypt res) (outbound_xor res)),
       dp\<lparr>dp_encryption := Some srv'\<rparr>, k\<lparr>sk_sent := sk_sent k @ [hello]\<rparr>)"
    using assms by (simp add: open_client_def Let_def send_quietly_def sink_send_def)
qed (use drop_events_ok [OF assms(2), of "length wire"] assms(3) in simp_all)

text \<open>Once the two ends agree, the server serves the request and relays both directions.\<close>

lemma encrypted_session:
  assumes A: "aead_correct A" "aead_total A"
    and ag: "agree ks mode res united iv ticket cw cread"
    and hs: "handshake A ks C srv d now True (wire @ body) = (Inr (res, body), srv', [hello])" "hello \<noteq> []"
    and dp: "dp_encryption dp = Some srv" "length i = 16" "get_shared (dp_validator dp) i = Some u" "user_flow u = []" "address_ok ad"
    and es: "healthy es" "arriving es = wire @ body"
    and ps: "seal_all A cw ps = Some (outs, st1)" "on_wire (client_out ks mode united iv) outs body"
      "concat ps = request_bytes i [0] Tcp (Some (p, ad)) @ payload"
  shows "\<exists>w dp' k1. serve A ks C dp d now stalls es \<lparr>sk_sent = [], sk_left = None\<rparr> =
      (Some (Opened (ServeTcp ad p None) payload None w), dp', k1) \<and>
    relays A dp' None payload payload lim w k1
      (\<lambda>k ds. \<exists>down. concat (sk_sent k) = hello @ down \<and>
         client_gets A cread (client_in ks mode united ticket) down ([VERSION, 0] @ concat ds))"
proof -
  let ?k = "\<lparr>sk_sent = [], sk_left = None\<rparr>" and ?r = "enc_reader_new A (hr_decrypt res) (inbound_xor res)"
  let ?w = "EncryptedWriter (hr_encrypt res) (outbound_xor res)" and ?dp = "dp\<lparr>dp_encryption := Some srv'\<rparr>"
  let ?k1 = "?k\<lparr>sk_sent := [hello]\<rparr>"
  obtain es1 where o: "open_client A ks C dp d now stalls es ?k = (Inr (EncryptedReader ?r, es1, ?w), ?dp, ?k1)"
      "healthy es1" "arriving es1 = body"
    using open_client_encrypted [OF dp(1) es _ hs, of ?k stalls] by auto
  have tx: "client_out ks mode united iv = None \<and> inbound_xor res = None \<or>
      client_out ks mode united iv = Some (outbound ks united iv 0) \<and> inbound_xor res = Some (inbound ks united iv 0)"
    using ag by (auto simp: agree_def client_out_def split: if_splits)
  have cw: "hr_decrypt res = cw" using ag by (simp add: agree_def)
  have "read_stream (EncryptedReader ?r) es1 = (request_bytes i [0] Tcp (Some (p, ad)) @ payload, None)"
    using sealed_to_come [OF A(1) ps(1,2) tx] read_stream_intact [OF o(2), of "EncryptedReader ?r"] ps(3) o(3) cw by simp
  moreover have wok: "writer_ok ?w"
    using ag boundary_outbound by (auto simp: agree_def split: if_splits)
  moreover have "encode_addons default_addons = Inr [0]" "flow default_addons = []" "XRV \<noteq> []"
    by (simp_all add: encode_addons_def default_addons_def XRV_def bytes_of_def)
  ultimately obtain w k1 where s: "serve_request A ?dp stalls (EncryptedReader ?r) es1 ?w ?k1 =
      (Some (Opened (ServeTcp ad p None) payload None w), ?dp, k1)"
    "writer_ok w" "sk_left k1 = None" "emitted A ?w ?k1 [VERSION, 0] w k1"
    using serve_request_ok [OF A, of ?w ?k1 i ?dp u ad default_addons "[0]" "EncryptedReader ?r" es1 p payload stalls] dp by auto
  have car: "carries A (hr_encrypt res) (outbound_xor res) cread (client_in ks mode united ticket)"
    using agree_carries [OF A(1) ag] by blast
  have "relays A ?dp None payload payload lim w k1
      (\<lambda>k ds. \<exists>down. concat (sk_sent k) = hello @ down \<and>
         client_gets A cread (client_in ks mode united ticket) down ([VERSION, 0] @ concat ds))"
  proof (rule relaysI [OF A s(2,3)])
    fix rnd ds q w' k' assume "framed rnd (map_option new_vision_writer None) ds = Some q" "emitted A w k1 q w' k'"
    then have "emitted A ?w ?k1 ([VERSION, 0] @ concat ds) w' k'"
      using emitted_trans [OF s(4)] by (simp add: framed_def)
    from emitted_gets [OF this car wok]
    show "\<exists>down. concat (sk_sent k') = hello @ down \<and>
         client_gets A cread (client_in ks mode united ticket) down ([VERSION, 0] @ concat ds)" by simp
  qed simp
  with s(1) o(1) show ?thesis by (auto simp: serve_def)
qed

text \<open>
  C3. An encrypted TCP session from end to end: a client whose relay chain the server accepts sends its
  hello; the server answers with a message from which the client computes keys, whatever follows. When
  the client then sends, sealed under these keys, the request of a user of the table followed by a
  payload, cut into any records and arriving in any pieces, the server opens the session for exactly
  the requested target, and the relay carries both directions: the target gets the payload and its end,
  and the client, reading the downlink in any pieces, gets the response header followed by everything
  the target sent, for every schedule of the two directions.
\<close>

theorem encrypted_tcp_session:
  assumes "aead_correct A" and "aead_total A" and "crypto_correct C"
    and "good_client A ks C srv iv relay_bytes nfs k wire"
    and "kem_keygen C dd zz = (dk, ek)" and "client_hello A iv relay_bytes nfs k (ek @ x_public C x) pad = Some wire"
    and "length pad + 16 < 2 ^ 16"
    and "generate_pfs_response C (d_kem d) (d_secret d) ek (x_public C x) = Inr (response, pfs)"
    and "length (d_ticket d) = 16"
    and "lifetime_to (s_config srv) = 0 \<or> lifetime_from (s_config srv) \<le> lifetime_to (s_config srv)"
    and "dp_encryption dp = Some srv" and "length i = 16" and "get_shared (dp_validator dp) i = Some u"
    and "user_flow u = []" and "address_ok ad"
  shows "\<exists>hello ticket united cread. client_open A C k iv nfs dk x hello = Some (ticket, united, cread) \<and>
    (\<forall>ps outs st body payload es.
       seal_all A (aead_state_new (ek @ x_public C x) united k) ps = Some (outs, st) \<and>
       on_wire (client_out ks (ec_mode (s_config srv)) united iv) outs body \<and>
       concat ps = request_bytes i [0] Tcp (Some (p, ad)) @ payload \<and>
       healthy es \<and> arriving es = wire @ body \<longrightarrow>
         (\<exists>w dp' k1. serve A ks C dp d now stalls es \<lparr>sk_sent = [], sk_left = None\<rparr> =
              (Some (Opened (ServeTcp ad p None) payload None w), dp', k1) \<and>
            relays A dp' None payload payload (32 * 1024) w k1
              (\<lambda>k ds. \<exists>down. concat (sk_sent k) = hello @ down \<and>
                 client_gets A cread (client_in ks (ec_mode (s_config srv)) united ticket) down ([VERSION, 0] @ concat ds))))"
proof -
  obtain res srv' hello ticket united cread where h:
    "\<And>body. handshake A ks C srv d now True (wire @ body) = (Inr (res, body), srv', [hello])" "length hello = 1279"
    "client_open A C k iv nfs dk x hello = Some (ticket, united, cread)"
    "agree ks (ec_mode (s_config srv)) res united iv ticket (aead_state_new (ek @ x_public C x) united k) cread"
    using handshake_agrees [OF assms(1-10), of now] by blast
  have "hello \<noteq> []" using h(2) by auto
  note S = encrypted_session [OF assms(1,2) h(4,1) this assms(11-15)]
  show ?thesis
    by (intro exI conjI, rule h(3), intro allI impI, elim conjE, rule S; assumption)
qed

text \<open>
  C13. A Vision TCP session from end to end, without encryption: for a user with the Vision flow whose request
  is followed by a framed stream under its id, the server opens the session with this id; the target
  gets exactly the deframed payload and its end; and what the client receives after the response header
  is deframed to everything the target sent, as long as no read of the target is larger than one frame
  takes.
\<close>

theorem vision_tcp_session:
  assumes "aead_correct A" and "aead_total A" and "dp_encryption dp = None"
    and "length i = 16" and "get_shared (dp_validator dp) i = Some u" and "user_flow u = XRV" and "address_ok ad"
    and "encode_addons \<lparr>flow = XRV, seed = sd\<rparr> = Inr field"
    and "healthy es" and "arriving es = request_bytes i field Tcp (Some (p, ad)) @ stream"
    and "deframe_stream i stream = (payload, True)"
  shows "\<exists>k1. serve A ks C dp d now stalls es \<lparr>sk_sent = [], sk_left = None\<rparr> =
      (Some (Opened (ServeTcp ad p (Some i)) stream None PlainWriter), dp, k1) \<and>
    relays A dp (Some i) stream payload MAX_FRAME_CONTENT PlainWriter k1
      (\<lambda>k ds. \<exists>frames. concat (sk_sent k) = [VERSION, 0] @ frames \<and>
         (ds \<noteq> [] \<longrightarrow> deframe_stream i frames = (concat ds, True)))"
proof -
  have "user_flow u = (if flow \<lparr>flow = XRV, seed = sd\<rparr> = XRV then XRV else [])" using assms(6) by simp
  from serve_plain [OF assms(1-5,7,8) this assms(9,10), of "\<lparr>sk_sent = [], sk_left = None\<rparr>" ks C d now stalls]
  obtain k1 where s: "serve A ks C dp d now stalls es \<lparr>sk_sent = [], sk_left = None\<rparr> =
      (Some (Opened (ServeTcp ad p (Some i)) stream None PlainWriter), dp, k1)"
    "sk_left k1 = None" "concat (sk_sent k1) = [VERSION, 0]" by auto
  have "relays A dp (Some i) stream payload MAX_FRAME_CONTENT PlainWriter k1
      (\<lambda>k ds. \<exists>frames. concat (sk_sent k) = [VERSION, 0] @ frames \<and>
         (ds \<noteq> [] \<longrightarrow> deframe_stream i frames = (concat ds, True)))"
  proof (rule relaysI [OF assms(1,2) _ s(2)])
    fix rnd ds q w' k'
    assume f: "framed rnd (map_option new_vision_writer (Some i)) ds = Some q" "emitted A PlainWriter k1 q w' k'"
      and "\<forall>b \<in> set ds. b \<noteq> [] \<and> length b \<le> MAX_FRAME_CONTENT"
    then have "ds \<noteq> [] \<longrightarrow> deframe_stream i q = (concat ds, True)"
      using written_deframed [OF assms(4), of ds rnd] by (auto simp: framed_def split: sum.splits)
    with f(2) s(3) show "\<exists>frames. concat (sk_sent k') = [VERSION, 0] @ frames \<and>
         (ds \<noteq> [] \<longrightarrow> deframe_stream i frames = (concat ds, True))"
      by (simp add: emitted.simps)
  qed (use assms(4,11) in simp_all)
  with s(1) show ?thesis by blast
qed

text \<open>A session of each kind on concrete values.\<close>

definition demo_user :: "bytes \<Rightarrow> user" where
  "demo_user f = \<lparr>user_id = replicate 16 5, email = [], user_flow = f\<rparr>"

definition demo_dispatcher :: "bytes \<Rightarrow> dispatcher" where
  "demo_dispatcher f = new_dispatcher (new_validator [demo_user f]) 4"

lemma demo_lookup: "\<exists>u. get_shared (dp_validator (demo_dispatcher f)) (replicate 16 5) = Some u \<and> user_flow u = f"
  by (simp add: demo_dispatcher_def new_dispatcher_def demo_user_def new_validator_def get_shared_def insert_user_def Let_def process_uuid_def)

lemma demo_plain: "dp_encryption (demo_dispatcher f) = None"
  by (simp add: demo_dispatcher_def new_dispatcher_def)

theorem session_authorised_witness:
  "\<exists>sv rest fin w dp' k'.
     serve toy_aead (\<lambda>_ _ _. 0) toy_crypto (demo_dispatcher []) demo_draws 50 False
       [Arrives (request_bytes (replicate 16 5) [0] Tcp (Some (80, Ipv4 1 2 3 4)) @ [9])] \<lparr>sk_sent = [], sk_left = None\<rparr> =
     (Some (Opened sv rest fin w), dp', k') \<and> entitled (dp_validator (demo_dispatcher []))
       (request_bytes (replicate 16 5) [0] Tcp (Some (80, Ipv4 1 2 3 4)) @ [9]) sv"
proof -
  let ?b = "request_bytes (replicate 16 5) [0] Tcp (Some (80, Ipv4 1 2 3 4)) @ [9]"
  obtain u where u: "get_shared (dp_validator (demo_dispatcher [])) (replicate 16 5) = Some u" "user_flow u = []"
    using demo_lookup by blast
  have d: "encode_addons default_addons = Inr [0]" "user_flow u = (if flow default_addons = XRV then XRV else [])"
    using u by (simp_all add: encode_addons_def default_addons_def XRV_def bytes_of_def)
  obtain sv k' where s: "serve toy_aead (\<lambda>_ _ _. 0) toy_crypto (demo_dispatcher []) demo_draws 50 False [Arrives ?b]
      \<lparr>sk_sent = [], sk_left = None\<rparr> = (Some (Opened sv [9] None PlainWriter), demo_dispatcher [], k')"
    using serve_plain [OF toy_aead_correct toy_aead_total demo_plain _ u(1) _ d, of "Ipv4 1 2 3 4" "[Arrives ?b]" 80 "[9]"
      "\<lparr>sk_sent = [], sk_left = None\<rparr>" "\<lambda>_ _ _. 0" toy_crypto demo_draws 50 False] by (auto simp: request_bytes_def)
  moreover have "read_stream PlainReader [Arrives ?b] = (?b, None)"
    using read_stream_intact [of "[Arrives ?b]" PlainReader] by (simp add: request_bytes_def)
  ultimately show ?thesis
    using session_authorised [of toy_aead "\<lambda>_ _ _. 0" toy_crypto "demo_dispatcher []" demo_draws 50 False "[Arrives ?b]"
      "\<lparr>sk_sent = [], sk_left = None\<rparr>" sv "[9]" None PlainWriter "demo_dispatcher []" k']
    by (auto simp: open_client_def demo_plain)
qed

theorem encrypted_tcp_session_witness:
  "\<exists>wire body hello w dp' k1 gets.
     serve toy_aead (\<lambda>_ _ _. 0) toy_crypto (with_encryption (Some demo_server) (demo_dispatcher [])) demo_draws 50 False
       [Arrives (wire @ body)] \<lparr>sk_sent = [], sk_left = None\<rparr> =
     (Some (Opened (ServeTcp (Ipv4 1 2 3 4) 80 None) [7, 8, 9] None w), dp', k1) \<and>
     relays toy_aead dp' None [7, 8, 9] [7, 8, 9] (32 * 1024) w k1 gets"
proof -
  obtain u where u: "get_shared (dp_validator (demo_dispatcher [])) (replicate 16 5) = Some u" "user_flow u = []"
    using demo_lookup by blast
  obtain wire where w: "client_hello toy_aead (replicate 16 5) (replicate 32 2) demo_nfs Aes256Gcm
    (replicate 1184 0 @ x_public toy_crypto [8]) [] = Some wire" by (rule demo_hello)
  then have ne: "wire \<noteq> []" by (auto simp: client_hello_def split: prod.splits sum.splits option.splits)
  obtain response pfs where g: "generate_pfs_response toy_crypto (d_kem demo_draws) (d_secret demo_draws)
    (replicate 1184 0) (x_public toy_crypto [8]) = Inr (response, pfs)" by (rule demo_pfs)
  have c: "length (d_ticket demo_draws) = 16" "lifetime_to (s_config demo_server) = 0" "ec_mode (s_config demo_server) = Native"
    by (simp_all add: demo_draws_def demo_server_def)
  have dp: "dp_encryption (with_encryption (Some demo_server) (demo_dispatcher [])) = Some demo_server"
    "get_shared (dp_validator (with_encryption (Some demo_server) (demo_dispatcher []))) (replicate 16 5) = Some u"
    using u by (simp_all add: with_encryption_def)
  let ?p = "request_bytes (replicate 16 5) [0] Tcp (Some (80, Ipv4 1 2 3 4)) @ [7, 8, 9]"
  have p: "0 < length ?p" "length ?p \<le> 8192"
    by (simp_all add: request_bytes_def write_port_then_address_def)
  have life: "lifetime_to (s_config demo_server) = 0 \<or> lifetime_from (s_config demo_server) \<le> lifetime_to (s_config demo_server)"
    using c(2) by simp
  obtain hello ticket united cread where S: "\<And>ps outs st body payload es.
       seal_all toy_aead (aead_state_new (replicate 1184 0 @ x_public toy_crypto [8]) united Aes256Gcm) ps = Some (outs, st) \<Longrightarrow>
       on_wire (client_out (\<lambda>_ _ _. 0) (ec_mode (s_config demo_server)) united (replicate 16 5)) outs body \<Longrightarrow>
       concat ps = request_bytes (replicate 16 5) [0] Tcp (Some (80, Ipv4 1 2 3 4)) @ payload \<Longrightarrow>
       healthy es \<Longrightarrow> arriving es = wire @ body \<Longrightarrow>
       \<exists>w dp' k1. serve toy_aead (\<lambda>_ _ _. 0) toy_crypto (with_encryption (Some demo_server) (demo_dispatcher [])) demo_draws 50 False es
         \<lparr>sk_sent = [], sk_left = None\<rparr> = (Some (Opened (ServeTcp (Ipv4 1 2 3 4) 80 None) payload None w), dp', k1) \<and>
         relays toy_aead dp' None payload payload (32 * 1024) w k1
           (\<lambda>k ds. \<exists>down. concat (sk_sent k) = hello @ down \<and>
              client_gets toy_aead cread (client_in (\<lambda>_ _ _. 0) (ec_mode (s_config demo_server)) united ticket) down ([VERSION, 0] @ concat ds))"
    using encrypted_tcp_session [OF toy_aead_correct toy_aead_total toy_crypto_correct demo_client demo_keygen w _ g c(1) life dp(1) _ dp(2) u(2),
      of "Ipv4 1 2 3 4" 80 50 False]
    by (simp del: One_nat_def) blast
  obtain out st where o: "seal toy_aead (aead_state_new (replicate 1184 0 @ x_public toy_crypto [8]) united Aes256Gcm) ?p = (Inr out, st)"
    using toy_seal [OF p] by blast
  show ?thesis
    using S [of "[?p]" "[out]" st out "[7, 8, 9]" "[Arrives (wire @ out)]"] o ne c(3)
    by (simp add: client_out_def on_wire_def) blast
qed

theorem vision_tcp_session_witness:
  "\<exists>field k1 gets.
     serve toy_aead (\<lambda>_ _ _. 0) toy_crypto (demo_dispatcher XRV) demo_draws 50 False
       [Arrives (request_bytes (replicate 16 5) field Tcp (Some (80, Ipv4 1 2 3 4)) @ replicate 16 5 @ [2, 0, 2, 0, 1, 5, 6, 0])]
       \<lparr>sk_sent = [], sk_left = None\<rparr> =
     (Some (Opened (ServeTcp (Ipv4 1 2 3 4) 80 (Some (replicate 16 5))) (replicate 16 5 @ [2, 0, 2, 0, 1, 5, 6, 0]) None PlainWriter),
      demo_dispatcher XRV, k1) \<and>
     relays toy_aead (demo_dispatcher XRV) (Some (replicate 16 5)) (replicate 16 5 @ [2, 0, 2, 0, 1, 5, 6, 0]) [5, 6]
       MAX_FRAME_CONTENT PlainWriter k1 gets"
proof -
  let ?s = "replicate 16 (5 :: u8) @ [2, 0, 2, 0, 1, 5, 6, 0]"
  obtain u where u: "get_shared (dp_validator (demo_dispatcher XRV)) (replicate 16 5) = Some u" "user_flow u = XRV"
    using demo_lookup by blast
  obtain field where f: "encode_addons \<lparr>flow = XRV, seed = []\<rparr> = Inr field"
    by (simp add: encode_addons_def XRV_def bytes_of_def Let_def write_varint.simps)
  have d: "deframe_stream (replicate 16 5) ?s = ([5, 6], True)"
    by (simp add: deframe_stream_def deframe.simps known_command_def vision_commands Let_def len16_def from_be16_def)
  show ?thesis
    using vision_tcp_session [OF toy_aead_correct toy_aead_total demo_plain _ u _ f _ _ d,
      of "Ipv4 1 2 3 4" "[Arrives (request_bytes (replicate 16 5) field Tcp (Some (80, Ipv4 1 2 3 4)) @ ?s)]" 80 "\<lambda>_ _ _. 0" toy_crypto demo_draws 50 False]
    by (auto simp: request_bytes_def)
qed

end
