(* ===== verification/UdpRelay.thy ===== *)
theory UdpRelay
  imports Dispatcher
begin

text \<open>
  The UDP service of the dispatcher, \<open>serve_udp\<close> in \<^verbatim>\<open>src/dispatcher.rs\<close>, and the resolution of targets both UDP
  services use. What happens around the loop is a list of events: bytes become readable on the client
  stream, the stream ends, the datagram branch of \<open>select!\<close> is polled, a datagram or an error comes from the
  target, the idle timer fires. The branch that reads a datagram takes bytes out of the client stream
  before it has all of them; \<open>ur_part\<close> is what it holds. When the other branch completes, the future
  is dropped with these bytes.
\<close>

section \<open>Targets\<close>

datatype ip_addr = V4 u8 u8 u8 u8 | V6 bytes

record socket_addr =
  sa_ip :: ip_addr
  sa_port :: u16

fun is_ipv6 :: "ip_addr \<Rightarrow> bool" where
  "is_ipv6 (V4 a b c d) = False"
| "is_ipv6 (V6 o6) = True"

text \<open>The name lookup of the system is the argument \<open>look\<close>.\<close>

type_synonym lookup = "bytes \<Rightarrow> u16 \<Rightarrow> io_error + socket_addr list"

fun resolve_address :: "lookup \<Rightarrow> address \<Rightarrow> u16 \<Rightarrow> dispatch_error + socket_addr" where
  "resolve_address look (Ipv4 a b c d) p = Inr \<lparr>sa_ip = V4 a b c d, sa_port = p\<rparr>"
| "resolve_address look (Ipv6 o6) p = Inr \<lparr>sa_ip = V6 o6, sa_port = p\<rparr>"
| "resolve_address look (Domain d) p =
     (case look d p of
        Inl e \<Rightarrow> Inl (DIo e)
      | Inr [] \<Rightarrow> Inl MissingAddress
      | Inr (a # _) \<Rightarrow> Inr a)"

definition resolve_target :: "lookup \<Rightarrow> target \<Rightarrow> dispatch_error + socket_addr" where
  "resolve_target look t = resolve_address look (tg_address t) (tg_port t)"

definition socket_target :: "socket_addr \<Rightarrow> target" where
  "socket_target s =
     \<lparr>tg_address = (case sa_ip s of V4 a b c d \<Rightarrow> Ipv4 a b c d | V6 o6 \<Rightarrow> Ipv6 o6), tg_port = sa_port s\<rparr>"

definition bind_address :: "socket_addr \<Rightarrow> string" where
  "bind_address s = (if is_ipv6 (sa_ip s) then ''[::]:0'' else ''0.0.0.0:0'')"

text \<open>The address of a reply, sent as a target, resolves to where the reply came from.\<close>

lemma resolve_socket_target: "resolve_target look (socket_target s) = Inr s"
  by (cases s) (auto simp: resolve_target_def socket_target_def split: ip_addr.splits)

section \<open>The loop\<close>

record udp_relay =
  ur_avail :: bytes
  ur_closed :: "io_error option"
  ur_part :: bytes
  ur_sent :: "bytes list"
  ur_writer :: protocol_writer
  ur_sink :: sink
  ur_download_bytes :: u64

datatype udp_event =
    ClientBytes bytes | ClientEnds io_error | PollClient | FromTarget bytes | TargetFails io_error | Idle

definition RECEIVE_BUF :: nat where "RECEIVE_BUF = 65535"

text \<open>One poll of the datagram branch: it takes everything readable it needs, and completes or keeps what it
  has. \<open>tx\<close> is the outcome of sending a datagram on the socket.\<close>

definition poll_datagram :: "(bytes \<Rightarrow> io_error option) \<Rightarrow> udp_relay \<Rightarrow> copy_status \<times> udp_relay" where
  "poll_datagram tx u =
     (case read_plain_datagram (ur_part u @ ur_avail u) of
        Inr (d, rest) \<Rightarrow>
          (let u1 = u\<lparr>ur_part := [], ur_avail := rest\<rparr>
           in case tx d of
                Some e \<Rightarrow> (Done (Some (DIo e)), u1)
              | None \<Rightarrow> (Running, u1\<lparr>ur_sent := ur_sent u @ [d]\<rparr>))
      | Inl _ \<Rightarrow>
          (let u1 = u\<lparr>ur_part := ur_part u @ ur_avail u, ur_avail := []\<rparr>
           in case ur_closed u of
                Some e \<Rightarrow> (Done (Some (DXudp (XIo e))), u1)
              | None \<Rightarrow> (Running, u1)))"

text \<open>The receive branch completes: the datagram future is dropped.\<close>

definition receive_datagram :: "aead \<Rightarrow> bytes \<Rightarrow> udp_relay \<Rightarrow> copy_status \<times> udp_relay" where
  "receive_datagram A d u =
     (let p = take RECEIVE_BUF d;
          u1 = u\<lparr>ur_part := [], ur_download_bytes := ur_download_bytes u + of_nat (length p)\<rparr>
      in case encode_plain_datagram p of
           Inl e \<Rightarrow> (Done (Some (DXudp e)), u1)
         | Inr b \<Rightarrow>
             (case writer_send A (ur_writer u) (ur_sink u) b of
                (Some e, w, k) \<Rightarrow> (Done (Some e), u1\<lparr>ur_writer := w, ur_sink := k\<rparr>)
              | (None, w, k) \<Rightarrow> (Running, u1\<lparr>ur_writer := w, ur_sink := k\<rparr>)))"

fun udp_step :: "aead \<Rightarrow> (bytes \<Rightarrow> io_error option) \<Rightarrow> udp_relay \<Rightarrow> udp_event \<Rightarrow> copy_status \<times> udp_relay" where
  "udp_step A tx u (ClientBytes b) =
     (Running, if ur_closed u = None then u\<lparr>ur_avail := ur_avail u @ b\<rparr> else u)"
| "udp_step A tx u (ClientEnds e) = (Running, if ur_closed u = None then u\<lparr>ur_closed := Some e\<rparr> else u)"
| "udp_step A tx u PollClient = poll_datagram tx u"
| "udp_step A tx u (FromTarget d) = receive_datagram A d u"
| "udp_step A tx u (TargetFails e) = (Done (Some (DIo e)), u)"
| "udp_step A tx u Idle = (Done (Some UdpIdle), u)"

fun udp_run :: "aead \<Rightarrow> (bytes \<Rightarrow> io_error option) \<Rightarrow> udp_relay \<Rightarrow> udp_event list \<Rightarrow> copy_status \<times> udp_relay" where
  "udp_run A tx u [] = (Running, u)"
| "udp_run A tx u (e # es) =
     (case udp_step A tx u e of (Running, u') \<Rightarrow> udp_run A tx u' es | (Done x, u') \<Rightarrow> (Done x, u'))"

definition udp_start :: "protocol_writer \<Rightarrow> sink \<Rightarrow> udp_relay" where
  "udp_start w k =
     \<lparr>ur_avail = [], ur_closed = None, ur_part = [], ur_sent = [], ur_writer = w, ur_sink = k, ur_download_bytes = 0\<rparr>"

text \<open>The service once a permit is held: \<open>late\<close> says that a name lookup takes longer than the connect timeout,
  \<open>bind\<close> and \<open>conn\<close> are the outcomes of opening the socket.\<close>

definition serve_udp ::
  "aead \<Rightarrow> lookup \<Rightarrow> bool \<Rightarrow> (string \<Rightarrow> io_error option) \<Rightarrow> (socket_addr \<Rightarrow> io_error option) \<Rightarrow> (bytes \<Rightarrow> io_error option) \<Rightarrow>
     dispatcher \<Rightarrow> address \<Rightarrow> u16 \<Rightarrow> udp_event list \<Rightarrow> protocol_writer \<Rightarrow> sink \<Rightarrow> copy_status \<times> dispatcher \<times> udp_relay option" where
  "serve_udp A look late bind conn tx dp ad p evs w k =
     (if (case ad of Domain d \<Rightarrow> late | _ \<Rightarrow> False) then (Done (Some ConnectTimeout), dp, None)
      else case resolve_address look ad p of
             Inl e \<Rightarrow> (Done (Some e), dp, None)
           | Inr s \<Rightarrow>
               (case bind (bind_address s) of
                  Some e \<Rightarrow> (Done (Some (DIo e)), dp, None)
                | None \<Rightarrow>
                    (case conn s of
                       Some e \<Rightarrow> (Done (Some (DIo e)), dp, None)
                     | None \<Rightarrow>
                         let dp1 = dp\<lparr>active_target_conns := active_target_conns dp + 1\<rparr>
                         in case udp_run A tx (udp_start w k) evs of
                              (Running, u) \<Rightarrow> (Running, dp1, Some u)
                            | (Done x, u) \<Rightarrow>
                                (Done x, dp1\<lparr>active_target_conns := active_target_conns dp1 - 1\<rparr>, Some u))))"

section \<open>What is relayed\<close>

fun client_bytes :: "udp_event list \<Rightarrow> bytes" where
  "client_bytes [] = []"
| "client_bytes (ClientBytes b # es) = b @ client_bytes es"
| "client_bytes (ClientEnds e # es) = []"
| "client_bytes (_ # es) = client_bytes es"

fun from_target :: "udp_event list \<Rightarrow> bytes list" where
  "from_target [] = []"
| "from_target (FromTarget d # es) = d # from_target es"
| "from_target (_ # es) = from_target es"

text \<open>No datagram of the target arrives while the client's next one is partly read.\<close>

fun undisturbed :: "aead \<Rightarrow> (bytes \<Rightarrow> io_error option) \<Rightarrow> udp_relay \<Rightarrow> udp_event list \<Rightarrow> bool" where
  "undisturbed A tx u [] = True"
| "undisturbed A tx u (e # es) =
     ((case e of FromTarget d \<Rightarrow> ur_part u = [] | _ \<Rightarrow> True) \<and>
      (case udp_step A tx u e of (Running, u') \<Rightarrow> undisturbed A tx u' es | (Done x, u') \<Rightarrow> True))"

lemma read_datagram_encoded:
  assumes "read_plain_datagram s = Inr (d, rest)"
  shows "\<exists>b. encode_plain_datagram d = Inr b \<and> s = b @ rest"
proof -
  obtain a b s1 where s: "s = a # b # s1" "read_exact (unat (from_be16 a b)) s1 = Inr (d, rest)"
    using assms by (auto simp: read_plain_datagram_def read_u16_Inr split: sum.splits)
  then have d: "s1 = d @ rest" "length d = unat (from_be16 a b)" using read_exact_Inr by blast+
  have "length d < 2 ^ 16" using d(2) unsigned_less [of "from_be16 a b"] by simp
  moreover have "be_len16 (length d) = [a, b]" using d(2) by (simp add: be_len16_def to_be16_from_be16)
  ultimately show ?thesis using s d by (simp add: encode_plain_datagram_def)
qed

definition relayed :: "bytes \<Rightarrow> udp_relay \<Rightarrow> bool" where
  "relayed s u \<longleftrightarrow> (\<exists>bs. write_many encode_plain_datagram (ur_sent u) = Inr bs \<and> bs @ ur_part u @ ur_avail u = s)"

lemma relayed_prefix: "relayed s u \<Longrightarrow> \<exists>bs. write_many encode_plain_datagram (ur_sent u) = Inr bs \<and> prefix bs (s @ t)"
  by (auto simp: relayed_def)

lemma poll_datagram_relayed:
  assumes "relayed s u" and "poll_datagram tx u = (st, u')"
  shows "(st = Running \<longrightarrow> relayed s u') \<and> ur_closed u' = ur_closed u \<and>
    (\<exists>bs. write_many encode_plain_datagram (ur_sent u') = Inr bs \<and> prefix bs s)"
proof -
  obtain bs where bs: "write_many encode_plain_datagram (ur_sent u) = Inr bs" "bs @ ur_part u @ ur_avail u = s"
    using assms(1) by (auto simp: relayed_def)
  show ?thesis
  proof (cases "read_plain_datagram (ur_part u @ ur_avail u)")
    case (Inl e)
    with assms(2) bs show ?thesis
      by (auto simp: poll_datagram_def Let_def relayed_def split: option.splits)
  next
    case (Inr r)
    obtain d rest where r: "r = (d, rest)" by fastforce
    with Inr read_datagram_encoded obtain b where b: "encode_plain_datagram d = Inr b" "ur_part u @ ur_avail u = b @ rest"
      by blast
    with bs r Inr assms(2) write_many_snoc [OF bs(1) b(1)] show ?thesis
      by (auto simp: poll_datagram_def Let_def relayed_def split: option.splits)
  qed
qed

lemma receive_datagram_frame:
  assumes "receive_datagram A d u = (st, u')"
  shows "ur_sent u' = ur_sent u \<and> ur_avail u' = ur_avail u \<and> ur_closed u' = ur_closed u \<and> ur_part u' = []"
  using assms by (auto simp: receive_datagram_def Let_def split: sum.splits prod.splits option.splits)

text \<open>The bytes that can still be read when the stream is open or closed.\<close>

definition still :: "udp_relay \<Rightarrow> udp_event list \<Rightarrow> bytes" where
  "still u es = (if ur_closed u = None then client_bytes es else [])"

lemma udp_run_up:
  assumes "relayed s u" and "undisturbed A tx u es" and "udp_run A tx u es = (st, u')"
  shows "(st = Running \<longrightarrow> relayed (s @ still u es) u') \<and>
    (\<exists>bs. write_many encode_plain_datagram (ur_sent u') = Inr bs \<and> prefix bs (s @ still u es))"
  using assms
proof (induction es arbitrary: u s)
  case Nil
  then show ?case by (auto simp: still_def relayed_def)
next
  case (Cons e es)
  note go = Cons.IH and prems = Cons.prems
  show ?case
  proof (cases e)
    case (ClientBytes b)
    let ?u = "snd (udp_step A tx u e)"
    have "relayed (s @ (if ur_closed u = None then b else [])) ?u"
      using ClientBytes prems(1) by (auto simp: relayed_def)
    from go [OF this] ClientBytes prems(2,3) show ?thesis by (auto simp: still_def split: if_splits)
  next
    case (ClientEnds x)
    let ?u = "snd (udp_step A tx u e)"
    have "relayed s ?u" using ClientEnds prems(1) by (auto simp: relayed_def)
    from go [OF this] ClientEnds prems(2,3) show ?thesis by (auto simp: still_def split: if_splits)
  next
    case PollClient
    obtain x u1 where p: "poll_datagram tx u = (x, u1)" by fastforce
    note k = poll_datagram_relayed [OF prems(1) p]
    show ?thesis
    proof (cases x)
      case Running
      with PollClient p k prems go [of s u1] show ?thesis by (auto simp: still_def)
    next
      case (Done y)
      with PollClient p k prems show ?thesis by (auto simp: still_def)
    qed
  next
    case (FromTarget d)
    obtain x u1 where p: "receive_datagram A d u = (x, u1)" by fastforce
    have pt: "ur_part u = []" using prems(2) FromTarget by simp
    note k = receive_datagram_frame [OF p]
    have r: "relayed s u1" using prems(1) k pt by (simp add: relayed_def)
    show ?thesis
    proof (cases x)
      case Running
      with FromTarget p k r prems go [of s u1] show ?thesis by (auto simp: still_def)
    next
      case (Done y)
      with FromTarget p prems r relayed_prefix [OF r] show ?thesis by auto
    qed
  next
    case (TargetFails y)
    with prems relayed_prefix [OF prems(1)] show ?thesis by auto
  next
    case Idle
    with prems relayed_prefix [OF prems(1)] show ?thesis by auto
  qed
qed

lemma receive_datagram_ok:
  assumes "aead_correct A" and "aead_total A" and "writer_ok (ur_writer u)" and "sk_left (ur_sink u) = None"
  obtains u' b where "receive_datagram A d u = (Running, u')" "encode_plain_datagram (take RECEIVE_BUF d) = Inr b"
    "writer_ok (ur_writer u')" "sk_left (ur_sink u') = None" "emitted A (ur_writer u) (ur_sink u) b (ur_writer u') (ur_sink u')"
proof -
  obtain b where b: "encode_plain_datagram (take RECEIVE_BUF d) = Inr b"
    by (simp add: encode_plain_datagram_def RECEIVE_BUF_def)
  obtain w k where "writer_send A (ur_writer u) (ur_sink u) b = (None, w, k)" "writer_ok w" "sk_left k = None"
      "emitted A (ur_writer u) (ur_sink u) b w k"
    using writer_send_ok [OF assms] .
  with b that show thesis by (simp add: receive_datagram_def Let_def)
qed

lemma poll_datagram_frame:
  "poll_datagram tx u = (st, u') \<Longrightarrow> ur_writer u' = ur_writer u \<and> ur_sink u' = ur_sink u"
  by (auto simp: poll_datagram_def Let_def split: sum.splits option.splits)

lemma udp_run_down:
  assumes "aead_correct A" and "aead_total A" and "writer_ok (ur_writer u)" and "sk_left (ur_sink u) = None"
    and "udp_run A tx u es = (st, u')"
  shows "\<exists>n q. (st = Running \<longrightarrow> n = length es) \<and>
    write_many encode_plain_datagram (map (take RECEIVE_BUF) (from_target (take n es))) = Inr q \<and>
    emitted A (ur_writer u) (ur_sink u) q (ur_writer u') (ur_sink u')"
  using assms(3-5)
proof (induction es arbitrary: u)
  case Nil
  then show ?case by (simp add: emitted_refl)
next
  case (Cons e es)
  show ?case
  proof (cases "\<exists>d. e = FromTarget d")
    case True
    then obtain d where e: "e = FromTarget d" ..
    obtain u1 b where 1: "receive_datagram A d u = (Running, u1)" "encode_plain_datagram (take RECEIVE_BUF d) = Inr b"
      "writer_ok (ur_writer u1)" "sk_left (ur_sink u1) = None" "emitted A (ur_writer u) (ur_sink u) b (ur_writer u1) (ur_sink u1)"
      using receive_datagram_ok [OF assms(1,2) Cons.prems(1,2)] .
    with Cons.IH [OF 1(3,4)] Cons.prems(3) e obtain n q where "st = Running \<longrightarrow> n = length es"
      "write_many encode_plain_datagram (map (take RECEIVE_BUF) (from_target (take n es))) = Inr q"
      "emitted A (ur_writer u1) (ur_sink u1) q (ur_writer u') (ur_sink u')" by auto
    with 1 e emitted_trans [OF 1(5)] show ?thesis by (intro exI [of _ "Suc n"]) auto
  next
    case False
    obtain x u1 where s: "udp_step A tx u e = (x, u1)" by fastforce
    have k: "ur_writer u1 = ur_writer u" "ur_sink u1 = ur_sink u"
      using s False poll_datagram_frame by (cases e; auto split: if_splits)+
    have f: "from_target (e # xs) = from_target xs" for xs using False by (cases e) auto
    show ?thesis
    proof (cases x)
      case Running
      with Cons.IH [of u1] Cons.prems s k obtain n q where "st = Running \<longrightarrow> n = length es"
        "write_many encode_plain_datagram (map (take RECEIVE_BUF) (from_target (take n es))) = Inr q"
        "emitted A (ur_writer u) (ur_sink u) q (ur_writer u') (ur_sink u')" by auto
      then show ?thesis by (intro exI [of _ "Suc n"]) (auto simp: f)
    next
      case (Done y)
      with Cons.prems(3) s k emitted_refl [of A "ur_writer u" "ur_sink u"] show ?thesis
        by (intro exI [of _ 0]) auto
    qed
  qed
qed

text \<open>Enough polls bring every datagram that has arrived to the target.\<close>

lemma udp_polls:
  assumes "write_many encode_plain_datagram ds = Inr (ur_part u @ ur_avail u)" and "length ds \<le> n"
    and "udp_run A tx u (replicate n PollClient) = (Running, u')"
  shows "ur_sent u' = ur_sent u @ ds"
  using assms
proof (induction n arbitrary: u ds)
  case (Suc n)
  obtain u1 where 1: "poll_datagram tx u = (Running, u1)" "udp_run A tx u1 (replicate n PollClient) = (Running, u')"
    using Suc.prems(3) by (auto split: prod.splits copy_status.splits)
  show ?case
  proof (cases ds)
    case Nil
    then have "read_plain_datagram (ur_part u @ ur_avail u) = Inl (XIo UnexpectedEof)"
      using Suc.prems(1) by (simp add: read_plain_datagram_def)
    then have "ur_sent u1 = ur_sent u" "ur_part u1 @ ur_avail u1 = ur_part u @ ur_avail u"
      using 1(1) by (auto simp: poll_datagram_def Let_def split: option.splits)
    with Suc.IH [of "[]" u1] Suc.prems(1) Nil 1(2) show ?thesis by simp
  next
    case (Cons d ds')
    then obtain b bs where b: "encode_plain_datagram d = Inr b" "write_many encode_plain_datagram ds' = Inr bs"
        "ur_part u @ ur_avail u = b @ bs"
      using Suc.prems(1) by (auto split: sum.splits)
    then have "ur_sent u1 = ur_sent u @ [d]" "ur_part u1 = []" "ur_avail u1 = bs"
      using 1(1) datagram_decodes [OF b(1), of bs] by (auto simp: poll_datagram_def Let_def split: option.splits)
    with Suc.IH [of ds' u1] Suc.prems(2) Cons b 1(2) show ?thesis by simp
  qed
qed simp

lemma udp_run_append:
  "udp_run A tx u (es @ fs) =
     (case udp_run A tx u es of (Running, u') \<Rightarrow> udp_run A tx u' fs | (Done x, u') \<Rightarrow> (Done x, u'))"
  by (induction es arbitrary: u) (auto split: prod.splits copy_status.splits)

lemma undisturbed_append: "undisturbed A tx u (es @ fs) \<Longrightarrow> undisturbed A tx u es"
  by (induction es arbitrary: u) (auto split: prod.splits copy_status.splits)

lemma client_bytes_polls [simp]: "client_bytes (es @ replicate n PollClient) = client_bytes es"
proof -
  have "client_bytes (replicate n PollClient) = []" by (induction n) auto
  then show ?thesis by (induction es rule: client_bytes.induct) auto
qed

lemma udp_all_sent:
  assumes "undisturbed A tx (udp_start w k) (es @ replicate (length ds) PollClient)"
    and "udp_run A tx (udp_start w k) (es @ replicate (length ds) PollClient) = (Running, u)"
    and "write_many encode_plain_datagram ds = Inr (client_bytes es)"
  shows "ur_sent u = ds"
proof -
  obtain u1 where 1: "udp_run A tx (udp_start w k) es = (Running, u1)"
      "udp_run A tx u1 (replicate (length ds) PollClient) = (Running, u)"
    using assms(2) by (auto simp: udp_run_append split: prod.splits copy_status.splits)
  have "relayed [] (udp_start w k)" "still (udp_start w k) es = client_bytes es"
    by (simp_all add: relayed_def udp_start_def still_def)
  with udp_run_up [OF _ undisturbed_append [OF assms(1)] 1(1), of "[]"] obtain bs where
    bs: "write_many encode_plain_datagram (ur_sent u1) = Inr bs" "bs @ ur_part u1 @ ur_avail u1 = client_bytes es"
    by (auto simp: relayed_def)
  have "\<exists>zs. ds = ur_sent u1 @ zs \<and> write_many encode_plain_datagram zs = Inr (ur_part u1 @ ur_avail u1)"
    by (rule plain.write_many_prefix [OF _ _ bs(1)])
      (use assms(3) bs(2) in \<open>simp_all add: list_all_iff read_plain_datagram_def\<close>)
  then obtain zs where "ds = ur_sent u1 @ zs" "write_many encode_plain_datagram zs = Inr (ur_part u1 @ ur_avail u1)"
    by blast
  with udp_polls [OF _ _ 1(2)] show ?thesis by simp
qed

text \<open>
  C12. The UDP service relays datagrams one for one: while it runs, and up to where it stopped, the client has
  been sent exactly the datagrams of the target, in order, each in its frame. When no datagram of the
  target arrives while one of the client is partly read, the datagrams sent to the target are those
  whose encodings the client stream starts with, and all of them once each has been polled for. The
  gauge of connections counts the service exactly while it runs.
\<close>

theorem udp_relay_faithful:
  assumes "aead_correct A" and "aead_total A" and "writer_ok w" and "sk_left k = None"
    and "serve_udp A look late bind conn tx dp ad p evs w k = (st, dp', Some u)"
  shows "active_target_conns dp' = active_target_conns dp + (if st = Running then 1 else 0) \<and>
    (\<exists>n q. (st = Running \<longrightarrow> n = length evs) \<and>
       write_many encode_plain_datagram (map (take RECEIVE_BUF) (from_target (take n evs))) = Inr q \<and>
       emitted A w k q (ur_writer u) (ur_sink u)) \<and>
    (undisturbed A tx (udp_start w k) evs \<longrightarrow>
       (\<exists>bs. write_many encode_plain_datagram (ur_sent u) = Inr bs \<and> prefix bs (client_bytes evs)) \<and>
       (\<forall>ds evs1. st = Running \<and> evs = evs1 @ replicate (length ds) PollClient \<and>
          write_many encode_plain_datagram ds = Inr (client_bytes evs) \<longrightarrow> ur_sent u = ds))"
proof -
  have run: "udp_run A tx (udp_start w k) evs = (st, u)"
    "active_target_conns dp' = active_target_conns dp + (if st = Running then 1 else 0)"
    using assms(5) by (auto simp: serve_udp_def Let_def split: if_splits sum.splits option.splits prod.splits copy_status.splits)
  have s: "ur_writer (udp_start w k) = w" "ur_sink (udp_start w k) = k" "relayed [] (udp_start w k)"
      "still (udp_start w k) evs = client_bytes evs"
    by (simp_all add: udp_start_def relayed_def still_def)
  have down: "\<exists>n q. (st = Running \<longrightarrow> n = length evs) \<and>
       write_many encode_plain_datagram (map (take RECEIVE_BUF) (from_target (take n evs))) = Inr q \<and>
       emitted A w k q (ur_writer u) (ur_sink u)"
    using udp_run_down [OF assms(1,2) _ _ run(1)] assms(3,4) s by simp
  have up: "(\<exists>bs. write_many encode_plain_datagram (ur_sent u) = Inr bs \<and> prefix bs (client_bytes evs))"
    if "undisturbed A tx (udp_start w k) evs"
    using udp_run_up [OF s(3) that run(1)] s(4) by simp
  show ?thesis using run(1) run(2) down up udp_all_sent by auto
qed

text \<open>
  C37. A datagram of the target that arrives while one of the client is partly read makes the service lose
  the part that was read: the rest is then taken for the start of the next datagram. When a client
  datagram whose payload reads like the encoding of another one is cut after its length, the target
  is sent the datagram inside, which the client never sent, and the one the client sent never arrives.
\<close>

theorem udp_relay_desynchronised:
  assumes "aead_correct A" and "aead_total A" and "writer_ok w" and "sk_left k = None"
    and "encode_plain_datagram inner = Inr payload" and "encode_plain_datagram payload = Inr datagram"
    and "tx inner = None"
  shows "\<exists>u. udp_run A tx (udp_start w k)
       [ClientBytes (take 2 datagram), PollClient, FromTarget d, ClientBytes (drop 2 datagram), PollClient] = (Running, u) \<and>
     ur_sent u = [inner] \<and> ur_part u = [] \<and> ur_avail u = []"
proof -
  have d: "take 2 datagram = be_len16 (length payload)" "drop 2 datagram = payload" "payload \<noteq> []" "length payload < 2 ^ 16"
    using assms(5,6) by (auto simp: encode_plain_datagram_def be_len16_Cons split: if_splits)
  let ?u = "(udp_start w k)\<lparr>ur_part := be_len16 (length payload)\<rparr>"
  have ne: "unat (of_nat (length payload) :: u16) = length payload" using d(4) by (rule unat_of_nat_u16)
  have "read_plain_datagram (be_len16 (length payload)) = Inl (XIo UnexpectedEof)"
    using d(3) ne read_u16_be_len16 [of "length payload" "[]"] by (simp add: read_plain_datagram_def read_exact_def)
  then have 1: "udp_run A tx (udp_start w k) [ClientBytes (take 2 datagram), PollClient] = (Running, ?u)"
    by (simp add: d(1) poll_datagram_def udp_start_def)
  obtain u1 where 2: "receive_datagram A d ?u = (Running, u1)"
    using receive_datagram_ok [OF assms(1,2), of ?u d] assms(3,4) by (auto simp: udp_start_def)
  note f = receive_datagram_frame [OF 2]
  have "read_plain_datagram payload = Inr (inner, [])" using datagram_decodes [OF assms(5), of "[]"] by simp
  then have 3: "udp_run A tx u1 [ClientBytes (drop 2 datagram), PollClient] =
      (Running, u1\<lparr>ur_avail := [], ur_part := [], ur_sent := [inner]\<rparr>)"
    using f assms(7) by (simp add: d(2) poll_datagram_def udp_start_def)
  show ?thesis
    using udp_run_append [of A tx "udp_start w k" "[ClientBytes (take 2 datagram), PollClient]"
      "[FromTarget d, ClientBytes (drop 2 datagram), PollClient]"] 1 2 3 by simp
qed

lemmas datagram_code = read_plain_datagram_def encode_plain_datagram_def read_exact_def from_be16_def be_len16_Cons

theorem udp_relay_faithful_witness:
  "\<exists>dp' u. serve_udp toy_aead (\<lambda>_ _. Inr []) False (\<lambda>_. None) (\<lambda>_. None) (\<lambda>_. None) (demo_dispatcher []) (Ipv4 1 2 3 4) 53
       [ClientBytes [0, 2, 7], PollClient, ClientBytes [8], PollClient] PlainWriter \<lparr>sk_sent = [], sk_left = None\<rparr> = (Running, dp', Some u) \<and>
     ur_sent u = [[7, 8]]"
proof -
  let ?k = "\<lparr>sk_sent = [], sk_left = None\<rparr>" and ?e = "[ClientBytes [0, 2, 7], PollClient, ClientBytes [8]]"
  obtain dp' u where s: "serve_udp toy_aead (\<lambda>_ _. Inr []) False (\<lambda>_. None) (\<lambda>_. None) (\<lambda>_. None) (demo_dispatcher []) (Ipv4 1 2 3 4) 53
       (?e @ [PollClient]) PlainWriter ?k = (Running, dp', Some u)"
    by (simp add: serve_udp_def udp_start_def poll_datagram_def datagram_code Let_def)
  have q: "undisturbed toy_aead (\<lambda>_. None) (udp_start PlainWriter ?k) (?e @ [PollClient])"
    by (simp add: udp_start_def poll_datagram_def datagram_code Let_def)
  have "write_many encode_plain_datagram [[7, 8]] = Inr (client_bytes (?e @ [PollClient]))"
    by (simp add: datagram_code)
  moreover have w: "writer_ok PlainWriter" "sk_left ?k = None" by simp_all
  note mp [OF conjunct2 [OF conjunct2 [OF udp_relay_faithful [OF toy_aead_correct toy_aead_total w s]]] q, THEN conjunct2, rule_format,
      of ?e "[[7, 8]]"]
  ultimately have "ur_sent u = [[7, 8]]" by simp
  with s show ?thesis by simp
qed

theorem udp_relay_desynchronised_witness:
  "\<exists>u. udp_run toy_aead (\<lambda>_. None) (udp_start PlainWriter \<lparr>sk_sent = [], sk_left = None\<rparr>)
       [ClientBytes [0, 3], PollClient, FromTarget [9], ClientBytes [0, 1, 65], PollClient] = (Running, u) \<and> ur_sent u = [[65]]"
proof -
  have e: "encode_plain_datagram [65] = Inr [0, 1, 65]" "encode_plain_datagram [0, 1, 65] = Inr [0, 3, 0, 1, 65]"
    by (simp_all add: datagram_code)
  from udp_relay_desynchronised [OF toy_aead_correct toy_aead_total _ _ e, of PlainWriter "\<lparr>sk_sent = [], sk_left = None\<rparr>" "\<lambda>_. None" "[9]"]
  show ?thesis by auto
qed

end
