(* ===== verification/MuxRelay.thy ===== *)
theory MuxRelay
  imports UdpRelay
begin

text \<open>
  Multiplexed UDP, \<open>serve_xudp\<close> and \<open>spawn_association\<close> in \<^verbatim>\<open>src/dispatcher.rs\<close>: one loop reads frames and hands their
  payloads to associations, each a task of its own with a queue and a socket; the tasks share the
  writer. The tasks are numbered in the order they were started. An event is a step of one task or of
  the outside; a task that has to wait (for a permit, for room in a queue, for a message) does nothing
  in its step. A sender is left for an association exactly when the map of the loop leads to it.
  The idle timer of a task covers the sending of a reply too, so it can cancel it: \<open>AssocCut\<close>. \<open>MuxFrameDies\<close> is an
  iteration of the loop in which a task that was just started ends, without having replied to anything, before
  its first message is in its queue. \<open>mx_frames\<close> and \<open>mx_replies\<close> record the frames the loop has taken up and those the
  writer has sent as a whole.
\<close>

section \<open>State\<close>

record association_message =
  msg_target :: target
  msg_payload :: bytes

record association =
  as_id :: u16
  as_queue :: "association_message list"
  as_live :: bool
  as_sent :: "(socket_addr \<times> bytes) list"

record mux =
  mx_status :: copy_status
  mx_avail :: bytes
  mx_closed :: "io_error option"
  mx_associations :: "u16 \<Rightarrow> nat option"
  mx_tasks :: "association list"
  mx_permits :: nat
  mx_active :: int
  mx_download_bytes :: u64
  mx_writer :: protocol_writer
  mx_sink :: sink
  mx_frames :: "frame list"
  mx_replies :: "frame list"

datatype mux_event =
    MuxBytes bytes | MuxEnds io_error | MuxFrame | MuxFrameDies | MuxIdle
  | AssocMessage nat | AssocReply nat socket_addr bytes | AssocCut nat socket_addr bytes "nat option"
  | AssocFails nat | AssocIdle nat

definition CHANNEL_SIZE :: nat where "CHANNEL_SIZE = 32"

section \<open>The loop\<close>

text \<open>The loop returns: the map and with it every sender is dropped.\<close>

definition mux_stop :: "dispatch_error \<Rightarrow> mux \<Rightarrow> mux" where
  "mux_stop e m = m\<lparr>mx_status := Done (Some e), mx_associations := Map.empty\<rparr>"

definition message_of :: "target \<Rightarrow> frame \<Rightarrow> association_message" where
  "message_of t f = \<lparr>msg_target = t, msg_payload = fr_payload f\<rparr>"

definition has_data :: "frame \<Rightarrow> bool" where
  "has_data f \<longleftrightarrow> option f AND OPTION_DATA \<noteq> 0"

definition enqueue :: "nat \<Rightarrow> association_message \<Rightarrow> mux \<Rightarrow> mux" where
  "enqueue n msg m = m\<lparr>mx_tasks := (mx_tasks m)[n := (mx_tasks m ! n)\<lparr>as_queue := as_queue (mx_tasks m ! n) @ [msg]\<rparr>]\<rparr>"

text \<open>The permit that was acquired goes back when the socket cannot be opened.\<close>

definition spawn_association ::
  "lookup \<Rightarrow> (string \<Rightarrow> io_error option) \<Rightarrow> u16 \<Rightarrow> target \<Rightarrow> mux \<Rightarrow> dispatch_error + mux" where
  "spawn_association look bind sid t m =
     (case resolve_target look t of
        Inl e \<Rightarrow> Inl e
      | Inr s \<Rightarrow>
          (case bind (bind_address s) of
             Some e \<Rightarrow> Inl (DIo e)
           | None \<Rightarrow>
               Inr (m\<lparr>mx_tasks := mx_tasks m @ [\<lparr>as_id = sid, as_queue = [], as_live = True, as_sent = []\<rparr>],
                      mx_permits := mx_permits m - 1, mx_active := mx_active m + 1\<rparr>)))"

text \<open>The task ends: its receiver and its permit are dropped.\<close>

definition finish :: "nat \<Rightarrow> mux \<Rightarrow> mux" where
  "finish n m = m\<lparr>mx_tasks := (mx_tasks m)[n := (mx_tasks m ! n)\<lparr>as_live := False, as_queue := []\<rparr>],
     mx_permits := mx_permits m + 1, mx_active := mx_active m - 1\<rparr>"

text \<open>What handling a frame comes to: the loop goes on, returns an error, or has to wait, or returns because the task it has
  started is gone. \<open>dies\<close> says that this happens to a task that is started now.\<close>

datatype frame_outcome = GoOn mux | Stop dispatch_error | Wait | Lost mux

definition handle_new :: "lookup \<Rightarrow> (string \<Rightarrow> io_error option) \<Rightarrow> bool \<Rightarrow> frame \<Rightarrow> mux \<Rightarrow> frame_outcome" where
  "handle_new look bind dies f m =
     (case fr_target f of
        None \<Rightarrow> Stop MissingAddress
      | Some t \<Rightarrow>
          if mx_permits m = 0 then Wait
          else
            let n = length (mx_tasks m)
            in case spawn_association look bind (session_id f) t
                      (m\<lparr>mx_associations := (mx_associations m)(session_id f \<mapsto> n)\<rparr>) of
                 Inl e \<Rightarrow> Stop e
               | Inr m1 \<Rightarrow>
                   if \<not> has_data f then GoOn m1
                   else if dies then Lost (finish n m1)
                   else GoOn (enqueue n (message_of t f) m1))"

definition handle_keep :: "frame \<Rightarrow> mux \<Rightarrow> frame_outcome" where
  "handle_keep f m =
     (if \<not> has_data f then GoOn m
      else case mx_associations m (session_id f) of
             None \<Rightarrow> Stop (UnknownAssociation (session_id f))
           | Some n \<Rightarrow>
               (case fr_target f of
                  None \<Rightarrow> Stop MissingAddress
                | Some t \<Rightarrow>
                    if \<not> as_live (mx_tasks m ! n) then Stop AssociationClosed
                    else if CHANNEL_SIZE \<le> length (as_queue (mx_tasks m ! n)) then Wait
                    else GoOn (enqueue n (message_of t f) m)))"

definition handle_frame :: "lookup \<Rightarrow> (string \<Rightarrow> io_error option) \<Rightarrow> bool \<Rightarrow> frame \<Rightarrow> mux \<Rightarrow> frame_outcome" where
  "handle_frame look bind dies f m =
     (if status f = STATUS_NEW then handle_new look bind dies f m
      else if status f = STATUS_KEEP then handle_keep f m
      else if status f = STATUS_END then GoOn (m\<lparr>mx_associations := (mx_associations m)(session_id f := None)\<rparr>)
      else if status f = STATUS_KEEP_ALIVE then GoOn m
      else Stop (UnsupportedXudpStatus (status f)))"

text \<open>An iteration of the loop. A frame that is not complete yet is waited for, unless the stream has ended.\<close>

definition next_frame :: "lookup \<Rightarrow> (string \<Rightarrow> io_error option) \<Rightarrow> bool \<Rightarrow> mux \<Rightarrow> mux" where
  "next_frame look bind dies m =
     (case read_frame (mx_avail m) of
        Inl e \<Rightarrow>
          (if e = XIo UnexpectedEof
           then (case mx_closed m of None \<Rightarrow> m | Some e' \<Rightarrow> mux_stop (DXudp (XIo e')) m)
           else mux_stop (DXudp e) m)
      | Inr (f, rest) \<Rightarrow>
          (case handle_frame look bind dies f (m\<lparr>mx_avail := rest\<rparr>) of
             GoOn m' \<Rightarrow> m'\<lparr>mx_frames := mx_frames m' @ [f]\<rparr>
           | Stop e \<Rightarrow> mux_stop e m
           | Wait \<Rightarrow> m
           | Lost m' \<Rightarrow> mux_stop AssociationClosed (m'\<lparr>mx_frames := mx_frames m' @ [f]\<rparr>)))"

section \<open>An association\<close>

definition sender_left :: "mux \<Rightarrow> nat \<Rightarrow> bool" where
  "sender_left m n \<longleftrightarrow> mx_associations m (as_id (mx_tasks m ! n)) = Some n"

definition assoc_message :: "lookup \<Rightarrow> (socket_addr \<Rightarrow> bytes \<Rightarrow> io_error option) \<Rightarrow> nat \<Rightarrow> mux \<Rightarrow> mux" where
  "assoc_message look tx n m =
     (let a = mx_tasks m ! n
      in case as_queue a of
           [] \<Rightarrow> (if sender_left m n then m else finish n m)
         | msg # q \<Rightarrow>
             (case resolve_target look (msg_target msg) of
                Inl e \<Rightarrow> finish n m
              | Inr s \<Rightarrow>
                  (case tx s (msg_payload msg) of
                     Some e \<Rightarrow> finish n m
                   | None \<Rightarrow>
                       m\<lparr>mx_tasks := (mx_tasks m)[n := a\<lparr>as_queue := q, as_sent := as_sent a @ [(s, msg_payload msg)]\<rparr>]\<rparr>)))"

definition reply_frame :: "u16 \<Rightarrow> socket_addr \<Rightarrow> bytes \<Rightarrow> frame" where
  "reply_frame sid source d =
     \<lparr>session_id = sid, status = STATUS_KEEP, option = OPTION_DATA, fr_target = Some (socket_target source),
      global_id = None, fr_payload = d\<rparr>"

definition assoc_reply :: "aead \<Rightarrow> nat \<Rightarrow> socket_addr \<Rightarrow> bytes \<Rightarrow> mux \<Rightarrow> mux" where
  "assoc_reply A n source d m =
     (let p = take RECEIVE_BUF d;
          f = reply_frame (as_id (mx_tasks m ! n)) source p;
          m1 = m\<lparr>mx_download_bytes := mx_download_bytes m + of_nat (length p)\<rparr>
      in case encode_frame f of
           Inl e \<Rightarrow> finish n m1
         | Inr b \<Rightarrow>
             (case writer_send A (mx_writer m) (mx_sink m) b of
                (Some e, w, k) \<Rightarrow> finish n (m1\<lparr>mx_writer := w, mx_sink := k\<rparr>)
              | (None, w, k) \<Rightarrow> m1\<lparr>mx_writer := w, mx_sink := k, mx_replies := mx_replies m @ [f]\<rparr>))"

text \<open>The timer of the task fires while the reply waits: for the lock of the writer (\<open>None\<close>), or for the sink to take its record
  \<open>j\<close> (\<open>Some j\<close>), which is sealed already, and so are its nonce and its mask used up. The plain writer only ever
  waits for the sink.\<close>

fun cut_send :: "aead \<Rightarrow> nat option \<Rightarrow> protocol_writer \<Rightarrow> sink \<Rightarrow> bytes \<Rightarrow> protocol_writer \<times> sink" where
  "cut_send A wait PlainWriter k b = (PlainWriter, k)"
| "cut_send A None (EncryptedWriter st x) k b = (EncryptedWriter st x, k)"
| "cut_send A (Some j) (EncryptedWriter st x) k b =
     (fst (snd (send_records A st x k (take (Suc j) (chunks 8192 b)))),
      snd (snd (send_records A st x k (take j (chunks 8192 b)))))"

definition assoc_cut :: "aead \<Rightarrow> nat \<Rightarrow> socket_addr \<Rightarrow> bytes \<Rightarrow> nat option \<Rightarrow> mux \<Rightarrow> mux" where
  "assoc_cut A n source d wait m =
     (let p = take RECEIVE_BUF d
      in case encode_frame (reply_frame (as_id (mx_tasks m ! n)) source p) of
           Inl e \<Rightarrow> m
         | Inr b \<Rightarrow>
             if (case wait of None \<Rightarrow> False | Some j \<Rightarrow> length (chunks 8192 b) \<le> j) then m
             else (case cut_send A wait (mx_writer m) (mx_sink m) b of
                     (w, k) \<Rightarrow>
                       finish n (m\<lparr>mx_download_bytes := mx_download_bytes m + of_nat (length p),
                                   mx_writer := w, mx_sink := k\<rparr>)))"

definition alive :: "mux \<Rightarrow> nat \<Rightarrow> bool" where
  "alive m n \<longleftrightarrow> n < length (mx_tasks m) \<and> as_live (mx_tasks m ! n)"

fun mux_step ::
  "aead \<Rightarrow> lookup \<Rightarrow> (string \<Rightarrow> io_error option) \<Rightarrow> (socket_addr \<Rightarrow> bytes \<Rightarrow> io_error option) \<Rightarrow> mux \<Rightarrow> mux_event \<Rightarrow> mux" where
  "mux_step A look bind tx m (MuxBytes b) = (if mx_closed m = None then m\<lparr>mx_avail := mx_avail m @ b\<rparr> else m)"
| "mux_step A look bind tx m (MuxEnds e) = (if mx_closed m = None then m\<lparr>mx_closed := Some e\<rparr> else m)"
| "mux_step A look bind tx m MuxFrame = (if mx_status m = Running then next_frame look bind False m else m)"
| "mux_step A look bind tx m MuxFrameDies = (if mx_status m = Running then next_frame look bind True m else m)"
| "mux_step A look bind tx m MuxIdle = (if mx_status m = Running then mux_stop UdpIdle m else m)"
| "mux_step A look bind tx m (AssocMessage n) = (if alive m n then assoc_message look tx n m else m)"
| "mux_step A look bind tx m (AssocReply n source d) = (if alive m n then assoc_reply A n source d m else m)"
| "mux_step A look bind tx m (AssocCut n source d wait) = (if alive m n then assoc_cut A n source d wait m else m)"
| "mux_step A look bind tx m (AssocFails n) = (if alive m n then finish n m else m)"
| "mux_step A look bind tx m (AssocIdle n) = (if alive m n then finish n m else m)"

text \<open>The service: \<open>permits\<close> are those that other sessions do not hold.\<close>

definition mux_start :: "nat \<Rightarrow> protocol_writer \<Rightarrow> sink \<Rightarrow> mux" where
  "mux_start permits w k =
     \<lparr>mx_status = Running, mx_avail = [], mx_closed = None, mx_associations = Map.empty, mx_tasks = [],
      mx_permits = permits, mx_active = 0, mx_download_bytes = 0, mx_writer = w, mx_sink = k,
      mx_frames = [], mx_replies = []\<rparr>"

definition serve_xudp ::
  "aead \<Rightarrow> lookup \<Rightarrow> (string \<Rightarrow> io_error option) \<Rightarrow> (socket_addr \<Rightarrow> bytes \<Rightarrow> io_error option) \<Rightarrow> nat \<Rightarrow>
     mux_event list \<Rightarrow> protocol_writer \<Rightarrow> sink \<Rightarrow> mux" where
  "serve_xudp A look bind tx permits evs w k = foldl (mux_step A look bind tx) (mux_start permits w k) evs"

section \<open>What a stream of frames asks for\<close>

text \<open>The sessions of a stream: one for each frame that opens one, with its id, the messages of its data frames
  up to the next frame that opens or ends a session with this id, and whether there was none.\<close>

definition closes :: "u16 \<Rightarrow> frame \<Rightarrow> bool" where
  "closes i f \<longleftrightarrow> session_id f = i \<and> (status f = STATUS_NEW \<or> status f = STATUS_END)"

definition payload_of :: "frame \<Rightarrow> association_message list" where
  "payload_of f = (case fr_target f of Some t \<Rightarrow> if has_data f then [message_of t f] else [] | None \<Rightarrow> [])"

definition continuing :: "u16 \<Rightarrow> frame \<Rightarrow> association_message list" where
  "continuing i f = (if session_id f = i \<and> status f = STATUS_KEEP then payload_of f else [])"

fun sessions :: "frame list \<Rightarrow> (u16 \<times> association_message list \<times> bool) list" where
  "sessions [] = []"
| "sessions (f # fs) =
     (if status f = STATUS_NEW
      then [(session_id f, payload_of f @ concat (map (continuing (session_id f)) (takeWhile (\<lambda>g. \<not> closes (session_id f) g) fs)),
             \<forall>g \<in> set fs. \<not> closes (session_id f) g)]
      else []) @ sessions fs"

definition extend :: "frame \<Rightarrow> u16 \<times> association_message list \<times> bool \<Rightarrow> u16 \<times> association_message list \<times> bool" where
  "extend f s = (case s of (i, ms, opened) \<Rightarrow>
     (i, if opened \<and> \<not> closes i f then ms @ continuing i f else ms, opened \<and> \<not> closes i f))"

lemma sessions_snoc:
  "sessions (fs @ [f]) =
     map (extend f) (sessions fs) @ (if status f = STATUS_NEW then [(session_id f, payload_of f, True)] else [])"
proof (induction fs)
  case (Cons g fs)
  have "takeWhile P (fs @ [f]) = (if \<forall>x \<in> set fs. P x then fs @ takeWhile P [f] else takeWhile P fs)" for P
    by (induction fs) auto
  with Cons show ?case by (auto simp: extend_def takeWhile_eq_all_conv [THEN iffD2])
qed simp

section \<open>The sessions are served\<close>

definition wanted :: "lookup \<Rightarrow> association_message \<Rightarrow> (dispatch_error + socket_addr) \<times> bytes" where
  "wanted look msg = (resolve_target look (msg_target msg), msg_payload msg)"

definition did :: "socket_addr \<times> bytes \<Rightarrow> (dispatch_error + socket_addr) \<times> bytes" where
  "did x = (Inr (fst x), snd x)"

text \<open>A task serves a session: it has its id, it has sent a prefix of its messages, each to where its target
  resolves, and as long as it runs the others are in its queue.\<close>

fun serves :: "lookup \<Rightarrow> association \<Rightarrow> u16 \<times> association_message list \<times> bool \<Rightarrow> bool" where
  "serves look a (i, ms, opened) \<longleftrightarrow> as_id a = i \<and>
     (if as_live a then map did (as_sent a) @ map (wanted look) (as_queue a) = map (wanted look) ms
      else prefix (map did (as_sent a)) (map (wanted look) ms))"

definition live_tasks :: "mux \<Rightarrow> nat" where
  "live_tasks m = length (filter as_live (mx_tasks m))"

definition mux_ok :: "lookup \<Rightarrow> nat \<Rightarrow> mux \<Rightarrow> bool" where
  "mux_ok look permits m \<longleftrightarrow>
     list_all2 (serves look) (mx_tasks m) (sessions (mx_frames m)) \<and>
     mx_permits m + live_tasks m = permits \<and> mx_active m = int (live_tasks m) \<and>
     (if mx_status m = Running
      then \<forall>i n. mx_associations m i = Some n \<longleftrightarrow>
             n < length (mx_tasks m) \<and> fst (sessions (mx_frames m) ! n) = i \<and> snd (snd (sessions (mx_frames m) ! n))
      else mx_associations m = Map.empty)"

lemma live_count_update:
  "n < length xs \<Longrightarrow> length (filter P (xs[n := y])) + (if P (xs ! n) then 1 else 0) = length (filter P xs) + (if P y then 1 else 0)"
proof (induction xs arbitrary: n)
  case (Cons x xs)
  then show ?case by (cases n) auto
qed simp

lemma serves_update:
  assumes "list_all2 (serves look) as ss" and "n < length as" and "serves look a (ss ! n)"
  shows "list_all2 (serves look) (as[n := a]) ss"
  using list_all2_update_cong [of "serves look" as ss a "ss ! n" n] assms by simp

lemma mux_ok_update:
  assumes "mux_ok look p m" and "alive m n" and "as_live a" and "serves look a (sessions (mx_frames m) ! n)"
  shows "mux_ok look p (m\<lparr>mx_tasks := (mx_tasks m)[n := a]\<rparr>)"
  using assms live_count_update [of n "mx_tasks m" as_live a]
  by (simp add: mux_ok_def live_tasks_def alive_def serves_update)

lemma serves_nth:
  assumes "mux_ok look p m" and "n < length (mx_tasks m)"
  shows "serves look (mx_tasks m ! n) (sessions (mx_frames m) ! n)" and "n < length (sessions (mx_frames m))"
  using assms by (auto simp: mux_ok_def list_all2_conv_all_nth)

lemma mux_ok_length: "mux_ok look p m \<Longrightarrow> length (mx_tasks m) = length (sessions (mx_frames m))"
  by (auto simp: mux_ok_def dest: list_all2_lengthD)

lemma finish_ok:
  assumes "mux_ok look p m" and "alive m n"
  shows "mux_ok look p (finish n m)"
proof -
  let ?a = "(mx_tasks m ! n)\<lparr>as_live := False, as_queue := []\<rparr>"
  have n: "n < length (mx_tasks m)" "as_live (mx_tasks m ! n)" using assms(2) by (simp_all add: alive_def)
  obtain i ms o' where s: "sessions (mx_frames m) ! n = (i, ms, o')" by (metis prod_cases3)
  have "serves look ?a (sessions (mx_frames m) ! n)"
    using serves_nth [OF assms(1) n(1)] n(2) s by (auto intro!: prefixI [OF sym])
  with assms(1) n live_count_update [OF n(1), of as_live ?a] show ?thesis
    by (simp add: mux_ok_def finish_def live_tasks_def serves_update)
qed

lemma assoc_message_ok:
  assumes "mux_ok look p m" and "alive m n"
  shows "mux_ok look p (assoc_message look tx n m)"
proof (cases "as_queue (mx_tasks m ! n)")
  case Nil
  with assms finish_ok show ?thesis by (simp add: assoc_message_def Let_def)
next
  case (Cons msg q)
  show ?thesis
  proof (cases "\<exists>s. resolve_target look (msg_target msg) = Inr s \<and> tx s (msg_payload msg) = None")
    case True
    then obtain s where s: "resolve_target look (msg_target msg) = Inr s" "tx s (msg_payload msg) = None" by blast
    let ?a = "(mx_tasks m ! n)\<lparr>as_queue := q, as_sent := as_sent (mx_tasks m ! n) @ [(s, msg_payload msg)]\<rparr>"
    obtain i ms o' where t: "sessions (mx_frames m) ! n = (i, ms, o')" by (metis prod_cases3)
    have n: "n < length (mx_tasks m)" "as_live (mx_tasks m ! n)" using assms(2) by (simp_all add: alive_def)
    have "serves look ?a (sessions (mx_frames m) ! n)"
      using serves_nth [OF assms(1) n(1)] n(2) t Cons s(1) by (simp add: did_def wanted_def)
    with mux_ok_update [OF assms, of ?a] n(2) s Cons show ?thesis by (simp add: assoc_message_def Let_def)
  next
    case False
    with Cons finish_ok [OF assms] show ?thesis
      by (auto simp: assoc_message_def Let_def split: sum.splits option.splits)
  qed
qed

text \<open>The parts of the state the invariant does not look at.\<close>

lemma mux_ok_frame [simp]:
  "mux_ok look p (m\<lparr>mx_avail := b\<rparr>) = mux_ok look p m" "mux_ok look p (m\<lparr>mx_closed := c\<rparr>) = mux_ok look p m"
  "mux_ok look p (m\<lparr>mx_download_bytes := x\<rparr>) = mux_ok look p m" "mux_ok look p (m\<lparr>mx_writer := w\<rparr>) = mux_ok look p m"
  "mux_ok look p (m\<lparr>mx_sink := k\<rparr>) = mux_ok look p m" "mux_ok look p (m\<lparr>mx_replies := r\<rparr>) = mux_ok look p m"
  by (simp_all add: mux_ok_def live_tasks_def)

lemma alive_frame [simp]:
  "alive (m\<lparr>mx_download_bytes := x\<rparr>) = alive m" "alive (m\<lparr>mx_writer := w\<rparr>) = alive m"
  "alive (m\<lparr>mx_sink := k\<rparr>) = alive m"
  by (simp_all add: alive_def fun_eq_iff)

lemma assoc_reply_ok:
  assumes "mux_ok look p m" and "alive m n"
  shows "mux_ok look p (assoc_reply A n s d m)"
  using assms by (auto simp: assoc_reply_def Let_def finish_ok split: sum.splits prod.splits option.splits)

lemma assoc_cut_ok:
  assumes "mux_ok look p m" and "alive m n"
  shows "mux_ok look p (assoc_cut A n s d wait m)"
  using assms by (auto simp: assoc_cut_def Let_def finish_ok split: sum.splits prod.splits option.splits)

lemma mux_stop_ok: "mux_ok look p m \<Longrightarrow> mux_ok look p (mux_stop e m)"
  by (simp add: mux_ok_def mux_stop_def live_tasks_def)

section \<open>Frames\<close>

lemma continuing_other: "status f \<noteq> STATUS_KEEP \<or> \<not> has_data f \<or> session_id f \<noteq> i \<Longrightarrow> continuing i f = []"
  by (auto simp: continuing_def payload_of_def split: option.splits)

lemma serves_extend:
  assumes "serves look a (i, ms, o')" and "\<not> o' \<or> continuing i f = []"
  shows "serves look a (extend f (i, ms, o'))"
  using assms by (auto simp: extend_def)

lemma serves_extend_all:
  assumes "list_all2 (serves look) as ss" and "\<And>i. continuing i f = []"
  shows "list_all2 (serves look) as (map (extend f) ss)"
  using assms by (auto simp: list_all2_map2 intro!: list_all2_mono [OF assms(1)] serves_extend)

lemma extend_fst [simp]: "fst (extend f s) = fst s"
  by (simp add: extend_def split: prod.splits)

lemma extend_open: "snd (snd (extend f s)) \<longleftrightarrow> snd (snd s) \<and> \<not> closes (fst s) f"
  by (simp add: extend_def split: prod.splits)

lemma handle_keep_ok:
  assumes "mux_ok look p m" and "mx_status m = Running" and "status f = STATUS_KEEP" and "handle_keep f m = GoOn m'"
  shows "mux_ok look p (m'\<lparr>mx_frames := mx_frames m' @ [f]\<rparr>)"
proof (cases "has_data f")
  case False
  then have c: "continuing i f = []" "\<not> closes i f" for i
    using assms(3) by (auto simp: continuing_other closes_def xudp_consts)
  have "map (extend f) (sessions (mx_frames m)) = sessions (mx_frames m)"
    using c by (intro map_idI) (simp add: extend_def split: prod.splits)
  with assms False show ?thesis
    by (auto simp: handle_keep_def mux_ok_def live_tasks_def sessions_snoc xudp_consts)
next
  case True
  let ?ss = "sessions (mx_frames m)"
  obtain n t where k: "mx_associations m (session_id f) = Some n" "fr_target f = Some t" "as_live (mx_tasks m ! n)"
      "m' = enqueue n (message_of t f) m"
    using assms(4) True by (auto simp: handle_keep_def split: option.splits if_splits)
  have map: "mx_associations m i = Some j \<longleftrightarrow> j < length (mx_tasks m) \<and> fst (?ss ! j) = i \<and> snd (snd (?ss ! j))" for i j
    using assms(1,2) by (simp add: mux_ok_def)
  have cl: "\<not> closes i f" for i using assms(3) by (simp add: closes_def xudp_consts)
  have n: "n < length (mx_tasks m)" "fst (?ss ! n) = session_id f" "snd (snd (?ss ! n))" using map k(1) by blast+
  have len: "length (mx_tasks m) = length ?ss" using mux_ok_length [OF assms(1)] .
  let ?a = "(mx_tasks m ! n)\<lparr>as_queue := as_queue (mx_tasks m ! n) @ [message_of t f]\<rparr>"
  obtain ms where s: "?ss ! n = (session_id f, ms, True)" using n(2,3) by (metis prod.collapse)
  have "serves look ?a (extend f (?ss ! n))"
    using serves_nth(1) [OF assms(1) n(1)] s cl True k(2,3) assms(3)
    by (simp add: extend_def continuing_def payload_of_def flip: append_assoc)
  moreover have "serves look (mx_tasks m ! j) (extend f (?ss ! j))" if "j < length (mx_tasks m)" "j \<noteq> n" for j
  proof -
    obtain i ms o' where j: "?ss ! j = (i, ms, o')" by (metis prod_cases3)
    have "\<not> o' \<or> i \<noteq> session_id f" using map [of i j] map [of i n] n that j s by auto
    then have "\<not> o' \<or> continuing i f = []" by (auto simp: continuing_def)
    with serves_extend [of look _ i ms o' f] serves_nth(1) [OF assms(1) that(1)] j show ?thesis by simp
  qed
  ultimately have "list_all2 (serves look) ((mx_tasks m)[n := ?a]) (map (extend f) ?ss)"
    using len n(1) by (auto simp: list_all2_conv_all_nth nth_list_update)
  moreover have "live_tasks m' = live_tasks m"
    using live_count_update [OF n(1), of as_live ?a] k(3,4) by (simp add: live_tasks_def enqueue_def)
  ultimately show ?thesis
    using assms(1-3) k(4) map len cl
    by (auto simp: mux_ok_def sessions_snoc xudp_consts enqueue_def live_tasks_def extend_open)
qed

lemma handle_new_ok:
  assumes "mux_ok look p m" and "mx_status m = Running" and "status f = STATUS_NEW" and "handle_new look bind False f m = GoOn m'"
  shows "mux_ok look p (m'\<lparr>mx_frames := mx_frames m' @ [f]\<rparr>)"
proof -
  let ?ss = "sessions (mx_frames m)" and ?n = "length (mx_tasks m)"
  obtain t where t: "fr_target f = Some t" "mx_permits m \<noteq> 0"
    "m' = m\<lparr>mx_associations := (mx_associations m)(session_id f \<mapsto> ?n), mx_permits := mx_permits m - 1, mx_active := mx_active m + 1,
       mx_tasks := mx_tasks m @ [\<lparr>as_id = session_id f, as_queue = payload_of f, as_live = True, as_sent = []\<rparr>]\<rparr>"
    using assms(4)
    by (auto simp: handle_new_def spawn_association_def Let_def enqueue_def payload_of_def
        split: option.splits sum.splits if_splits)
  have map: "mx_associations m i = Some j \<longleftrightarrow> j < ?n \<and> fst (?ss ! j) = i \<and> snd (snd (?ss ! j))" for i j
    using assms(1,2) by (simp add: mux_ok_def)
  have len: "?n = length ?ss" using mux_ok_length [OF assms(1)] .
  have "list_all2 (serves look) (mx_tasks m') (sessions (mx_frames m @ [f]))"
    using assms(1,3) t(3)
    by (auto simp: mux_ok_def sessions_snoc xudp_consts continuing_def intro!: list_all2_appendI serves_extend_all)
  moreover have "mx_associations m' i = Some j \<longleftrightarrow>
      j < length (mx_tasks m') \<and> fst (sessions (mx_frames m @ [f]) ! j) = i \<and> snd (snd (sessions (mx_frames m @ [f]) ! j))" for i j
    using map [of i j] t(3) assms(3) len by (auto simp: sessions_snoc nth_append extend_open closes_def less_Suc_eq)
  ultimately show ?thesis using assms(1,2) t by (auto simp: mux_ok_def live_tasks_def)
qed

lemma handle_frame_ok:
  assumes "mux_ok look p m" and "mx_status m = Running" and "handle_frame look bind False f m = GoOn m'"
  shows "mux_ok look p (m'\<lparr>mx_frames := mx_frames m' @ [f]\<rparr>)"
proof (cases "status f = STATUS_NEW \<or> status f = STATUS_KEEP")
  case True
  with assms handle_new_ok [OF assms(1,2)] handle_keep_ok [OF assms(1,2)] show ?thesis
    by (auto simp: handle_frame_def split: if_splits)
next
  case False
  let ?ss = "sessions (mx_frames m)"
  have len: "length (mx_tasks m) = length ?ss" using mux_ok_length [OF assms(1)] .
  have "list_all2 (serves look) (mx_tasks m) (map (extend f) ?ss)"
    using assms(1) False by (intro serves_extend_all) (simp_all add: mux_ok_def continuing_other)
  moreover have "mx_associations m' i = Some j \<longleftrightarrow>
      j < length (mx_tasks m) \<and> fst (map (extend f) ?ss ! j) = i \<and> snd (snd (map (extend f) ?ss ! j))" for i j
    using assms False len by (auto simp: handle_frame_def mux_ok_def extend_open closes_def split: if_splits)
  ultimately show ?thesis
    using assms False by (auto simp: handle_frame_def mux_ok_def live_tasks_def sessions_snoc split: if_splits)
qed

text \<open>A task that is gone before its first message: as if it had ended right after it, and then the loop had noticed.\<close>

lemma finish_enqueue: "finish n (enqueue n msg m) = finish n m"
  by (cases "n < length (mx_tasks m)") (simp_all add: finish_def enqueue_def list_update_beyond)

lemma finish_frames: "finish n (m\<lparr>mx_frames := fs\<rparr>) = (finish n m)\<lparr>mx_frames := fs\<rparr>"
  by (cases m) (simp add: finish_def)

lemma frames_of_finish [simp]: "mx_frames (finish n m) = mx_frames m"
  by (simp add: finish_def)

lemma handle_frame_lost:
  assumes "handle_frame look bind dies f m = Lost m2"
  shows "\<exists>m'. handle_frame look bind False f m = GoOn m' \<and> m2 = finish (length (mx_tasks m)) m' \<and> alive m' (length (mx_tasks m))"
  using assms
  by (auto simp: handle_frame_def handle_new_def handle_keep_def spawn_association_def Let_def finish_enqueue
      split: if_splits option.splits sum.splits) (auto simp: alive_def enqueue_def)

lemma handle_frame_kept [simp]: "handle_frame look bind False f m \<noteq> Lost m'"
  by (auto simp: handle_frame_def handle_new_def handle_keep_def Let_def split: option.splits sum.splits)

lemma handle_frame_dies:
  "\<nexists>m'. handle_frame look bind dies f m = Lost m' \<Longrightarrow> handle_frame look bind dies f m = handle_frame look bind False f m"
  by (auto simp: handle_frame_def handle_new_def Let_def split: if_splits option.splits sum.splits)

lemma next_frame_dies:
  "next_frame look bind dies m = next_frame look bind False m \<or>
   (\<exists>n. alive (next_frame look bind False m) n \<and>
      next_frame look bind dies m = mux_stop AssociationClosed (finish n (next_frame look bind False m)))"
proof (cases "\<exists>f rest m2. read_frame (mx_avail m) = Inr (f, rest) \<and> handle_frame look bind dies f (m\<lparr>mx_avail := rest\<rparr>) = Lost m2")
  case True
  then obtain f rest m2 where r: "read_frame (mx_avail m) = Inr (f, rest)"
    and l: "handle_frame look bind dies f (m\<lparr>mx_avail := rest\<rparr>) = Lost m2" by blast
  from handle_frame_lost [OF l] obtain m' n where m': "handle_frame look bind False f (m\<lparr>mx_avail := rest\<rparr>) = GoOn m'"
    "m2 = finish n m'" "alive m' n" by auto
  have "alive (m'\<lparr>mx_frames := mx_frames m' @ [f]\<rparr>) n" using m'(3) by (simp add: alive_def)
  with r l m'(1,2) show ?thesis by (intro disjI2 exI [of _ n]) (simp add: next_frame_def finish_frames)
next
  case False
  then have "handle_frame look bind dies f (m\<lparr>mx_avail := rest\<rparr>) = handle_frame look bind False f (m\<lparr>mx_avail := rest\<rparr>)"
    if "read_frame (mx_avail m) = Inr (f, rest)" for f rest
    using handle_frame_dies [of look bind dies f "m\<lparr>mx_avail := rest\<rparr>"] that by blast
  then show ?thesis by (intro disjI1) (auto simp: next_frame_def split: sum.splits)
qed

lemma next_frame_keeps:
  assumes "P (next_frame look bind False m)"
    and "\<And>n m. alive m n \<Longrightarrow> P m \<Longrightarrow> P (finish n m)" and "\<And>m. P m \<Longrightarrow> P (mux_stop AssociationClosed m)"
  shows "P (next_frame look bind dies m)"
  using next_frame_dies [of look bind dies m] assms by metis

lemma next_frame_ok:
  assumes "mux_ok look p m" and "mx_status m = Running"
  shows "mux_ok look p (next_frame look bind dies m)"
proof (rule next_frame_keeps [where P = "mux_ok look p"])
  show "mux_ok look p (next_frame look bind False m)"
    using assms handle_frame_ok [of look p "m\<lparr>mx_avail := _\<rparr>" bind] mux_stop_ok handle_frame_kept
    by (auto simp: next_frame_def split: sum.splits option.splits frame_outcome.splits)
qed (simp_all add: finish_ok mux_stop_ok)

lemma mux_step_ok: "mux_ok look p m \<Longrightarrow> mux_ok look p (mux_step A look bind tx m e)"
  by (cases e) (auto simp: next_frame_ok mux_stop_ok assoc_message_ok assoc_reply_ok assoc_cut_ok finish_ok)

lemma serve_xudp_ok: "mux_ok look permits (serve_xudp A look bind tx permits evs w k)"
proof -
  have "mux_ok look p m \<Longrightarrow> mux_ok look p (foldl (mux_step A look bind tx) m evs)" for p m
    by (induction evs arbitrary: m) (simp_all add: mux_step_ok)
  then show ?thesis by (simp add: serve_xudp_def mux_start_def mux_ok_def live_tasks_def)
qed

section \<open>The two directions\<close>

text \<open>A frame that can be read can be read when more bytes follow.\<close>

lemma read_u16_more: "read_u16 s = Inr (x, r) \<Longrightarrow> read_u16 (s @ t) = Inr (x, r @ t)"
  by (auto simp: read_u16_Inr)

lemma read_exact_more: "read_exact n s = Inr (x, r) \<Longrightarrow> read_exact n (s @ t) = Inr (x, r @ t)"
  by (auto simp: read_exact_def split: if_splits)

lemma read_frame_more:
  assumes "read_frame s = Inr (f, r)"
  shows "read_frame (s @ t) = Inr (f, r @ t)"
proof -
  obtain l s1 where 1: "read_u16 s = Inr (l, s1)" using assms by (cases "read_u16 s") (auto simp: read_frame_def)
  have l: "4 \<le> unat l \<and> unat l \<le> MAX_METADATA_LEN"
    using assms 1 by (auto simp: read_frame_def Let_def split: if_splits)
  obtain md s2 where 2: "read_exact (unat l) s1 = Inr (md, s2)"
    using assms 1 l by (cases "read_exact (unat l) s1") (auto simp: read_frame_def Let_def)
  have st: "md ! 2 \<in> {STATUS_NEW, STATUS_KEEP, STATUS_END, STATUS_KEEP_ALIVE}"
    using assms 1 l 2 by (auto simp: read_frame_def Let_def split: if_splits)
  obtain tg where 3: "read_target (md ! 2) (md ! 3) md = Inr tg"
    using assms 1 l 2 st by (cases "read_target (md ! 2) (md ! 3) md") (auto simp: read_frame_def Let_def)
  note head = assms 1 l 2 st 3 read_u16_more [OF 1, of t] read_exact_more [OF 2, of t]
  show ?thesis
  proof (cases "md ! 3 AND OPTION_DATA = 0")
    case True
    with head show ?thesis by (cases tg) (auto simp: read_frame_def Let_def split: if_splits)
  next
    case False
    then obtain pl s3 where 4: "read_u16 s2 = Inr (pl, s3)"
      using head by (cases tg; cases "read_u16 s2") (auto simp: read_frame_def Let_def)
    then obtain p s4 where 5: "read_exact (unat pl) s3 = Inr (p, s4)"
      using head False by (cases tg; cases "read_exact (unat pl) s3") (auto simp: read_frame_def Let_def)
    from head False 4 5 read_u16_more [OF 4, of t] read_exact_more [OF 5, of t] show ?thesis
      by (cases tg) (auto simp: read_frame_def Let_def split: if_splits)
  qed
qed

lemma read_many_more:
  "read_many read_frame n s = Inr (fs, r) \<Longrightarrow> read_many read_frame n (s @ t) = Inr (fs, r @ t)"
  by (induction n arbitrary: s fs) (auto simp: read_frame_more split: sum.splits)

lemma read_many_snoc:
  "read_many dec n s = Inr (xs, r) \<Longrightarrow> dec r = Inr (x, r') \<Longrightarrow> read_many dec (Suc n) s = Inr (xs @ [x], r')"
proof (induction n arbitrary: s xs)
  case (Suc n)
  then obtain y s1 ys where "dec s = Inr (y, s1)" "read_many dec n s1 = Inr (ys, r)" "xs = y # ys"
    by (auto split: sum.splits)
  with Suc.IH [of s1 ys] Suc.prems(2) show ?case by (subst read_many.simps) (simp del: read_many.simps)
qed simp

fun mux_bytes :: "mux_event list \<Rightarrow> bytes" where
  "mux_bytes [] = []"
| "mux_bytes (MuxBytes b # es) = b @ mux_bytes es"
| "mux_bytes (MuxEnds e # es) = []"
| "mux_bytes (_ # es) = mux_bytes es"

definition has_read :: "bytes \<Rightarrow> mux \<Rightarrow> bool" where
  "has_read s m \<longleftrightarrow> read_many read_frame (length (mx_frames m)) s = Inr (mx_frames m, mx_avail m)"

lemma as_id_update [simp]: "as_id a = as_id (xs ! i) \<Longrightarrow> as_id (xs[i := a] ! n) = as_id (xs ! n)"
  by (cases "i < length xs"; cases "i = n") (auto simp: nth_list_update list_update_beyond)

lemma handle_frame_frames:
  "handle_frame look bind False f m = GoOn m' \<Longrightarrow> mx_frames m' = mx_frames m \<and> mx_avail m' = mx_avail m \<and> mx_closed m' = mx_closed m \<and>
     mx_writer m' = mx_writer m \<and> mx_sink m' = mx_sink m \<and> mx_replies m' = mx_replies m \<and>
     (\<forall>n < length (mx_tasks m). n < length (mx_tasks m') \<and> as_id (mx_tasks m' ! n) = as_id (mx_tasks m ! n))"
  by (auto simp: handle_frame_def handle_new_def handle_keep_def spawn_association_def enqueue_def Let_def nth_append nth_list_update
      split: if_splits option.splits sum.splits)

lemma next_frame_reads:
  assumes "has_read s m"
  shows "has_read s (next_frame look bind False m)"
proof (cases "read_frame (mx_avail m)")
  case (Inl e)
  with assms show ?thesis by (auto simp: next_frame_def has_read_def mux_stop_def split: option.splits)
next
  case (Inr r)
  obtain f rest where r: "r = (f, rest)" by fastforce
  show ?thesis
  proof (cases "handle_frame look bind False f (m\<lparr>mx_avail := rest\<rparr>)")
    case (GoOn m')
    from handle_frame_frames [OF this] GoOn Inr r assms read_many_snoc [of read_frame _ s "mx_frames m" "mx_avail m" f rest]
    show ?thesis by (simp add: next_frame_def has_read_def)
  qed (use Inr r assms handle_frame_kept in \<open>simp_all add: next_frame_def has_read_def mux_stop_def\<close>)
qed

lemma assoc_step_reads [simp]:
  "has_read s (finish n m) = has_read s m" "has_read s (assoc_message look tx n m) = has_read s m"
  "has_read s (assoc_reply A n x d m) = has_read s m" "has_read s (mux_stop e m) = has_read s m"
  "has_read s (assoc_cut A n x d wait m) = has_read s m"
  by (auto simp: has_read_def finish_def assoc_message_def assoc_reply_def assoc_cut_def mux_stop_def Let_def
      split: list.splits sum.splits option.splits prod.splits)

lemma assoc_step_closed [simp]:
  "mx_closed (finish n m) = mx_closed m" "mx_closed (assoc_message look tx n m) = mx_closed m"
  "mx_closed (assoc_reply A n x d m) = mx_closed m" "mx_closed (mux_stop e m) = mx_closed m"
  "mx_closed (assoc_cut A n x d wait m) = mx_closed m"
  by (auto simp: finish_def assoc_message_def assoc_reply_def assoc_cut_def mux_stop_def Let_def
      split: list.splits sum.splits option.splits prod.splits)

lemma next_frame_read: "has_read s m \<Longrightarrow> has_read s (next_frame look bind dies m)"
  by (rule next_frame_keeps [where P = "has_read s"]) (simp_all add: next_frame_reads)

lemma next_frame_closed [simp]: "mx_closed (next_frame look bind dies m) = mx_closed m"
proof (rule next_frame_keeps [where P = "\<lambda>m'. mx_closed m' = mx_closed m"])
  show "mx_closed (next_frame look bind False m) = mx_closed m"
    by (auto simp: next_frame_def mux_stop_def dest: handle_frame_frames split: sum.splits option.splits frame_outcome.splits)
qed simp_all

lemma mux_reads:
  assumes "has_read s m"
  shows "has_read (s @ (if mx_closed m = None then mux_bytes evs else [])) (foldl (mux_step A look bind tx) m evs)"
  using assms
proof (induction evs arbitrary: m s)
  case Nil
  then show ?case by simp
next
  case (Cons e es)
  show ?case
  proof (cases e)
    case (MuxBytes b)
    have "has_read (s @ b) (m\<lparr>mx_avail := mx_avail m @ b\<rparr>)"
      using Cons.prems read_many_more by (simp add: has_read_def)
    from Cons.IH [OF this] Cons.IH [OF Cons.prems] MuxBytes show ?thesis by auto
  next
    case (MuxEnds x)
    have "has_read s (m\<lparr>mx_closed := Some x\<rparr>)" using Cons.prems by (simp add: has_read_def)
    from Cons.IH [OF this] Cons.IH [OF Cons.prems] MuxEnds show ?thesis by auto
  qed (use Cons.IH [of s "mux_step A look bind tx m e"] Cons.prems next_frame_read in auto)
qed

text \<open>What the client is sent.\<close>

definition replied :: "aead \<Rightarrow> protocol_writer \<Rightarrow> sink \<Rightarrow> mux \<Rightarrow> bool" where
  "replied A w k m \<longleftrightarrow> writer_ok (mx_writer m) \<and> sk_left (mx_sink m) = None \<and>
     (\<exists>q. write_many encode_frame (mx_replies m) = Inr q \<and> emitted A w k q (mx_writer m) (mx_sink m))"

lemma replied_frame [simp]:
  "replied A w k (finish n m) = replied A w k m" "replied A w k (assoc_message look tx n m) = replied A w k m"
  "replied A w k (mux_stop e m) = replied A w k m" "replied A w k (m\<lparr>mx_avail := b\<rparr>) = replied A w k m"
  "replied A w k (m\<lparr>mx_closed := c\<rparr>) = replied A w k m" "replied A w k (m\<lparr>mx_download_bytes := x\<rparr>) = replied A w k m"
  by (auto simp: replied_def finish_def assoc_message_def mux_stop_def Let_def
      split: list.splits sum.splits option.splits prod.splits)

lemma next_frame_replied: "replied A w k m \<Longrightarrow> replied A w k (next_frame look bind dies m)"
proof (rule next_frame_keeps [where P = "replied A w k"])
  assume "replied A w k m"
  then show "replied A w k (next_frame look bind False m)"
    by (auto simp: replied_def mux_stop_def next_frame_def dest: handle_frame_frames
        split: sum.splits option.splits frame_outcome.splits)
qed simp_all

lemma assoc_reply_replied:
  assumes "aead_correct A" and "aead_total A" and "replied A w k m"
  shows "replied A w k (assoc_reply A n s d m)"
proof -
  let ?f = "reply_frame (as_id (mx_tasks m ! n)) s (take RECEIVE_BUF d)"
  obtain q where q: "writer_ok (mx_writer m)" "sk_left (mx_sink m) = None" "write_many encode_frame (mx_replies m) = Inr q"
      "emitted A w k q (mx_writer m) (mx_sink m)"
    using assms(3) by (auto simp: replied_def)
  show ?thesis
  proof (cases "encode_frame ?f")
    case (Inl e)
    with assms(3) show ?thesis by (simp add: assoc_reply_def Let_def)
  next
    case (Inr b)
    obtain w' k' where s: "writer_send A (mx_writer m) (mx_sink m) b = (None, w', k')" "writer_ok w'" "sk_left k' = None"
        "emitted A (mx_writer m) (mx_sink m) b w' k'"
      using writer_send_ok [OF assms(1,2) q(1,2)] .
    with Inr write_many_snoc [OF q(3) Inr] emitted_trans [OF q(4) s(4)] show ?thesis
      by (simp add: assoc_reply_def Let_def replied_def)
  qed
qed

text \<open>The timer cuts a record that is sealed already. Only the encrypted writer is harmed by this.\<close>

definition cuts_record :: "mux_event \<Rightarrow> bool" where
  "cuts_record e \<longleftrightarrow> (\<exists>n s d j. e = AssocCut n s d (Some j))"

lemma assoc_cut_replied:
  assumes "replied A w k m" and "w = PlainWriter \<or> wait = None"
  shows "replied A w k (assoc_cut A n s d wait m)"
proof -
  have "cut_send A wait (mx_writer m) (mx_sink m) b = (mx_writer m, mx_sink m)" for b
    using assms by (cases "mx_writer m"; cases wait) (auto simp: replied_def emitted.simps)
  with assms(1) show ?thesis
    by (auto simp: assoc_cut_def Let_def replied_def finish_def split: sum.splits option.splits)
qed

lemma serve_xudp_replied:
  assumes "aead_correct A" and "aead_total A" and "writer_ok w" and "sk_left k = None"
    and "w = PlainWriter \<or> list_all (\<lambda>e. \<not> cuts_record e) evs"
  shows "replied A w k (serve_xudp A look bind tx permits evs w k)"
proof -
  have step: "replied A w k (mux_step A look bind tx m e)" if "replied A w k m" "w = PlainWriter \<or> \<not> cuts_record e" for m e
    using that assoc_reply_replied [OF assms(1,2)] assoc_cut_replied next_frame_replied
    by (cases e) (auto simp: cuts_record_def)
  have "replied A w k m \<Longrightarrow> replied A w k (foldl (mux_step A look bind tx) m evs)" for m
    using assms(5)
  proof (induction evs arbitrary: m)
    case (Cons e es)
    then have "w = PlainWriter \<or> \<not> cuts_record e" "w = PlainWriter \<or> list_all (\<lambda>e. \<not> cuts_record e) es" by auto
    with Cons.IH [OF step [OF Cons.prems(1)]] show ?case by simp
  qed simp
  then show ?thesis using assms(3,4) by (simp add: serve_xudp_def mux_start_def replied_def emitted_refl)
qed

text \<open>What was sent stays sent, whatever happens later.\<close>

definition sent_kept :: "mux \<Rightarrow> mux \<Rightarrow> bool" where
  "sent_kept m m' \<longleftrightarrow> prefix (sk_sent (mx_sink m)) (sk_sent (mx_sink m')) \<and> prefix (mx_replies m) (mx_replies m')"

lemma sink_send_sent: "sink_send k b = Some k' \<Longrightarrow> prefix (sk_sent k) (sk_sent k')"
  by (auto simp: sink_send_def split: if_splits option.splits nat.splits)

lemma send_records_sent: "prefix (sk_sent k) (sk_sent (snd (snd (send_records A st x k ps))))"
proof (induction ps arbitrary: st x k)
  case (Cons p ps)
  have "prefix (sk_sent k) (sk_sent (snd (snd (send_records A st' x' k' ps))))" if "sink_send k out = Some k'" for out k' st' x'
    using sink_send_sent [OF that] Cons [of k' st' x'] by (rule prefix_order.trans)
  then show ?case by (auto split: prod.splits sum.splits option.splits)
qed simp

lemma writer_send_sent: "writer_send A w k b = (r, w', k') \<Longrightarrow> prefix (sk_sent k) (sk_sent k')"
proof (cases w)
  case (EncryptedWriter st x)
  assume "writer_send A w k b = (r, w', k')"
  with EncryptedWriter send_records_sent [of k A st x "chunks 8192 b"] show ?thesis by simp
qed (auto dest: sink_send_sent split: option.splits)

lemma cut_send_sent: "cut_send A wait w k b = (w', k') \<Longrightarrow> prefix (sk_sent k) (sk_sent k')"
  using send_records_sent by (cases w; cases wait) auto

lemma mux_step_sent: "sent_kept m (mux_step A look bind tx m e)"
proof -
  have n: "sent_kept m (next_frame look bind dies m)" for dies
  proof (rule next_frame_keeps [where P = "sent_kept m"])
    show "sent_kept m (next_frame look bind False m)"
      by (auto simp: sent_kept_def mux_stop_def next_frame_def dest: handle_frame_frames
          split: sum.splits option.splits frame_outcome.splits)
  qed (simp_all add: sent_kept_def finish_def mux_stop_def)
  show ?thesis
    using n [unfolded sent_kept_def]
    by (cases e) (auto simp: sent_kept_def mux_stop_def finish_def assoc_message_def assoc_reply_def assoc_cut_def Let_def
        dest: writer_send_sent cut_send_sent split: list.splits sum.splits option.splits prod.splits)
qed

lemma serve_xudp_sent:
  "sent_kept (serve_xudp A look bind tx permits evs w k) (serve_xudp A look bind tx permits (evs @ evs2) w k)"
proof (induction evs2 rule: rev_induct)
  case (snoc e es)
  let ?m = "serve_xudp A look bind tx permits (evs @ es) w k"
  have "serve_xudp A look bind tx permits (evs @ es @ [e]) w k = mux_step A look bind tx ?m e" by (simp add: serve_xudp_def)
  with snoc mux_step_sent [of ?m A look bind tx e] show ?case
    by (auto simp: sent_kept_def intro: prefix_order.trans)
qed (simp add: sent_kept_def)

definition ids_kept :: "mux \<Rightarrow> mux \<Rightarrow> bool" where
  "ids_kept m m' \<longleftrightarrow>
     (\<forall>n < length (mx_tasks m). n < length (mx_tasks m') \<and> as_id (mx_tasks m' ! n) = as_id (mx_tasks m ! n))"

lemma next_frame_ids: "ids_kept m (next_frame look bind dies m)"
proof (rule next_frame_keeps [where P = "ids_kept m"])
  show "ids_kept m (next_frame look bind False m)"
    by (auto simp: ids_kept_def next_frame_def mux_stop_def dest: handle_frame_frames
        split: sum.splits option.splits frame_outcome.splits)
qed (auto simp: ids_kept_def finish_def mux_stop_def)

lemma mux_step_ids: "ids_kept m (mux_step A look bind tx m e)"
proof (cases "e = MuxFrame \<or> e = MuxFrameDies")
  case True
  then show ?thesis using next_frame_ids by (auto simp: ids_kept_def)
next
  case False
  then show ?thesis
    by (cases e) (auto simp: ids_kept_def mux_stop_def finish_def assoc_message_def assoc_reply_def assoc_cut_def Let_def
      split: list.splits sum.splits option.splits prod.splits)
qed

lemma next_frame_replies [simp]: "mx_replies (next_frame look bind dies m) = mx_replies m"
proof (rule next_frame_keeps [where P = "\<lambda>m'. mx_replies m' = mx_replies m"])
  show "mx_replies (next_frame look bind False m) = mx_replies m"
    by (auto simp: next_frame_def mux_stop_def dest: handle_frame_frames split: sum.splits option.splits frame_outcome.splits)
qed (simp_all add: finish_def mux_stop_def)

lemma mux_step_replies:
  "mx_replies (mux_step A look bind tx m e) = mx_replies m \<or>
   (\<exists>n s d. e = AssocReply n s d \<and> n < length (mx_tasks m) \<and>
      mx_replies (mux_step A look bind tx m e) = mx_replies m @ [reply_frame (as_id (mx_tasks m ! n)) s (take RECEIVE_BUF d)])"
  by (cases e) (auto simp: mux_stop_def finish_def assoc_message_def assoc_reply_def assoc_cut_def Let_def alive_def
      split: list.splits sum.splits option.splits prod.splits)

text \<open>A reply carries the id of the association whose socket received it.\<close>

definition from_its_target :: "mux_event list \<Rightarrow> mux \<Rightarrow> frame \<Rightarrow> bool" where
  "from_its_target evs m f \<longleftrightarrow>
     (\<exists>n s d. n < length (mx_tasks m) \<and> AssocReply n s d \<in> set evs \<and>
        f = reply_frame (as_id (mx_tasks m ! n)) s (take RECEIVE_BUF d))"

lemma serve_xudp_replies:
  "f \<in> set (mx_replies (serve_xudp A look bind tx permits evs w k)) \<Longrightarrow>
     from_its_target evs (serve_xudp A look bind tx permits evs w k) f"
proof (induction evs rule: rev_induct)
  case Nil
  then show ?case by (simp add: serve_xudp_def mux_start_def)
next
  case (snoc e evs)
  let ?m = "serve_xudp A look bind tx permits evs w k"
  have s: "serve_xudp A look bind tx permits (evs @ [e]) w k = mux_step A look bind tx ?m e"
    by (simp add: serve_xudp_def)
  have ids: "ids_kept ?m (mux_step A look bind tx ?m e)" by (rule mux_step_ids)
  have "f \<in> set (mx_replies ?m) \<or>
      (\<exists>n x d. e = AssocReply n x d \<and> n < length (mx_tasks ?m) \<and> f = reply_frame (as_id (mx_tasks ?m ! n)) x (take RECEIVE_BUF d))"
    using mux_step_replies [of A look bind tx ?m e] snoc.prems s by auto
  then show ?case
  proof
    assume "f \<in> set (mx_replies ?m)"
    with snoc.IH ids s show ?thesis by (fastforce simp: from_its_target_def ids_kept_def)
  next
    assume "\<exists>n x d. e = AssocReply n x d \<and> n < length (mx_tasks ?m) \<and> f = reply_frame (as_id (mx_tasks ?m ! n)) x (take RECEIVE_BUF d)"
    with ids s show ?thesis by (fastforce simp: from_its_target_def ids_kept_def)
  qed
qed

text \<open>
  C9. Multiplexed UDP keeps its sessions apart: at any time, whatever the order in which the loop, the tasks,
  the targets and the timers act, the frames taken up are those the client stream starts with; there is
  one task for each frame that opened a session, and it has sent to the targets of its messages a
  prefix of the payloads of its session (those of its id up to the next frame that opens or ends one
  with this id) and has all others in its queue while it runs; each reply that was sent as a whole has the id of
  the task whose socket received it and its source as target; and every permit is held by a running task or free. The
  client is sent, whole and in order, the frames of these replies up to the first time the idle timer of a
  task cancels the sending of a record that is sealed already, and for good when the connection is not encrypted.
\<close>

theorem xudp_sessions_served:
  assumes "aead_correct A" and "aead_total A" and "writer_ok w" and "sk_left k = None"
    and "m = serve_xudp A look bind tx permits evs w k"
  shows "read_many read_frame (length (mx_frames m)) (mux_bytes evs) = Inr (mx_frames m, mx_avail m) \<and>
    list_all2 (serves look) (mx_tasks m) (sessions (mx_frames m)) \<and>
    (\<forall>evs1 evs2 m1. evs = evs1 @ evs2 \<and> m1 = serve_xudp A look bind tx permits evs1 w k \<and>
        (w = PlainWriter \<or> list_all (\<lambda>e. \<not> cuts_record e) evs1) \<longrightarrow>
      (\<exists>q. write_many encode_frame (mx_replies m1) = Inr q \<and> emitted A w k q (mx_writer m1) (mx_sink m1)) \<and>
      prefix (mx_replies m1) (mx_replies m) \<and> prefix (sk_sent (mx_sink m1)) (sk_sent (mx_sink m))) \<and>
    list_all (from_its_target evs m) (mx_replies m) \<and>
    mx_permits m + live_tasks m = permits \<and> mx_active m = int (live_tasks m)"
proof (intro conjI allI impI)
  have "has_read (mux_bytes evs) m"
    using mux_reads [of "[]" "mux_start permits w k" evs A look bind tx] assms(5)
    by (simp add: serve_xudp_def has_read_def mux_start_def)
  then show "read_many read_frame (length (mx_frames m)) (mux_bytes evs) = Inr (mx_frames m, mx_avail m)"
    by (simp add: has_read_def)
  have "mux_ok look permits m" using serve_xudp_ok assms(5) by simp
  then show "list_all2 (serves look) (mx_tasks m) (sessions (mx_frames m))" "mx_permits m + live_tasks m = permits"
    "mx_active m = int (live_tasks m)" by (simp_all add: mux_ok_def)
  show "list_all (from_its_target evs m) (mx_replies m)"
    using serve_xudp_replies assms(5) by (auto simp: list_all_iff)
next
  fix evs1 evs2 m1
  assume e: "evs = evs1 @ evs2 \<and> m1 = serve_xudp A look bind tx permits evs1 w k \<and>
    (w = PlainWriter \<or> list_all (\<lambda>e. \<not> cuts_record e) evs1)"
  then have "replied A w k m1" using serve_xudp_replied [OF assms(1-4), of evs1] by blast
  then show "\<exists>q. write_many encode_frame (mx_replies m1) = Inr q \<and> emitted A w k q (mx_writer m1) (mx_sink m1)"
    by (simp add: replied_def)
  from e assms(5) serve_xudp_sent [of A look bind tx permits evs1 w k evs2]
  show "prefix (mx_replies m1) (mx_replies m)" "prefix (sk_sent (mx_sink m1)) (sk_sent (mx_sink m))"
    by (simp_all add: sent_kept_def)
qed

text \<open>
  Why the last part has its condition: on an encrypted connection such a cancellation uses up the nonce of a record that the
  client is never sent. The client expects this nonce for the next record it gets, of whatever association, and
  that record is sealed with a later one.
\<close>

lemma cut_reply_loses_a_nonce:
  assumes "aead_correct A" and "aead_total A" and "alive m n" and "mx_writer m = EncryptedWriter st x" and "writer_ok (mx_writer m)"
    and "length (nonce st) = 12"
    and "sk_left (mx_sink m) = None" and "encode_frame (reply_frame (as_id (mx_tasks m ! n)) s (take RECEIVE_BUF d)) = Inr b" and "b \<noteq> []"
  shows "\<exists>st' x'. mx_writer (mux_step A look bind tx m (AssocCut n s d (Some 0))) = EncryptedWriter st' x' \<and>
    be_value (nonce st') = (be_value (nonce st) + 1) mod 2 ^ 96 \<and>
    mx_sink (mux_step A look bind tx m (AssocCut n s d (Some 0))) = mx_sink m"
proof -
  obtain c cs where c: "chunks 8192 b = c # cs" using assms(9) by (cases "chunks 8192 b") (use concat_chunks [of 8192 b] in auto)
  then have p: "c \<noteq> []" "length c \<le> 8192" using chunks_length [of c 8192 b] by auto
  obtain rec st1 where r: "seal A st c = (Inr rec, st1)" using seal_ok [OF assms(2) p] .
  obtain out x1 where "mask_record x rec = Inr (out, x1)" "out \<noteq> []"
    using mask_record_ok [OF assms(1) r] assms(4,5) by metis
  with r seal_nonce [OF r assms(6)] assms(3,4,7,8) c show ?thesis
    by (simp add: assoc_cut_def finish_def sink_send_def)
qed

text \<open>
  C38. An association that ended by itself takes the others with it: its entry stays in the map of the loop,
  so the next data frame of its id, which opens nothing new, makes the loop return; then no association
  has a sender left, and every task whose queue is empty ends at its next step.
\<close>

theorem xudp_ended_association_is_fatal:
  assumes "m = serve_xudp A look bind tx permits evs w k" and "mx_status m = Running"
    and "mx_associations m (session_id f) = Some n" and "\<not> alive m n"
    and "read_frame (mx_avail m) = Inr (f, rest)" and "status f = STATUS_KEEP" and "has_data f" and "fr_target f = Some t"
    and "alive m j" and "as_queue (mx_tasks m ! j) = []"
  shows "mx_status (mux_step A look bind tx m MuxFrame) = Done (Some AssociationClosed) \<and>
    \<not> alive (foldl (mux_step A look bind tx) m [MuxFrame, AssocMessage j]) j"
proof -
  have "n < length (mx_tasks m)"
    using serve_xudp_ok [of look permits A bind tx evs w k] assms(1-3) by (auto simp: mux_ok_def)
  then have "\<not> as_live (mx_tasks m ! n)" using assms(4) by (simp add: alive_def)
  with assms have "mux_step A look bind tx m MuxFrame = mux_stop AssociationClosed m"
    by (simp add: next_frame_def handle_frame_def handle_keep_def xudp_consts)
  with assms(9,10) show ?thesis
    by (simp add: mux_stop_def assoc_message_def sender_left_def finish_def alive_def)
qed

text \<open>Two sessions and a datagram for the first.\<close>

definition demo_frame :: "u16 \<Rightarrow> u8 \<Rightarrow> u8 \<Rightarrow> bytes \<Rightarrow> frame" where
  "demo_frame i st opt p =
     \<lparr>session_id = i, status = st, option = opt, fr_target = Some \<lparr>tg_address = Ipv4 1 2 3 4, tg_port = 53\<rparr>,
      global_id = None, fr_payload = p\<rparr>"

lemma demo_frames:
  "\<exists>b1 b2 b3. \<forall>r. read_frame (b1 @ r) = Inr (demo_frame 7 STATUS_NEW 0 [], r) \<and>
     read_frame (b2 @ r) = Inr (demo_frame 8 STATUS_NEW 0 [], r) \<and>
     read_frame (b3 @ r) = Inr (demo_frame 7 STATUS_KEEP 1 [5, 6], r)"
proof -
  have enc: "\<exists>b. encode_frame (demo_frame i st opt p) = Inr b" if "length p \<le> 2" for i st opt p
    using that by (simp add: demo_frame_def encode_frame_def encode_metadata_def Let_def MAX_METADATA_LEN_def write_port_then_address_def)
  have ok: "frame_ok (demo_frame 7 STATUS_NEW 0 [])" "frame_ok (demo_frame 8 STATUS_NEW 0 [])"
    "frame_ok (demo_frame 7 STATUS_KEEP 1 [5, 6])"
    by (simp_all add: demo_frame_def frame_ok_def xudp_consts)
  obtain b1 b2 b3 where b: "encode_frame (demo_frame 7 STATUS_NEW 0 []) = Inr b1"
    "encode_frame (demo_frame 8 STATUS_NEW 0 []) = Inr b2" "encode_frame (demo_frame 7 STATUS_KEEP 1 [5, 6]) = Inr b3"
    using enc [of "[]" 7 STATUS_NEW 0] enc [of "[]" 8 STATUS_NEW 0] enc [of "[5, 6]" 7 STATUS_KEEP 1] by auto
  show ?thesis using frame_decodes [OF ok(1) b(1)] frame_decodes [OF ok(2) b(2)] frame_decodes [OF ok(3) b(3)] by blast
qed

lemmas mux_code = serve_xudp_def mux_start_def next_frame_def handle_frame_def handle_new_def handle_keep_def enqueue_def
  spawn_association_def resolve_target_def has_data_def alive_def finish_def assoc_message_def xudp_consts CHANNEL_SIZE_def Let_def

theorem xudp_sessions_served_witness:
  "\<exists>bs m. m = serve_xudp toy_aead (\<lambda>_ _. Inr []) (\<lambda>_. None) (\<lambda>_ _. None) 4
       [MuxBytes bs, MuxFrame, MuxFrame, MuxFrame, AssocMessage 0] PlainWriter \<lparr>sk_sent = [], sk_left = None\<rparr> \<and>
     map as_sent (mx_tasks m) = [[(\<lparr>sa_ip = V4 1 2 3 4, sa_port = 53\<rparr>, [5, 6])], []] \<and>
     list_all2 (serves (\<lambda>_ _. Inr [])) (mx_tasks m) (sessions (mx_frames m))"
proof -
  let ?k = "\<lparr>sk_sent = [], sk_left = None\<rparr>"
  obtain b1 b2 b3 where b: "\<And>r. read_frame (b1 @ r) = Inr (demo_frame 7 STATUS_NEW 0 [], r)"
    "\<And>r. read_frame (b2 @ r) = Inr (demo_frame 8 STATUS_NEW 0 [], r)"
    "\<And>r. read_frame (b3 @ r) = Inr (demo_frame 7 STATUS_KEEP 1 [5, 6], r)"
    using demo_frames by blast
  let ?e = "[MuxBytes (b1 @ b2 @ b3 @ []), MuxFrame, MuxFrame, MuxFrame, AssocMessage 0]"
  let ?m = "serve_xudp toy_aead (\<lambda>_ _. Inr []) (\<lambda>_. None) (\<lambda>_ _. None) 4 ?e PlainWriter ?k"
  have t: "map as_sent (mx_tasks ?m) = [[(\<lparr>sa_ip = V4 1 2 3 4, sa_port = 53\<rparr>, [5, 6])], []]"
    using b(3) [of "[]"] by (simp add: mux_code b demo_frame_def message_of_def)
  have w: "writer_ok PlainWriter" "sk_left ?k = None" by simp_all
  note s = xudp_sessions_served [OF toy_aead_correct toy_aead_total w refl, of "\<lambda>_ _. Inr []" "\<lambda>_. None" "\<lambda>_ _. None" 4 ?e,
      THEN conjunct2, THEN conjunct1]
  show ?thesis by (rule exI [of _ "b1 @ b2 @ b3 @ []"], rule exI [of _ ?m], intro conjI, rule refl, rule t, rule s)
qed

theorem xudp_ended_association_is_fatal_witness:
  "\<exists>bs m. m = serve_xudp toy_aead (\<lambda>_ _. Inr []) (\<lambda>_. None) (\<lambda>_ _. None) 4
       [MuxBytes bs, MuxFrame, MuxFrame, AssocIdle 0] PlainWriter \<lparr>sk_sent = [], sk_left = None\<rparr> \<and> alive m 1 \<and>
     mx_status (mux_step toy_aead (\<lambda>_ _. Inr []) (\<lambda>_. None) (\<lambda>_ _. None) m MuxFrame) = Done (Some AssociationClosed)"
proof -
  let ?k = "\<lparr>sk_sent = [], sk_left = None\<rparr>" and ?f = "demo_frame 7 STATUS_KEEP 1 [5, 6]"
  obtain b1 b2 b3 where b: "\<And>r. read_frame (b1 @ r) = Inr (demo_frame 7 STATUS_NEW 0 [], r)"
    "\<And>r. read_frame (b2 @ r) = Inr (demo_frame 8 STATUS_NEW 0 [], r)" "\<And>r. read_frame (b3 @ r) = Inr (?f, r)"
    using demo_frames by blast
  let ?e = "[MuxBytes (b1 @ b2 @ b3 @ []), MuxFrame, MuxFrame, AssocIdle 0]"
  let ?m = "serve_xudp toy_aead (\<lambda>_ _. Inr []) (\<lambda>_. None) (\<lambda>_ _. None) 4 ?e PlainWriter ?k"
  have m: "mx_status ?m = Running" "mx_associations ?m (session_id ?f) = Some 0" "\<not> alive ?m 0"
      "read_frame (mx_avail ?m) = Inr (?f, [])" "alive ?m 1" "as_queue (mx_tasks ?m ! 1) = []"
    using b(3) [of "[]"] by (simp_all add: mux_code b demo_frame_def)
  have "status ?f = STATUS_KEEP" "has_data ?f" "fr_target ?f = Some \<lparr>tg_address = Ipv4 1 2 3 4, tg_port = 53\<rparr>"
    by (simp_all add: demo_frame_def has_data_def OPTION_DATA_def)
  note s = xudp_ended_association_is_fatal [OF refl m(1-4) this m(5,6), THEN conjunct1]
  show ?thesis by (rule exI [of _ "b1 @ b2 @ b3 @ []"], rule exI [of _ ?m], intro conjI, rule refl, rule m(5), rule s)
qed

end
