(* ===== verification/Xhttp.thy ===== *)
theory Xhttp
  imports Text
begin

text \<open>
  The XHTTP request layer, \<^verbatim>\<open>src/xhttp/mod.rs\<close> and \<^verbatim>\<open>src/xhttp/padding.rs\<close>: session id and sequence number from
  the path, host check, classification, and the padding of requests and responses. Of an HTTP request
  (types of the \<open>http\<close> crate) the record \<open>request\<close> keeps what the functions read: the method, the path,
  the query and the host of the URI, and the values of the \<open>Host\<close> and \<open>Referer\<close> headers that are text.
  The owned and the borrowed variants of the source have the same values and are one type here.
\<close>

section \<open>Requests\<close>

datatype http_method = GET | POST | OPTIONS | OtherMethod bytes

record request =
  rq_method :: http_method
  rq_path :: bytes
  rq_query :: "bytes option"
  rq_uri_host :: "bytes option"
  rq_host :: "bytes option"
  rq_referer :: "bytes option"

datatype request_kind =
    PacketUpload bytes u64 | StreamDownload bytes | StreamUp bytes | StreamOne | Options | Unsupported

record meta =
  session_id :: bytes
  seq_str :: bytes

definition slash :: u8 where "slash = of_char (CHR ''/'')"

definition extract_meta_from_path :: "bytes \<Rightarrow> bytes \<Rightarrow> meta" where
  "extract_meta_from_path base path =
     (let rest = (case strip_prefix base path of Some r \<Rightarrow> r | None \<Rightarrow> []);
          segs = split_on slash rest
      in \<lparr>session_id = hd segs, seq_str = (case tl segs of [] \<Rightarrow> [] | s # _ \<Rightarrow> s)\<rparr>)"

definition path_matches :: "bytes \<Rightarrow> bytes \<Rightarrow> bool" where
  "path_matches base path \<longleftrightarrow> strip_prefix base path \<noteq> None"

definition ascii_lower :: "u8 \<Rightarrow> u8" where
  "ascii_lower b = (if 0x41 \<le> b \<and> b \<le> 0x5A then b + 32 else b)"

definition eq_ignore_ascii_case :: "bytes \<Rightarrow> bytes \<Rightarrow> bool" where
  "eq_ignore_ascii_case a b \<longleftrightarrow> map ascii_lower a = map ascii_lower b"

definition host_matches :: "bytes \<Rightarrow> request \<Rightarrow> bool" where
  "host_matches configured r \<longleftrightarrow>
     (if configured = [] then True
      else
        let host = (case rq_host r of Some h \<Rightarrow> h | None \<Rightarrow> (case rq_uri_host r of Some h \<Rightarrow> h | None \<Rightarrow> []));
            colon = of_char (CHR '':'')
        in eq_ignore_ascii_case (hd (split_on colon host)) (hd (split_on colon configured)))"

definition classify_borrowed :: "http_method \<Rightarrow> meta \<Rightarrow> request_kind" where
  "classify_borrowed m meta1 =
     (if m = OPTIONS then Options
      else
        let has_session = session_id meta1 \<noteq> [];
            has_seq = seq_str meta1 \<noteq> [];
            is_uplink = (if m = GET then has_seq else True)
        in if is_uplink \<and> has_session then
             (if has_seq then
                (case parse_uint 64 (seq_str meta1) of
                   Some s \<Rightarrow> PacketUpload (session_id meta1) (of_nat s)
                 | None \<Rightarrow> Unsupported)
              else StreamUp (session_id meta1))
           else if m = GET \<or> \<not> has_session then
             (if has_session then StreamDownload (session_id meta1) else StreamOne)
           else Unsupported)"

text \<open>The owned variant converts the borrowed result constructor by constructor.\<close>

fun classify :: "http_method \<Rightarrow> meta \<Rightarrow> request_kind" where
  "classify m meta1 =
     (case classify_borrowed m meta1 of
        PacketUpload s n \<Rightarrow> PacketUpload s n
      | StreamDownload s \<Rightarrow> StreamDownload s
      | StreamUp s \<Rightarrow> StreamUp s
      | StreamOne \<Rightarrow> StreamOne
      | Options \<Rightarrow> Options
      | Unsupported \<Rightarrow> Unsupported)"

section \<open>Request padding\<close>

definition hex_value :: "u8 \<Rightarrow> u8 option" where
  "hex_value b =
     (if 0x30 \<le> b \<and> b \<le> 0x39 then Some (b - 0x30)
      else if 0x61 \<le> b \<and> b \<le> 0x66 then Some (b - 0x61 + 10)
      else if 0x41 \<le> b \<and> b \<le> 0x46 then Some (b - 0x41 + 10)
      else None)"

text \<open>The loop of \<open>percent_decode\<close>; \<open>char::to_digit(16)\<close> accepts the same characters as \<open>hex_value\<close>.\<close>

fun percent_decode_bytes :: "bytes \<Rightarrow> bytes" where
  "percent_decode_bytes [] = []"
| "percent_decode_bytes (c # h # l # s) =
     (if c = 0x25 then
        (case (hex_value h, hex_value l) of
           (Some a, Some b) \<Rightarrow> (a * 16 + b) # percent_decode_bytes s
         | _ \<Rightarrow> 0x25 # percent_decode_bytes (h # l # s))
      else if c = 0x2B then 0x20 # percent_decode_bytes (h # l # s)
      else c # percent_decode_bytes (h # l # s))"
| "percent_decode_bytes (c # s) = (if c = 0x2B then 0x20 else c) # percent_decode_bytes s"

fun percent_decoded_len :: "bytes \<Rightarrow> nat" where
  "percent_decoded_len [] = 0"
| "percent_decoded_len (c # h # l # s) =
     (if c = 0x25 \<and> hex_value h \<noteq> None \<and> hex_value l \<noteq> None then Suc (percent_decoded_len s)
      else Suc (percent_decoded_len (h # l # s)))"
| "percent_decoded_len (c # s) = Suc (percent_decoded_len s)"

text \<open>\<open>String::from_utf8_lossy\<close>: every maximal invalid sequence (a lead byte with the continuation bytes
  that fit it, or a stray byte) becomes U+FFFD.\<close>

fun utf8_valid_follow :: "u8 \<Rightarrow> nat \<Rightarrow> bytes \<Rightarrow> nat" where
  "utf8_valid_follow b n [] = 0"
| "utf8_valid_follow b n (c # cs) =
     (if 0 < n \<and> utf8_second_ok b c then Suc (length (takeWhile utf8_cont (take (n - 1) cs))) else 0)"

function from_utf8_lossy :: "bytes \<Rightarrow> bytes" where
  "from_utf8_lossy [] = []"
| "from_utf8_lossy (b # bs) =
     (case utf8_follow b of
        None \<Rightarrow> [0xEF, 0xBF, 0xBD] @ from_utf8_lossy bs
      | Some n \<Rightarrow>
          let m = utf8_valid_follow b n bs
          in if m = n then b # take n bs @ from_utf8_lossy (drop n bs)
             else [0xEF, 0xBF, 0xBD] @ from_utf8_lossy (drop m bs))"
  by pat_completeness auto
termination
  by (relation "measure length") auto

definition percent_decode :: "bytes \<Rightarrow> bytes" where
  "percent_decode s = from_utf8_lossy (percent_decode_bytes s)"

fun query_pairs :: "bytes list \<Rightarrow> bytes \<Rightarrow> bytes option" where
  "query_pairs [] k = None"
| "query_pairs (pair # pairs) k =
     (case (case split_once (of_char (CHR ''='')) pair of Some kv \<Rightarrow> kv | None \<Rightarrow> (pair, [])) of
        (k', v) \<Rightarrow> if k' = k then Some v else query_pairs pairs k)"

definition query_param_ref :: "bytes \<Rightarrow> bytes \<Rightarrow> bytes option" where
  "query_param_ref q k = query_pairs (split_on (of_char (CHR ''&'')) q) k"

definition query_value_ref :: "bytes \<Rightarrow> bytes \<Rightarrow> bytes option" where
  "query_value_ref url k =
     (case split_once (of_char (CHR ''?'')) url of
        None \<Rightarrow> None
      | Some (_, q) \<Rightarrow> query_param_ref (hd (split_on (of_char (CHR ''#'')) q)) k)"

definition query_value :: "bytes \<Rightarrow> bytes \<Rightarrow> bytes option" where
  "query_value url k = map_option percent_decode (query_value_ref url k)"

definition query_param :: "bytes \<Rightarrow> bytes \<Rightarrow> bytes option" where
  "query_param q k = map_option percent_decode (query_param_ref q k)"

definition extract_padding :: "request \<Rightarrow> bytes" where
  "extract_padding r =
     (case rq_referer r of
        Some referer \<Rightarrow>
          if referer \<noteq> [] then (case query_value referer (bytes_of ''x_padding'') of Some v \<Rightarrow> v | None \<Rightarrow> [])
          else (case rq_query r of
                  Some q \<Rightarrow> (case query_param q (bytes_of ''x_padding'') of Some v \<Rightarrow> v | None \<Rightarrow> [])
                | None \<Rightarrow> [])
      | None \<Rightarrow>
          (case rq_query r of
             Some q \<Rightarrow> (case query_param q (bytes_of ''x_padding'') of Some v \<Rightarrow> v | None \<Rightarrow> [])
           | None \<Rightarrow> []))"

text \<open>The raw value both extractors look at.\<close>

definition raw_padding :: "request \<Rightarrow> bytes option" where
  "raw_padding r =
     (case (case rq_referer r of Some x \<Rightarrow> if x \<noteq> [] then Some x else None | None \<Rightarrow> None) of
        Some referer \<Rightarrow> query_value_ref referer (bytes_of ''x_padding'')
      | None \<Rightarrow> Option.bind (rq_query r) (\<lambda>q. query_param_ref q (bytes_of ''x_padding'')))"

definition extract_padding_len :: "request \<Rightarrow> nat option" where
  "extract_padding_len r = map_option percent_decoded_len (raw_padding r)"

definition is_padding_valid :: "bytes \<Rightarrow> u32 \<Rightarrow> u32 \<Rightarrow> bool" where
  "is_padding_valid v from to \<longleftrightarrow> v \<noteq> [] \<and> from \<le> of_nat (length v) \<and> of_nat (length v) \<le> to"

definition is_padding_len_valid :: "nat option \<Rightarrow> u32 \<Rightarrow> u32 \<Rightarrow> bool" where
  "is_padding_len_valid v from to \<longleftrightarrow>
     (case v of None \<Rightarrow> False | Some n \<Rightarrow> n \<noteq> 0 \<and> unat from \<le> n \<and> n \<le> unat to)"

section \<open>Response padding\<close>

definition MAX_CACHED_LENGTHS :: nat where "MAX_CACHED_LENGTHS = 2048"

text \<open>A slot of the cache is a \<open>OnceLock\<close>: empty, or set once.\<close>

record response_padding =
  rp_from :: u32
  rp_to :: u32
  rp_cache :: "bytes option list option"

definition response_padding_new :: "u32 \<Rightarrow> u32 \<Rightarrow> response_padding" where
  "response_padding_new from to =
     (let width = (unat to - unat from) + 1
      in \<lparr>rp_from = from, rp_to = to,
          rp_cache = (if width \<le> MAX_CACHED_LENGTHS then Some (replicate width None) else None)\<rparr>)"

text \<open>\<open>draw\<close> is what the random number generator returns; a uniform draw from the range is any of its
  elements.\<close>

definition random_length :: "u32 \<Rightarrow> u32 \<Rightarrow> nat \<Rightarrow> u32" where
  "random_length from to draw = (if to \<le> from then from else from + of_nat (draw mod (unat to - unat from + 1)))"

definition padding_header_value :: "u32 \<Rightarrow> bytes" where
  "padding_header_value len = replicate (unat len) (of_char (CHR ''X''))"

definition generate_response_padding :: "u32 \<Rightarrow> u32 \<Rightarrow> nat \<Rightarrow> bytes" where
  "generate_response_padding from to draw = replicate (unat (random_length from to draw)) (of_char (CHR ''X''))"

text \<open>\<open>None\<close> is the panic of an index out of range.\<close>

definition header_value :: "response_padding \<Rightarrow> nat \<Rightarrow> (bytes \<times> response_padding) option" where
  "header_value rp draw =
     (let len = random_length (rp_from rp) (rp_to rp) draw
      in case rp_cache rp of
           None \<Rightarrow> Some (padding_header_value len, rp)
         | Some cache \<Rightarrow>
             let i = unat (len - rp_from rp)
             in if length cache \<le> i then None
                else (case cache ! i of
                        Some v \<Rightarrow> Some (v, rp)
                      | None \<Rightarrow>
                          let v = padding_header_value len
                          in Some (v, rp\<lparr>rp_cache := Some (cache[i := Some v])\<rparr>)))"

section \<open>Classification\<close>

lemma not_digit_slash [simp]: "\<not> is_digit slash"
  by (simp add: is_digit_def slash_def)

lemma extract_upload:
  "slash \<notin> set s \<Longrightarrow> slash \<notin> set q \<Longrightarrow>
   extract_meta_from_path base (base @ s @ slash # q) = \<lparr>session_id = s, seq_str = q\<rparr>"
  by (simp add: extract_meta_from_path_def split_on_append split_on_single)

lemma extract_download:
  "slash \<notin> set s \<Longrightarrow> extract_meta_from_path base (base @ s) = \<lparr>session_id = s, seq_str = []\<rparr>"
  by (simp add: extract_meta_from_path_def split_on_single)

lemma split_on_two:
  assumes "split_on c xs = a # ys" and "ys \<noteq> []"
  shows "xs = a @ c # hd ys @ (if tl ys = [] then [] else c # join_with c (tl ys))"
proof -
  obtain y zs where "ys = y # zs" using assms(2) by (cases ys) auto
  with join_split_on [of c xs] assms(1) show ?thesis by (cases zs) auto
qed

lemma extract_meta_sound:
  assumes "seq_str (extract_meta_from_path base path) = q" and "q \<noteq> []"
  shows "\<exists>t. path = base @ session_id (extract_meta_from_path base path) @ slash # q @ t \<and> (t = [] \<or> hd t = slash) \<and>
    slash \<notin> set (session_id (extract_meta_from_path base path)) \<and> slash \<notin> set q"
proof -
  define rest where "rest = (case strip_prefix base path of Some r \<Rightarrow> r | None \<Rightarrow> [])"
  define segs where "segs = split_on slash rest"
  have ne: "segs \<noteq> []" by (simp add: segs_def)
  have m: "session_id (extract_meta_from_path base path) = hd segs" "q = (case tl segs of [] \<Rightarrow> [] | s # _ \<Rightarrow> s)"
    using assms(1) by (simp_all add: extract_meta_from_path_def segs_def rest_def Let_def)
  then have tl: "tl segs \<noteq> []" "q = hd (tl segs)" using assms(2) by (auto split: list.splits)
  have r: "rest = hd segs @ slash # q @ (if tl (tl segs) = [] then [] else slash # join_with slash (tl (tl segs)))"
    using split_on_two [of slash rest "hd segs" "tl segs"] ne tl by (simp add: segs_def)
  have "\<exists>r. strip_prefix base path = Some r"
    using r by (auto simp: rest_def split: option.splits)
  then have "path = base @ rest" by (auto simp: rest_def strip_prefix_Some)
  moreover have "slash \<notin> set (hd segs)" using ne split_on_parts [of "hd segs" slash rest] by (simp add: segs_def)
  moreover have "q \<in> set segs" using tl by (metis hd_in_set list.set_sel(2) ne)
  then have "slash \<notin> set q" using split_on_parts [of q slash rest] by (simp add: segs_def)
  ultimately show ?thesis using m(1) r by (auto split: if_splits)
qed

text \<open>
  C29. Requests are classified as the client means them: an upload to \<open>base/session/seq\<close> is the packet
  \<open>seq\<close> of that session for every method but OPTIONS, a GET of \<open>base/session\<close> opens its download, and
  conversely a request is taken for a packet upload only when its path has this form, with a session
  id and a sequence number that is a 64-bit decimal.
\<close>

theorem xhttp_classification:
  assumes "s \<noteq> []" and "slash \<notin> set s" and "m \<noteq> OPTIONS"
  shows "classify m (extract_meta_from_path base (base @ s @ slash # decimal (unat n))) = PacketUpload s n \<and>
    classify GET (extract_meta_from_path base (base @ s)) = StreamDownload s \<and>
    (\<forall>m' path s' n'. classify m' (extract_meta_from_path base path) = PacketUpload s' n' \<longrightarrow>
       (\<exists>q t. path = base @ s' @ slash # q @ t \<and> (t = [] \<or> hd t = slash) \<and> s' \<noteq> [] \<and> slash \<notin> set s' \<and>
              parse_uint 64 q = Some (unat n') \<and> m' \<noteq> OPTIONS))"
proof (intro conjI allI impI)
  have d: "decimal (unat n) \<noteq> []" "slash \<notin> set (decimal (unat n))"
    using decimal_digits by (simp_all)
  have "parse_uint 64 (decimal (unat n)) = Some (unat n)"
    by (rule parse_decimal) simp
  with assms d show "classify m (extract_meta_from_path base (base @ s @ slash # decimal (unat n))) = PacketUpload s n"
    by (simp add: extract_upload classify_borrowed_def)
  from assms show "classify GET (extract_meta_from_path base (base @ s)) = StreamDownload s"
    by (simp add: extract_download classify_borrowed_def)
next
  fix m' path s' n'
  let ?m = "extract_meta_from_path base path"
  assume "classify m' ?m = PacketUpload s' n'"
  then have c: "classify_borrowed m' ?m = PacketUpload s' n'"
    by (simp split: request_kind.splits)
  then obtain v where v: "m' \<noteq> OPTIONS" "session_id ?m = s'" "s' \<noteq> []" "seq_str ?m \<noteq> []" "parse_uint 64 (seq_str ?m) = Some v" "n' = of_nat v"
    by (auto simp: classify_borrowed_def Let_def split: if_splits option.splits)
  then have "unat n' = v" using parse_uint_bound [OF v(5)] by (simp add: unat_of_nat_u64)
  with v extract_meta_sound [of base path "seq_str ?m"] show "\<exists>q t. path = base @ s' @ slash # q @ t \<and> (t = [] \<or> hd t = slash) \<and>
      s' \<noteq> [] \<and> slash \<notin> set s' \<and> parse_uint 64 q = Some (unat n') \<and> m' \<noteq> OPTIONS"
    by auto
qed

theorem xhttp_classification_witness:
  "classify POST (extract_meta_from_path (bytes_of ''/x/'') (bytes_of ''/x/'' @ bytes_of ''abc'' @ slash # decimal (unat (7 :: u64)))) =
    PacketUpload (bytes_of ''abc'') 7"
  using xhttp_classification [of "bytes_of ''abc''" POST "bytes_of ''/x/''" 7]
  by (simp add: bytes_of_def slash_def)

section \<open>The padding checks agree\<close>

lemma percent_decoded_len_correct: "percent_decoded_len s = length (percent_decode_bytes s)"
  by (induction s rule: percent_decode_bytes.induct) (auto split: option.splits)

lemma takeWhile_all: "list_all P xs \<Longrightarrow> takeWhile P xs = xs"
  by (induction xs) auto

lemma from_utf8_lossy_valid: "utf8_valid s \<Longrightarrow> from_utf8_lossy s = s"
proof (induction s rule: utf8_valid.induct)
  case (2 b bs)
  then obtain n where n: "utf8_follow b = Some n" "n \<le> length bs" "utf8_tail_ok b (take n bs)" "utf8_valid (drop n bs)"
    by (auto split: option.splits)
  have "utf8_valid_follow b n bs = n"
  proof (cases n)
    case 0
    then show ?thesis by (cases bs) auto
  next
    case (Suc k)
    with n obtain c cs where "bs = c # cs" by (cases bs) auto
    with Suc n show ?thesis by (auto simp: takeWhile_all min_def)
  qed
  with 2 n show ?case by simp
qed simp

lemma extract_padding_raw:
  "extract_padding r = (case raw_padding r of None \<Rightarrow> [] | Some v \<Rightarrow> percent_decode v)"
  by (auto simp: extract_padding_def raw_padding_def query_value_def query_param_def split: option.splits)

text \<open>
  C30. The allocation-free padding check of the request path agrees with the reference check: for every
  request whose decoded padding is text shorter than 4 GiB, validating the length that
  \<open>extract_padding_len\<close> computes without decoding gives the same verdict as decoding the padding and
  validating it, for every configured range.
\<close>

theorem padding_checks_agree:
  assumes "\<forall>v. raw_padding r = Some v \<longrightarrow> utf8_valid (percent_decode_bytes v) \<and> length (percent_decode_bytes v) < 2 ^ 32"
  shows "is_padding_len_valid (extract_padding_len r) from to \<longleftrightarrow> is_padding_valid (extract_padding r) from to"
proof (cases "raw_padding r")
  case None
  then show ?thesis
    by (simp add: extract_padding_len_def extract_padding_raw is_padding_len_valid_def is_padding_valid_def)
next
  case (Some v)
  with assms have l: "length (percent_decode_bytes v) < 2 ^ 32" "percent_decode v = percent_decode_bytes v"
    by (auto simp: percent_decode_def from_utf8_lossy_valid)
  then have "unat (of_nat (length (percent_decode_bytes v)) :: u32) = length (percent_decode_bytes v)"
    by (simp add: unat_of_nat)
  with Some l show ?thesis
    by (simp add: extract_padding_len_def extract_padding_raw is_padding_len_valid_def is_padding_valid_def
        percent_decoded_len_correct word_le_nat_alt)
qed

lemma query_param_hit:
  assumes "of_char (CHR ''&'') \<notin> set v"
  shows "query_param_ref (bytes_of ''x_padding'' @ of_char (CHR ''='') # v) (bytes_of ''x_padding'') = Some v"
proof -
  let ?k = "bytes_of ''x_padding''"
  have "of_char (CHR ''&'') \<notin> set (?k @ of_char (CHR ''='') # v)" using assms by (simp add: bytes_of_def)
  then have "split_on (of_char (CHR ''&'')) (?k @ of_char (CHR ''='') # v) = [?k @ of_char (CHR ''='') # v]"
    by (rule split_on_single)
  moreover have "split_once (of_char (CHR ''='')) (?k @ of_char (CHR ''='') # v) = Some (?k, v)"
    by (rule split_once_append) (simp add: bytes_of_def)
  ultimately show ?thesis unfolding query_param_ref_def by simp
qed

theorem padding_checks_agree_witness:
  "let r = \<lparr>rq_method = POST, rq_path = [], rq_query = Some (bytes_of ''x_padding'' @ of_char (CHR ''='') # [0x58, 0x25, 0x34, 0x31, 0x58]),
             rq_uri_host = None, rq_host = None, rq_referer = None\<rparr>
   in is_padding_valid (extract_padding r) 3 5 \<longleftrightarrow> is_padding_len_valid (extract_padding_len r) 3 5"
proof -
  let ?v = "[0x58, 0x25, 0x34, 0x31, 0x58] :: bytes"
  let ?r = "\<lparr>rq_method = POST, rq_path = [], rq_query = Some (bytes_of ''x_padding'' @ of_char (CHR ''='') # ?v),
             rq_uri_host = None, rq_host = None, rq_referer = None\<rparr>"
  have "raw_padding ?r = Some ?v"
    using query_param_hit [of ?v] by (simp add: raw_padding_def)
  moreover have "percent_decode_bytes ?v = [0x58, 0x41, 0x58]"
    by (simp add: hex_value_def)
  moreover have "utf8_valid [0x58, 0x41, 0x58]" by (rule utf8_valid_ascii) simp
  ultimately show ?thesis using padding_checks_agree [of ?r 3 5] by simp
qed

section \<open>Response padding is in range\<close>

definition rp_ok :: "response_padding \<Rightarrow> bool" where
  "rp_ok rp \<longleftrightarrow>
     (case rp_cache rp of
        None \<Rightarrow> True
      | Some cache \<Rightarrow>
          length cache = unat (rp_to rp) - unat (rp_from rp) + 1 \<and>
          (\<forall>i < length cache. \<forall>v. cache ! i = Some v \<longrightarrow> v = padding_header_value (rp_from rp + of_nat i)))"

fun header_values :: "response_padding \<Rightarrow> nat list \<Rightarrow> bytes list option" where
  "header_values rp [] = Some []"
| "header_values rp (d # ds) =
     (case header_value rp d of
        None \<Rightarrow> None
      | Some (v, rp') \<Rightarrow> map_option ((#) v) (header_values rp' ds))"

lemma random_length_offset:
  "\<exists>i. random_length from to d = from + of_nat i \<and> i \<le> unat to - unat from \<and>
       unat (random_length from to d - from) = i \<and> unat (random_length from to d) = unat from + i"
proof (cases "to \<le> from")
  case True
  then show ?thesis by (intro exI [of _ 0]) (simp add: random_length_def)
next
  case False
  let ?i = "d mod (unat to - unat from + 1)"
  have i: "?i \<le> unat to - unat from" using mod_less_divisor [of "unat to - unat from + 1" d] by linarith
  have le: "unat from \<le> unat to" using False by (simp add: word_le_nat_alt)
  have to: "unat to < 2 ^ 32" using unsigned_less [of to, where 'a = nat] by simp
  then have "?i < 2 ^ 32" using i by linarith
  then have "unat (of_nat ?i :: u32) = ?i" unfolding unat_of_nat by simp
  moreover have "unat from + ?i < 2 ^ 32" using i le to by linarith
  ultimately have "unat (from + of_nat ?i) = unat from + ?i" "unat (of_nat ?i :: u32) = ?i"
    by (simp_all add: unat_word_ariths)
  with False i show ?thesis by (intro exI [of _ ?i]) (simp add: random_length_def)
qed

lemma header_value_ok:
  assumes "rp_ok rp"
  shows "\<exists>rp'. header_value rp d = Some (padding_header_value (random_length (rp_from rp) (rp_to rp) d), rp') \<and>
    rp_ok rp' \<and> rp_from rp' = rp_from rp \<and> rp_to rp' = rp_to rp"
proof -
  obtain i where i: "random_length (rp_from rp) (rp_to rp) d = rp_from rp + of_nat i" "i \<le> unat (rp_to rp) - unat (rp_from rp)"
      "unat (random_length (rp_from rp) (rp_to rp) d - rp_from rp) = i"
    using random_length_offset by blast
  show ?thesis
  proof (cases "rp_cache rp")
    case None
    with assms show ?thesis by (simp add: header_value_def)
  next
    case (Some cache)
    with assms i have l: "i < length cache" by (simp add: rp_ok_def)
    show ?thesis
    proof (cases "cache ! i")
      case None
      with assms Some i l show ?thesis
        by (auto simp: header_value_def rp_ok_def nth_list_update Let_def)
    next
      case v: (Some v)
      with assms Some i l show ?thesis by (auto simp: header_value_def rp_ok_def)
    qed
  qed
qed

lemma header_values_ok:
  "rp_ok rp \<Longrightarrow> header_values rp ds = Some (map (\<lambda>d. padding_header_value (random_length (rp_from rp) (rp_to rp) d)) ds)"
proof (induction ds arbitrary: rp)
  case (Cons d ds)
  from header_value_ok [OF Cons.prems, of d] obtain rp' where
    "header_value rp d = Some (padding_header_value (random_length (rp_from rp) (rp_to rp) d), rp')"
    "rp_ok rp'" "rp_from rp' = rp_from rp" "rp_to rp' = rp_to rp" by blast
  with Cons.IH [of rp'] show ?case by simp
qed simp

lemma cached_padding:
  "header_values (response_padding_new from to) ds = Some (map (generate_response_padding from to) ds)"
proof -
  have "rp_ok (response_padding_new from to)"
    by (simp add: rp_ok_def response_padding_new_def Let_def nth_replicate del: replicate_Suc)
  from header_values_ok [OF this, of ds] show ?thesis
    by (simp add: response_padding_new_def Let_def generate_response_padding_def padding_header_value_def)
qed

lemma generated_padding_valid:
  assumes "1 \<le> from" and "from \<le> to"
  shows "is_padding_len_valid (Some (length (generate_response_padding from to d))) from to"
proof -
  obtain i where "i \<le> unat to - unat from" "unat (random_length from to d) = unat from + i"
    using random_length_offset [of "from" to d] by blast
  moreover from assms have "1 \<le> unat from" "unat from \<le> unat to" by (simp_all add: word_le_nat_alt)
  ultimately show ?thesis by (simp add: is_padding_len_valid_def generate_response_padding_def)
qed

text \<open>
  The cached response padding is the generated one: for every configured range, after any number of
  responses the cache never indexes out of range, every value handed out equals what
  \<open>generate_response_padding\<close> returns for the same draw, and with a proper range \<open>1 \<le> from \<le> to\<close> it
  passes the length check of the other end.
\<close>

lemma response_padding_cached:
  "header_values (response_padding_new from to) ds = Some (map (generate_response_padding from to) ds) \<and>
   (1 \<le> from \<and> from \<le> to \<longrightarrow>
      (\<forall>d. is_padding_len_valid (Some (length (generate_response_padding from to d))) from to))"
  using cached_padding generated_padding_valid by blast

lemma response_padding_cached_example:
  "header_values (response_padding_new 100 1000) [3, 3] = Some (map (generate_response_padding 100 1000) [3, 3]) \<and>
   is_padding_len_valid (Some (length (generate_response_padding 100 1000 3))) 100 1000"
  using response_padding_cached [of 100 1000 "[3, 3]"] by simp

end
