(* ===== verification/Config.thy ===== *)
theory Config
  imports Session Xhttp Validator
begin

text \<open>
  The server configuration, \<^verbatim>\<open>src/config.rs\<close>, and how \<^verbatim>\<open>src/runtime.rs\<close> turns it into the parameters of the
  session table and of the user table. The JSON decoder (serde) is not modelled: \<open>json_config\<close> is what it
  returns, with the default values of absent fields as the \<open>default_*\<close> definitions below give them. Every
  message of \<open>ConfigError::Invalid\<close> is a constructor of its own. Paths and strings are their bytes, a socket
  address is the bytes of the IP address with the port.
\<close>

section \<open>Validated configuration\<close>

record acme_config =
  domains :: "bytes list"
  acme_email :: bytes
  directory_url :: bytes
  ca_certificate_file :: "bytes option"
  challenge_listen :: "bytes \<times> u16"
  cache_dir :: bytes
  renew_before_days :: u64
  renew_check_hours :: u64
  accept_terms :: bool

record tls_config =
  tls_cert :: bytes
  tls_key :: bytes
  tls_alpn :: "bytes list"
  tls_acme :: "acme_config option"

datatype uplink_data_placement = PlaceBody | PlaceHeader | PlaceCookie | PlaceAuto

record xhttp_config =
  path :: bytes
  host :: bytes
  max_each_post_bytes :: nat
  max_buffered_posts :: nat
  session_grace_secs :: u64
  sse_header :: bool
  max_header_bytes :: nat
  padding_from :: u32
  padding_to :: u32
  uplink_data_placement :: uplink_data_placement
  uplink_data_key :: bytes

record limits =
  lim_max_sessions :: nat
  max_pending_packets_per_session :: nat
  max_pending_bytes_per_session :: nat
  global_buffer_bytes :: u64
  max_concurrent_target_conns :: nat
  handshake_timeout_seconds :: u64
  target_connect_seconds :: u64
  udp_association_idle_seconds :: u64

definition default_limits :: limits where
  "default_limits =
     \<lparr>lim_max_sessions = 65536, max_pending_packets_per_session = 30,
      max_pending_bytes_per_session = 16 * 1024 * 1024, global_buffer_bytes = 1024 * 1024 * 1024,
      max_concurrent_target_conns = 100000, handshake_timeout_seconds = 10, target_connect_seconds = 10,
      udp_association_idle_seconds = 60\<rparr>"

datatype fallback_mode = Builtin | Directory

record site_config =
  site_seed :: bytes
  site_title :: bytes
  site_author :: bytes
  site_description :: bytes
  site_language :: bytes

record fallback_config =
  fb_mode :: fallback_mode
  dist :: "bytes option"
  index_file :: bytes
  fb_not_found :: "bytes option"
  max_file_bytes :: nat
  max_total_bytes :: nat
  site :: site_config

definition default_fallback :: fallback_config where
  "default_fallback =
     \<lparr>fb_mode = Builtin, dist = None, index_file = bytes_of ''index.html'', fb_not_found = None,
      max_file_bytes = 8 * 1024 * 1024, max_total_bytes = 128 * 1024 * 1024,
      site = \<lparr>site_seed = [], site_title = [], site_author = [], site_description = [], site_language = []\<rparr>\<rparr>"

record listen_config =
  addr :: "bytes \<times> u16"
  workers :: nat
  tcp_nodelay :: bool
  reuse_port :: bool
  backlog :: int
  tcp_keepalive_secs :: u64
  graceful_shutdown_secs :: u64

text \<open>\<open>parallelism\<close> is what \<open>available_parallelism\<close> returns.\<close>

definition worker_threads :: "nat option \<Rightarrow> listen_config \<Rightarrow> nat" where
  "worker_threads parallelism l =
     (if workers l \<noteq> 0 then workers l else (case parallelism of Some n \<Rightarrow> n | None \<Rightarrow> 1))"

definition tcp_keepalive :: "listen_config \<Rightarrow> u64 option" where
  "tcp_keepalive l = (if tcp_keepalive_secs l \<noteq> 0 then Some (tcp_keepalive_secs l) else None)"

text \<open>A configured user is a \<open>user\<close> of the validator: id, email and flow.\<close>

record config =
  listen :: listen_config
  tls :: "tls_config option"
  xhttp :: xhttp_config
  vless_users :: "user list"
  decryption :: bytes
  cfg_limits :: limits
  log_level :: bytes
  fallback :: fallback_config

section \<open>What the JSON decoder returns\<close>

record tls_settings =
  ts_alpn :: "bytes list"
  certificates :: "(bytes \<times> bytes) list"
  ts_acme :: "acme_config option"

definition default_alpn :: "bytes list" where
  "default_alpn = [bytes_of ''h2'', bytes_of ''http/1.1'']"

record xhttp_settings =
  xs_path :: bytes
  xs_host :: bytes
  sc_max_each_post_bytes :: nat
  sc_max_buffered_posts :: nat
  session_grace_seconds :: u64
  no_sse_header :: bool
  server_max_header_bytes :: nat
  x_padding_bytes :: bytes
  xs_placement :: uplink_data_placement
  xs_key :: bytes

text \<open>The settings of a document that gives the path only.\<close>

definition default_xhttp_settings :: "bytes \<Rightarrow> xhttp_settings" where
  "default_xhttp_settings p =
     \<lparr>xs_path = p, xs_host = [], sc_max_each_post_bytes = 1000000, sc_max_buffered_posts = 30,
      session_grace_seconds = 30, no_sse_header = False, server_max_header_bytes = 8192,
      x_padding_bytes = bytes_of ''100-1000'', xs_placement = PlaceBody, xs_key = []\<rparr>"

record stream_settings =
  network :: bytes
  security :: bytes
  tls_settings :: "tls_settings option"
  xhttp_settings :: xhttp_settings

record inbound_config =
  in_tag :: bytes
  in_listen :: bytes
  in_port :: u16
  protocol :: bytes
  clients :: "user list"
  in_decryption :: bytes
  stream_settings :: stream_settings

record server_config =
  sv_workers :: nat
  sv_tcp_nodelay :: bool
  sv_reuse_port :: bool
  sv_backlog :: int
  sv_tcp_keepalive_seconds :: u64
  graceful_shutdown_seconds :: u64
  sv_limits :: limits

definition default_server_config :: server_config where
  "default_server_config =
     \<lparr>sv_workers = 0, sv_tcp_nodelay = True, sv_reuse_port = True, sv_backlog = 4096,
      sv_tcp_keepalive_seconds = 300, graceful_shutdown_seconds = 30, sv_limits = default_limits\<rparr>"

record json_config =
  loglevel :: bytes
  inbounds :: "inbound_config list"
  server :: server_config
  json_fallback :: fallback_config

section \<open>Validation\<close>

datatype config_error =
    OneInboundOnly | UnsupportedProtocol bytes bytes | NetworkNotXhttp | PortZero | AcmePortClash
  | NoClients | UnsupportedFlow bytes
  | TlsSettingsWithoutTls | TlsWithoutSettings | BadAlpn | OneCertificateOnly | UnsupportedSecurity bytes
  | TermsNotAccepted | NoDomains | ChallengePortZero | BadDomain bytes | BadEmail | DirectoryNotHttps
  | BadRenewBefore | BadRenewCheck
  | BadRange bytes | EmptyRange | ZeroUploadLimits | MissingDataKey
  | BadBacklog | BadGracefulShutdown | ZeroLimits
  | BadIndex | BadSiteLimits | DistNotAllowed | DistMissing

text \<open>\<open>Path::join\<close> of a relative path.\<close>

definition path_join :: "bytes \<Rightarrow> bytes \<Rightarrow> bytes" where
  "path_join base p = (if base = [] \<or> last base = slash then base @ p else base @ slash # p)"

definition domain_ok :: "bytes \<Rightarrow> bool" where
  "domain_ok d \<longleftrightarrow>
     d \<noteq> [] \<and> list_all (\<lambda>b. b < 0x80) d \<and> strip_prefix (bytes_of ''*.'') d = None \<and>
     list_all (\<lambda>b. b \<notin> {0x2F, 0x3A, 0x20, 0x09, 0x0A}) d \<and> 0x2E \<in> set d"

definition validate_acme :: "acme_config \<Rightarrow> config_error + unit" where
  "validate_acme a =
     (if \<not> accept_terms a then Inl TermsNotAccepted
      else if domains a = [] then Inl NoDomains
      else if snd (challenge_listen a) = 0 then Inl ChallengePortZero
      else (case find (\<lambda>d. \<not> domain_ok d) (domains a) of
              Some d \<Rightarrow> Inl (BadDomain d)
            | None \<Rightarrow>
                if 0x40 \<notin> set (acme_email a) then Inl BadEmail
                else if strip_prefix (bytes_of ''https://'') (directory_url a) = None then Inl DirectoryNotHttps
                else if renew_before_days a = 0 \<or> 90 \<le> renew_before_days a then Inl BadRenewBefore
                else if renew_check_hours a = 0 then Inl BadRenewCheck
                else Inr ()))"

definition alpn_ok :: "bytes list \<Rightarrow> bool" where
  "alpn_ok ps \<longleftrightarrow> ps \<noteq> [] \<and> list_all (\<lambda>p. p = bytes_of ''h2'' \<or> p = bytes_of ''http/1.1'') ps"

definition parse_tls :: "stream_settings \<Rightarrow> config_error + tls_config option" where
  "parse_tls st =
     (let sec = map ascii_lower (security st)
      in if sec = [] \<or> sec = bytes_of ''none'' then
           (if tls_settings st \<noteq> None then Inl TlsSettingsWithoutTls else Inr None)
         else if sec = bytes_of ''tls'' then
           (case tls_settings st of
              None \<Rightarrow> Inl TlsWithoutSettings
            | Some s \<Rightarrow>
                if \<not> alpn_ok (ts_alpn s) then Inl BadAlpn
                else (case (certificates s, ts_acme s) of
                        ([(c, k)], None) \<Rightarrow> Inr (Some \<lparr>tls_cert = c, tls_key = k, tls_alpn = ts_alpn s, tls_acme = None\<rparr>)
                      | ([], Some a) \<Rightarrow>
                          (case validate_acme a of
                             Inl e \<Rightarrow> Inl e
                           | Inr _ \<Rightarrow>
                               Inr (Some \<lparr>tls_cert = path_join (cache_dir a) (bytes_of ''current/certificate.pem''),
                                          tls_key = path_join (cache_dir a) (bytes_of ''current/private-key.pem''),
                                          tls_alpn = ts_alpn s, tls_acme = Some a\<rparr>))
                      | _ \<Rightarrow> Inl OneCertificateOnly))
         else Inl (UnsupportedSecurity sec))"

definition parse_range :: "bytes \<Rightarrow> config_error + (u32 \<times> u32)" where
  "parse_range v =
     (case (case split_once (of_char (CHR ''-'')) v of Some p \<Rightarrow> p | None \<Rightarrow> (v, v)) of (f, t) \<Rightarrow>
        (case parse_uint 32 (trim f) of
           None \<Rightarrow> Inl (BadRange v)
         | Some a \<Rightarrow>
             (case parse_uint 32 (trim t) of
                None \<Rightarrow> Inl (BadRange v)
              | Some b \<Rightarrow> if a = 0 \<or> b < a then Inl EmptyRange else Inr (of_nat a, of_nat b))))"

definition parse_xhttp :: "xhttp_settings \<Rightarrow> config_error + xhttp_config" where
  "parse_xhttp raw =
     (case parse_range (x_padding_bytes raw) of
        Inl e \<Rightarrow> Inl e
      | Inr (f, t) \<Rightarrow>
          Inr \<lparr>path = xs_path raw, host = xs_host raw, max_each_post_bytes = sc_max_each_post_bytes raw,
               max_buffered_posts = sc_max_buffered_posts raw, session_grace_secs = session_grace_seconds raw,
               sse_header = (\<not> no_sse_header raw), max_header_bytes = server_max_header_bytes raw,
               padding_from = f, padding_to = t, uplink_data_placement = xs_placement raw,
               uplink_data_key = xs_key raw\<rparr>)"

definition normalize_path :: "bytes \<Rightarrow> bytes" where
  "normalize_path p =
     (let p1 = (if p = [] \<or> hd p \<noteq> slash then slash # p else p)
      in if last p1 \<noteq> slash then p1 @ [slash] else p1)"

definition normalize_xhttp :: "xhttp_config \<Rightarrow> config_error + xhttp_config" where
  "normalize_xhttp x =
     (let x1 = x\<lparr>path := normalize_path (path x)\<rparr>
      in if max_each_post_bytes x1 = 0 \<or> max_buffered_posts x1 = 0 then Inl ZeroUploadLimits
         else if uplink_data_placement x1 \<noteq> PlaceBody \<and> uplink_data_key x1 = [] then Inl MissingDataKey
         else Inr x1)"

definition validate_server :: "server_config \<Rightarrow> config_error + unit" where
  "validate_server s =
     (if sv_backlog s < 1 then Inl BadBacklog
      else if graceful_shutdown_seconds s = 0 \<or> 300 < graceful_shutdown_seconds s then Inl BadGracefulShutdown
      else if handshake_timeout_seconds (sv_limits s) = 0 \<or> target_connect_seconds (sv_limits s) = 0 \<or>
              lim_max_sessions (sv_limits s) = 0 \<or> max_concurrent_target_conns (sv_limits s) = 0 \<or>
              global_buffer_bytes (sv_limits s) = 0 then Inl ZeroLimits
      else Inr ())"

definition index_ok :: "bytes \<Rightarrow> bool" where
  "index_ok i \<longleftrightarrow> i \<noteq> [] \<and> slash \<notin> set i \<and> 0x5C \<notin> set i \<and> i \<noteq> bytes_of ''.'' \<and> i \<noteq> bytes_of ''..''"

definition validate_fallback :: "fallback_config \<Rightarrow> xhttp_config \<Rightarrow> config_error + fallback_config" where
  "validate_fallback f x =
     (if \<not> index_ok (index_file f) then Inl BadIndex
      else if max_file_bytes f = 0 \<or> max_total_bytes f < max_file_bytes f then Inl BadSiteLimits
      else if fb_mode f = Builtin \<and> dist f \<noteq> None then Inl DistNotAllowed
      else if fb_mode f = Directory \<and> dist f = None then Inl DistMissing
      else Inr (if site_seed (site f) = []
                then f\<lparr>site := (site f)\<lparr>site_seed := (if host x = [] then path x else host x)\<rparr>\<rparr>
                else f))"

definition flow_ok :: "user \<Rightarrow> bool" where
  "flow_ok u \<longleftrightarrow> user_flow u = [] \<or> user_flow u = bytes_of ''xtls-rprx-vision''"

text \<open>The checks of \<open>try_from\<close> after the inbound is taken out.\<close>

definition try_from_inbound :: "json_config \<Rightarrow> inbound_config \<Rightarrow> config_error + config" where
  "try_from_inbound raw inb =
     (if \<not> eq_ignore_ascii_case (protocol inb) (bytes_of ''vless'') then Inl (UnsupportedProtocol (in_tag inb) (protocol inb))
      else if \<not> eq_ignore_ascii_case (network (stream_settings inb)) (bytes_of ''xhttp'') then Inl NetworkNotXhttp
      else if in_port inb = 0 then Inl PortZero
      else (case parse_tls (stream_settings inb) of
        Inl e \<Rightarrow> Inl e
      | Inr t \<Rightarrow>
          if (case Option.bind t tls_acme of Some a \<Rightarrow> snd (challenge_listen a) = in_port inb | None \<Rightarrow> False) then Inl AcmePortClash
          else (case parse_xhttp (xhttp_settings (stream_settings inb)) of
            Inl e \<Rightarrow> Inl e
          | Inr x \<Rightarrow>
              if clients inb = [] then Inl NoClients
              else (case find (\<lambda>u. \<not> flow_ok u) (clients inb) of
                Some u \<Rightarrow> Inl (UnsupportedFlow (user_flow u))
              | None \<Rightarrow>
                  (case normalize_xhttp x of
                     Inl e \<Rightarrow> Inl e
                   | Inr x1 \<Rightarrow>
                       (case validate_server (server raw) of
                          Inl e \<Rightarrow> Inl e
                        | Inr _ \<Rightarrow>
                            (case validate_fallback (json_fallback raw) x1 of
                               Inl e \<Rightarrow> Inl e
                             | Inr f \<Rightarrow>
                                 Inr \<lparr>listen = \<lparr>addr = (in_listen inb, in_port inb), workers = sv_workers (server raw),
                                        tcp_nodelay = sv_tcp_nodelay (server raw), reuse_port = sv_reuse_port (server raw),
                                        backlog = sv_backlog (server raw),
                                        tcp_keepalive_secs = sv_tcp_keepalive_seconds (server raw),
                                        graceful_shutdown_secs = graceful_shutdown_seconds (server raw)\<rparr>,
                                      tls = t, xhttp = x1, vless_users = clients inb, decryption = in_decryption inb,
                                      cfg_limits = sv_limits (server raw), log_level = loglevel raw, fallback = f\<rparr>)))))))"

definition try_from :: "json_config \<Rightarrow> config_error + config" where
  "try_from raw = (case inbounds raw of [inb] \<Rightarrow> try_from_inbound raw inb | _ \<Rightarrow> Inl OneInboundOnly)"

section \<open>Wiring\<close>

text \<open>\<open>runtime::serve\<close>: the user table, and the session table with its budget.\<close>

definition configured_validator :: "config \<Rightarrow> validator" where
  "configured_validator c = new_validator (vless_users c)"

definition configured_sessions :: "config \<Rightarrow> session_table" where
  "configured_sessions c =
     new_table (default_session_config\<lparr>max_sessions := lim_max_sessions (cfg_limits c),
         max_pending_packets := min (max_pending_packets_per_session (cfg_limits c)) (max_buffered_posts (xhttp c)),
         max_pending_bytes := max_pending_bytes_per_session (cfg_limits c),
         grace := session_grace_secs (xhttp c)\<rparr>)
       (Some (new_budget (global_buffer_bytes (cfg_limits c))))"

section \<open>What an accepted configuration guarantees\<close>

definition acme_ok :: "acme_config \<Rightarrow> bool" where
  "acme_ok a \<longleftrightarrow>
     accept_terms a \<and> domains a \<noteq> [] \<and> list_all domain_ok (domains a) \<and> snd (challenge_listen a) \<noteq> 0 \<and>
     0x40 \<in> set (acme_email a) \<and> strip_prefix (bytes_of ''https://'') (directory_url a) \<noteq> None \<and>
     0 < renew_before_days a \<and> renew_before_days a < 90 \<and> 0 < renew_check_hours a"

definition tls_ok :: "u16 \<Rightarrow> tls_config \<Rightarrow> bool" where
  "tls_ok p t \<longleftrightarrow> alpn_ok (tls_alpn t) \<and> (\<forall>a. tls_acme t = Some a \<longrightarrow> acme_ok a \<and> snd (challenge_listen a) \<noteq> p)"

definition xhttp_ok :: "xhttp_config \<Rightarrow> bool" where
  "xhttp_ok x \<longleftrightarrow>
     path x \<noteq> [] \<and> hd (path x) = slash \<and> last (path x) = slash \<and>
     0 < padding_from x \<and> padding_from x \<le> padding_to x \<and>
     0 < max_each_post_bytes x \<and> 0 < max_buffered_posts x \<and>
     (uplink_data_placement x = PlaceBody \<or> uplink_data_key x \<noteq> [])"

definition limits_ok :: "limits \<Rightarrow> bool" where
  "limits_ok l \<longleftrightarrow>
     0 < lim_max_sessions l \<and> 0 < global_buffer_bytes l \<and> 0 < max_concurrent_target_conns l \<and>
     0 < handshake_timeout_seconds l \<and> 0 < target_connect_seconds l"

definition fallback_ok :: "fallback_config \<Rightarrow> bool" where
  "fallback_ok f \<longleftrightarrow>
     index_ok (index_file f) \<and> 0 < max_file_bytes f \<and> max_file_bytes f \<le> max_total_bytes f \<and>
     (fb_mode f = Directory \<longleftrightarrow> dist f \<noteq> None) \<and> site_seed (site f) \<noteq> []"

definition config_ok :: "config \<Rightarrow> bool" where
  "config_ok c \<longleftrightarrow>
     snd (addr (listen c)) \<noteq> 0 \<and> 1 \<le> backlog (listen c) \<and>
     0 < graceful_shutdown_secs (listen c) \<and> graceful_shutdown_secs (listen c) \<le> 300 \<and>
     (\<forall>t. tls c = Some t \<longrightarrow> tls_ok (snd (addr (listen c))) t) \<and>
     xhttp_ok (xhttp c) \<and> vless_users c \<noteq> [] \<and> list_all flow_ok (vless_users c) \<and>
     limits_ok (cfg_limits c) \<and> fallback_ok (fallback c)"

lemma validate_acme_ok: "validate_acme a = Inr () \<Longrightarrow> acme_ok a"
  by (auto simp: validate_acme_def acme_ok_def find_None_iff list_all_iff word_neq_0_conv not_le
      split: if_splits option.splits)

lemma parse_tls_ok:
  assumes "parse_tls st = Inr (Some t)"
  shows "alpn_ok (tls_alpn t) \<and> (\<forall>a. tls_acme t = Some a \<longrightarrow> acme_ok a)"
  using assms validate_acme_ok
  by (auto simp: parse_tls_def Let_def split: if_splits option.splits list.splits sum.splits prod.splits)

lemma parse_range_ok:
  assumes "parse_range v = Inr (f, t)"
  shows "0 < f \<and> f \<le> t"
proof -
  obtain v1 a v2 b where p: "parse_uint 32 v1 = Some a" "parse_uint 32 v2 = Some b" "0 < a" "a \<le> b"
      "f = of_nat a" "t = of_nat b"
    using assms by (auto simp: parse_range_def not_less split: prod.splits option.splits if_splits)
  with parse_uint_bound have ab: "0 < a" "a \<le> b" "a < 2 ^ 32" "b < 2 ^ 32" "f = of_nat a" "t = of_nat b" by blast+
  then have "unat f = a" "unat t = b" by (simp_all add: unat_of_nat)
  with ab show ?thesis by (simp add: word_le_nat_alt word_less_nat_alt)
qed

lemma parse_range_decimal:
  assumes "0 < a" and "a \<le> b" and "b < 2 ^ 32"
  shows "parse_range (decimal a @ of_char (CHR ''-'') # decimal b) = Inr (of_nat a, of_nat b)"
proof -
  have "of_char (CHR ''-'') \<notin> set (decimal a)" by (rule decimal_no) (simp add: is_digit_def)
  moreover have "trim (decimal a) = decimal a" "trim (decimal b) = decimal b"
    using decimal_digits by (blast intro: trim_digits)+
  moreover have "parse_uint 32 (decimal a) = Some a" "parse_uint 32 (decimal b) = Some b"
    using assms by (auto intro: parse_decimal)
  ultimately show ?thesis using assms by (simp add: parse_range_def split_once_append)
qed

lemma normalize_path_ok: "normalize_path p \<noteq> [] \<and> hd (normalize_path p) = slash \<and> last (normalize_path p) = slash"
  by (auto simp: normalize_path_def Let_def)

lemma normalize_path_idem: "normalize_path (normalize_path p) = normalize_path p"
  using normalize_path_ok [of p] by (simp add: normalize_path_def [of "normalize_path p"] Let_def)

lemma xhttp_settings_ok:
  assumes "parse_xhttp raw = Inr x" and "normalize_xhttp x = Inr x1"
  shows "xhttp_ok x1"
proof -
  obtain f t where r: "parse_range (x_padding_bytes raw) = Inr (f, t)" "padding_from x = f" "padding_to x = t"
    using assms(1) by (auto simp: parse_xhttp_def split: sum.splits)
  with parse_range_ok have "0 < f" "f \<le> t" by blast+
  with assms(2) r normalize_path_ok [of "path x"] show ?thesis
    by (auto simp: normalize_xhttp_def xhttp_ok_def Let_def split: if_splits)
qed

lemma validate_server_ok:
  assumes "validate_server s = Inr ()"
  shows "1 \<le> sv_backlog s \<and> 0 < graceful_shutdown_seconds s \<and> graceful_shutdown_seconds s \<le> 300 \<and> limits_ok (sv_limits s)"
  using assms by (auto simp: validate_server_def limits_ok_def word_neq_0_conv not_less split: if_splits)

lemma validate_fallback_ok:
  assumes "validate_fallback f x = Inr f'" and "path x \<noteq> []"
  shows "fallback_ok f'"
  using assms by (cases "fb_mode f") (auto simp: validate_fallback_def fallback_ok_def split: if_splits)

lemma try_from_ok:
  assumes "try_from raw = Inr c"
  shows "config_ok c"
proof -
  obtain inb where i: "inbounds raw = [inb]" "try_from_inbound raw inb = Inr c"
    using assms by (auto simp: try_from_def split: list.splits)
  from i(2) obtain t x x1 f where c: "in_port inb \<noteq> 0" "parse_tls (stream_settings inb) = Inr t"
      "\<forall>a. Option.bind t tls_acme = Some a \<longrightarrow> snd (challenge_listen a) \<noteq> in_port inb"
      "parse_xhttp (xhttp_settings (stream_settings inb)) = Inr x" "clients inb \<noteq> []"
      "find (\<lambda>u. \<not> flow_ok u) (clients inb) = None" "normalize_xhttp x = Inr x1"
      "validate_server (server raw) = Inr ()" "validate_fallback (json_fallback raw) x1 = Inr f"
      "addr (listen c) = (in_listen inb, in_port inb)" "backlog (listen c) = sv_backlog (server raw)"
      "graceful_shutdown_secs (listen c) = graceful_shutdown_seconds (server raw)" "tls c = t" "xhttp c = x1"
      "vless_users c = clients inb" "cfg_limits c = sv_limits (server raw)" "fallback c = f"
    by (auto simp: try_from_inbound_def split: if_splits sum.splits option.splits)
  have x: "xhttp_ok x1" by (rule xhttp_settings_ok [OF c(4,7)])
  then have "fallback_ok f" by (intro validate_fallback_ok [OF c(9)]) (simp add: xhttp_ok_def)
  moreover have "list_all flow_ok (clients inb)" using c(6) by (auto simp: find_None_iff list_all_iff)
  moreover have "tls_ok (in_port inb) t'" if "t = Some t'" for t'
    using that parse_tls_ok [of "stream_settings inb" t'] c(2,3) by (auto simp: tls_ok_def)
  ultimately show ?thesis
    using x c validate_server_ok [OF c(8)] by (simp add: config_ok_def)
qed

text \<open>What the parts of the server start with under a well-formed configuration.\<close>

lemma configured_sessions_start:
  assumes "lim_max_sessions (cfg_limits c) < 2 ^ 64" and "max_pending_packets_per_session (cfg_limits c) < 2 ^ 64"
  shows "table_inv (configured_sessions c) \<and> (\<forall>i. session_at (configured_sessions c) i = None)"
proof
  show "table_inv (configured_sessions c)"
    unfolding configured_sessions_def by (rule table_inv_new) (use assms in simp_all)
  show "\<forall>i. session_at (configured_sessions c) i = None"
    by (simp add: configured_sessions_def new_table_def default_session_config_def shard_get_def shard_index_def)
qed

lemma configured_validator_lookup:
  assumes "list_all flow_ok (vless_users c)"
  shows "(\<forall>u. get_shared (configured_validator c) raw = Some u \<longrightarrow> flow_ok u) \<and>
    (length raw = 16 \<and> (\<forall>u \<in> set (vless_users c). length (user_id u) = 16) \<longrightarrow>
       get_shared (configured_validator c) raw =
         map_option processed (find (\<lambda>u. \<forall>k < 16. k \<noteq> 6 \<longrightarrow> k \<noteq> 7 \<longrightarrow> user_id u ! k = raw ! k) (rev (vless_users c))))"
proof (intro conjI allI impI)
  fix u assume "get_shared (configured_validator c) raw = Some u"
  then obtain u' where "u' \<in> set (vless_users c)" "u = processed u'"
    by (auto simp: configured_validator_def new_validator_def get_shared_foldl find_Some_iff) (metis nth_mem rev_nth length_rev set_rev)
  with assms show "flow_ok u" by (simp add: list_all_iff flow_ok_def processed_def)
qed (use validator_lookup in \<open>simp add: configured_validator_def\<close>)

text \<open>
  C35. An accepted configuration is well formed: whatever the document, the configuration \<open>try_from\<close> returns
  has a base path that starts and ends with a slash, a proper padding range, users with known flows,
  non-zero limits and port, at most one certificate source with checked ACME settings on another port,
  and a safe fallback section. With it, responses never panic on the padding cache and carry padding
  that the server's own check accepts. The session table built from it has a budget with the configured limit and nothing
  reserved, and, its limits being 64-bit numbers, satisfies the invariant of the table and has no
  session. The user table built from it answers an id with the last configured user that agrees outside the two
  route bytes, and every user it answers has a known flow. A range written as two decimal numbers is read as
  these numbers.
\<close>

theorem accepted_config_well_formed:
  assumes "try_from raw = Inr c"
  shows "config_ok c \<and>
    (\<forall>ds. header_values (response_padding_new (padding_from (xhttp c)) (padding_to (xhttp c))) ds =
         Some (map (generate_response_padding (padding_from (xhttp c)) (padding_to (xhttp c))) ds)) \<and>
    (\<forall>d. is_padding_len_valid (Some (length (generate_response_padding (padding_from (xhttp c)) (padding_to (xhttp c)) d)))
         (padding_from (xhttp c)) (padding_to (xhttp c))) \<and>
    (\<exists>b. buffer_budget (configured_sessions c) = Some b \<and> limit b = global_buffer_bytes (cfg_limits c) \<and> limit b \<noteq> 0 \<and> used b = 0) \<and>
    (lim_max_sessions (cfg_limits c) < 2 ^ 64 \<and> max_pending_packets_per_session (cfg_limits c) < 2 ^ 64 \<longrightarrow>
       table_inv (configured_sessions c) \<and> (\<forall>i. session_at (configured_sessions c) i = None)) \<and>
    (\<forall>i u. get_shared (configured_validator c) i = Some u \<longrightarrow> flow_ok u) \<and>
    (\<forall>i. length i = 16 \<and> (\<forall>u \<in> set (vless_users c). length (user_id u) = 16) \<longrightarrow>
       get_shared (configured_validator c) i =
         map_option processed (find (\<lambda>u. \<forall>k < 16. k \<noteq> 6 \<longrightarrow> k \<noteq> 7 \<longrightarrow> user_id u ! k = i ! k) (rev (vless_users c)))) \<and>
    (\<forall>a b. 0 < a \<and> a \<le> b \<and> b < 2 ^ 32 \<longrightarrow>
         parse_range (decimal a @ of_char (CHR ''-'') # decimal b) = Inr (of_nat a, of_nat b))"
proof -
  have ok: "config_ok c" by (rule try_from_ok [OF assms])
  then have r: "1 \<le> padding_from (xhttp c)" "padding_from (xhttp c) \<le> padding_to (xhttp c)"
    by (auto simp: config_ok_def xhttp_ok_def word_le_nat_alt word_less_nat_alt)
  have b: "\<exists>b. buffer_budget (configured_sessions c) = Some b \<and> limit b = global_buffer_bytes (cfg_limits c) \<and> limit b \<noteq> 0 \<and> used b = 0"
    using ok by (auto simp: configured_sessions_def new_table_def new_budget_def config_ok_def limits_ok_def)
  have u: "list_all flow_ok (vless_users c)" using ok by (simp add: config_ok_def)
  from ok r cached_padding generated_padding_valid parse_range_decimal configured_sessions_start b
    configured_validator_lookup [OF u]
  show ?thesis by blast
qed

definition demo_config :: json_config where
  "demo_config =
     \<lparr>loglevel = bytes_of ''info'',
      inbounds = [\<lparr>in_tag = [], in_listen = [0, 0, 0, 0], in_port = 443, protocol = bytes_of ''VLESS'',
                   clients = [\<lparr>user_id = replicate 16 1, email = [], user_flow = []\<rparr>], in_decryption = [],
                   stream_settings = \<lparr>network = bytes_of ''xhttp'', security = [], tls_settings = None,
                                      xhttp_settings = default_xhttp_settings (bytes_of ''app'')\<rparr>\<rparr>],
      server = default_server_config, json_fallback = default_fallback\<rparr>"

lemma demo_config_accepted:
  "\<exists>c. try_from demo_config = Inr c \<and> cfg_limits c = default_limits \<and>
     xhttp c = \<lparr>path = bytes_of ''/app/'', host = [], max_each_post_bytes = 1000000, max_buffered_posts = 30,
        session_grace_secs = 30, sse_header = True, max_header_bytes = 8192, padding_from = 100, padding_to = 1000,
        uplink_data_placement = PlaceBody, uplink_data_key = []\<rparr>"
proof -
  have "decimal 100 @ of_char (CHR ''-'') # decimal 1000 = bytes_of ''100-1000''"
    by (simp add: decimal.simps bytes_of_def)
  with parse_range_decimal [of 100 1000] have "parse_range (bytes_of ''100-1000'') = Inr (100, 1000)" by simp
  then show ?thesis
    by (simp add: demo_config_def try_from_def try_from_inbound_def eq_ignore_ascii_case_def ascii_lower_def bytes_of_def
        parse_tls_def parse_xhttp_def default_xhttp_settings_def flow_ok_def normalize_xhttp_def normalize_path_def Let_def
        validate_server_def default_server_config_def default_limits_def validate_fallback_def default_fallback_def
        index_ok_def slash_def)
qed

theorem accepted_config_well_formed_witness:
  "\<exists>c. try_from demo_config = Inr c \<and> path (xhttp c) = bytes_of ''/app/'' \<and> config_ok c \<and> table_inv (configured_sessions c)"
proof -
  obtain c where c: "try_from demo_config = Inr c" "cfg_limits c = default_limits" "path (xhttp c) = bytes_of ''/app/''"
    using demo_config_accepted by auto
  have "lim_max_sessions (cfg_limits c) < 2 ^ 64 \<and> max_pending_packets_per_session (cfg_limits c) < 2 ^ 64"
    using c(2) by (simp add: default_limits_def)
  with c accepted_config_well_formed [OF c(1)] show ?thesis by blast
qed

end
