(* ===== verification/Site.thy ===== *)
theory Site
  imports Config "HOL-Library.List_Lexorder"
begin

text \<open>
  The fallback site, \<^verbatim>\<open>src/site.rs\<close>: loading a directory into memory, the URLs of its files, the replies, and
  the table of the generated site. The file system is a tree (\<open>fs_node\<close>) that does not change while it
  is loaded; a directory is the list of its entries in the order \<open>read_dir\<close> gives them. Loading collects
  the files below the root, whose paths all start with it, so the \<open>EscapesRoot\<close> branch is not reachable and
  has no counterpart. The BLAKE3 digest of the \<open>blake3\<close> crate and the date format of \<open>httpdate\<close> are the
  parameters \<open>site_env\<close>; the texts of the generated pages are the record \<open>generated_site\<close>.
\<close>

section \<open>Assets and replies\<close>

record site_env =
  se_digest :: "bytes \<Rightarrow> bytes"
  se_date :: "nat \<Rightarrow> bytes"

record asset =
  a_content_type :: bytes
  a_body :: bytes
  a_cache_control :: bytes
  a_etag :: bytes
  a_last_modified :: bytes

record static_reply =
  r_status :: nat
  r_asset :: asset
  r_allow :: "bytes option"

record static_site =
  assets :: "bytes \<Rightarrow> asset option"
  not_found :: asset
  method_not_allowed :: asset

definition asset_reply :: "asset \<Rightarrow> nat \<Rightarrow> static_reply" where
  "asset_reply a status = \<lparr>r_status = status, r_asset = a, r_allow = None\<rparr>"

definition HEAD :: http_method where "HEAD = OtherMethod (bytes_of ''HEAD'')"

definition resolve :: "static_site \<Rightarrow> http_method \<Rightarrow> bytes \<Rightarrow> static_reply" where
  "resolve s m p =
     (if m \<noteq> GET \<and> m \<noteq> HEAD then (asset_reply (method_not_allowed s) 405)\<lparr>r_allow := Some (bytes_of ''GET, HEAD'')\<rparr>
      else (case assets s p of
              Some a \<Rightarrow> asset_reply a 200
            | None \<Rightarrow> asset_reply (not_found s) 404))"

definition CACHE_HTML :: bytes where "CACHE_HTML = bytes_of ''public, max-age=300''"
definition CACHE_ASSET :: bytes where "CACHE_ASSET = bytes_of ''public, max-age=86400, immutable''"

definition HEX_LOWER :: bytes where "HEX_LOWER = bytes_of ''0123456789abcdef''"
definition HEX_UPPER :: bytes where "HEX_UPPER = bytes_of ''0123456789ABCDEF''"

definition hex_byte :: "bytes \<Rightarrow> u8 \<Rightarrow> bytes" where
  "hex_byte digits b = [digits ! (unat b div 16), digits ! (unat b mod 16)]"

definition to_hex :: "bytes \<Rightarrow> bytes" where
  "to_hex bs = concat (map (hex_byte HEX_LOWER) bs)"

definition build_asset :: "site_env \<Rightarrow> bytes \<Rightarrow> bytes \<Rightarrow> bytes \<Rightarrow> nat \<Rightarrow> asset" where
  "build_asset E ct body cache modified =
     \<lparr>a_content_type = ct, a_body = body, a_cache_control = cache,
      a_etag = 0x22 # take 24 (to_hex (se_digest E body)) @ [0x22],
      a_last_modified = se_date E modified\<rparr>"

definition text_asset :: "site_env \<Rightarrow> bytes \<Rightarrow> bytes \<Rightarrow> bytes \<Rightarrow> asset" where
  "text_asset E ct body cache = build_asset E ct body cache 0"

text \<open>\<open>rsplit_once\<close> keeps what follows the last occurrence.\<close>

definition after_last :: "u8 \<Rightarrow> bytes \<Rightarrow> bytes option" where
  "after_last c s = map_option (\<lambda>(a, b). rev a) (split_once c (rev s))"

definition content_types :: "(string \<times> string) list" where
  "content_types =
     [(''html'', ''text/html; charset=utf-8''), (''htm'', ''text/html; charset=utf-8''),
      (''css'', ''text/css; charset=utf-8''), (''js'', ''text/javascript; charset=utf-8''),
      (''mjs'', ''text/javascript; charset=utf-8''), (''json'', ''application/json; charset=utf-8''),
      (''map'', ''application/json; charset=utf-8''), (''txt'', ''text/plain; charset=utf-8''),
      (''xml'', ''application/xml; charset=utf-8''), (''svg'', ''image/svg+xml''), (''png'', ''image/png''),
      (''jpg'', ''image/jpeg''), (''jpeg'', ''image/jpeg''), (''gif'', ''image/gif''), (''webp'', ''image/webp''),
      (''avif'', ''image/avif''), (''ico'', ''image/x-icon''), (''woff'', ''font/woff''), (''woff2'', ''font/woff2''),
      (''pdf'', ''application/pdf''), (''wasm'', ''application/wasm'')]"

definition content_type :: "bytes \<Rightarrow> bytes" where
  "content_type p =
     (case after_last (of_char (CHR ''.'')) p of
        None \<Rightarrow> bytes_of ''application/octet-stream''
      | Some e \<Rightarrow>
          (case map_of (map (\<lambda>(k, v). (bytes_of k, bytes_of v)) content_types) (map ascii_lower e) of
             Some t \<Rightarrow> t
           | None \<Rightarrow> bytes_of ''application/octet-stream''))"

definition asset_of :: "site_env \<Rightarrow> bytes \<Rightarrow> bytes \<Rightarrow> nat \<Rightarrow> asset" where
  "asset_of E p body modified =
     (let ct = content_type p
      in build_asset E ct body (if strip_prefix (bytes_of ''text/html'') ct \<noteq> None then CACHE_HTML else CACHE_ASSET) modified)"

section \<open>URLs\<close>

definition unreserved :: "u8 \<Rightarrow> bool" where
  "unreserved b \<longleftrightarrow>
     (0x41 \<le> b \<and> b \<le> 0x5A) \<or> (0x61 \<le> b \<and> b \<le> 0x7A) \<or> (0x30 \<le> b \<and> b \<le> 0x39) \<or> b \<in> {0x2D, 0x2E, 0x5F, 0x7E}"

definition percent_encode :: "bytes \<Rightarrow> bytes" where
  "percent_encode bs = concat (map (\<lambda>b. if unreserved b then [b] else 0x25 # hex_byte HEX_UPPER b) bs)"

datatype path_component = Normal bytes | CurDir | ParentDir | RootDir

datatype site_error =
    MissingDirectory | NotDirectory | EmptyDirectory | SiteRead "bytes list" | Symlink "bytes list"
  | InvalidPath "path_component list" | FileTooLarge "bytes list" nat nat | SiteTooLarge nat nat
  | MissingIndex bytes | MissingNotFound bytes

fun url_components :: "bool \<Rightarrow> path_component list \<Rightarrow> bytes option" where
  "url_components first [] = Some []"
| "url_components first (Normal c # cs) =
     map_option (\<lambda>r. (if first then [] else [slash]) @ percent_encode c @ r) (url_components False cs)"
| "url_components first (_ # cs) = None"

definition url_path :: "path_component list \<Rightarrow> site_error + bytes" where
  "url_path cs = (case url_components True cs of Some u \<Rightarrow> Inr (slash # u) | None \<Rightarrow> Inl (InvalidPath cs))"

section \<open>Loading a directory\<close>

text \<open>A file has the length its metadata reports, the bytes reading it gives (\<open>None\<close>: an error) and the
  time of its last change, if the file system has one; \<open>FsUnreadable\<close> is an entry without metadata,
  \<open>FsDenied\<close> a directory that cannot be listed, \<open>FsOther\<close> a socket, pipe or device.\<close>

datatype fs_node =
    FsFile nat "bytes option" "nat option" | FsDir "(bytes \<times> fs_node) list" | FsDenied | FsSymlink | FsOther | FsUnreadable

record site_file =
  f_path :: "bytes list"
  f_len :: nat
  f_body :: "bytes option"
  f_modified :: "nat option"

fun collect_files :: "bytes list \<Rightarrow> (bytes \<times> fs_node) list \<Rightarrow> site_file list \<Rightarrow> site_error + site_file list" where
  "collect_files dir [] files = Inr files"
| "collect_files dir ((n, FsUnreadable) # es) files = Inl (SiteRead (dir @ [n]))"
| "collect_files dir ((n, FsSymlink) # es) files = Inl (Symlink (dir @ [n]))"
| "collect_files dir ((n, FsDenied) # es) files = Inl (SiteRead (dir @ [n]))"
| "collect_files dir ((n, FsDir sub) # es) files =
     (case collect_files (dir @ [n]) sub files of
        Inl e \<Rightarrow> Inl e
      | Inr files' \<Rightarrow> collect_files dir es files')"
| "collect_files dir ((n, FsFile l b m) # es) files =
     collect_files dir es (files @ [\<lparr>f_path = dir @ [n], f_len = l, f_body = b, f_modified = m\<rparr>])"
| "collect_files dir ((n, FsOther) # es) files = collect_files dir es files"

text \<open>One round of the loop over the files: limits, reading, and the entries of the file.\<close>

definition load_file ::
  "site_env \<Rightarrow> fallback_config \<Rightarrow> site_file \<Rightarrow> nat \<times> (bytes \<Rightarrow> asset option) \<Rightarrow> site_error + nat \<times> (bytes \<Rightarrow> asset option)" where
  "load_file E c f st =
     (case st of (tot, m) \<Rightarrow>
       if max_file_bytes c < f_len f then Inl (FileTooLarge (f_path f) (f_len f) (max_file_bytes c))
       else (case usize_checked_add tot (f_len f) of
         None \<Rightarrow> Inl (SiteTooLarge usize_max (max_total_bytes c))
       | Some tot' \<Rightarrow>
           if max_total_bytes c < tot' then Inl (SiteTooLarge tot' (max_total_bytes c))
           else (case f_body f of
             None \<Rightarrow> Inl (SiteRead (f_path f))
           | Some body \<Rightarrow>
               (case url_path (map Normal (f_path f)) of
                  Inl e \<Rightarrow> Inl e
                | Inr url \<Rightarrow>
                    let a = asset_of E url body (case f_modified f of Some t \<Rightarrow> t | None \<Rightarrow> 0);
                        m1 = m(url \<mapsto> a)
                    in if f_path f \<noteq> [] \<and> last (f_path f) = index_file c then
                         (case url_path (map Normal (butlast (f_path f))) of
                            Inl e \<Rightarrow> Inl e
                          | Inr alias \<Rightarrow> Inr (tot', m1((if alias \<noteq> [slash] then alias @ [slash] else alias) \<mapsto> a)))
                       else Inr (tot', m1)))))"

fun load_files ::
  "site_env \<Rightarrow> fallback_config \<Rightarrow> site_file list \<Rightarrow> nat \<times> (bytes \<Rightarrow> asset option) \<Rightarrow> site_error + nat \<times> (bytes \<Rightarrow> asset option)" where
  "load_files E c [] st = Inr st"
| "load_files E c (f # fs) st =
     (case load_file E c f st of Inl e \<Rightarrow> Inl e | Inr st' \<Rightarrow> load_files E c fs st')"

definition default_not_found :: "bytes \<Rightarrow> bytes \<Rightarrow> bytes" where
  "default_not_found title description =
     bytes_of ''<!doctype html><html lang=\"en\"><head><meta charset=\"utf-8\"><meta name=\"viewport\" content=\"width=device-width,initial-scale=1\"><title>'' @
     title @ bytes_of ''</title></head><body><main><h1>'' @ title @ bytes_of ''</h1><p>'' @ description @
     bytes_of ''</p><p><a href=\"/\">Home</a></p></main></body></html>''"

definition html_type :: bytes where "html_type = bytes_of ''text/html; charset=utf-8''"

text \<open>\<open>root\<close> is what the canonical path of \<open>dist\<close> leads to, \<open>None\<close> when it cannot be resolved.\<close>

definition from_directory :: "site_env \<Rightarrow> fallback_config \<Rightarrow> fs_node option \<Rightarrow> site_error + static_site" where
  "from_directory E c root =
     (if dist c = None then Inl MissingDirectory
      else case root of
        None \<Rightarrow> Inl (SiteRead [])
      | Some FsDenied \<Rightarrow> Inl (SiteRead [])
      | Some (FsDir es) \<Rightarrow>
          (case collect_files [] es [] of
             Inl e \<Rightarrow> Inl e
           | Inr files \<Rightarrow>
               if files = [] then Inl EmptyDirectory
               else (case load_files E c (sort_key f_path files) (0, Map.empty) of
                 Inl e \<Rightarrow> Inl e
               | Inr (_, m) \<Rightarrow>
                   if m [slash] = None then Inl (MissingIndex (index_file c))
                   else
                     let nf = (case fb_not_found c of
                                 Some p \<Rightarrow>
                                   let key = (if p \<noteq> [] \<and> hd p = slash then p else slash # p)
                                   in (case m key of Some a \<Rightarrow> Inr a | None \<Rightarrow> Inl (MissingNotFound key))
                               | None \<Rightarrow>
                                   Inr (text_asset E html_type
                                     (default_not_found (bytes_of ''Page not found'') (bytes_of ''Return to the home page'')) CACHE_HTML))
                     in (case nf of
                           Inl e \<Rightarrow> Inl e
                         | Inr a \<Rightarrow>
                             Inr \<lparr>assets = m, not_found = a,
                                  method_not_allowed =
                                    text_asset E html_type
                                      (default_not_found (bytes_of ''Method not allowed'') (bytes_of ''This site accepts GET and HEAD requests''))
                                      (bytes_of ''no-store'')\<rparr>)))
      | Some _ \<Rightarrow> Inl NotDirectory)"

section \<open>The generated site\<close>

record generated_site =
  g_home :: bytes
  g_about :: bytes
  g_posts :: "(bytes \<times> bytes) list"
  g_css :: bytes
  g_favicon :: bytes
  g_sitemap :: bytes
  g_not_found :: bytes
  g_method_title :: bytes
  g_method_description :: bytes

definition trim_end_slashes :: "bytes \<Rightarrow> bytes" where
  "trim_end_slashes s = rev (dropWhile (\<lambda>b. b = slash) (rev s))"

definition add_post :: "site_env \<Rightarrow> (bytes \<Rightarrow> asset option) \<Rightarrow> bytes \<times> bytes \<Rightarrow> (bytes \<Rightarrow> asset option)" where
  "add_post E m p =
     (case p of (slug, page) \<Rightarrow>
        let key = bytes_of ''/posts/'' @ slug @ [slash]; a = text_asset E html_type page CACHE_HTML
        in m(trim_end_slashes key \<mapsto> a, key \<mapsto> a))"

definition generated :: "site_env \<Rightarrow> generated_site \<Rightarrow> static_site" where
  "generated E g =
     (let home = text_asset E html_type (g_home g) CACHE_HTML;
          about = text_asset E html_type (g_about g) CACHE_HTML;
          favicon = text_asset E (bytes_of ''image/svg+xml'') (g_favicon g) CACHE_ASSET;
          m = [bytes_of ''/'' \<mapsto> home, bytes_of ''/index.html'' \<mapsto> home, bytes_of ''/about/'' \<mapsto> about, bytes_of ''/about'' \<mapsto> about];
          m1 = foldl (add_post E) m (g_posts g)
      in \<lparr>assets = m1(bytes_of ''/assets/site.css'' \<mapsto> text_asset E (bytes_of ''text/css; charset=utf-8'') (g_css g) CACHE_ASSET,
            bytes_of ''/favicon.svg'' \<mapsto> favicon, bytes_of ''/favicon.ico'' \<mapsto> favicon,
            bytes_of ''/robots.txt'' \<mapsto> text_asset E (bytes_of ''text/plain; charset=utf-8'')
               (bytes_of ''User-agent: *'' @ [10] @ bytes_of ''Allow: /'' @ [10] @ bytes_of ''Sitemap: /sitemap.xml'' @ [10]) CACHE_HTML,
            bytes_of ''/sitemap.xml'' \<mapsto> text_asset E (bytes_of ''application/xml; charset=utf-8'') (g_sitemap g) CACHE_HTML),
          not_found = text_asset E html_type (g_not_found g) CACHE_HTML,
          method_not_allowed = text_asset E html_type (default_not_found (g_method_title g) (g_method_description g)) (bytes_of ''no-store'')\<rparr>)"

definition from_config :: "site_env \<Rightarrow> (site_config \<Rightarrow> generated_site) \<Rightarrow> fallback_config \<Rightarrow> fs_node option \<Rightarrow> site_error + static_site" where
  "from_config E pages c root =
     (case fb_mode c of Builtin \<Rightarrow> Inr (generated E (pages (site c))) | Directory \<Rightarrow> from_directory E c root)"

text \<open>The five replacements of \<open>html_escape\<close>, and the letter of the icon: the first character of the title,
  which is already escaped at this point.\<close>

definition replace_byte :: "u8 \<Rightarrow> bytes \<Rightarrow> bytes \<Rightarrow> bytes" where
  "replace_byte c r s = concat (map (\<lambda>b. if b = c then r else [b]) s)"

definition html_escape :: "bytes \<Rightarrow> bytes" where
  "html_escape s =
     replace_byte 0x27 (bytes_of ''&#39;'') (replace_byte 0x22 (bytes_of ''&quot;'')
       (replace_byte 0x3E (bytes_of ''&gt;'') (replace_byte 0x3C (bytes_of ''&lt;'') (replace_byte 0x26 (bytes_of ''&amp;'') s))))"

section \<open>Percent encoding\<close>

lemma HEX_UPPER_list:
  "HEX_UPPER = [0x30, 0x31, 0x32, 0x33, 0x34, 0x35, 0x36, 0x37, 0x38, 0x39, 0x41, 0x42, 0x43, 0x44, 0x45, 0x46]"
  by (simp add: HEX_UPPER_def bytes_of_def)

lemma hex_digit_value:
  assumes "n < 16"
  shows "hex_value (HEX_UPPER ! n) = Some (of_nat n)"
proof -
  have "list_all (\<lambda>k. hex_value (HEX_UPPER ! k) = Some (of_nat k)) [0..<16]"
    by (simp add: HEX_UPPER_list hex_value_def upt_rec)
  with assms show ?thesis by (simp add: list_all_iff)
qed

lemma byte_digits: "of_nat (unat b div 16) * 16 + of_nat (unat b mod 16) = (b :: u8)"
proof -
  have "of_nat (unat b div 16 * 16 + unat b mod 16) = b" by simp
  then show ?thesis by (simp only: of_nat_add of_nat_mult of_nat_numeral)
qed

lemma percent_decode_escape:
  "percent_decode_bytes (0x25 # hex_byte HEX_UPPER b @ s) = b # percent_decode_bytes s"
proof -
  have "unat b < 256" using unsigned_less [of b, where 'a = nat] by simp
  then have "hex_value (HEX_UPPER ! (unat b div 16)) = Some (of_nat (unat b div 16))"
    "hex_value (HEX_UPPER ! (unat b mod 16)) = Some (of_nat (unat b mod 16))"
    by (auto intro: hex_digit_value)
  then show ?thesis using byte_digits [of b] by (simp add: hex_byte_def)
qed

lemma percent_decode_plain: "unreserved b \<Longrightarrow> percent_decode_bytes (b # s) = b # percent_decode_bytes s"
proof -
  assume u: "unreserved b"
  then have "b \<noteq> 0x25" "b \<noteq> 0x2B" by (auto simp: unreserved_def)
  then show ?thesis by (cases s rule: list.exhaust; cases "tl s") auto
qed

lemma percent_decode_encode: "percent_decode_bytes (percent_encode bs) = bs"
  by (induction bs) (simp_all add: percent_encode_def percent_decode_plain percent_decode_escape [simplified])

lemma HEX_UPPER_nth: "n < 16 \<Longrightarrow> HEX_UPPER ! n \<noteq> slash"
proof -
  have "slash \<notin> set HEX_UPPER" by (simp add: HEX_UPPER_list slash_def)
  moreover have "length HEX_UPPER = 16" by (simp add: HEX_UPPER_list)
  ultimately show "n < 16 \<Longrightarrow> HEX_UPPER ! n \<noteq> slash" by (metis nth_mem)
qed

lemma percent_encode_no_slash: "slash \<notin> set (percent_encode bs)"
proof -
  have "slash \<notin> set (if unreserved b then [b] else 0x25 # hex_byte HEX_UPPER b)" for b :: u8
  proof -
    have "unat b < 256" using unsigned_less [of b, where 'a = nat] by simp
    then have "HEX_UPPER ! (unat b div 16) \<noteq> slash" "HEX_UPPER ! (unat b mod 16) \<noteq> slash"
      by (auto intro!: HEX_UPPER_nth)
    moreover have "unreserved b \<Longrightarrow> b \<noteq> slash" by (auto simp: unreserved_def slash_def)
    moreover have "slash \<noteq> 0x25" by (simp add: slash_def)
    ultimately show ?thesis by (auto simp: hex_byte_def)
  qed
  then show ?thesis unfolding percent_encode_def by (induction bs) auto
qed

lemma percent_encode_eq_Nil: "percent_encode bs = [] \<longleftrightarrow> bs = []"
  by (cases bs) (auto simp: percent_encode_def)

section \<open>The URLs of a site\<close>

definition names_ok :: "bytes list \<Rightarrow> bool" where
  "names_ok cs \<longleftrightarrow> list_all (\<lambda>c. c \<noteq> [] \<and> slash \<notin> set c) cs"

definition path_url :: "bytes list \<Rightarrow> bytes" where
  "path_url cs = slash # join_with slash (map percent_encode cs)"

definition dir_url :: "bytes list \<Rightarrow> bytes" where
  "dir_url cs = (if cs = [] then [slash] else path_url cs @ [slash])"

definition file_urls :: "fallback_config \<Rightarrow> site_file \<Rightarrow> bytes set" where
  "file_urls c f =
     {path_url (f_path f)} \<union> (if f_path f \<noteq> [] \<and> last (f_path f) = index_file c then {dir_url (butlast (f_path f))} else {})"

lemma url_components_Normal:
  "url_components first (map Normal cs) =
     Some (if cs = [] then [] else (if first then [] else [slash]) @ join_with slash (map percent_encode cs))"
proof (induction cs arbitrary: first)
  case (Cons c cs)
  then show ?case by (cases cs) auto
qed simp

lemma url_path_Normal: "url_path (map Normal cs) = Inr (path_url cs)"
  by (simp add: url_path_def url_components_Normal path_url_def)

lemma path_url_parts:
  assumes "cs \<noteq> []"
  shows "split_on slash (tl (path_url cs)) = map percent_encode cs"
  using assms percent_encode_no_slash by (simp add: path_url_def split_on_join)

lemma path_url_decodes:
  assumes "cs \<noteq> []"
  shows "map percent_decode_bytes (split_on slash (tl (path_url cs))) = cs"
  by (simp add: path_url_parts [OF assms] percent_decode_encode o_def)

lemma path_url_inject: "cs \<noteq> [] \<Longrightarrow> ds \<noteq> [] \<Longrightarrow> path_url cs = path_url ds \<longleftrightarrow> cs = ds"
  using path_url_decodes by metis

lemma last_path_url:
  assumes "cs \<noteq> []" and "names_ok cs"
  shows "last (path_url cs) \<noteq> slash"
proof -
  obtain ds d where cs: "cs = ds @ [d]" using assms(1) by (metis rev_exhaust)
  with assms(2) have d: "percent_encode d \<noteq> []" by (simp add: names_ok_def percent_encode_eq_Nil)
  have "last (path_url cs) = last (percent_encode d)"
    using d by (cases "ds = []") (simp_all add: cs path_url_def join_with_append)
  then show ?thesis using last_in_set [OF d] percent_encode_no_slash [of d] by metis
qed

lemma last_dir_url: "last (dir_url cs) = slash"
  by (simp add: dir_url_def)

lemma path_url_not_dir: "cs \<noteq> [] \<Longrightarrow> names_ok cs \<Longrightarrow> path_url cs \<noteq> dir_url ds"
  using last_path_url last_dir_url by metis

lemma dir_url_inject:
  assumes "dir_url cs = dir_url ds"
  shows "cs = ds"
proof -
  have "path_url xs @ [slash] \<noteq> [slash]" for xs by (simp add: path_url_def)
  with assms path_url_inject show ?thesis by (auto simp: dir_url_def split: if_splits)
qed

lemma file_urls_disjoint:
  assumes "f_path f \<noteq> []" "f_path g \<noteq> []" "names_ok (f_path f)" "names_ok (f_path g)" "f_path f \<noteq> f_path g"
  shows "file_urls c f \<inter> file_urls c g = {}"
proof -
  have "butlast (f_path f) \<noteq> butlast (f_path g)" if "last (f_path f) = last (f_path g)"
    using that assms(1,2,5) append_butlast_last_id by metis
  then show ?thesis
    using assms path_url_inject path_url_not_dir [of "f_path f"] path_url_not_dir [of "f_path g"] dir_url_inject
    by (auto simp: file_urls_def)
qed

section \<open>Directory sites\<close>

text \<open>What a file system guarantees of a directory: entries with different, non-empty names without a
  slash. \<open>files_below\<close> lists its regular files, \<open>symlink_free\<close> says that it has no symbolic link.\<close>

fun fs_ok :: "(bytes \<times> fs_node) list \<Rightarrow> bool" where
  "fs_ok [] = True"
| "fs_ok ((n, FsDir sub) # es) = (n \<noteq> [] \<and> slash \<notin> set n \<and> n \<notin> fst ` set es \<and> fs_ok sub \<and> fs_ok es)"
| "fs_ok ((n, x) # es) = (n \<noteq> [] \<and> slash \<notin> set n \<and> n \<notin> fst ` set es \<and> fs_ok es)"

fun files_below :: "bytes list \<Rightarrow> (bytes \<times> fs_node) list \<Rightarrow> site_file list" where
  "files_below dir [] = []"
| "files_below dir ((n, FsDir sub) # es) = files_below (dir @ [n]) sub @ files_below dir es"
| "files_below dir ((n, FsFile l b m) # es) =
     \<lparr>f_path = dir @ [n], f_len = l, f_body = b, f_modified = m\<rparr> # files_below dir es"
| "files_below dir ((n, x) # es) = files_below dir es"

fun symlink_free :: "(bytes \<times> fs_node) list \<Rightarrow> bool" where
  "symlink_free [] = True"
| "symlink_free ((n, FsSymlink) # es) = False"
| "symlink_free ((n, FsDir sub) # es) = (symlink_free sub \<and> symlink_free es)"
| "symlink_free ((n, x) # es) = symlink_free es"

lemma collect_files_below:
  "collect_files dir es files = Inr fs \<Longrightarrow> fs = files @ files_below dir es \<and> symlink_free es"
proof (induction dir es files arbitrary: fs rule: collect_files.induct)
  case (5 dir n sub es files)
  then obtain fs1 where c: "collect_files (dir @ [n]) sub files = Inr fs1" "collect_files dir es fs1 = Inr fs"
    by (auto split: sum.splits)
  from 5(1) [OF c(1)] 5(2) [OF c] show ?case by simp
qed auto

lemma files_below_path:
  assumes "f \<in> set (files_below dir es)" and "fs_ok es"
  shows "\<exists>n cs. f_path f = dir @ n # cs \<and> names_ok (n # cs) \<and> n \<in> fst ` set es"
  using assms
proof (induction dir es rule: files_below.induct)
  case (2 dir n sub es)
  consider "f \<in> set (files_below (dir @ [n]) sub)" | "f \<in> set (files_below dir es)" using 2(3) by auto
  then show ?case
  proof cases
    case sub: 1
    with 2(1,4) obtain n' cs where "f_path f = (dir @ [n]) @ n' # cs" "names_ok (n' # cs)" by auto
    with 2(4) show ?thesis by (intro exI [of _ n] exI [of _ "n' # cs"]) (simp add: names_ok_def)
  next
    case es: 2
    with 2(2,4) show ?thesis by auto
  qed
qed (auto simp: names_ok_def)

lemma files_below_distinct: "fs_ok es \<Longrightarrow> distinct (map f_path (files_below dir es))"
proof (induction dir es rule: files_below.induct)
  case (2 dir n sub es)
  have "f_path f \<noteq> f_path g" if "f \<in> set (files_below (dir @ [n]) sub)" "g \<in> set (files_below dir es)" for f g
  proof -
    have "fs_ok sub" "fs_ok es" "n \<notin> fst ` set es" using 2(3) by auto
    with that files_below_path [of f "dir @ [n]" sub] files_below_path [of g dir es] obtain n1 cs1 n2 cs2 where
      "f_path f = (dir @ [n]) @ n1 # cs1" "f_path g = dir @ n2 # cs2" "n2 \<noteq> n" by blast
    then show ?thesis by simp
  qed
  with 2 show ?case by (auto simp: image_iff)
next
  case (3 dir n l b m es)
  have "f_path g \<noteq> dir @ [n]" if "g \<in> set (files_below dir es)" for g
    using that files_below_path [of g dir es] 3(2) by force
  with 3 show ?case by (auto simp: image_iff) blast
qed auto

definition file_asset :: "site_env \<Rightarrow> site_file \<Rightarrow> bytes \<Rightarrow> asset" where
  "file_asset E f b = asset_of E (path_url (f_path f)) b (case f_modified f of Some t \<Rightarrow> t | None \<Rightarrow> 0)"

lemma path_url_slash:
  assumes "names_ok cs"
  shows "path_url cs = [slash] \<longleftrightarrow> cs = []"
  using last_path_url [of cs] assms by (cases "cs = []") (auto simp: path_url_def)

lemma load_file_cases:
  assumes "load_file E c f (tot, m) = Inr (tot', m')" and "names_ok (f_path f)"
  obtains b where "f_body f = Some b" "f_len f \<le> max_file_bytes c" "tot' = tot + f_len f" "tot' \<le> max_total_bytes c"
    "\<And>u. m' u = (if u \<in> file_urls c f then Some (file_asset E f b) else m u)"
proof -
  have "names_ok (butlast (f_path f))" using assms(2) by (auto simp: names_ok_def list_all_iff dest: in_set_butlastD)
  then have "(if path_url (butlast (f_path f)) \<noteq> [slash] then path_url (butlast (f_path f)) @ [slash]
      else path_url (butlast (f_path f))) = dir_url (butlast (f_path f))"
    using path_url_slash by (auto simp: dir_url_def path_url_def)
  with assms(1) that show ?thesis
    by (auto simp: load_file_def url_path_Normal file_urls_def file_asset_def usize_checked_add_def Let_def
        split: if_splits option.splits)
qed

lemma load_files_cases:
  assumes "load_files E c fs (tot, m) = Inr (tot', m')" and "tot \<le> max_total_bytes c"
    and "\<forall>f \<in> set fs. names_ok (f_path f)"
    and "\<forall>f \<in> set fs. \<forall>g \<in> set fs. f \<noteq> g \<longrightarrow> file_urls c f \<inter> file_urls c g = {}"
  shows "tot' = tot + sum_list (map f_len fs) \<and> tot' \<le> max_total_bytes c \<and>
    (\<forall>f \<in> set fs. f_len f \<le> max_file_bytes c \<and> f_body f \<noteq> None \<and>
       (\<forall>u \<in> file_urls c f. m' u = Some (file_asset E f (the (f_body f))))) \<and>
    (\<forall>u. u \<notin> (\<Union>f \<in> set fs. file_urls c f) \<longrightarrow> m' u = m u)"
  using assms
proof (induction fs arbitrary: tot m)
  case (Cons f fs)
  from Cons.prems(1) obtain t1 m1 where l: "load_file E c f (tot, m) = Inr (t1, m1)" "load_files E c fs (t1, m1) = Inr (tot', m')"
    by (cases "load_file E c f (tot, m)") auto
  from Cons.prems(3) have "names_ok (f_path f)" by simp
  then obtain b where b: "f_body f = Some b" "f_len f \<le> max_file_bytes c" "t1 = tot + f_len f"
    "t1 \<le> max_total_bytes c" "\<And>u. m1 u = (if u \<in> file_urls c f then Some (file_asset E f b) else m u)"
    by (rule load_file_cases [OF l(1)]) (rule that; assumption)
  note IH = Cons.IH [OF l(2) b(4)]
  have ih: "tot' = t1 + sum_list (map f_len fs)" "tot' \<le> max_total_bytes c"
     "\<forall>g \<in> set fs. f_len g \<le> max_file_bytes c \<and> f_body g \<noteq> None \<and>
       (\<forall>u \<in> file_urls c g. m' u = Some (file_asset E g (the (f_body g))))"
     "\<forall>u. u \<notin> (\<Union>g \<in> set fs. file_urls c g) \<longrightarrow> m' u = m1 u"
    using IH Cons.prems(3,4) by simp_all
  have "m' u = Some (file_asset E f b)" if "u \<in> file_urls c f" for u
  proof (cases "f \<in> set fs")
    case True
    with ih(3) that b(1) show ?thesis by fastforce
  next
    case False
    then have "u \<notin> (\<Union>g \<in> set fs. file_urls c g)" using that Cons.prems(4) by fastforce
    with ih(4) b(5) that show ?thesis by simp
  qed
  with ih b show ?case by auto
qed simp

lemma from_directory_loaded:
  assumes "from_directory E c (Some (FsDir es)) = Inr s"
  obtains tot where "load_files E c (sort_key f_path (files_below [] es)) (0, Map.empty) = Inr (tot, assets s)"
    "symlink_free es" "assets s [slash] \<noteq> None"
proof -
  obtain files where f: "collect_files [] es [] = Inr files" using assms
    by (auto simp: from_directory_def split: if_splits sum.splits)
  with collect_files_below [OF f] have fb: "files = files_below [] es" "symlink_free es" by auto
  obtain tot m where l: "load_files E c (sort_key f_path files) (0, Map.empty) = Inr (tot, m)"
    using assms f by (auto simp: from_directory_def split: if_splits sum.splits)
  have "assets s = m" "m [slash] \<noteq> None"
    using assms f l by (auto simp: from_directory_def Let_def split: if_splits sum.splits option.splits)
  with that l fb show ?thesis by blast
qed

text \<open>
  C36. A directory site is exactly its directory: when loading succeeds, the tree has no symbolic link and
  keeps the configured limits; every regular file is served with its bytes under its percent-encoded
  path (which decodes to the path), and an index file also under the URL of its directory; nothing
  else is ever served with status 200, so no request path can leave the directory; and requests with
  other methods than GET and HEAD get 405.
\<close>

theorem directory_site_exact:
  assumes "from_directory E c (Some (FsDir es)) = Inr s" and "fs_ok es" and "m = GET \<or> m = HEAD"
  shows "(\<forall>f \<in> set (files_below [] es).
      map percent_decode_bytes (split_on slash (tl (path_url (f_path f)))) = f_path f \<and>
      f_len f \<le> max_file_bytes c \<and>
      (\<exists>b. f_body f = Some b \<and> (\<forall>u \<in> file_urls c f. resolve s m u = asset_reply (file_asset E f b) 200))) \<and>
    (\<forall>p. r_status (resolve s m p) = 200 \<longrightarrow>
      (\<exists>f \<in> set (files_below [] es). p \<in> file_urls c f \<and> f_body f = Some (a_body (r_asset (resolve s m p))))) \<and>
    sum_list (map f_len (files_below [] es)) \<le> max_total_bytes c \<and> symlink_free es \<and>
    r_status (resolve s m [slash]) = 200 \<and>
    (\<forall>m' p. m' \<noteq> GET \<and> m' \<noteq> HEAD \<longrightarrow> r_status (resolve s m' p) = 405)"
proof -
  let ?fs = "files_below [] es"
  obtain tot where l: "load_files E c (sort_key f_path ?fs) (0, Map.empty) = Inr (tot, assets s)" "symlink_free es"
      "assets s [slash] \<noteq> None"
    using assms(1) by (rule from_directory_loaded)
  have names: "f_path f \<noteq> [] \<and> names_ok (f_path f)" if "f \<in> set ?fs" for f
    using files_below_path [OF that assms(2)] by auto
  have disj: "file_urls c f \<inter> file_urls c g = {}" if "f \<in> set ?fs" "g \<in> set ?fs" "f \<noteq> g" for f g
  proof -
    have "f_path f \<noteq> f_path g"
      using that files_below_distinct [OF assms(2), of "[]"] by (auto simp: distinct_map inj_on_def)
    with that names show ?thesis by (intro file_urls_disjoint) auto
  qed
  have "\<forall>f \<in> set (sort_key f_path ?fs). names_ok (f_path f)" using names by simp
  moreover have "\<forall>f \<in> set (sort_key f_path ?fs). \<forall>g \<in> set (sort_key f_path ?fs). f \<noteq> g \<longrightarrow> file_urls c f \<inter> file_urls c g = {}"
    using disj by simp
  ultimately have L: "tot = sum_list (map f_len (sort_key f_path ?fs))" "tot \<le> max_total_bytes c"
     "\<forall>f \<in> set ?fs. f_len f \<le> max_file_bytes c \<and> f_body f \<noteq> None \<and>
       (\<forall>u \<in> file_urls c f. assets s u = Some (file_asset E f (the (f_body f))))"
     "\<forall>u. u \<notin> (\<Union>f \<in> set ?fs. file_urls c f) \<longrightarrow> assets s u = None"
    using load_files_cases [OF l(1)] by simp_all
  have "sum_list (map f_len (sort_key f_path ?fs)) = sum_list (map f_len ?fs)"
    by (metis mset_map mset_sort sum_mset_sum_list)
  moreover have "\<exists>f \<in> set ?fs. p \<in> file_urls c f \<and> f_body f = Some (a_body a)" if p: "assets s p = Some a" for p a
  proof -
    have body: "a_body (file_asset E f b) = b" for f b
      by (simp add: file_asset_def asset_of_def build_asset_def Let_def)
    obtain f where f: "f \<in> set ?fs" "p \<in> file_urls c f" using p L(4) by fastforce
    with L(3) p have "a = file_asset E f (the (f_body f))" "f_body f \<noteq> None" by auto
    with f body show ?thesis by auto
  qed
  ultimately show ?thesis
    using L l(2,3) assms(3) names path_url_decodes
    by (auto simp: resolve_def asset_reply_def split: option.splits)
qed

definition demo_tree :: "(bytes \<times> fs_node) list" where
  "demo_tree = [(bytes_of ''a b'', FsFile 1 (Some [65]) None), (bytes_of ''index.html'', FsFile 2 (Some [66, 67]) (Some 7))]"

definition demo_env :: site_env where
  "demo_env = \<lparr>se_digest = (\<lambda>b. replicate 32 (of_nat (length b))), se_date = (\<lambda>t. decimal t)\<rparr>"

definition demo_fallback :: fallback_config where
  "demo_fallback = default_fallback\<lparr>fb_mode := Directory, dist := Some (bytes_of ''www'')\<rparr>"

lemma demo_url: "percent_encode (bytes_of ''a b'') = bytes_of ''a%20b''" "percent_encode (bytes_of ''index.html'') = bytes_of ''index.html''"
  by (simp_all add: percent_encode_def bytes_of_def unreserved_def hex_byte_def HEX_UPPER_def)

lemma demo_loaded: "\<exists>s. from_directory demo_env demo_fallback (Some (FsDir demo_tree)) = Inr s"
proof -
  let ?fs = "files_below [] demo_tree"
  have "[bytes_of ''a b''] \<le> [bytes_of ''index.html'']" by (simp add: bytes_of_def)
  then have "sort_key f_path ?fs = ?fs" by (simp add: demo_tree_def)
  moreover have "collect_files [] demo_tree [] = Inr ?fs" by (simp add: demo_tree_def)
  moreover have "\<exists>tot m. load_files demo_env demo_fallback ?fs (0, Map.empty) = Inr (tot, m) \<and> m [slash] \<noteq> None"
  proof -
    have "bytes_of ''a b'' \<noteq> bytes_of ''index.html''" by (simp add: bytes_of_def)
    then show ?thesis
      by (simp add: demo_tree_def load_file_def url_path_def usize_checked_add_def demo_url Let_def
          demo_fallback_def default_fallback_def)
  qed
  moreover have "?fs \<noteq> []" by (simp add: demo_tree_def)
  ultimately show ?thesis
    by (auto simp: from_directory_def demo_fallback_def default_fallback_def Let_def)
qed

theorem directory_site_exact_witness:
  "\<exists>s. from_directory demo_env demo_fallback (Some (FsDir demo_tree)) = Inr s \<and>
     a_body (r_asset (resolve s GET (bytes_of ''/a%20b''))) = [65] \<and> r_status (resolve s GET (bytes_of ''/'')) = 200"
proof -
  obtain s where s: "from_directory demo_env demo_fallback (Some (FsDir demo_tree)) = Inr s" using demo_loaded by blast
  let ?f = "\<lparr>f_path = [bytes_of ''a b''], f_len = 1, f_body = Some [65], f_modified = None\<rparr>"
  have ok: "fs_ok demo_tree" by (simp add: demo_tree_def bytes_of_def slash_def)
  have "?f \<in> set (files_below [] demo_tree)" by (simp add: demo_tree_def)
  moreover have "bytes_of ''/a%20b'' \<in> file_urls demo_fallback ?f"
    by (simp add: file_urls_def path_url_def demo_url) (simp add: bytes_of_def slash_def)
  ultimately have "resolve s GET (bytes_of ''/a%20b'') = asset_reply (file_asset demo_env ?f [65]) 200"
    "r_status (resolve s GET [slash]) = 200"
    using directory_site_exact [OF s ok, of GET] by fastforce+
  moreover have "bytes_of ''/'' = [slash]" by (simp add: bytes_of_def slash_def)
  ultimately show ?thesis
    using s by (auto simp: asset_reply_def file_asset_def asset_of_def build_asset_def Let_def)
qed

section \<open>Escaping\<close>

lemma replace_byte_absent: "c \<notin> set r \<Longrightarrow> c \<notin> set (replace_byte c r s)"
  by (auto simp: replace_byte_def)

lemma replace_byte_keeps: "d \<notin> set r \<Longrightarrow> d \<notin> set s \<Longrightarrow> d \<notin> set (replace_byte c r s)"
  by (auto simp: replace_byte_def)

text \<open>Escaped text has no angle brackets and no quotes, so it cannot end an element or an attribute.\<close>

lemma html_escape_inert: "c \<in> {0x3C, 0x3E, 0x22, 0x27} \<Longrightarrow> c \<notin> set (html_escape s)"
proof -
  have "0x3C \<notin> set (html_escape s)" unfolding html_escape_def
    by (rule replace_byte_keeps, simp add: bytes_of_def, rule replace_byte_keeps, simp add: bytes_of_def, rule replace_byte_keeps, simp add: bytes_of_def, rule replace_byte_absent, simp add: bytes_of_def)
  moreover have "0x3E \<notin> set (html_escape s)" unfolding html_escape_def
    by (rule replace_byte_keeps, simp add: bytes_of_def, rule replace_byte_keeps, simp add: bytes_of_def, rule replace_byte_absent, simp add: bytes_of_def)
  moreover have "0x22 \<notin> set (html_escape s)" unfolding html_escape_def
    by (rule replace_byte_keeps, simp add: bytes_of_def, rule replace_byte_absent, simp add: bytes_of_def)
  moreover have "0x27 \<notin> set (html_escape s)" unfolding html_escape_def
    by (rule replace_byte_absent, simp add: bytes_of_def)
  ultimately show "c \<in> {0x3C, 0x3E, 0x22, 0x27} \<Longrightarrow> c \<notin> set (html_escape s)" by auto
qed

text \<open>The first character of an escaped title that starts with a special character is an ampersand, so the
  icon of such a site contains an ampersand that starts no entity.\<close>

lemma icon_letter_unescaped: "b \<in> {0x26, 0x3C, 0x3E, 0x22, 0x27} \<Longrightarrow> hd (html_escape (b # s)) = 0x26"
  by (auto simp: html_escape_def replace_byte_def bytes_of_def)

end
