(* ===== verification/Origin.thy ===== *)
theory Origin
  imports Site
begin

text \<open>
  The HTTP origin, \<^verbatim>\<open>src/origin.rs\<close>: what one request does. \<open>handle\<close> composes the request layer (Xhttp), the
  session table, the padding of responses and the fallback site. The HTTP parser (hyper) is not modelled:
  \<open>http_request\<close> is what it hands to the service, with the header map as the list of its entries (names in
  lower case, in the order of arrival) and the body as the frames that will arrive. The base64 decoder is
  the parameter \<open>b64\<close>. \<open>draw\<close> is the random number of the padding and \<open>lock_free\<close> the outcome of the
  \<open>try_lock\<close> when a session is closed. \<open>None\<close> as the result of \<open>handle\<close> is a panic.
\<close>

section \<open>Requests and responses\<close>

datatype body_frame = DataFrame bytes | TrailersFrame | FrameError

record http_request =
  hr_method :: http_method
  hr_path :: bytes
  hr_query :: "bytes option"
  hr_uri_host :: "bytes option"
  hr_headers :: "(bytes \<times> bytes) list"
  hr_body :: "body_frame list"
  hr_size_upper :: "nat option"

definition header_get :: "(bytes \<times> bytes) list \<Rightarrow> bytes \<Rightarrow> bytes option" where
  "header_get hs k = map_of hs (map ascii_lower k)"

text \<open>\<open>HeaderValue::to_str\<close>: visible ASCII and tabs.\<close>

definition value_text :: "bytes \<Rightarrow> bytes option" where
  "value_text v = (if list_all (\<lambda>b. (0x20 \<le> b \<and> b < 0x7F) \<or> b = 0x09) v then Some v else None)"

text \<open>What the functions of the request layer read of a request.\<close>

definition request_view :: "http_request \<Rightarrow> request" where
  "request_view r =
     \<lparr>rq_method = hr_method r, rq_path = hr_path r, rq_query = hr_query r, rq_uri_host = hr_uri_host r,
      rq_host = Option.bind (header_get (hr_headers r) (bytes_of ''host'')) value_text,
      rq_referer = Option.bind (header_get (hr_headers r) (bytes_of ''referer'')) value_text\<rparr>"

datatype response_body = FullBody bytes | EmptyBody | DownloadBody bytes u64

record response =
  rs_status :: nat
  rs_headers :: "(bytes \<times> bytes) list"
  rs_body :: response_body

definition response_new :: "nat \<Rightarrow> response_body \<Rightarrow> response" where
  "response_new status b = \<lparr>rs_status = status, rs_headers = [(bytes_of ''server'', bytes_of ''nginx'')], rs_body = b\<rparr>"

definition empty_response :: "nat \<Rightarrow> response" where
  "empty_response status = response_new status EmptyBody"

definition insert_header :: "string \<Rightarrow> bytes \<Rightarrow> response \<Rightarrow> response" where
  "insert_header k v r = r\<lparr>rs_headers := AList.update (bytes_of k) v (rs_headers r)\<rparr>"

section \<open>State\<close>

record origin =
  o_xhttp :: xhttp_config
  o_site :: static_site

record origin_state =
  sessions :: session_table
  response_padding :: response_padding
  upload_bytes :: u64
  request_header_rejections :: u64
  request_body_rejections :: u64
  memory_limit_rejections :: u64

definition origin_start :: "config \<Rightarrow> origin_state" where
  "origin_start c =
     \<lparr>sessions = configured_sessions c,
      response_padding = response_padding_new (padding_from (xhttp c)) (padding_to (xhttp c)),
      upload_bytes = 0, request_header_rejections = 0, request_body_rejections = 0, memory_limit_rejections = 0\<rparr>"

section \<open>The payload of an upload\<close>

datatype upload_payload_error = InvalidBase64 | TooLarge

definition should_read_body :: "uplink_data_placement \<Rightarrow> bool" where
  "should_read_body p \<longleftrightarrow> p = PlaceBody \<or> p = PlaceAuto"

definition encoded_len_limit :: "nat \<Rightarrow> nat" where
  "encoded_len_limit n = min (min (n * 4) usize_max + 2) usize_max div 3 + 4"

definition decode_payload_chunks :: "(bytes \<Rightarrow> bytes option) \<Rightarrow> bytes \<Rightarrow> nat \<Rightarrow> upload_payload_error + bytes" where
  "decode_payload_chunks b64 encoded lim =
     (if encoded = [] then Inr []
      else (case b64 encoded of
              None \<Rightarrow> Inl InvalidBase64
            | Some decoded \<Rightarrow> if lim < length decoded then Inl TooLarge else Inr decoded))"

fun cookie_in :: "bytes list \<Rightarrow> bytes \<Rightarrow> bytes option" where
  "cookie_in [] key = None"
| "cookie_in (part # parts) key =
     (case split_once (of_char (CHR ''='')) (trim part) of
        None \<Rightarrow> cookie_in parts key
      | Some (name, value) \<Rightarrow> if name = key then Some value else cookie_in parts key)"

fun cookie_values :: "(bytes \<times> bytes) list \<Rightarrow> bytes \<Rightarrow> bytes option" where
  "cookie_values [] key = None"
| "cookie_values ((n, v) # hs) key =
     (if n \<noteq> bytes_of ''cookie'' then cookie_values hs key
      else (case value_text v of
              None \<Rightarrow> cookie_values hs key
            | Some raw \<Rightarrow>
                (case cookie_in (split_on (of_char (CHR '';'')) raw) key of
                   Some x \<Rightarrow> Some x
                 | None \<Rightarrow> cookie_values hs key)))"

text \<open>The loops of the two decoders: chunk after chunk until one is missing. \<open>look i\<close> is the chunk \<open>i\<close>, \<open>Some
  None\<close> a value that is not text; the loop has at most \<open>fuel\<close> rounds, \<open>None\<close> when they are used up.\<close>

fun gather_chunks :: "nat \<Rightarrow> (nat \<Rightarrow> bytes option option) \<Rightarrow> nat \<Rightarrow> nat \<Rightarrow> bytes \<Rightarrow> (upload_payload_error + bytes) option" where
  "gather_chunks 0 look lim i encoded = None"
| "gather_chunks (Suc fuel) look lim i encoded =
     (case look i of
        None \<Rightarrow> Some (Inr encoded)
      | Some None \<Rightarrow> Some (Inl InvalidBase64)
      | Some (Some v) \<Rightarrow>
          if encoded_len_limit lim < length (encoded @ v) then Some (Inl TooLarge)
          else gather_chunks fuel look lim (Suc i) (encoded @ v))"

definition header_look :: "xhttp_config \<Rightarrow> (bytes \<times> bytes) list \<Rightarrow> nat \<Rightarrow> bytes option option" where
  "header_look x hs i = map_option value_text (header_get hs (uplink_data_key x @ bytes_of ''-'' @ decimal i))"

definition cookie_look :: "xhttp_config \<Rightarrow> (bytes \<times> bytes) list \<Rightarrow> nat \<Rightarrow> bytes option option" where
  "cookie_look x hs i = map_option Some (cookie_values hs (uplink_data_key x @ bytes_of ''_'' @ decimal i))"

definition header_fuel :: "(bytes \<times> bytes) list \<Rightarrow> nat" where
  "header_fuel hs = Suc (length hs)"

definition cookie_fuel :: "(bytes \<times> bytes) list \<Rightarrow> nat" where
  "cookie_fuel hs = Suc (sum_list (map (\<lambda>(n, v). length (split_on (of_char (CHR '';'')) v)) hs))"

definition decode_header_payload ::
  "(bytes \<Rightarrow> bytes option) \<Rightarrow> xhttp_config \<Rightarrow> (bytes \<times> bytes) list \<Rightarrow> (upload_payload_error + bytes) option" where
  "decode_header_payload b64 x hs =
     (if uplink_data_placement x \<noteq> PlaceHeader \<and> uplink_data_placement x \<noteq> PlaceAuto then Some (Inr [])
      else (case gather_chunks (header_fuel hs) (header_look x hs) (max_each_post_bytes x) 0 [] of
              None \<Rightarrow> None
            | Some (Inl e) \<Rightarrow> Some (Inl e)
            | Some (Inr encoded) \<Rightarrow> Some (decode_payload_chunks b64 encoded (max_each_post_bytes x))))"

definition decode_cookie_payload ::
  "(bytes \<Rightarrow> bytes option) \<Rightarrow> xhttp_config \<Rightarrow> (bytes \<times> bytes) list \<Rightarrow> (upload_payload_error + bytes) option" where
  "decode_cookie_payload b64 x hs =
     (if uplink_data_placement x \<noteq> PlaceCookie \<and> uplink_data_placement x \<noteq> PlaceAuto then Some (Inr [])
      else (case gather_chunks (cookie_fuel hs) (cookie_look x hs) (max_each_post_bytes x) 0 [] of
              None \<Rightarrow> None
            | Some (Inl e) \<Rightarrow> Some (Inl e)
            | Some (Inr encoded) \<Rightarrow> Some (decode_payload_chunks b64 encoded (max_each_post_bytes x))))"

text \<open>The loop over the frames with its three variables: the first data frame, the combined buffer once there
  is a second one, and the number of bytes so far.\<close>

fun read_frames :: "nat \<Rightarrow> body_frame list \<Rightarrow> bytes option \<Rightarrow> bytes option \<Rightarrow> nat \<Rightarrow> upload_payload_error + bytes" where
  "read_frames lim [] first combined tot =
     Inr (case combined of Some c \<Rightarrow> c | None \<Rightarrow> (case first of Some f \<Rightarrow> f | None \<Rightarrow> []))"
| "read_frames lim (FrameError # fs) first combined tot = Inl InvalidBase64"
| "read_frames lim (TrailersFrame # fs) first combined tot = read_frames lim fs first combined tot"
| "read_frames lim (DataFrame d # fs) first combined tot =
     (if d = [] then read_frames lim fs first combined tot
      else (case usize_checked_add tot (length d) of
        None \<Rightarrow> Inl TooLarge
      | Some next_total \<Rightarrow>
          if lim < next_total then Inl TooLarge
          else (case combined of
                  Some c \<Rightarrow> read_frames lim fs first (Some (c @ d)) next_total
                | None \<Rightarrow>
                    (case first of
                       Some f \<Rightarrow> read_frames lim fs None (Some (f @ d)) next_total
                     | None \<Rightarrow> read_frames lim fs (Some d) None next_total))))"

definition read_body_payload :: "xhttp_config \<Rightarrow> body_frame list \<Rightarrow> upload_payload_error + bytes" where
  "read_body_payload x fs = read_frames (max_each_post_bytes x) fs None None 0"

section \<open>Requests\<close>

fun method_name :: "http_method \<Rightarrow> bytes" where
  "method_name GET = bytes_of ''GET''"
| "method_name POST = bytes_of ''POST''"
| "method_name OPTIONS = bytes_of ''OPTIONS''"
| "method_name (OtherMethod m) = m"

definition usize_saturating_add :: "nat \<Rightarrow> nat \<Rightarrow> nat" where
  "usize_saturating_add a b = min (a + b) usize_max"

definition request_header_bytes :: "http_request \<Rightarrow> nat" where
  "request_header_bytes r =
     foldl (\<lambda>tot (n, v). usize_saturating_add (usize_saturating_add (usize_saturating_add tot (length n)) (length v)) 4)
       (length (method_name (hr_method r)) + (length (hr_path r) + (case hr_query r of None \<Rightarrow> 0 | Some q \<Rightarrow> Suc (length q))))
       (hr_headers r)"

definition site_response :: "static_site \<Rightarrow> http_request \<Rightarrow> response" where
  "site_response s r =
     (let reply = resolve s (hr_method r) (hr_path r); a = r_asset reply;
          not_modified = (header_get (hr_headers r) (bytes_of ''if-none-match'') = Some (a_etag a));
          body = (if hr_method r = HEAD \<or> not_modified then EmptyBody else FullBody (a_body a));
          r0 = response_new (if not_modified then 304 else r_status reply) body;
          r1 = insert_header ''content-type'' (a_content_type a) r0;
          r2 = (if not_modified then r1 else insert_header ''content-length'' (decimal (length (a_body a))) r1);
          r3 = insert_header ''referrer-policy'' (bytes_of ''strict-origin-when-cross-origin'')
                (insert_header ''x-content-type-options'' (bytes_of ''nosniff'')
                  (insert_header ''last-modified'' (a_last_modified a)
                    (insert_header ''etag'' (a_etag a)
                      (insert_header ''cache-control'' (a_cache_control a) r2))))
      in (case r_allow reply of Some v \<Rightarrow> insert_header ''allow'' v r3 | None \<Rightarrow> r3))"

definition reject_upload_too_large :: "origin_state \<Rightarrow> response \<times> origin_state" where
  "reject_upload_too_large st =
     (empty_response 413, st\<lparr>request_body_rejections := request_body_rejections st + 1\<rparr>)"

definition memory_limit_rejected :: "origin_state \<Rightarrow> response \<times> origin_state" where
  "memory_limit_rejected st =
     (empty_response 503, st\<lparr>memory_limit_rejections := memory_limit_rejections st + 1\<rparr>)"

definition finish_upload ::
  "origin \<Rightarrow> bool \<Rightarrow> origin_state \<Rightarrow> bytes \<Rightarrow> u64 \<Rightarrow> bytes \<Rightarrow> response \<times> origin_state" where
  "finish_upload o1 lock_free st i seq p =
     (if max_each_post_bytes (o_xhttp o1) < length p then reject_upload_too_large st
      else case push_uplink (sessions st) i seq p of
        (res, t) \<Rightarrow>
          let st1 = st\<lparr>upload_bytes := upload_bytes st + of_nat (length p), sessions := t\<rparr>
          in (case res of
                Some Accepted \<Rightarrow>
                  ((if uplink_data_placement (o_xhttp o1) \<noteq> PlaceBody
                    then insert_header ''cache-control'' (bytes_of ''no-store'') (empty_response 200)
                    else empty_response 200), st1)
              | Some Duplicate \<Rightarrow>
                  ((if uplink_data_placement (o_xhttp o1) \<noteq> PlaceBody
                    then insert_header ''cache-control'' (bytes_of ''no-store'') (empty_response 200)
                    else empty_response 200), st1)
              | Some TooManyPending \<Rightarrow> (empty_response 500, st1\<lparr>sessions := remove t i lock_free\<rparr>)
              | Some TooManyPendingBytes \<Rightarrow> (empty_response 500, st1\<lparr>sessions := remove t i lock_free\<rparr>)
              | Some GlobalBufferExceeded \<Rightarrow> memory_limit_rejected st1
              | Some Closed \<Rightarrow> (empty_response 409, st1)
              | None \<Rightarrow> memory_limit_rejected st1))"

definition payload_error :: "origin_state \<Rightarrow> upload_payload_error \<Rightarrow> response \<times> origin_state" where
  "payload_error st e =
     (case e of InvalidBase64 \<Rightarrow> (empty_response 400, st) | TooLarge \<Rightarrow> reject_upload_too_large st)"

definition upload ::
  "(bytes \<Rightarrow> bytes option) \<Rightarrow> origin \<Rightarrow> bool \<Rightarrow> origin_state \<Rightarrow> http_request \<Rightarrow> bytes \<Rightarrow> u64 \<Rightarrow> (response \<times> origin_state) option" where
  "upload b64 o1 lock_free st r i seq =
     (case decode_header_payload b64 (o_xhttp o1) (hr_headers r) of
        None \<Rightarrow> None
      | Some (Inl e) \<Rightarrow> Some (payload_error st e)
      | Some (Inr header_payload) \<Rightarrow>
          (case decode_cookie_payload b64 (o_xhttp o1) (hr_headers r) of
             None \<Rightarrow> None
           | Some (Inl e) \<Rightarrow> Some (payload_error st e)
           | Some (Inr cookie_payload) \<Rightarrow>
               let payload = header_payload @ cookie_payload
               in Some (if should_read_body (uplink_data_placement (o_xhttp o1)) then
                          (if (case hr_size_upper r of Some n \<Rightarrow> max_each_post_bytes (o_xhttp o1) < n | None \<Rightarrow> False)
                           then reject_upload_too_large st
                           else (case read_body_payload (o_xhttp o1) (hr_body r) of
                                   Inl e \<Rightarrow> payload_error st e
                                 | Inr body_payload \<Rightarrow>
                                     if payload = [] then finish_upload o1 lock_free st i seq body_payload
                                     else finish_upload o1 lock_free st i seq (payload @ body_payload)))
                        else finish_upload o1 lock_free st i seq payload)))"

text \<open>The cleanup key leaves the reader with \<open>take_session_key\<close> and goes into the state of the body, whose drop
  removes the session.\<close>

definition download :: "origin \<Rightarrow> origin_state \<Rightarrow> bytes \<Rightarrow> (response \<times> origin_state) option" where
  "download o1 st i =
     (case open_download (sessions st) i of
        (Conflict, t) \<Rightarrow> Some (empty_response 409, st\<lparr>sessions := t\<rparr>)
      | (Capacity, t) \<Rightarrow> Some (empty_response 503, st\<lparr>sessions := t\<rparr>)
      | (Opened None, t) \<Rightarrow> None
      | (Opened (Some (i', h)), t) \<Rightarrow>
          let r = insert_header ''cache-control'' (bytes_of ''no-store'')
                    (insert_header ''x-accel-buffering'' (bytes_of ''no'') (response_new 200 (DownloadBody i' h)))
          in Some (if sse_header (o_xhttp o1) then insert_header ''content-type'' (bytes_of ''text/event-stream'') r else r,
                   st\<lparr>sessions := t\<rparr>))"

definition drop_download :: "origin_state \<Rightarrow> bytes \<Rightarrow> u64 \<Rightarrow> bool \<Rightarrow> origin_state" where
  "drop_download st i h lock_free = st\<lparr>sessions := remove_hashed (sessions st) i h lock_free\<rparr>"

definition add_xhttp_response_padding :: "nat \<Rightarrow> response \<times> origin_state \<Rightarrow> (response \<times> origin_state) option" where
  "add_xhttp_response_padding draw rst =
     (case rst of (r, st) \<Rightarrow>
        (case header_value (response_padding st) draw of
           None \<Rightarrow> None
         | Some (v, rp) \<Rightarrow> Some (insert_header ''x-padding'' v r, st\<lparr>response_padding := rp\<rparr>)))"

text \<open>The \<open>match\<close> on the kind of a request.\<close>

definition serve_kind ::
  "(bytes \<Rightarrow> bytes option) \<Rightarrow> origin \<Rightarrow> bool \<Rightarrow> origin_state \<Rightarrow> http_request \<Rightarrow> (response \<times> origin_state) option" where
  "serve_kind b64 o1 lock_free st r =
     (case classify_borrowed (hr_method r) (extract_meta_from_path (path (o_xhttp o1)) (hr_path r)) of
        PacketUpload i seq \<Rightarrow> upload b64 o1 lock_free st r i seq
      | StreamDownload i \<Rightarrow> download o1 st i
      | Unsupported \<Rightarrow> Some (empty_response 500, st)
      | StreamUp i \<Rightarrow> Some (empty_response 400, st)
      | StreamOne \<Rightarrow> Some (empty_response 400, st)
      | Options \<Rightarrow> Some (empty_response 200, st))"

definition handle ::
  "(bytes \<Rightarrow> bytes option) \<Rightarrow> origin \<Rightarrow> nat \<Rightarrow> bool \<Rightarrow> origin_state \<Rightarrow> http_request \<Rightarrow> (response \<times> origin_state) option" where
  "handle b64 o1 draw lock_free st r =
     (let x = o_xhttp o1; v = request_view r
      in if max_header_bytes x < request_header_bytes r then
           Some (empty_response 431, st\<lparr>request_header_rejections := request_header_rejections st + 1\<rparr>)
         else if hr_path r = bytes_of ''/healthz'' then Some (response_new 200 (FullBody (bytes_of ''ok'' @ [10])), st)
         else if hr_path r = bytes_of ''/readyz'' then Some (response_new 200 (FullBody (bytes_of ''ready'' @ [10])), st)
         else if \<not> path_matches (path x) (hr_path r) \<or> \<not> host_matches (host x) v then Some (site_response (o_site o1) r, st)
         else if hr_method r = OPTIONS then add_xhttp_response_padding draw (empty_response 200, st)
         else if \<not> is_padding_len_valid (extract_padding_len v) (padding_from x) (padding_to x) then
           Some (site_response (o_site o1) r, st)
         else Option.bind (serve_kind b64 o1 lock_free st r)
           (add_xhttp_response_padding draw))"

section \<open>The payload loops end\<close>

lemma gather_chunks_total:
  assumes "finite {j. i \<le> j \<and> look j \<noteq> None}" and "card {j. i \<le> j \<and> look j \<noteq> None} < fuel"
  shows "gather_chunks fuel look lim i encoded \<noteq> None"
  using assms
proof (induction fuel arbitrary: i encoded)
  case (Suc fuel)
  show ?case
  proof (cases "look i")
    case (Some v)
    let ?A = "{j. i \<le> j \<and> look j \<noteq> None}" and ?B = "{j. Suc i \<le> j \<and> look j \<noteq> None}"
    have "?A = insert i ?B" using Some by (auto simp: Suc_le_eq order_le_less)
    moreover have fin: "finite ?B" using Suc.prems(1) by (rule rev_finite_subset) auto
    moreover have "i \<notin> ?B" by simp
    ultimately have "card ?B < fuel" using Suc.prems(2) by simp
    with Suc.IH [OF fin] Some show ?thesis by (auto split: option.splits)
  qed simp
qed simp

lemma gather_chunks_keys:
  assumes "inj key" and "\<And>j. look j \<noteq> None \<Longrightarrow> key j \<in> set names" and "length names < fuel"
  shows "gather_chunks fuel look lim i encoded \<noteq> None"
proof (rule gather_chunks_total)
  let ?A = "{j. i \<le> j \<and> look j \<noteq> None}"
  have inj: "inj_on key ?A" using assms(1) by (rule inj_on_subset) simp
  have sub: "key ` ?A \<subseteq> set names" using assms(2) by auto
  show "finite ?A" using inj_on_finite [OF inj sub] by simp
  have "card ?A \<le> card (set names)" using card_inj_on_le [OF inj sub] by simp
  also have "\<dots> \<le> length names" by (rule card_length)
  finally show "card ?A < fuel" using assms(3) by simp
qed

lemma decimal_inject: "decimal i = decimal j \<longleftrightarrow> i = j"
  using decimal_value by metis

lemma ascii_lower_digits: "list_all is_digit s \<Longrightarrow> map ascii_lower s = s"
proof (induction s)
  case (Cons b s)
  then have "\<not> (0x41 \<le> b \<and> b \<le> 0x5A)" by (auto simp: is_digit_def word_le_nat_alt)
  with Cons show ?case by (simp add: ascii_lower_def)
qed simp

lemma header_gather: "gather_chunks (header_fuel hs) (header_look x hs) lim 0 [] \<noteq> None"
proof -
  let ?key = "\<lambda>i. map ascii_lower (uplink_data_key x @ bytes_of ''-'' @ decimal i)"
  have "inj ?key"
    using ascii_lower_digits decimal_digits by (intro injI) (simp add: decimal_inject)
  then show ?thesis
    by (rule gather_chunks_keys [where names = "map fst hs"])
      (auto simp: header_look_def header_get_def header_fuel_def dom_map_of_conv_image_fst [symmetric])
qed

lemma header_payload_total: "decode_header_payload b64 x hs \<noteq> None"
  using header_gather [of hs x "max_each_post_bytes x"] by (auto simp: decode_header_payload_def split: option.splits sum.splits)

definition cookie_names :: "(bytes \<times> bytes) list \<Rightarrow> bytes list" where
  "cookie_names hs =
     concat (map (\<lambda>(n, v). map (\<lambda>part. case split_once (of_char (CHR ''='')) (trim part) of Some (k, _) \<Rightarrow> k | None \<Rightarrow> [])
       (split_on (of_char (CHR '';'')) v)) hs)"

lemma cookie_in_name:
  "cookie_in parts key = Some x \<Longrightarrow>
   key \<in> (\<lambda>part. case split_once (of_char (CHR ''='')) (trim part) of Some (k, _) \<Rightarrow> k | None \<Rightarrow> []) ` set parts"
  by (induction parts) (auto split: option.splits if_splits)

lemma cookie_values_name: "cookie_values hs key = Some x \<Longrightarrow> key \<in> set (cookie_names hs)"
proof (induction hs)
  case (Cons h hs)
  obtain n v where h: "h = (n, v)" by (cases h)
  show ?case
  proof (cases "cookie_values hs key = Some x")
    case True
    with Cons show ?thesis by (simp add: cookie_names_def)
  next
    case False
    with Cons.prems h have "cookie_in (split_on (of_char (CHR '';'')) v) key = Some x"
      by (auto simp: value_text_def split: if_splits option.splits)
    from cookie_in_name [OF this] h show ?thesis by (simp add: cookie_names_def)
  qed
qed simp

lemma length_cookie_names: "Suc (length (cookie_names hs)) = cookie_fuel hs"
  by (induction hs) (auto simp: cookie_names_def cookie_fuel_def)

lemma cookie_gather: "gather_chunks (cookie_fuel hs) (cookie_look x hs) lim 0 [] \<noteq> None"
proof -
  have "inj (\<lambda>i. uplink_data_key x @ bytes_of ''_'' @ decimal i)"
    by (intro injI) (simp add: decimal_inject)
  then show ?thesis
    by (rule gather_chunks_keys [where names = "cookie_names hs"])
      (auto simp: cookie_look_def length_cookie_names [symmetric] dest: cookie_values_name)
qed

lemma cookie_payload_total: "decode_cookie_payload b64 x hs \<noteq> None"
  using cookie_gather [of hs x "max_each_post_bytes x"] by (auto simp: decode_cookie_payload_def split: option.splits sum.splits)

section \<open>The body of an upload\<close>

definition frames_data :: "body_frame list \<Rightarrow> bytes" where
  "frames_data fs = concat (map (\<lambda>f. case f of DataFrame d \<Rightarrow> d | _ \<Rightarrow> []) fs)"

definition read_so_far :: "bytes option \<Rightarrow> bytes option \<Rightarrow> bytes" where
  "read_so_far first combined = (case combined of Some c \<Rightarrow> c | None \<Rightarrow> (case first of Some f \<Rightarrow> f | None \<Rightarrow> []))"

text \<open>The three variables of the loop hold the data read so far, so the result is the whole body.\<close>

lemma read_frames_iff:
  assumes "length (read_so_far first combined) = tot" and "tot \<le> lim" and "lim < 2 ^ 64"
    and "combined = None \<or> first = None"
  shows "read_frames lim fs first combined tot = Inr p \<longleftrightarrow>
    FrameError \<notin> set fs \<and> p = read_so_far first combined @ frames_data fs \<and> length p \<le> lim"
  using assms
proof (induction lim fs first combined tot rule: read_frames.induct)
  case (4 lim d fs first combined tot)
  show ?case
  proof (cases "d = []")
    case True
    with 4 show ?thesis by (simp add: frames_data_def)
  next
    case False
    show ?thesis
    proof (cases "tot + length d \<le> lim")
      case True
      then have a: "usize_checked_add tot (length d) = Some (tot + length d)" using "4.prems"(3) by (simp add: usize_checked_add_def)
      show ?thesis
        using 4 False True a
        by (cases combined; cases first) (auto simp: read_so_far_def frames_data_def)
    next
      case over: False
      then have "read_frames lim (DataFrame d # fs) first combined tot = Inl TooLarge"
        using False by (auto simp: usize_checked_add_def)
      moreover have "lim < length (read_so_far first combined @ frames_data (DataFrame d # fs))"
        using over 4 by (simp add: frames_data_def)
      ultimately show ?thesis by auto
    qed
  qed
qed (auto simp: read_so_far_def frames_data_def)

lemma read_body_iff:
  assumes "max_each_post_bytes x < 2 ^ 64"
  shows "read_body_payload x fs = Inr p \<longleftrightarrow>
    FrameError \<notin> set fs \<and> p = frames_data fs \<and> length p \<le> max_each_post_bytes x"
  using read_frames_iff [of None None 0 "max_each_post_bytes x" fs p] assms
  by (simp add: read_body_payload_def read_so_far_def)

section \<open>The invariant of the origin\<close>

text \<open>A step of the server: a request, the end of a download body, or a grace reaper.\<close>

inductive origin_step :: "(bytes \<Rightarrow> bytes option) \<Rightarrow> origin \<Rightarrow> origin_state \<Rightarrow> origin_state \<Rightarrow> bool" for b64 o1 where
  requesting: "handle b64 o1 draw lf st r = Some (resp, st') \<Longrightarrow> origin_step b64 o1 st st'"
| dropping: "origin_step b64 o1 st (drop_download st i (fnv1a i) lf)"
| timing_out: "a \<in> set (reapers (sessions st)) \<Longrightarrow> alive \<or> (\<forall>i. session_at (sessions st) i \<noteq> Some a) \<Longrightarrow>
     origin_step b64 o1 st (st\<lparr>sessions := reap (sessions st) a alive lf\<rparr>)"

definition configured_origin :: "config \<Rightarrow> static_site \<Rightarrow> origin" where
  "configured_origin c s = \<lparr>o_xhttp = xhttp c, o_site = s\<rparr>"

definition origin_inv :: "xhttp_config \<Rightarrow> origin_state \<Rightarrow> bool" where
  "origin_inv x st \<longleftrightarrow> table_inv (sessions st) \<and> rp_ok (response_padding st) \<and>
     rp_from (response_padding st) = padding_from x \<and> rp_to (response_padding st) = padding_to x"

lemma origin_inv_sessions: "origin_inv x st \<Longrightarrow> table_inv t \<Longrightarrow> origin_inv x (st\<lparr>sessions := t\<rparr>)"
  by (simp add: origin_inv_def)

lemma table_inv_remove: "table_inv t \<Longrightarrow> table_inv (remove t i lf)"
  using remove_inv by (simp add: remove_def remove_hashed_def)

text \<open>A request under the base that is not answered by the site.\<close>

definition xhttp_request :: "xhttp_config \<Rightarrow> http_request \<Rightarrow> bool" where
  "xhttp_request x r \<longleftrightarrow>
     request_header_bytes r \<le> max_header_bytes x \<and> hr_path r \<noteq> bytes_of ''/healthz'' \<and> hr_path r \<noteq> bytes_of ''/readyz'' \<and>
     path_matches (path x) (hr_path r) \<and> host_matches (host x) (request_view r) \<and>
     (hr_method r = OPTIONS \<or>
      is_padding_len_valid (extract_padding_len (request_view r)) (padding_from x) (padding_to x))"

lemma padding_added:
  assumes "origin_inv x st"
  shows "\<exists>rp. add_xhttp_response_padding draw (r, st) =
      Some (insert_header ''x-padding'' (generate_response_padding (padding_from x) (padding_to x) draw) r,
            st\<lparr>response_padding := rp\<rparr>) \<and> origin_inv x (st\<lparr>response_padding := rp\<rparr>)"
proof -
  have "rp_ok (response_padding st)" using assms by (simp add: origin_inv_def)
  from header_value_ok [OF this, of draw] show ?thesis
    using assms by (auto simp: add_xhttp_response_padding_def origin_inv_def generate_response_padding_def padding_header_value_def)
qed

lemma finish_upload_inv:
  assumes "origin_inv x st" and "finish_upload o1 lf st i seq p = (r, st')"
  shows "origin_inv x st'"
proof -
  obtain res t where p: "push_uplink (sessions st) i seq p = (res, t)" by fastforce
  have "table_inv t" using push_uplink_inv [OF _ p] assms(1) by (simp add: origin_inv_def)
  with assms p table_inv_remove [of t i lf] show ?thesis
    by (auto simp: finish_upload_def origin_inv_def reject_upload_too_large_def memory_limit_rejected_def Let_def
        split: if_splits option.splits push_result.splits)
qed

lemma payload_error_inv: "origin_inv x st \<Longrightarrow> payload_error st e = (r, st') \<Longrightarrow> origin_inv x st'"
  by (auto simp: payload_error_def reject_upload_too_large_def origin_inv_def split: upload_payload_error.splits)

lemma upload_inv:
  assumes "origin_inv x st"
  shows "\<exists>r' st'. upload b64 o1 lf st r i seq = Some (r', st') \<and> origin_inv x st'"
proof -
  obtain h where h: "decode_header_payload b64 (o_xhttp o1) (hr_headers r) = Some h" using header_payload_total by blast
  obtain c where c: "decode_cookie_payload b64 (o_xhttp o1) (hr_headers r) = Some c" using cookie_payload_total by blast
  have "upload b64 o1 lf st r i seq \<noteq> None" using h c by (cases h; cases c) (auto simp: upload_def Let_def)
  then obtain r' st' where u: "upload b64 o1 lf st r i seq = Some (r', st')" by fastforce
  moreover have "origin_inv x st'"
    using u h c payload_error_inv [OF assms] finish_upload_inv [OF assms] assms
    by (cases h; cases c)
      (auto simp: upload_def Let_def reject_upload_too_large_def origin_inv_def split: if_splits sum.splits option.splits)
  ultimately show ?thesis by blast
qed

lemma download_inv:
  assumes "origin_inv x st"
  shows "\<exists>r' st'. download o1 st i = Some (r', st') \<and> origin_inv x st' \<and>
    (\<forall>i' h. rs_body r' = DownloadBody i' h \<longrightarrow> i' = i \<and> h = fnv1a i)"
proof -
  obtain res t where o: "open_download (sessions st) i = (res, t)" by fastforce
  have inv: "table_inv (sessions st)" using assms by (simp add: origin_inv_def)
  then have t: "origin_inv x (st\<lparr>sessions := t\<rparr>)" using open_download_inv [OF inv o] origin_inv_sessions [OF assms] by blast
  show ?thesis
  proof (cases res)
    case (Opened k)
    with o open_download_opened [OF inv, of i k t] have "k = Some (i, fnv1a i)" by blast
    with Opened o t show ?thesis
      by (auto simp: download_def Let_def insert_header_def response_new_def)
  qed (use o t in \<open>simp_all add: download_def empty_response_def response_new_def\<close>)
qed

text \<open>The only responses with a stream as their body are those of \<open>download\<close>.\<close>

definition body_keyed :: "response \<Rightarrow> bool" where
  "body_keyed r \<longleftrightarrow> (\<forall>i h. rs_body r = DownloadBody i h \<longrightarrow> h = fnv1a i)"

lemma body_keyed_simps [simp]:
  "body_keyed (insert_header k v r) = body_keyed r" "body_keyed (empty_response n)" "body_keyed (response_new n (FullBody b))"
  by (simp_all add: body_keyed_def insert_header_def empty_response_def response_new_def)

lemma upload_body:
  "upload b64 o1 lf st r i seq = Some (r', st') \<Longrightarrow> body_keyed r'"
proof -
  have "body_keyed (fst (finish_upload o1 lf st i seq p))" for p
    by (auto simp: finish_upload_def reject_upload_too_large_def memory_limit_rejected_def Let_def
        split: prod.splits option.splits push_result.splits)
  moreover have "body_keyed (fst (payload_error st e))" for e
    by (auto simp: payload_error_def reject_upload_too_large_def split: upload_payload_error.splits)
  moreover assume "upload b64 o1 lf st r i seq = Some (r', st')"
  ultimately show ?thesis
    by (auto simp: upload_def reject_upload_too_large_def Let_def split: option.splits sum.splits if_splits) (metis fst_conv)+
qed

lemma site_response_body: "body_keyed (site_response s r)"
  by (auto simp: site_response_def Let_def split: option.splits) (auto simp: body_keyed_def response_new_def)

lemma serve_kind_inv:
  assumes "origin_inv (o_xhttp o1) st"
  shows "\<exists>r' st'. serve_kind b64 o1 lf st r = Some (r', st') \<and> origin_inv (o_xhttp o1) st' \<and> body_keyed r'"
proof -
  have "\<exists>r' st'. download o1 st i = Some (r', st') \<and> origin_inv (o_xhttp o1) st' \<and> body_keyed r'" for i
    using download_inv [OF assms, of o1 i] unfolding body_keyed_def by blast
  moreover have "\<exists>r' st'. upload b64 o1 lf st r i n = Some (r', st') \<and> origin_inv (o_xhttp o1) st' \<and> body_keyed r'" for i n
    using upload_inv [OF assms, of b64 o1 lf r i n] upload_body by blast
  ultimately show ?thesis
    using assms
    by (cases "classify_borrowed (hr_method r) (extract_meta_from_path (path (o_xhttp o1)) (hr_path r))")
      (auto simp: serve_kind_def)
qed

lemma handle_xhttp:
  "xhttp_request (o_xhttp o1) r \<Longrightarrow>
   handle b64 o1 draw lf st r =
     (if hr_method r = OPTIONS then add_xhttp_response_padding draw (empty_response 200, st)
      else Option.bind (serve_kind b64 o1 lf st r) (add_xhttp_response_padding draw))"
  by (auto simp: handle_def xhttp_request_def Let_def)

text \<open>What any other request is answered, whatever the state.\<close>

definition outside_response :: "origin \<Rightarrow> http_request \<Rightarrow> response" where
  "outside_response o1 r =
     (if max_header_bytes (o_xhttp o1) < request_header_bytes r then empty_response 431
      else if hr_path r = bytes_of ''/healthz'' then response_new 200 (FullBody (bytes_of ''ok'' @ [10]))
      else if hr_path r = bytes_of ''/readyz'' then response_new 200 (FullBody (bytes_of ''ready'' @ [10]))
      else site_response (o_site o1) r)"

lemma handle_outside:
  "\<not> xhttp_request (o_xhttp o1) r \<Longrightarrow>
   \<exists>n. handle b64 o1 draw lf st r = Some (outside_response o1 r, st\<lparr>request_header_rejections := n\<rparr>)"
  by (auto simp: handle_def xhttp_request_def outside_response_def Let_def
      intro: exI [of _ "request_header_rejections st"] exI [of _ "request_header_rejections st + 1"])

lemma handle_inv:
  assumes "origin_inv (o_xhttp o1) st"
  shows "\<exists>r' st'. handle b64 o1 draw lf st r = Some (r', st') \<and> origin_inv (o_xhttp o1) st' \<and> body_keyed r'"
proof (cases "xhttp_request (o_xhttp o1) r")
  case True
  have pad: "\<exists>r' st''. add_xhttp_response_padding draw (r0, st') = Some (r', st'') \<and> origin_inv (o_xhttp o1) st'' \<and> body_keyed r'"
    if "origin_inv (o_xhttp o1) st'" "body_keyed r0" for r0 st'
    using padding_added [OF that(1), of draw r0] that(2) by fastforce
  obtain r0 st' where k: "serve_kind b64 o1 lf st r = Some (r0, st')" "origin_inv (o_xhttp o1) st'" "body_keyed r0"
    using serve_kind_inv [OF assms] by blast
  with pad [OF assms, of "empty_response 200"] pad [OF k(2,3)] True show ?thesis by (simp add: handle_xhttp)
next
  case False
  have "body_keyed (outside_response o1 r)" using site_response_body by (simp add: outside_response_def)
  with handle_outside [OF False, of b64 draw lf st] assms show ?thesis by (auto simp: origin_inv_def)
qed

lemma origin_start_inv:
  assumes "lim_max_sessions (cfg_limits c) < 2 ^ 64" and "max_buffered_posts (xhttp c) < 2 ^ 64"
  shows "origin_inv (xhttp c) (origin_start c)"
proof -
  have "rp_ok (response_padding_new f t)" for f t
    by (simp add: rp_ok_def response_padding_new_def Let_def nth_replicate del: replicate_Suc)
  moreover have "table_inv (configured_sessions c)"
    using assms unfolding configured_sessions_def by (intro table_inv_new) simp_all
  ultimately show ?thesis
    by (simp add: origin_inv_def origin_start_def response_padding_new_def Let_def)
qed

lemma origin_step_inv: "origin_step b64 o1 st st' \<Longrightarrow> origin_inv (o_xhttp o1) st \<Longrightarrow> origin_inv (o_xhttp o1) st'"
proof (induction rule: origin_step.induct)
  case (requesting draw lf st r resp st')
  with handle_inv [of o1 st b64 draw lf r] show ?case by auto
qed (auto simp: drop_download_def origin_inv_def intro: remove_inv reap_inv)

lemma origin_run_inv:
  assumes "(origin_step b64 (configured_origin c s))\<^sup>*\<^sup>* (origin_start c) st"
    and "lim_max_sessions (cfg_limits c) < 2 ^ 64" and "max_buffered_posts (xhttp c) < 2 ^ 64"
  shows "origin_inv (xhttp c) st"
  using assms(1)
proof (induction rule: rtranclp_induct)
  case base
  show ?case by (rule origin_start_inv [OF assms(2,3)])
next
  case (step y z)
  then show ?case using origin_step_inv [of b64 "configured_origin c s" y z] by (simp add: configured_origin_def)
qed

section \<open>Properties\<close>

definition header_of :: "response \<Rightarrow> string \<Rightarrow> bytes option" where
  "header_of r k = map_of (rs_headers r) (bytes_of k)"

lemma header_of_insert:
  "header_of (insert_header k v r) k' = (if bytes_of k' = bytes_of k then Some v else header_of r k')"
  by (simp add: header_of_def insert_header_def update_conv')

lemma header_of_new: "header_of (response_new n b) k = (if bytes_of k = bytes_of ''server'' then Some (bytes_of ''nginx'') else None)"
  by (simp add: header_of_def response_new_def)

lemma outside_no_padding: "header_of (outside_response o1 r) ''x-padding'' = None"
proof -
  have "bytes_of ''x-padding'' \<noteq> bytes_of k" if "k \<in> {''server'', ''content-type'', ''content-length'', ''cache-control'', ''etag'',
      ''last-modified'', ''x-content-type-options'', ''referrer-policy'', ''allow''}" for k
    using that by (auto simp: bytes_of_def)
  then show ?thesis
    by (auto simp: outside_response_def empty_response_def site_response_def header_of_insert header_of_new Let_def
        split: option.splits)
qed

text \<open>
  C15. The server never panics and its sessions stay consistent, when requests are served one after another: start it with
  any configuration and any site, and let requests of any form, ends of downloads and grace reapers happen in
  any order, each finished before the next one starts; then every further request is answered (a download
  body carries the key under which its session is removed), the session counter is the number of sessions and
  within the limit, and every session belongs to its id and is connected or has a reaper armed. What two
  requests that create sessions at the same time do to the limit is \<open>Session.session_cap_under_concurrency\<close>.
\<close>

theorem origin_always_answers:
  assumes "(origin_step b64 (configured_origin c s))\<^sup>*\<^sup>* (origin_start c) st"
    and "lim_max_sessions (cfg_limits c) < 2 ^ 64" and "max_buffered_posts (xhttp c) < 2 ^ 64"
  shows "(\<exists>resp st'. handle b64 (configured_origin c s) draw lf st r = Some (resp, st') \<and>
            (\<forall>i h. rs_body resp = DownloadBody i h \<longrightarrow> h = fnv1a i)) \<and>
    active_sessions (sessions st) = shards_size (shards (sessions st)) \<and>
    active_sessions (sessions st) \<le> max_sessions (cfg (sessions st)) \<and>
    (\<forall>i a. session_at (sessions st) i = Some a \<longrightarrow>
       (\<exists>ses. store (sessions st) a = Some ses \<and> s_id ses = i \<and> (fully_connected ses \<or> a \<in> set (reapers (sessions st)))))"
proof -
  have inv: "origin_inv (xhttp c) st" by (rule origin_run_inv [OF assms])
  then have t: "table_inv (sessions st)" by (simp add: origin_inv_def)
  have "\<exists>ses. store (sessions st) a = Some ses \<and> s_id ses = i \<and> (fully_connected ses \<or> a \<in> set (reapers (sessions st)))"
    if "session_at (sessions st) i = Some a" for i a
    using table_inv_entry [OF t that] by metis
  moreover have "\<exists>resp st'. handle b64 (configured_origin c s) draw lf st r = Some (resp, st') \<and> body_keyed resp"
    using handle_inv [of "configured_origin c s" st b64 draw lf r] inv by (auto simp: configured_origin_def)
  ultimately show ?thesis
    using t by (auto simp: table_inv_def sm.counted_def active_sessions_def body_keyed_def)
qed

text \<open>What the site shows for a request: the page of the path, or the one for an unknown path, or for a method other than GET
  and HEAD, without its body when the client has it already.\<close>

definition shows_site :: "static_site \<Rightarrow> http_request \<Rightarrow> response \<Rightarrow> bool" where
  "shows_site s r resp \<longleftrightarrow>
     (\<exists>a status allow. (a, status, allow) =
        (if hr_method r \<noteq> GET \<and> hr_method r \<noteq> HEAD then (method_not_allowed s, 405, Some (bytes_of ''GET, HEAD''))
         else case assets s (hr_path r) of Some a \<Rightarrow> (a, 200, None) | None \<Rightarrow> (not_found s, 404, None)) \<and>
      (let cached = (map_of (hr_headers r) (bytes_of ''if-none-match'') = Some (a_etag a)) in
        rs_status resp = (if cached then 304 else status) \<and>
        rs_body resp = (if hr_method r = HEAD \<or> cached then EmptyBody else FullBody (a_body a)) \<and>
        header_of resp ''server'' = Some (bytes_of ''nginx'') \<and>
        header_of resp ''content-type'' = Some (a_content_type a) \<and>
        header_of resp ''content-length'' = (if cached then None else Some (decimal (length (a_body a)))) \<and>
        header_of resp ''cache-control'' = Some (a_cache_control a) \<and>
        header_of resp ''etag'' = Some (a_etag a) \<and>
        header_of resp ''last-modified'' = Some (a_last_modified a) \<and>
        header_of resp ''allow'' = allow))"

lemma if_none_match_lower: "map ascii_lower (bytes_of ''if-none-match'') = bytes_of ''if-none-match''"
  by (simp add: bytes_of_def ascii_lower_def)

lemma rs_body_simps [simp]: "rs_body (insert_header k v r) = rs_body r" "rs_body (response_new n b) = b"
  by (simp_all add: insert_header_def response_new_def)

lemma rs_status_simps [simp]:
  "rs_status (insert_header k v r) = rs_status r" "rs_status (empty_response n) = n" "rs_status (response_new n b) = n"
  by (simp_all add: insert_header_def empty_response_def response_new_def)

lemma site_response_shows: "shows_site s r (site_response s r)"
proof -
  define rep where "rep = resolve s (hr_method r) (hr_path r)"
  have "(r_asset rep, r_status rep, r_allow rep) =
      (if hr_method r \<noteq> GET \<and> hr_method r \<noteq> HEAD then (method_not_allowed s, 405, Some (bytes_of ''GET, HEAD''))
       else case assets s (hr_path r) of Some a \<Rightarrow> (a, 200, None) | None \<Rightarrow> (not_found s, 404, None))"
    by (simp add: rep_def resolve_def asset_reply_def split: option.splits)
  then show ?thesis
    unfolding shows_site_def
    by (intro exI conjI, assumption)
      (simp add: site_response_def rep_def [symmetric] header_get_def if_none_match_lower Let_def header_of_insert
         header_of_new bytes_of_inject split: option.split)
qed

text \<open>
  C8. Probes see only the site. A request outside the base path, for another host, or without valid padding (unless its
  method is OPTIONS, which needs none) is answered as an ordinary web server would: with 431 when its header is too large, with
  \<open>ok\<close> and \<open>ready\<close> on \<open>/healthz\<close> and \<open>/readyz\<close>, and otherwise with what the site shows for its path and method, its
  status, body and headers being those of the page. Such an answer does not depend on the state of the server,
  carries no padding header, and leaves the sessions and the padding cache as they are; a request that
  passes these checks is answered with a padding header whose length is in the configured range.
\<close>

theorem probes_see_only_the_site:
  assumes "try_from raw = Inr c" and "(origin_step b64 (configured_origin c s))\<^sup>*\<^sup>* (origin_start c) st"
    and "lim_max_sessions (cfg_limits c) < 2 ^ 64" and "max_buffered_posts (xhttp c) < 2 ^ 64"
    and "handle b64 (configured_origin c s) draw lf st r = Some (resp, st')"
  shows "(\<not> xhttp_request (xhttp c) r \<longrightarrow>
      (if max_header_bytes (xhttp c) < request_header_bytes r then rs_status resp = 431 \<and> rs_body resp = EmptyBody
       else if hr_path r = bytes_of ''/healthz'' then rs_status resp = 200 \<and> rs_body resp = FullBody (bytes_of ''ok'' @ [10])
       else if hr_path r = bytes_of ''/readyz'' then rs_status resp = 200 \<and> rs_body resp = FullBody (bytes_of ''ready'' @ [10])
       else shows_site s r resp) \<and>
      header_of resp ''x-padding'' = None \<and> sessions st' = sessions st \<and> response_padding st' = response_padding st \<and>
      (\<forall>draw' lf' st1. \<exists>st2. handle b64 (configured_origin c s) draw' lf' st1 r = Some (resp, st2))) \<and>
    (xhttp_request (xhttp c) r \<longrightarrow>
      (\<exists>v. header_of resp ''x-padding'' = Some v \<and>
           is_padding_len_valid (Some (length v)) (padding_from (xhttp c)) (padding_to (xhttp c))))"
proof (intro conjI impI)
  let ?o = "configured_origin c s"
  have x: "o_xhttp ?o = xhttp c" by (simp add: configured_origin_def)
  {
    assume "\<not> xhttp_request (xhttp c) r"
    then have out: "\<exists>n. handle b64 ?o d l st0 r = Some (outside_response ?o r, st0\<lparr>request_header_rejections := n\<rparr>)" for d l st0
      using handle_outside [of ?o r b64 d l st0] x by simp
    from out [of draw lf st] assms(5) have resp: "resp = outside_response ?o r" and "sessions st' = sessions st"
      "response_padding st' = response_padding st" by auto
    then show "sessions st' = sessions st" "response_padding st' = response_padding st"
      "header_of resp ''x-padding'' = None" using outside_no_padding by simp_all
    show "if max_header_bytes (xhttp c) < request_header_bytes r then rs_status resp = 431 \<and> rs_body resp = EmptyBody
       else if hr_path r = bytes_of ''/healthz'' then rs_status resp = 200 \<and> rs_body resp = FullBody (bytes_of ''ok'' @ [10])
       else if hr_path r = bytes_of ''/readyz'' then rs_status resp = 200 \<and> rs_body resp = FullBody (bytes_of ''ready'' @ [10])
       else shows_site s r resp"
      using resp site_response_shows [of s r]
      by (simp add: outside_response_def configured_origin_def empty_response_def)
    show "\<forall>draw' lf' st1. \<exists>st2. handle b64 ?o draw' lf' st1 r = Some (resp, st2)"
      using out resp by blast
  }
  assume xr: "xhttp_request (xhttp c) r"
  have inv: "origin_inv (xhttp c) st" by (rule origin_run_inv [OF assms(2-4)])
  obtain r0 st1 where k: "serve_kind b64 ?o lf st r = Some (r0, st1)" "origin_inv (xhttp c) st1"
    using serve_kind_inv [of ?o st b64 lf r] inv x by auto
  have "\<exists>r1. resp = insert_header ''x-padding'' (generate_response_padding (padding_from (xhttp c)) (padding_to (xhttp c)) draw) r1"
    using assms(5) handle_xhttp [of ?o r b64 draw lf st] xr x k padding_added [OF inv, of draw "empty_response 200"]
      padding_added [OF k(2), of draw r0]
    by (auto split: if_splits)
  moreover have "1 \<le> padding_from (xhttp c)" "padding_from (xhttp c) \<le> padding_to (xhttp c)"
    using try_from_ok [OF assms(1)] by (auto simp: config_ok_def xhttp_ok_def word_le_nat_alt word_less_nat_alt)
  ultimately show "\<exists>v. header_of resp ''x-padding'' = Some v \<and>
      is_padding_len_valid (Some (length v)) (padding_from (xhttp c)) (padding_to (xhttp c))"
    using generated_padding_valid by (auto simp: header_of_insert)
qed

definition upload_fits :: "xhttp_config \<Rightarrow> http_request \<Rightarrow> bool" where
  "upload_fits x r \<longleftrightarrow>
     FrameError \<notin> set (hr_body r) \<and> length (frames_data (hr_body r)) \<le> max_each_post_bytes x \<and>
     (\<forall>n. hr_size_upper r = Some n \<longrightarrow> n \<le> max_each_post_bytes x)"

lemma classify_upload:
  assumes "i \<noteq> []" and "slash \<notin> set i" and "m \<noteq> OPTIONS"
  shows "classify_borrowed m (extract_meta_from_path base (base @ i @ slash # decimal (unat n))) = PacketUpload i n"
proof -
  have d: "decimal (unat n) \<noteq> []" "slash \<notin> set (decimal (unat n))" using decimal_digits by simp_all
  have "parse_uint 64 (decimal (unat n)) = Some (unat n)" by (rule parse_decimal) simp
  with assms d show ?thesis by (simp add: extract_upload classify_borrowed_def Let_def)
qed

definition push_response :: "bool \<Rightarrow> bytes \<Rightarrow> push_result option \<times> session_table \<Rightarrow> nat \<times> session_table" where
  "push_response lf i rt =
     (case rt of (res, t) \<Rightarrow>
        (case res of
           None \<Rightarrow> (503, t) | Some Accepted \<Rightarrow> (200, t) | Some Duplicate \<Rightarrow> (200, t) | Some Closed \<Rightarrow> (409, t)
         | Some GlobalBufferExceeded \<Rightarrow> (503, t)
         | Some TooManyPending \<Rightarrow> (500, remove t i lf) | Some TooManyPendingBytes \<Rightarrow> (500, remove t i lf)))"

lemma finish_upload_response:
  assumes "length p \<le> max_each_post_bytes (o_xhttp o1)"
  shows "(rs_status (fst (finish_upload o1 lf st i n p)), sessions (snd (finish_upload o1 lf st i n p))) =
    push_response lf i (push_uplink (sessions st) i n p)"
  using assms
  by (auto simp: finish_upload_def push_response_def memory_limit_rejected_def Let_def
      split: prod.splits option.splits push_result.splits)

text \<open>What a request carries: the chunks \<open>0, 1, \<dots>\<close> up to the first that is missing, all of them text, are the base64 of
  a part; the parts of the headers and of the cookies come before the body.\<close>

definition carried_in :: "(bytes \<Rightarrow> bytes option) \<Rightarrow> nat \<Rightarrow> (nat \<Rightarrow> bytes option option) \<Rightarrow> bytes \<Rightarrow> bool" where
  "carried_in b64 lim look p \<longleftrightarrow>
     (\<exists>vs. (\<forall>j < length vs. look j = Some (Some (vs ! j))) \<and> look (length vs) = None \<and>
        length (concat vs) \<le> encoded_len_limit lim \<and>
        (if concat vs = [] then p = [] else b64 (concat vs) = Some p \<and> length p \<le> lim))"

definition carries :: "(bytes \<Rightarrow> bytes option) \<Rightarrow> xhttp_config \<Rightarrow> http_request \<Rightarrow> bytes \<Rightarrow> bool" where
  "carries b64 x r p \<longleftrightarrow>
     (\<exists>h c b. p = h @ c @ b \<and> length p \<le> max_each_post_bytes x \<and>
        (if uplink_data_placement x \<in> {PlaceHeader, PlaceAuto}
         then carried_in b64 (max_each_post_bytes x) (header_look x (hr_headers r)) h else h = []) \<and>
        (if uplink_data_placement x \<in> {PlaceCookie, PlaceAuto}
         then carried_in b64 (max_each_post_bytes x) (cookie_look x (hr_headers r)) c else c = []) \<and>
        (if uplink_data_placement x \<in> {PlaceBody, PlaceAuto}
         then upload_fits x r \<and> b = frames_data (hr_body r) else b = []))"

text \<open>The chunks from \<open>i\<close> on are \<open>vs\<close>.\<close>

definition chunks_at :: "(nat \<Rightarrow> bytes option option) \<Rightarrow> nat \<Rightarrow> bytes list \<Rightarrow> bool" where
  "chunks_at look i vs \<longleftrightarrow> (\<forall>j < length vs. look (i + j) = Some (Some (vs ! j))) \<and> look (i + length vs) = None"

lemma chunks_at_none: "look i = None \<Longrightarrow> chunks_at look i vs \<longleftrightarrow> vs = []"
  by (cases vs) (force simp: chunks_at_def)+

lemma all_less_Suc_conv: "(\<forall>j < Suc n. P j) \<longleftrightarrow> P 0 \<and> (\<forall>j < n. P (Suc j))"
  by (auto simp: less_Suc_eq_0_disj)

lemma chunks_at_some: "look i = Some v \<Longrightarrow> chunks_at look i vs \<longleftrightarrow> (\<exists>w us. v = Some w \<and> vs = w # us \<and> chunks_at look (Suc i) us)"
  by (cases vs) (auto simp: chunks_at_def all_less_Suc_conv)

lemma gather_chunks_iff:
  assumes "gather_chunks fuel look lim i encoded \<noteq> None" and "length encoded \<le> encoded_len_limit lim"
  shows "gather_chunks fuel look lim i encoded = Some (Inr e) \<longleftrightarrow>
    (\<exists>vs. chunks_at look i vs \<and> e = encoded @ concat vs \<and> length e \<le> encoded_len_limit lim)"
  using assms
proof (induction fuel arbitrary: i encoded)
  case (Suc fuel)
  show ?case
  proof (cases "look i")
    case None
    with Suc.prems(2) show ?thesis by (auto simp: chunks_at_none)
  next
    case look: (Some v)
    show ?thesis
    proof (cases v)
      case None
      with look show ?thesis by (auto simp: chunks_at_some)
    next
      case (Some w)
      show ?thesis
      proof (cases "length (encoded @ w) \<le> encoded_len_limit lim")
        case True
        with Suc.IH [of "Suc i" "encoded @ w"] Suc.prems(1) look Some show ?thesis by (auto simp: chunks_at_some)
      qed (use look Some in \<open>auto simp: chunks_at_some\<close>)
    qed
  qed
qed simp

lemma decoded_part:
  assumes "gather_chunks fuel look lim 0 [] \<noteq> None"
  shows "(case gather_chunks fuel look lim 0 [] of None \<Rightarrow> None | Some (Inl e) \<Rightarrow> Some (Inl e)
      | Some (Inr encoded) \<Rightarrow> Some (decode_payload_chunks b64 encoded lim)) = Some (Inr p) \<longleftrightarrow> carried_in b64 lim look p"
proof -
  have g: "gather_chunks fuel look lim 0 [] = Some (Inr e) \<longleftrightarrow>
      (\<exists>vs. (\<forall>j < length vs. look j = Some (Some (vs ! j))) \<and> look (length vs) = None \<and> e = concat vs \<and>
         length e \<le> encoded_len_limit lim)" for e
    using gather_chunks_iff [OF assms, of e] by (simp add: chunks_at_def)
  have "decode_payload_chunks b64 e lim = Inr p \<longleftrightarrow> (if e = [] then p = [] else b64 e = Some p \<and> length p \<le> lim)" for e
    by (auto simp: decode_payload_chunks_def split: option.splits)
  then have "carried_in b64 lim look p \<longleftrightarrow>
      (\<exists>e. gather_chunks fuel look lim 0 [] = Some (Inr e) \<and> decode_payload_chunks b64 e lim = Inr p)"
    unfolding carried_in_def g by blast
  then show ?thesis by (auto split: option.splits sum.splits)
qed

lemma header_part:
  "decode_header_payload b64 x hs = Some (Inr p) \<longleftrightarrow>
   (if uplink_data_placement x \<in> {PlaceHeader, PlaceAuto}
    then carried_in b64 (max_each_post_bytes x) (header_look x hs) p else p = [])"
  using decoded_part [OF header_gather [of hs x "max_each_post_bytes x"], of b64 p] by (auto simp: decode_header_payload_def)

lemma cookie_part:
  "decode_cookie_payload b64 x hs = Some (Inr p) \<longleftrightarrow>
   (if uplink_data_placement x \<in> {PlaceCookie, PlaceAuto}
    then carried_in b64 (max_each_post_bytes x) (cookie_look x hs) p else p = [])"
  using decoded_part [OF cookie_gather [of hs x "max_each_post_bytes x"], of b64 p] by (auto simp: decode_cookie_payload_def)

text \<open>The body, once the parts before it are decoded.\<close>

definition body_part :: "xhttp_config \<Rightarrow> http_request \<Rightarrow> upload_payload_error + bytes" where
  "body_part x r =
     (if \<not> should_read_body (uplink_data_placement x) then Inr []
      else if (case hr_size_upper r of Some n \<Rightarrow> max_each_post_bytes x < n | None \<Rightarrow> False) then Inl TooLarge
      else read_body_payload x (hr_body r))"

lemma body_part_iff:
  assumes "max_each_post_bytes x < 2 ^ 64"
  shows "body_part x r = Inr p \<longleftrightarrow>
    (if uplink_data_placement x \<in> {PlaceBody, PlaceAuto} then upload_fits x r \<and> p = frames_data (hr_body r) else p = [])"
  using read_body_iff [OF assms, of "hr_body r" p]
  by (auto simp: body_part_def should_read_body_def upload_fits_def not_le split: option.splits)

lemma upload_parts:
  "upload b64 o1 lf st r i n =
     (case decode_header_payload b64 (o_xhttp o1) (hr_headers r) of
        None \<Rightarrow> None | Some (Inl e) \<Rightarrow> Some (payload_error st e)
      | Some (Inr h) \<Rightarrow>
          (case decode_cookie_payload b64 (o_xhttp o1) (hr_headers r) of
             None \<Rightarrow> None | Some (Inl e) \<Rightarrow> Some (payload_error st e)
           | Some (Inr c) \<Rightarrow>
               Some (case body_part (o_xhttp o1) r of
                       Inl e \<Rightarrow> payload_error st e
                     | Inr b \<Rightarrow> finish_upload o1 lf st i n (h @ c @ b))))"
  by (auto simp: upload_def body_part_def payload_error_def Let_def split: option.splits sum.splits)

lemma payload_error_status:
  "rs_status (fst (payload_error st e)) \<in> {400, 413} \<and> sessions (snd (payload_error st e)) = sessions st"
  by (cases e) (simp_all add: payload_error_def reject_upload_too_large_def)

lemma finish_upload_large:
  "max_each_post_bytes (o_xhttp o1) < length p \<Longrightarrow>
   rs_status (fst (finish_upload o1 lf st i n p)) = 413 \<and> sessions (snd (finish_upload o1 lf st i n p)) = sessions st"
  by (simp add: finish_upload_def reject_upload_too_large_def)

lemma upload_outcome:
  assumes "max_each_post_bytes (o_xhttp o1) < 2 ^ 64" and "upload b64 o1 lf st r i n = Some (resp, st')"
  shows "(\<forall>p. carries b64 (o_xhttp o1) r p \<longrightarrow>
       (rs_status resp, sessions st') = push_response lf i (push_uplink (sessions st) i n p)) \<and>
    ((\<nexists>p. carries b64 (o_xhttp o1) r p) \<longrightarrow> rs_status resp \<in> {400, 413} \<and> sessions st' = sessions st)"
proof -
  let ?x = "o_xhttp o1"
  have carries: "carries b64 ?x r p \<longleftrightarrow>
      (\<exists>h c b. p = h @ c @ b \<and> length p \<le> max_each_post_bytes ?x \<and> decode_header_payload b64 ?x (hr_headers r) = Some (Inr h) \<and>
         decode_cookie_payload b64 ?x (hr_headers r) = Some (Inr c) \<and> body_part ?x r = Inr b)" for p
    unfolding carries_def header_part cookie_part body_part_iff [OF assms(1)] by (rule refl)
  obtain hp cp where d: "decode_header_payload b64 ?x (hr_headers r) = Some hp" "decode_cookie_payload b64 ?x (hr_headers r) = Some cp"
    using header_payload_total cookie_payload_total by blast
  show ?thesis
  proof (cases "\<exists>h c b. hp = Inr h \<and> cp = Inr c \<and> body_part ?x r = Inr b")
    case True
    then obtain h c b where p: "hp = Inr h" "cp = Inr c" "body_part ?x r = Inr b" by blast
    then have f: "finish_upload o1 lf st i n (h @ c @ b) = (resp, st')" using assms(2) d by (simp add: upload_parts)
    show ?thesis
      using finish_upload_response [of "h @ c @ b" o1 lf st i n] finish_upload_large [of o1 "h @ c @ b" lf st i n] f d p
      by (cases "length (h @ c @ b) \<le> max_each_post_bytes ?x") (auto simp: carries)
  next
    case False
    then obtain e where "payload_error st e = (resp, st')"
      using assms(2) d by (cases hp; cases cp; cases "body_part ?x r") (auto simp: upload_parts)
    with False d payload_error_status [of st e] show ?thesis by (auto simp: carries)
  qed
qed

lemma padding_keeps:
  assumes "origin_inv x st"
  shows "\<exists>resp st'. add_xhttp_response_padding draw (r, st) = Some (resp, st') \<and>
    rs_status resp = rs_status r \<and> sessions st' = sessions st"
  using padding_added [OF assms, of draw r] by fastforce

text \<open>
  C7. An upload reaches its session with its whole payload: a request to \<open>base/session/number\<close> that
  passes the checks carries, as the configured placement says, the decoded chunks of its headers, then those of its cookies, then
  its body, however this is cut into frames and with trailers among them (with the placement in the body, the body
  alone; in the headers or the cookies, the body is not looked at). The server
  pushes exactly these bytes under this number into this session, in this state, and answers
  200 when the packet was accepted or already there, 409 when the session is closed, 503 when memory or
  sessions are used up, and 500 after removing a session whose reorder buffer is full; a request that carries no
  such payload, because a part is broken or too large, is refused with 400 or 413 and no session changes.
\<close>

theorem upload_reaches_its_session:
  assumes "(origin_step b64 (configured_origin c s))\<^sup>*\<^sup>* (origin_start c) st"
    and "lim_max_sessions (cfg_limits c) < 2 ^ 64" and "max_buffered_posts (xhttp c) < 2 ^ 64"
    and "max_each_post_bytes (xhttp c) < 2 ^ 64"
    and "xhttp_request (xhttp c) r" and "hr_method r \<noteq> OPTIONS"
    and "hr_path r = path (xhttp c) @ i @ slash # decimal (unat n)" and "i \<noteq> []" and "slash \<notin> set i"
  shows "\<exists>resp st'. handle b64 (configured_origin c s) draw lf st r = Some (resp, st') \<and>
    (\<forall>p. carries b64 (xhttp c) r p \<longrightarrow>
       (rs_status resp, sessions st') = push_response lf i (push_uplink (sessions st) i n p)) \<and>
    ((\<nexists>p. carries b64 (xhttp c) r p) \<longrightarrow> rs_status resp \<in> {400, 413} \<and> sessions st' = sessions st)"
proof -
  let ?o = "configured_origin c s"
  have x: "o_xhttp ?o = xhttp c" by (simp add: configured_origin_def)
  have inv: "origin_inv (xhttp c) st" by (rule origin_run_inv [OF assms(1-3)])
  have kind: "serve_kind b64 ?o lf st r = upload b64 ?o lf st r i n"
    using classify_upload [OF assms(8,9,6)] x assms(7) by (simp add: serve_kind_def)
  obtain r0 st0 where u: "upload b64 ?o lf st r i n = Some (r0, st0)" "origin_inv (xhttp c) st0"
    using upload_inv [OF inv] by blast
  obtain resp st' where p: "add_xhttp_response_padding draw (r0, st0) = Some (resp, st')" "rs_status resp = rs_status r0"
      "sessions st' = sessions st0"
    using padding_keeps [OF u(2)] by blast
  have "handle b64 ?o draw lf st r = Some (resp, st')"
    using handle_xhttp [of ?o r b64 draw lf st] assms(5,6) x kind u(1) p(1) by simp
  with upload_outcome [of ?o b64 lf st r i n r0 st0] assms(4) x u(1) p show ?thesis by auto
qed

section \<open>A running server\<close>

definition demo_page :: asset where
  "demo_page = \<lparr>a_content_type = [], a_body = [65], a_cache_control = [], a_etag = [], a_last_modified = []\<rparr>"

definition demo_site :: static_site where
  "demo_site = \<lparr>assets = Map.empty, not_found = demo_page, method_not_allowed = demo_page\<rparr>"

text \<open>A request with 100 bytes of padding: an upload of two frames, and a probe without padding.\<close>

definition demo_upload :: http_request where
  "demo_upload =
     \<lparr>hr_method = POST, hr_path = bytes_of ''/app/'' @ bytes_of ''s1'' @ slash # decimal (unat (0 :: u64)),
      hr_query = Some (bytes_of ''x_padding='' @ replicate 100 88), hr_uri_host = None, hr_headers = [],
      hr_body = [DataFrame [1, 2], TrailersFrame, DataFrame [3]], hr_size_upper = Some 3\<rparr>"

definition demo_probe :: http_request where
  "demo_probe = demo_upload\<lparr>hr_query := None\<rparr>"

lemma demo_query: "query_param_ref (bytes_of ''x_padding='' @ replicate 100 88) (bytes_of ''x_padding'') = Some (replicate 100 88)"
proof -
  let ?k = "bytes_of ''x_padding''" and ?v = "replicate 100 (88 :: u8)"
  have q: "bytes_of ''x_padding='' @ ?v = ?k @ of_char (CHR ''='') # ?v" by (simp add: bytes_of_def)
  have n: "of_char (CHR ''&'') \<notin> set (?k @ of_char (CHR ''='') # ?v)" "of_char (CHR ''='') \<notin> set ?k"
    by (simp_all add: bytes_of_def)
  show ?thesis
    unfolding q query_param_ref_def using n by (simp add: split_on_single split_once_append)
qed

lemma percent_decoded_len_plain: "0x25 \<notin> set s \<Longrightarrow> percent_decoded_len s = length s"
  by (induction s rule: percent_decoded_len.induct) auto

lemma demo_padding:
  "extract_padding_len (request_view demo_upload) = Some 100" "extract_padding_len (request_view demo_probe) = None"
proof -
  have "percent_decoded_len (replicate 100 88) = 100"
    using percent_decoded_len_plain [of "replicate 100 88"] by simp
  then show "extract_padding_len (request_view demo_upload) = Some 100"
    using demo_query
    by (simp add: extract_padding_len_def raw_padding_def request_view_def demo_upload_def header_get_def)
  show "extract_padding_len (request_view demo_probe) = None"
    by (simp add: extract_padding_len_def raw_padding_def request_view_def demo_probe_def demo_upload_def header_get_def)
qed

lemma demo_requests:
  assumes "xhttp c = \<lparr>path = bytes_of ''/app/'', host = [], max_each_post_bytes = 1000000, max_buffered_posts = 30,
        session_grace_secs = 30, sse_header = True, max_header_bytes = 8192, padding_from = 100, padding_to = 1000,
        uplink_data_placement = PlaceBody, uplink_data_key = []\<rparr>"
  shows "xhttp_request (xhttp c) demo_upload" "\<not> xhttp_request (xhttp c) demo_probe" "upload_fits (xhttp c) demo_upload"
proof -
  have p: "path_matches (bytes_of ''/app/'') (hr_path demo_upload)" "hr_path demo_upload \<noteq> bytes_of ''/healthz''"
      "hr_path demo_upload \<noteq> bytes_of ''/readyz''"
    by (simp_all add: demo_upload_def path_matches_def) (simp_all add: bytes_of_def)
  moreover have "request_header_bytes demo_upload \<le> 8192"
    by (simp add: request_header_bytes_def demo_upload_def decimal.simps)
  ultimately show "xhttp_request (xhttp c) demo_upload"
    using demo_padding(1) assms
    by (simp add: xhttp_request_def host_matches_def is_padding_len_valid_def)
  show "\<not> xhttp_request (xhttp c) demo_probe"
    using demo_padding(2) assms
    by (simp add: xhttp_request_def is_padding_len_valid_def) (simp add: demo_probe_def demo_upload_def)
  show "upload_fits (xhttp c) demo_upload"
    using assms by (simp add: upload_fits_def demo_upload_def frames_data_def)
qed

theorem origin_always_answers_witness:
  "\<exists>c resp st'. try_from demo_config = Inr c \<and>
     handle (\<lambda>_. None) (configured_origin c demo_site) 5 True (origin_start c) demo_upload = Some (resp, st')"
proof -
  obtain c where c: "try_from demo_config = Inr c" "cfg_limits c = default_limits" "max_buffered_posts (xhttp c) = 30"
    using demo_config_accepted by auto
  then have "lim_max_sessions (cfg_limits c) < 2 ^ 64" "max_buffered_posts (xhttp c) < 2 ^ 64"
    by (simp_all add: default_limits_def)
  from origin_always_answers [OF rtranclp.rtrancl_refl this, of "\<lambda>_. None" demo_site 5 True demo_upload] c(1)
  show ?thesis by blast
qed

theorem probes_see_only_the_site_witness:
  "\<exists>c resp st'. try_from demo_config = Inr c \<and>
     handle (\<lambda>_. None) (configured_origin c demo_site) 5 True (origin_start c) demo_probe = Some (resp, st') \<and>
     header_of resp ''x-padding'' = None \<and> sessions st' = sessions (origin_start c) \<and>
     rs_status resp = 405 \<and> rs_body resp = FullBody [65]"
proof -
  obtain c where c: "try_from demo_config = Inr c" "cfg_limits c = default_limits"
      "xhttp c = \<lparr>path = bytes_of ''/app/'', host = [], max_each_post_bytes = 1000000, max_buffered_posts = 30,
        session_grace_secs = 30, sse_header = True, max_header_bytes = 8192, padding_from = 100, padding_to = 1000,
        uplink_data_placement = PlaceBody, uplink_data_key = []\<rparr>"
    using demo_config_accepted by auto
  then have l: "lim_max_sessions (cfg_limits c) < 2 ^ 64" "max_buffered_posts (xhttp c) < 2 ^ 64"
    by (simp_all add: default_limits_def)
  have pr: "\<not> xhttp_request (xhttp c) demo_probe" by (rule demo_requests(2) [OF c(3)])
  then obtain resp st' where h: "handle (\<lambda>_. None) (configured_origin c demo_site) 5 True (origin_start c) demo_probe = Some (resp, st')"
    using handle_outside [of "configured_origin c demo_site" demo_probe "\<lambda>_. None" 5 True "origin_start c"]
    by (auto simp: configured_origin_def)
  note p = probes_see_only_the_site [OF c(1) rtranclp.rtrancl_refl l h]
  have "\<not> max_header_bytes (xhttp c) < request_header_bytes demo_probe" "hr_path demo_probe \<noteq> bytes_of ''/healthz''"
      "hr_path demo_probe \<noteq> bytes_of ''/readyz''"
    using c(3) by (simp_all add: request_header_bytes_def demo_probe_def demo_upload_def decimal.simps) (simp_all add: bytes_of_def)
  then have "shows_site demo_site demo_probe resp" using p pr by simp
  then have "rs_status resp = 405" "rs_body resp = FullBody [65]"
    by (simp_all add: shows_site_def demo_probe_def demo_upload_def demo_site_def demo_page_def HEAD_def Let_def)
  with p pr c(1) h show ?thesis by blast
qed

theorem upload_reaches_its_session_witness:
  "\<exists>c resp st'. try_from demo_config = Inr c \<and>
     handle (\<lambda>_. None) (configured_origin c demo_site) 5 True (origin_start c) demo_upload = Some (resp, st') \<and>
     (rs_status resp, sessions st') =
       push_response True (bytes_of ''s1'') (push_uplink (configured_sessions c) (bytes_of ''s1'') 0 [1, 2, 3])"
proof -
  obtain c where c: "try_from demo_config = Inr c" "cfg_limits c = default_limits"
      "xhttp c = \<lparr>path = bytes_of ''/app/'', host = [], max_each_post_bytes = 1000000, max_buffered_posts = 30,
        session_grace_secs = 30, sse_header = True, max_header_bytes = 8192, padding_from = 100, padding_to = 1000,
        uplink_data_placement = PlaceBody, uplink_data_key = []\<rparr>"
    using demo_config_accepted by auto
  then have l: "lim_max_sessions (cfg_limits c) < 2 ^ 64" "max_buffered_posts (xhttp c) < 2 ^ 64"
      "max_each_post_bytes (xhttp c) < 2 ^ 64"
    by (simp_all add: default_limits_def)
  have r: "hr_method demo_upload \<noteq> OPTIONS" "hr_path demo_upload = path (xhttp c) @ bytes_of ''s1'' @ slash # decimal (unat (0 :: u64))"
      "bytes_of ''s1'' \<noteq> []" "slash \<notin> set (bytes_of ''s1'')"
    using c(3) by (simp_all add: demo_upload_def) (simp_all add: bytes_of_def slash_def)
  have b: "carries (\<lambda>_. None) (xhttp c) demo_upload [1, 2, 3]" "sessions (origin_start c) = configured_sessions c"
    using demo_requests(3) [OF c(3)] c(3) by (simp_all add: carries_def frames_data_def demo_upload_def origin_start_def)
  from upload_reaches_its_session [OF rtranclp.rtrancl_refl l demo_requests(1) [OF c(3)] r, of "\<lambda>_. None" demo_site 5 True] b
  obtain resp st' where "handle (\<lambda>_. None) (configured_origin c demo_site) 5 True (origin_start c) demo_upload = Some (resp, st')"
    "(rs_status resp, sessions st') = push_response True (bytes_of ''s1'') (push_uplink (configured_sessions c) (bytes_of ''s1'') 0 [1, 2, 3])"
    by metis
  with c(1) show ?thesis by blast
qed

end
