(* ===== verification/ClientHello.thy ===== *)
theory ClientHello
  imports Prelude
begin

text \<open>
  The TLS ClientHello parser and the reassembly of a ClientHello from TLS records,
  \<^verbatim>\<open>src/tls/client_hello.rs\<close>. The source's \<open>Reader\<close> (a slice with a position) is the list of the bytes that
  are left; strings are their UTF-8 bytes. \<open>alpn_offer_hash\<close> (the standard library's unspecified hasher)
  is not modelled.
\<close>

section \<open>Data\<close>

definition TLS_RECORD_HANDSHAKE :: u8 where "TLS_RECORD_HANDSHAKE = 0x16"
definition HANDSHAKE_TYPE_CLIENT_HELLO :: u8 where "HANDSHAKE_TYPE_CLIENT_HELLO = 1"
definition EXT_SERVER_NAME :: u16 where "EXT_SERVER_NAME = 0"
definition EXT_SIGNATURE_ALGORITHMS :: u16 where "EXT_SIGNATURE_ALGORITHMS = 0x0d"
definition EXT_ALPN :: u16 where "EXT_ALPN = 0x10"
definition EXT_SUPPORTED_VERSIONS :: u16 where "EXT_SUPPORTED_VERSIONS = 0x2b"
definition EXT_KEY_SHARE :: u16 where "EXT_KEY_SHARE = 0x33"

lemmas ext_codes = EXT_SERVER_NAME_def EXT_SIGNATURE_ALGORITHMS_def EXT_ALPN_def EXT_SUPPORTED_VERSIONS_def
  EXT_KEY_SHARE_def

record key_share =
  ks_group :: u16
  ks_data :: bytes

record offer =
  server_name :: "bytes option"
  key_shares :: "key_share list"
  signature_schemes :: "u16 list"
  offers_tls13 :: bool
  alpn :: "bytes list"

record client_hello =
  ch_offer :: offer
  ch_random :: bytes
  ch_session_id :: bytes
  cipher_suites :: "u16 list"
  raw_message :: bytes

datatype parse_error = Truncated | NotHandshakeRecord | NotClientHello | Malformed

section \<open>\<open>Reader\<close>\<close>

definition ch_take :: "nat \<Rightarrow> bytes \<Rightarrow> parse_error + bytes \<times> bytes" where
  "ch_take n s = (if length s < n then Inl Truncated else Inr (take n s, drop n s))"

fun ch_u8 :: "bytes \<Rightarrow> parse_error + u8 \<times> bytes" where
  "ch_u8 (a # s) = Inr (a, s)"
| "ch_u8 [] = Inl Truncated"

fun ch_u16 :: "bytes \<Rightarrow> parse_error + u16 \<times> bytes" where
  "ch_u16 (a # b # s) = Inr (from_be16 a b, s)"
| "ch_u16 _ = Inl Truncated"

definition len24 :: "u8 \<Rightarrow> u8 \<Rightarrow> u8 \<Rightarrow> nat" where
  "len24 a b c = unat a * 65536 + unat b * 256 + unat c"

fun ch_u24 :: "bytes \<Rightarrow> parse_error + nat \<times> bytes" where
  "ch_u24 (a # b # c # s) = Inr (len24 a b c, s)"
| "ch_u24 _ = Inl Truncated"

text \<open>A list with a 16-bit or an 8-bit length in front.\<close>

definition take16 :: "bytes \<Rightarrow> parse_error + bytes \<times> bytes" where
  "take16 s = (case ch_u16 s of Inl e \<Rightarrow> Inl e | Inr (n, s') \<Rightarrow> ch_take (unat n) s')"

definition take8 :: "bytes \<Rightarrow> parse_error + bytes \<times> bytes" where
  "take8 s = (case ch_u8 s of Inl e \<Rightarrow> Inl e | Inr (n, s') \<Rightarrow> ch_take (unat n) s')"

fun u16_pairs :: "bytes \<Rightarrow> u16 list" where
  "u16_pairs (a # b # s) = from_be16 a b # u16_pairs s"
| "u16_pairs _ = []"

lemma take16_shorter: "take16 s = Inr (d, s') \<Longrightarrow> length s' < length s"
  by (cases s rule: ch_u16.cases) (auto simp: take16_def ch_take_def split: if_splits)

lemma take8_shorter: "take8 s = Inr (d, s') \<Longrightarrow> length s' < length s"
  by (cases s) (auto simp: take8_def ch_take_def split: if_splits)

lemma ch_u16_shorter: "ch_u16 s = Inr (w, s') \<Longrightarrow> length s' < length s"
  by (cases s rule: ch_u16.cases) auto

section \<open>Extensions\<close>

definition parse_signature_schemes :: "bytes \<Rightarrow> parse_error + u16 list" where
  "parse_signature_schemes d =
     (case ch_u16 d of
        Inl e \<Rightarrow> Inl e
      | Inr (n, s) \<Rightarrow>
          if unat n mod 2 \<noteq> 0 then Inl Malformed
          else (case ch_take (unat n) s of
                  Inl e \<Rightarrow> Inl e
                | Inr (list, s') \<Rightarrow> if s' \<noteq> [] then Inl Malformed else Inr (u16_pairs list)))"

function parse_names :: "bytes \<Rightarrow> bytes option" where
  "parse_names [] = None"
| "parse_names (t # s) =
     (case take16 s of
        Inl e \<Rightarrow> None
      | Inr (name, s') \<Rightarrow>
          if t = 0 then (if utf8_valid name then Some name else None) else parse_names s')"
  by pat_completeness auto
termination
  by (relation "measure length") (auto dest: take16_shorter)

definition parse_sni :: "bytes \<Rightarrow> bytes option" where
  "parse_sni d = (case take16 d of Inl e \<Rightarrow> None | Inr (list, _) \<Rightarrow> parse_names list)"

definition parse_supported_versions :: "bytes \<Rightarrow> bool" where
  "parse_supported_versions d =
     (case take8 d of Inl e \<Rightarrow> False | Inr (list, _) \<Rightarrow> 0x0304 \<in> set (u16_pairs list))"

function parse_protocols :: "bytes \<Rightarrow> bytes list" where
  "parse_protocols s =
     (if s = [] then []
      else (case take8 s of
              Inl e \<Rightarrow> []
            | Inr (name, s') \<Rightarrow> (if utf8_valid name then [name] else []) @ parse_protocols s'))"
  by pat_completeness auto
termination
  by (relation "measure length") (auto dest: take8_shorter)

definition parse_alpn :: "bytes \<Rightarrow> bytes list" where
  "parse_alpn d = (case take16 d of Inl e \<Rightarrow> [] | Inr (list, _) \<Rightarrow> parse_protocols list)"

function parse_shares :: "bytes \<Rightarrow> parse_error + key_share list" where
  "parse_shares s =
     (if s = [] then Inr []
      else (case ch_u16 s of
              Inl e \<Rightarrow> Inl e
            | Inr (g, s1) \<Rightarrow>
                (case take16 s1 of
                   Inl e \<Rightarrow> Inl e
                 | Inr (d, s2) \<Rightarrow>
                     (case parse_shares s2 of
                        Inl e \<Rightarrow> Inl e
                      | Inr shares \<Rightarrow> Inr (\<lparr>ks_group = g, ks_data = d\<rparr> # shares)))))"
  by pat_completeness auto
termination
  by (relation "measure length") (auto dest!: take16_shorter ch_u16_shorter)

definition parse_key_shares :: "bytes \<Rightarrow> parse_error + key_share list" where
  "parse_key_shares d = (case take16 d of Inl e \<Rightarrow> Inl e | Inr (list, _) \<Rightarrow> parse_shares list)"

definition parse_extension :: "u16 \<Rightarrow> bytes \<Rightarrow> offer \<Rightarrow> parse_error + offer" where
  "parse_extension t d o1 =
     (if t = EXT_SERVER_NAME then Inr (o1\<lparr>server_name := parse_sni d\<rparr>)
      else if t = EXT_SUPPORTED_VERSIONS then Inr (o1\<lparr>offers_tls13 := parse_supported_versions d\<rparr>)
      else if t = EXT_SIGNATURE_ALGORITHMS then
        (case parse_signature_schemes d of Inl e \<Rightarrow> Inl e | Inr l \<Rightarrow> Inr (o1\<lparr>signature_schemes := l\<rparr>))
      else if t = EXT_ALPN then Inr (o1\<lparr>alpn := parse_alpn d\<rparr>)
      else if t = EXT_KEY_SHARE then
        (case parse_key_shares d of Inl e \<Rightarrow> Inl e | Inr l \<Rightarrow> Inr (o1\<lparr>key_shares := key_shares o1 @ l\<rparr>))
      else Inr o1)"

function parse_extensions :: "bytes \<Rightarrow> offer \<Rightarrow> parse_error + offer" where
  "parse_extensions s o1 =
     (if s = [] then Inr o1
      else (case ch_u16 s of
              Inl e \<Rightarrow> Inl e
            | Inr (t, s1) \<Rightarrow>
                (case take16 s1 of
                   Inl e \<Rightarrow> Inl e
                 | Inr (d, s2) \<Rightarrow>
                     (case parse_extension t d o1 of
                        Inl e \<Rightarrow> Inl e
                      | Inr o2 \<Rightarrow> parse_extensions s2 o2))))"
  by pat_completeness auto
termination
  by (relation "measure (length \<circ> fst)") (auto dest!: take16_shorter ch_u16_shorter)

declare parse_protocols.simps [simp del] parse_shares.simps [simp del] parse_extensions.simps [simp del]

section \<open>The message\<close>

definition no_offer :: offer where
  "no_offer = \<lparr>server_name = None, key_shares = [], signature_schemes = [], offers_tls13 = False, alpn = []\<rparr>"

definition parse_tail :: "bytes \<Rightarrow> parse_error + offer" where
  "parse_tail s =
     (if s = [] then Inr no_offer
      else (case take16 s of
              Inl e \<Rightarrow> Inl e
            | Inr (exts, s') \<Rightarrow>
                (case parse_extensions exts no_offer of
                   Inl e \<Rightarrow> Inl e
                 | Inr o1 \<Rightarrow> if s' \<noteq> [] then Inl Malformed else Inr o1)))"

definition parse_message :: "bytes \<Rightarrow> parse_error + client_hello" where
  "parse_message message =
     (case ch_u8 message of
        Inl e \<Rightarrow> Inl e
      | Inr (t, s1) \<Rightarrow>
          if t \<noteq> HANDSHAKE_TYPE_CLIENT_HELLO then Inl NotClientHello
          else (case ch_u24 s1 of
            Inl e \<Rightarrow> Inl e
          | Inr (len, s2) \<Rightarrow>
              if len \<noteq> length message - 4 then Inl Malformed
              else (case ch_u16 s2 of
                Inl e \<Rightarrow> Inl e
              | Inr (_, s3) \<Rightarrow>
                  (case ch_take 32 s3 of
                     Inl e \<Rightarrow> Inl e
                   | Inr (random, s4) \<Rightarrow>
                       (case take8 s4 of
                          Inl e \<Rightarrow> Inl e
                        | Inr (sid, s5) \<Rightarrow>
                            (case ch_u16 s5 of
                               Inl e \<Rightarrow> Inl e
                             | Inr (n, s6) \<Rightarrow>
                                 if unat n mod 2 \<noteq> 0 then Inl Malformed
                                 else (case ch_take (unat n) s6 of
                                   Inl e \<Rightarrow> Inl e
                                 | Inr (ciphers, s7) \<Rightarrow>
                                     (case take8 s7 of
                                        Inl e \<Rightarrow> Inl e
                                      | Inr (_, s8) \<Rightarrow>
                                          (case parse_tail s8 of
                                             Inl e \<Rightarrow> Inl e
                                           | Inr o1 \<Rightarrow>
                                               Inr \<lparr>ch_offer = o1, ch_random = random, ch_session_id = sid,
                                                    cipher_suites = u16_pairs ciphers, raw_message = message\<rparr>)))))))))"

definition parse_record :: "bytes \<Rightarrow> parse_error + client_hello" where
  "parse_record rec =
     (if length rec < 5 then Inl Truncated
      else if rec ! 0 \<noteq> TLS_RECORD_HANDSHAKE then Inl NotHandshakeRecord
      else let n = len16 (rec ! 3) (rec ! 4)
           in if length rec < 5 + n then Inl Truncated else parse_message (take n (drop 5 rec)))"

definition cipher_offered :: "client_hello \<Rightarrow> u16 \<Rightarrow> bool" where
  "cipher_offered ch i \<longleftrightarrow> i \<in> set (cipher_suites ch)"

definition is_grease :: "u16 \<Rightarrow> bool" where
  "is_grease v \<longleftrightarrow> v AND 0x0f0f = 0x0a0a \<and> drop_bit 8 v = v AND 0x00ff"

definition keyshare_group_offered :: "client_hello \<Rightarrow> u16 \<Rightarrow> bool" where
  "keyshare_group_offered ch g \<longleftrightarrow> (\<exists>s \<in> set (key_shares (ch_offer ch)). ks_group s = g \<and> \<not> is_grease g)"

section \<open>\<open>ClientHelloRecordBuffer\<close>\<close>

record hello_buffer =
  hb_payload :: bytes
  max_payload :: nat

datatype buffer_error =
    TruncatedRecord | BufNotHandshakeRecord | TrailingRecordBytes | BufNotClientHello | PayloadTooLarge | TrailingHandshakeBytes

definition hello_buffer_new :: "nat \<Rightarrow> hello_buffer" where
  "hello_buffer_new m = \<lparr>hb_payload = [], max_payload = m\<rparr>"

definition try_message :: "hello_buffer \<Rightarrow> buffer_error + bytes option" where
  "try_message b =
     (let p = hb_payload b
      in if length p < 4 then Inr None
         else if p ! 0 \<noteq> HANDSHAKE_TYPE_CLIENT_HELLO then Inl BufNotClientHello
         else let n = 4 + len24 (p ! 1) (p ! 2) (p ! 3)
              in if max_payload b < n then Inl PayloadTooLarge
                 else if length p < n then Inr None
                 else if length p \<noteq> n then Inl TrailingHandshakeBytes
                 else Inr (Some p))"

definition append_record :: "hello_buffer \<Rightarrow> bytes \<Rightarrow> (buffer_error + bytes option) \<times> hello_buffer" where
  "append_record b rec =
     (if length rec < 5 then (Inl TruncatedRecord, b)
      else if rec ! 0 \<noteq> TLS_RECORD_HANDSHAKE then (Inl BufNotHandshakeRecord, b)
      else let n = len16 (rec ! 3) (rec ! 4)
           in if length rec < 5 + n then (Inl TruncatedRecord, b)
              else if length rec \<noteq> 5 + n then (Inl TrailingRecordBytes, b)
              else let body = take n (drop 5 rec)
                   in if max_payload b < length (hb_payload b) + length body then (Inl PayloadTooLarge, b)
                      else let b' = b\<lparr>hb_payload := hb_payload b @ body\<rparr> in (try_message b', b'))"

section \<open>Writing a ClientHello\<close>

text \<open>The encoding of RFC 8446, with the extensions the parser knows and any others.\<close>

definition vec16 :: "bytes \<Rightarrow> bytes" where
  "vec16 d = be_len16 (length d) @ d"

definition vec8 :: "bytes \<Rightarrow> bytes" where
  "vec8 d = of_nat (length d) # d"

definition be24 :: "nat \<Rightarrow> bytes" where
  "be24 n = [of_nat (n div 65536), of_nat (n div 256), of_nat n]"

definition words16 :: "u16 list \<Rightarrow> bytes" where
  "words16 ws = concat (map to_be16 ws)"

datatype extension =
    Sni bytes | Versions "u16 list" | SignatureAlgorithms "u16 list" | Alpn "bytes list" | KeyShares "key_share list"
  | OtherExt u16 bytes

fun ext_type :: "extension \<Rightarrow> u16" where
  "ext_type (Sni n) = EXT_SERVER_NAME"
| "ext_type (Versions vs) = EXT_SUPPORTED_VERSIONS"
| "ext_type (SignatureAlgorithms ss) = EXT_SIGNATURE_ALGORITHMS"
| "ext_type (Alpn ps) = EXT_ALPN"
| "ext_type (KeyShares ks) = EXT_KEY_SHARE"
| "ext_type (OtherExt t d) = t"

fun ext_data :: "extension \<Rightarrow> bytes" where
  "ext_data (Sni n) = vec16 (0 # vec16 n)"
| "ext_data (Versions vs) = vec8 (words16 vs)"
| "ext_data (SignatureAlgorithms ss) = vec16 (words16 ss)"
| "ext_data (Alpn ps) = vec16 (concat (map vec8 ps))"
| "ext_data (KeyShares ks) = vec16 (concat (map (\<lambda>k. to_be16 (ks_group k) @ vec16 (ks_data k)) ks))"
| "ext_data (OtherExt t d) = d"

text \<open>What fits its length fields, and what an extension means for the negotiation.\<close>

fun ext_ok :: "extension \<Rightarrow> bool" where
  "ext_ok (Versions vs) = (2 * length vs < 256)"
| "ext_ok (Alpn ps) = (list_all (\<lambda>p. length p < 256) ps \<and> length (ext_data (Alpn ps)) < 2 ^ 16)"
| "ext_ok (OtherExt t d) =
     (t \<notin> {EXT_SERVER_NAME, EXT_SUPPORTED_VERSIONS, EXT_SIGNATURE_ALGORITHMS, EXT_ALPN, EXT_KEY_SHARE} \<and> length d < 2 ^ 16)"
| "ext_ok e = (length (ext_data e) < 2 ^ 16)"

fun offer_ext :: "extension \<Rightarrow> offer \<Rightarrow> offer" where
  "offer_ext (Sni n) o1 = o1\<lparr>server_name := (if utf8_valid n then Some n else None)\<rparr>"
| "offer_ext (Versions vs) o1 = o1\<lparr>offers_tls13 := (0x0304 \<in> set vs)\<rparr>"
| "offer_ext (SignatureAlgorithms ss) o1 = o1\<lparr>signature_schemes := ss\<rparr>"
| "offer_ext (Alpn ps) o1 = o1\<lparr>alpn := filter utf8_valid ps\<rparr>"
| "offer_ext (KeyShares ks) o1 = o1\<lparr>key_shares := key_shares o1 @ ks\<rparr>"
| "offer_ext (OtherExt t d) o1 = o1"

definition encode_extensions :: "extension list \<Rightarrow> bytes" where
  "encode_extensions es = concat (map (\<lambda>e. to_be16 (ext_type e) @ vec16 (ext_data e)) es)"

definition hello_body :: "u16 \<Rightarrow> bytes \<Rightarrow> bytes \<Rightarrow> u16 list \<Rightarrow> bytes \<Rightarrow> extension list \<Rightarrow> bytes" where
  "hello_body version random sid ciphers compression es =
     to_be16 version @ random @ vec8 sid @ vec16 (words16 ciphers) @ vec8 compression @ vec16 (encode_extensions es)"

definition encode_hello :: "u16 \<Rightarrow> bytes \<Rightarrow> bytes \<Rightarrow> u16 list \<Rightarrow> bytes \<Rightarrow> extension list \<Rightarrow> bytes" where
  "encode_hello version random sid ciphers compression es =
     (let body = hello_body version random sid ciphers compression es
      in HANDSHAKE_TYPE_CLIENT_HELLO # be24 (length body) @ body)"

lemma ch_u16_be [simp]: "ch_u16 (to_be16 w @ s) = Inr (w, s)"
  by (simp add: to_be16_def)

lemma ch_take_append [simp]: "length d = n \<Longrightarrow> ch_take n (d @ s) = Inr (d, s)"
  by (simp add: ch_take_def)

lemma take16_vec16 [simp]: "length d < 2 ^ 16 \<Longrightarrow> take16 (vec16 d @ s) = Inr (d, s)"
  by (simp add: take16_def vec16_def be_len16_def unat_of_nat)

lemma take16_vec16_end [simp]: "length d < 2 ^ 16 \<Longrightarrow> take16 (vec16 d) = Inr (d, [])"
  using take16_vec16 [of d "[]"] by simp

lemma take8_vec8 [simp]: "length d < 256 \<Longrightarrow> take8 (vec8 d @ s) = Inr (d, s)"
  by (simp add: take8_def vec8_def unat_of_nat)

lemma take8_vec8_end [simp]: "length d < 256 \<Longrightarrow> take8 (vec8 d) = Inr (d, [])"
  using take8_vec8 [of d "[]"] by simp

lemma length_words16 [simp]: "length (words16 ws) = 2 * length ws"
  by (induction ws) (simp_all add: words16_def)

lemma u16_pairs_words16 [simp]: "u16_pairs (words16 ws) = ws"
  by (induction ws) (simp_all add: words16_def to_be16_def)

lemma length_vec [simp]: "length (vec16 d) = length d + 2" "length (vec8 d) = length d + 1" "vec16 d \<noteq> []" "vec8 d \<noteq> []"
  by (simp_all add: vec16_def vec8_def be_len16_def to_be16_def)

lemma parse_protocols_vec8:
  "list_all (\<lambda>p. length p < 256) ps \<Longrightarrow> parse_protocols (concat (map vec8 ps)) = filter utf8_valid ps"
proof (induction ps)
  case (Cons p ps)
  then show ?case by (subst parse_protocols.simps) simp
qed (simp add: parse_protocols.simps)

lemma parse_shares_encoded:
  "length (concat (map (\<lambda>k. to_be16 (ks_group k) @ vec16 (ks_data k)) ks)) < 2 ^ 16 \<Longrightarrow>
   parse_shares (concat (map (\<lambda>k. to_be16 (ks_group k) @ vec16 (ks_data k)) ks)) = Inr ks"
proof (induction ks)
  case (Cons k ks)
  have "to_be16 (ks_group k) @ vec16 (ks_data k) @ concat (map (\<lambda>k. to_be16 (ks_group k) @ vec16 (ks_data k)) ks) \<noteq> []"
    by (simp add: to_be16_def)
  with Cons show ?case by (subst parse_shares.simps) simp
qed (simp add: parse_shares.simps)

lemma parse_signature_vec16:
  assumes "length d < 2 ^ 16" and "even (length d)"
  shows "parse_signature_schemes (vec16 d) = Inr (u16_pairs d)"
proof -
  have "unat (of_nat (length d) :: u16) = length d" using assms(1) by (simp add: unat_of_nat)
  with assms ch_take_append [of d "length d" "[]"] show ?thesis
    by (simp add: parse_signature_schemes_def vec16_def be_len16_def)
qed

lemma parse_extension_data:
  assumes "ext_ok e"
  shows "parse_extension (ext_type e) (ext_data e) o1 = Inr (offer_ext e o1)"
proof (cases e)
  case (Sni n)
  with assms have "length n < 2 ^ 16" by simp
  with Sni assms show ?thesis
    by (simp add: parse_extension_def parse_sni_def)
next
  case (SignatureAlgorithms ss)
  with assms parse_signature_vec16 [of "words16 ss"] show ?thesis
    by (simp add: parse_extension_def ext_codes)
next
  case (Versions vs)
  with assms show ?thesis
    by (simp add: parse_extension_def parse_supported_versions_def ext_codes)
next
  case (Alpn ps)
  with assms show ?thesis
    by (simp add: parse_extension_def parse_alpn_def parse_protocols_vec8 ext_codes)
next
  case (KeyShares ks)
  with assms show ?thesis
    by (simp add: parse_extension_def parse_key_shares_def parse_shares_encoded ext_codes)
next
  case (OtherExt t d)
  with assms show ?thesis by (simp add: parse_extension_def)
qed

lemma ext_ok_length: "ext_ok e \<Longrightarrow> length (ext_data e) < 2 ^ 16"
  by (cases e) auto

lemma parse_encoded_extensions:
  "list_all ext_ok es \<Longrightarrow> parse_extensions (encode_extensions es) o1 = Inr (fold offer_ext es o1)"
proof (induction es arbitrary: o1)
  case (Cons e es)
  have "to_be16 (ext_type e) @ vec16 (ext_data e) @ encode_extensions es \<noteq> []"
    by (simp add: to_be16_def)
  moreover have "length (ext_data e) < 2 ^ 16" using Cons.prems ext_ok_length by simp
  ultimately show ?case using Cons
    by (subst parse_extensions.simps) (simp add: encode_extensions_def parse_extension_data)
qed (simp add: encode_extensions_def parse_extensions.simps)

lemma len24_be24: "n < 2 ^ 24 \<Longrightarrow> len24 (of_nat (n div 65536)) (of_nat (n div 256)) (of_nat n) = n"
proof -
  assume "n < 2 ^ 24"
  then have "n div 65536 < 256" by simp
  then have "len24 (of_nat (n div 65536)) (of_nat (n div 256)) (of_nat n) =
      n div 65536 * 65536 + n div 256 mod 256 * 256 + n mod 256"
    unfolding len24_def unat_of_nat by simp
  also have "\<dots> = n"
  proof -
    have "n div 65536 = n div 256 div 256" by (simp add: div_mult2_eq)
    moreover have "n div 256 div 256 * 256 + n div 256 mod 256 = n div 256" "n div 256 * 256 + n mod 256 = n"
      by (rule div_mult_mod_eq)+
    ultimately show ?thesis by linarith
  qed
  finally show ?thesis .
qed

text \<open>What can be written: every field fits its length.\<close>

definition hello_fits :: "bytes \<Rightarrow> bytes \<Rightarrow> u16 list \<Rightarrow> bytes \<Rightarrow> extension list \<Rightarrow> bool" where
  "hello_fits random sid ciphers compression es \<longleftrightarrow>
     length random = 32 \<and> length sid < 256 \<and> 2 * length ciphers < 2 ^ 16 \<and> length compression < 256 \<and>
     length (encode_extensions es) < 2 ^ 16 \<and> list_all ext_ok es"

lemma length_encode_hello:
  assumes "hello_fits random sid ciphers compression es"
  shows "length (hello_body version random sid ciphers compression es) < 2 ^ 24 \<and>
    length (encode_hello version random sid ciphers compression es) =
      4 + length (hello_body version random sid ciphers compression es)"
  using assms by (simp add: hello_fits_def hello_body_def encode_hello_def be24_def Let_def)

lemma parse_encode_hello:
  assumes f: "hello_fits random sid ciphers compression es"
  shows "parse_message (encode_hello version random sid ciphers compression es) =
    Inr \<lparr>ch_offer = fold offer_ext es no_offer, ch_random = random, ch_session_id = sid, cipher_suites = ciphers,
         raw_message = encode_hello version random sid ciphers compression es\<rparr>"
proof -
  let ?b = "hello_body version random sid ciphers compression es"
  let ?m = "encode_hello version random sid ciphers compression es"
  have m: "?m = HANDSHAKE_TYPE_CLIENT_HELLO # of_nat (length ?b div 65536) # of_nat (length ?b div 256) # of_nat (length ?b) # ?b"
    by (simp add: encode_hello_def be24_def Let_def)
  have l: "len24 (of_nat (length ?b div 65536)) (of_nat (length ?b div 256)) (of_nat (length ?b)) = length ?m - 4"
    using length_encode_hello [OF f, of version] by (simp add: len24_be24)
  have w: "length (words16 ciphers) < 2 ^ 16" "unat (of_nat (length (words16 ciphers)) :: u16) = length (words16 ciphers)"
    using f by (simp_all add: hello_fits_def unat_of_nat del: length_words16) (simp_all add: hello_fits_def)
  have t: "parse_tail (vec16 (encode_extensions es)) = Inr (fold offer_ext es no_offer)"
    using f by (simp add: parse_tail_def hello_fits_def parse_encoded_extensions)
  have c: "ch_u16 (vec16 (words16 ciphers) @ s) = Inr (of_nat (length (words16 ciphers)), words16 ciphers @ s)" for s
    by (simp add: vec16_def be_len16_def)
  have b: "?b = to_be16 version @ random @ vec8 sid @ vec16 (words16 ciphers) @ vec8 compression @ vec16 (encode_extensions es)"
    by (simp add: hello_body_def)
  have "ch_u16 ?b = Inr (version, random @ vec8 sid @ vec16 (words16 ciphers) @ vec8 compression @ vec16 (encode_extensions es))"
    unfolding b by simp
  moreover have "even (length (words16 ciphers))" by simp
  ultimately show ?thesis
    using f w t c l
    by (simp only: parse_message_def m ch_u8.simps ch_u24.simps sum.case prod.case simp_thms if_False if_True)
      (simp add: hello_fits_def del: length_words16)
qed

section \<open>Reassembly\<close>

text \<open>The loop of the callers: append records until the message is complete; the message with the records
  that are left.\<close>

fun feed_records :: "hello_buffer \<Rightarrow> bytes list \<Rightarrow> buffer_error + (bytes \<times> bytes list) option" where
  "feed_records b [] = Inr None"
| "feed_records b (r # rs) =
     (case append_record b r of
        (Inl e, _) \<Rightarrow> Inl e
      | (Inr None, b') \<Rightarrow> feed_records b' rs
      | (Inr (Some m), _) \<Rightarrow> Inr (Some (m, rs)))"

definition handshake_record :: "u8 \<Rightarrow> u8 \<Rightarrow> bytes \<Rightarrow> bytes" where
  "handshake_record a b d = [TLS_RECORD_HANDSHAKE, a, b] @ vec16 d"

lemma append_handshake_record:
  assumes "length d < 2 ^ 16" and "length (hb_payload b) + length d \<le> max_payload b"
  shows "append_record b (handshake_record x y d) =
    (try_message (b\<lparr>hb_payload := hb_payload b @ d\<rparr>), b\<lparr>hb_payload := hb_payload b @ d\<rparr>)"
  using assms len16_be_len16 [of "length d"]
  by (simp add: append_record_def handshake_record_def vec16_def be_len16_Cons Let_def)

text \<open>A complete message: the header announces its length.\<close>

definition whole_hello :: "bytes \<Rightarrow> bool" where
  "whole_hello m \<longleftrightarrow> 4 \<le> length m \<and> m ! 0 = HANDSHAKE_TYPE_CLIENT_HELLO \<and> length m = 4 + len24 (m ! 1) (m ! 2) (m ! 3)"

lemma try_message_prefix:
  assumes "whole_hello (p @ q)" and "length (p @ q) \<le> max_payload b" and "hb_payload b = p"
  shows "try_message b = Inr (if q = [] then Some p else None)"
proof (cases "length p < 4")
  case True
  with assms show ?thesis by (auto simp: try_message_def whole_hello_def)
next
  case False
  then have "(p @ q) ! 0 = p ! 0" "(p @ q) ! 1 = p ! 1" "(p @ q) ! 2 = p ! 2" "(p @ q) ! 3 = p ! 3"
    by (auto simp: nth_append)
  moreover have "q \<noteq> [] \<Longrightarrow> 0 < length q" by simp
  ultimately show ?thesis using False assms by (auto simp: try_message_def whole_hello_def Let_def simp del: length_greater_0_conv)
qed

lemma feed_fragments:
  assumes "whole_hello (hb_payload b @ concat ds)" and "length (hb_payload b @ concat ds) \<le> max_payload b"
    and "list_all (\<lambda>d. length d < 2 ^ 16) ds" and "ds \<noteq> []" and "last ds \<noteq> []"
  shows "feed_records b (map (handshake_record x y) ds) = Inr (Some (hb_payload b @ concat ds, []))"
  using assms
proof (induction ds arbitrary: b)
  case (Cons d ds)
  let ?b = "b\<lparr>hb_payload := hb_payload b @ d\<rparr>"
  have r: "append_record b (handshake_record x y d) = (try_message ?b, ?b)"
    using Cons.prems by (intro append_handshake_record) simp_all
  have t: "try_message ?b = Inr (if concat ds = [] then Some (hb_payload b @ d) else None)"
    using Cons.prems by (intro try_message_prefix) simp_all
  show ?case
  proof (cases "ds = []")
    case True
    with r t show ?thesis by simp
  next
    case False
    have "last ds \<in> set ds" using False by simp
    moreover have "last ds \<noteq> []" using False Cons.prems(5) by simp
    ultimately have "concat ds \<noteq> []" by auto
    with False r t Cons.prems show ?thesis using Cons.IH [of ?b] by simp
  qed
qed simp

lemma whole_encode_hello:
  assumes "hello_fits random sid ciphers compression es"
  shows "whole_hello (encode_hello version random sid ciphers compression es)"
  using length_encode_hello [OF assms, of version] len24_be24 [of "length (hello_body version random sid ciphers compression es)"]
  by (simp add: whole_hello_def encode_hello_def be24_def Let_def numeral_2_eq_2 numeral_3_eq_3)

lemma append_bounded:
  "append_record b r = (x, b') \<Longrightarrow> length (hb_payload b) \<le> max_payload b \<Longrightarrow>
     length (hb_payload b') \<le> max_payload b' \<and> max_payload b' = max_payload b"
  by (auto simp: append_record_def Let_def split: if_splits)

text \<open>
  A ClientHello is reassembled from any fragmentation: cut a message at any points into records
  (empty fragments included, the last one not empty) of at most 64 KiB within the buffer's limit, and
  feeding the records gives the message exactly when the last fragment arrives, which the parser then
  accepts; and no record, whatever its bytes, makes the buffer exceed its limit.
\<close>

lemma client_hello_reassembled:
  assumes "hello_fits random sid ciphers compression es"
    and "concat ds = encode_hello version random sid ciphers compression es"
    and "length (concat ds) \<le> limit" and "list_all (\<lambda>d. length d < 2 ^ 16) ds" and "last ds \<noteq> []"
  shows "feed_records (hello_buffer_new limit) (map (handshake_record x y) ds) = Inr (Some (concat ds, [])) \<and>
    (\<exists>ch. parse_message (concat ds) = Inr ch \<and> ch_random ch = random \<and> raw_message ch = concat ds) \<and>
    (\<forall>b r res b'. length (hb_payload b) \<le> max_payload b \<and> append_record b r = (res, b') \<longrightarrow>
       length (hb_payload b') \<le> max_payload b')"
proof -
  have "ds \<noteq> []" using assms(2) by (auto simp: encode_hello_def Let_def)
  then have "feed_records (hello_buffer_new limit) (map (handshake_record x y) ds) = Inr (Some (concat ds, []))"
    using feed_fragments [of "hello_buffer_new limit" ds x y] assms whole_encode_hello [OF assms(1)]
    by (simp add: hello_buffer_new_def)
  moreover have "\<exists>ch. parse_message (concat ds) = Inr ch \<and> ch_random ch = random \<and> raw_message ch = concat ds"
    using parse_encode_hello [OF assms(1), of version] assms(2) by simp
  ultimately show ?thesis using append_bounded by blast
qed

lemma client_hello_reassembled_example:
  "let m = encode_hello 0x0303 (replicate 32 7) [9] [0x1301] [0] []
   in feed_records (hello_buffer_new 65536) (map (handshake_record 3 1) [take 10 m, [], drop 10 m]) = Inr (Some (m, []))"
proof -
  let ?m = "encode_hello 0x0303 (replicate 32 7) [9] [0x1301] [0] []"
  have f: "hello_fits (replicate 32 7) [9] [0x1301] [0] []" by (simp add: hello_fits_def encode_extensions_def)
  have l: "length ?m = 48"
    by (simp add: encode_hello_def be24_def hello_body_def Let_def encode_extensions_def)
  have c: "concat [take 10 ?m, [], drop 10 ?m] = ?m" by simp
  have "last [take 10 ?m, [], drop 10 ?m] \<noteq> []" using l by simp
  moreover have "list_all (\<lambda>d. length d < 2 ^ 16) [take 10 ?m, [], drop 10 ?m]" using l by simp
  ultimately show ?thesis
    using client_hello_reassembled [OF f c, of 65536 3 1] l c by simp
qed

end
