(* ===== verification/TlsRecord.thy ===== *)
theory TlsRecord
  imports Prelude
begin

text \<open>
  The TLS 1.3 record layer of the self-contained TLS backend, \<^verbatim>\<open>src/tls/tls13/mod.rs\<close> and
  \<^verbatim>\<open>src/tls/tls13/record.rs\<close>: cipher suites, the per-record nonce, sealing with padding and opening. The AEAD
  implementations of other crates are the parameter \<open>tls_aead\<close>, in the detached-tag form the source
  calls. \<open>None\<close> for a key or a sealed record is a panic of the source (\<open>expect\<close>).
\<close>

section \<open>Cipher suites\<close>

datatype cipher_suite = Aes128GcmSha256 | Aes256GcmSha384 | ChaCha20Poly1305Sha256

datatype hash_alg = Sha256 | Sha384

definition suite_from_u16 :: "u16 \<Rightarrow> cipher_suite option" where
  "suite_from_u16 i =
     (if i = 0x1301 then Some Aes128GcmSha256
      else if i = 0x1302 then Some Aes256GcmSha384
      else if i = 0x1303 then Some ChaCha20Poly1305Sha256
      else None)"

fun suite_to_u16 :: "cipher_suite \<Rightarrow> u16" where
  "suite_to_u16 Aes128GcmSha256 = 0x1301"
| "suite_to_u16 Aes256GcmSha384 = 0x1302"
| "suite_to_u16 ChaCha20Poly1305Sha256 = 0x1303"

fun suite_hash :: "cipher_suite \<Rightarrow> hash_alg" where
  "suite_hash Aes256GcmSha384 = Sha384"
| "suite_hash _ = Sha256"

fun key_len :: "cipher_suite \<Rightarrow> nat" where
  "key_len Aes128GcmSha256 = 16"
| "key_len _ = 32"

lemma suite_ids [simp]: "suite_from_u16 (suite_to_u16 s) = Some s"
  by (cases s) (simp_all add: suite_from_u16_def)

lemma suite_from_u16_Some: "suite_from_u16 i = Some s \<longleftrightarrow> i = suite_to_u16 s"
  by (cases s) (auto simp: suite_from_u16_def)

section \<open>Records\<close>

definition RECORD_HANDSHAKE :: u8 where "RECORD_HANDSHAKE = 22"
definition RECORD_APPLICATION_DATA :: u8 where "RECORD_APPLICATION_DATA = 23"
definition RECORD_ALERT :: u8 where "RECORD_ALERT = 21"
definition RECORD_CHANGE_CIPHER_SPEC :: u8 where "RECORD_CHANGE_CIPHER_SPEC = 20"
definition OUTER_TYPE :: u8 where "OUTER_TYPE = 0x17"
definition OUTER_VERSION :: bytes where "OUTER_VERSION = [3, 3]"
definition TLS_TAG_LEN :: nat where "TLS_TAG_LEN = 16"

text \<open>Arguments in order: suite, key, nonce, associated data, message; the result of sealing is the
  ciphertext and the tag.\<close>

record tls_aead =
  t_seal :: "cipher_suite \<Rightarrow> bytes \<Rightarrow> bytes \<Rightarrow> bytes \<Rightarrow> bytes \<Rightarrow> (bytes \<times> bytes) option"
  t_open :: "cipher_suite \<Rightarrow> bytes \<Rightarrow> bytes \<Rightarrow> bytes \<Rightarrow> bytes \<Rightarrow> bytes \<Rightarrow> bytes option"

text \<open>What is documented: sealing keeps the length, has a 16-byte tag, does not fail on a record, and
  opening inverts it.\<close>

definition tls_aead_correct :: "tls_aead \<Rightarrow> bool" where
  "tls_aead_correct T \<longleftrightarrow>
     (\<forall>s k n a p. \<exists>c t. t_seal T s k n a p = Some (c, t) \<and> length c = length p \<and> length t = 16 \<and>
        t_open T s k n a c t = Some p)"

record record_keys =
  rk_suite :: cipher_suite
  rk_key :: bytes
  rk_iv :: bytes
  rk_seq :: u64

definition record_keys_new :: "cipher_suite \<Rightarrow> bytes \<Rightarrow> bytes \<Rightarrow> record_keys option" where
  "record_keys_new s k iv =
     (if length k = key_len s then Some \<lparr>rk_suite = s, rk_key = k, rk_iv = iv, rk_seq = 0\<rparr> else None)"

definition be64 :: "u64 \<Rightarrow> bytes" where
  "be64 w = map (\<lambda>i. ucast (drop_bit (8 * (7 - i)) w)) [0..<8]"

definition rk_nonce :: "record_keys \<Rightarrow> bytes" where
  "rk_nonce rk = take 4 (rk_iv rk) @ map2 (XOR) (drop 4 (rk_iv rk)) (be64 (rk_seq rk))"

definition seal_into :: "tls_aead \<Rightarrow> record_keys \<Rightarrow> u8 \<Rightarrow> bytes \<Rightarrow> nat \<Rightarrow> (bytes \<times> record_keys) option" where
  "seal_into T rk content_type plaintext1 pad_len =
     (let inner_len = length plaintext1 + 1 + pad_len;
          ct_len = inner_len + TLS_TAG_LEN;
          header = [OUTER_TYPE, OUTER_VERSION ! 0, OUTER_VERSION ! 1, of_nat (ct_len div 256), of_nat ct_len];
          inner = plaintext1 @ content_type # replicate pad_len 0
      in case t_seal T (rk_suite rk) (rk_key rk) (rk_nonce rk) header inner of
           None \<Rightarrow> None
         | Some (c, tag) \<Rightarrow> Some (header @ c @ tag, rk\<lparr>rk_seq := rk_seq rk + 1\<rparr>))"

definition seal_with_padding :: "tls_aead \<Rightarrow> record_keys \<Rightarrow> u8 \<Rightarrow> bytes \<Rightarrow> nat \<Rightarrow> (bytes \<times> record_keys) option" where
  "seal_with_padding T rk ct p pad = seal_into T rk ct p pad"

definition tls_seal :: "tls_aead \<Rightarrow> record_keys \<Rightarrow> u8 \<Rightarrow> bytes \<Rightarrow> (bytes \<times> record_keys) option" where
  "tls_seal T rk ct p = seal_with_padding T rk ct p 0"

text \<open>The loop that skips the zero bytes from \<open>end\<close> down.\<close>

fun skip_zeros :: "bytes \<Rightarrow> nat \<Rightarrow> nat" where
  "skip_zeros buf n = (if 5 < n \<and> buf ! (n - 1) = 0 then skip_zeros buf (n - 1) else n)"

declare skip_zeros.simps [simp del]

definition open_in_place :: "tls_aead \<Rightarrow> record_keys \<Rightarrow> bytes \<Rightarrow> (u8 \<times> nat) option \<times> bytes \<times> record_keys" where
  "open_in_place T rk buf =
     (if length buf < 5 then (None, buf, rk)
      else
        let len = len16 (buf ! 3) (buf ! 4)
        in if length buf < 5 + len \<or> len < TLS_TAG_LEN then (None, buf, rk)
           else
             let header = take 5 buf;
                 split = len - TLS_TAG_LEN;
                 body = take split (drop 5 buf);
                 tag = take TLS_TAG_LEN (drop (5 + split) buf)
             in (case t_open T (rk_suite rk) (rk_key rk) (rk_nonce rk) header body tag of
                   None \<Rightarrow> (None, buf, rk)
                 | Some p \<Rightarrow>
                     let buf' = header @ p @ drop (5 + split) buf;
                         rk' = rk\<lparr>rk_seq := rk_seq rk + 1\<rparr>;
                         n = skip_zeros buf' (5 + split)
                     in if n = 5 then (None, buf', rk') else (Some (buf' ! (n - 1), n - 1), buf', rk')))"

definition tls_open :: "tls_aead \<Rightarrow> record_keys \<Rightarrow> bytes \<Rightarrow> (u8 \<times> bytes) option \<times> record_keys" where
  "tls_open T rk rec =
     (case open_in_place T rk rec of
        (None, buf, rk') \<Rightarrow> (None, rk')
      | (Some (ct, n), buf, rk') \<Rightarrow> (Some (ct, drop 5 (take n buf)), rk'))"

definition change_cipher_spec_record :: bytes where
  "change_cipher_spec_record = [0x14, 3, 3, 0, 1, 1]"

section \<open>Opening what was sealed\<close>

lemma two_byte_length:
  "n < 2 ^ 16 \<Longrightarrow> len16 (of_nat (n div 256)) (of_nat n) = n"
proof -
  assume n: "n < 2 ^ 16"
  have "of_nat (n div 256) = (ucast (drop_bit 8 (of_nat n :: u16)) :: u8)"
  proof (rule word_unat_eq_iff [THEN iffD2])
    have "n div 256 < 256" using n by simp
    then show "unat (of_nat (n div 256) :: u8) = unat (ucast (drop_bit 8 (of_nat n :: u16)) :: u8)"
      using n by (simp add: unat_of_nat unsigned_ucast_eq drop_bit_eq_div unat_div take_bit_eq_mod)
  qed
  moreover have "of_nat n = (ucast (of_nat n :: u16) :: u8)"
    by (rule word_unat_eq_iff [THEN iffD2]) (simp add: unat_of_nat unsigned_ucast_eq take_bit_eq_mod mod_mod_cancel)
  ultimately show ?thesis using len16_be_len16 [OF n] by simp
qed

lemma skip_padding:
  assumes "length h = 5" and "ct \<noteq> 0"
  shows "skip_zeros (h @ (p @ ct # replicate pad 0) @ t) (6 + (length p + pad)) = 6 + length p"
proof (induction pad arbitrary: t)
  case 0
  then show ?case using assms by (subst skip_zeros.simps) (simp add: nth_append)
next
  case (Suc pad)
  have "(h @ (p @ ct # replicate (Suc pad) 0) @ t) ! (6 + (length p + pad)) = 0"
    using assms(1) by (simp add: nth_append nth_Cons')
  moreover have "h @ (p @ ct # replicate (Suc pad) 0) @ t = h @ (p @ ct # replicate pad 0) @ (0 # t)"
    by (simp add: replicate_append_same)
  ultimately show ?case using Suc [of "0 # t"]
    by (subst skip_zeros.simps) (simp only: add_Suc_right diff_Suc_1, simp)
qed

lemma seal_then_open_tls:
  assumes T: "tls_aead_correct T" and l: "length p + pad + 17 < 2 ^ 16" and ct: "ct \<noteq> 0"
  shows "\<exists>rec rk'. seal_into T rk ct p pad = Some (rec, rk') \<and> tls_open T rk (rec @ rest) = (Some (ct, p), rk') \<and>
    rk' = rk\<lparr>rk_seq := rk_seq rk + 1\<rparr> \<and> length rec = length p + pad + 22 \<and> len16 (rec ! 3) (rec ! 4) = length rec - 5"
proof -
  let ?n = "length p + 1 + pad + TLS_TAG_LEN"
  define h where "h = [OUTER_TYPE, OUTER_VERSION ! 0, OUTER_VERSION ! 1, of_nat (?n div 256), of_nat ?n]"
  have h: "length h = 5" "h ! 3 = of_nat (?n div 256)" "h ! 4 = of_nat ?n" by (simp_all add: h_def)
  let ?inner = "p @ ct # replicate pad 0"
  obtain c t where s: "t_seal T (rk_suite rk) (rk_key rk) (rk_nonce rk) h ?inner = Some (c, t)"
    "length c = length ?inner" "length t = 16" "t_open T (rk_suite rk) (rk_key rk) (rk_nonce rk) h c t = Some ?inner"
    using T unfolding tls_aead_correct_def by blast
  define rec where "rec = h @ c @ t"
  have n: "?n < 2 ^ 16" using l by (simp add: TLS_TAG_LEN_def)
  have len: "len16 ((rec @ rest) ! 3) ((rec @ rest) ! 4) = ?n"
    unfolding rec_def using two_byte_length [OF n] h by (simp add: nth_append)
  have lr: "length rec = 5 + ?n" using s(2,3) h(1) by (simp add: rec_def TLS_TAG_LEN_def)
  have parts: "take 5 (rec @ rest) = h" "take (?n - TLS_TAG_LEN) (drop 5 (rec @ rest)) = c"
      "take TLS_TAG_LEN (drop (5 + (?n - TLS_TAG_LEN)) (rec @ rest)) = t"
      "drop (5 + (?n - TLS_TAG_LEN)) (rec @ rest) = t @ rest"
    using s(2,3) h(1) by (simp_all add: rec_def TLS_TAG_LEN_def)
  have z: "skip_zeros (h @ ?inner @ t @ rest) (5 + (?n - TLS_TAG_LEN)) = 6 + length p"
    using skip_padding [of h ct p pad "t @ rest"] ct h(1) by (simp add: add.assoc)
  have "open_in_place T rk (rec @ rest) =
      (Some (ct, 5 + length p), h @ ?inner @ t @ rest, rk\<lparr>rk_seq := rk_seq rk + 1\<rparr>)"
    using lr h(1)
    by (simp only: open_in_place_def len Let_def parts(1,2,3) s(4) option.case)
      (simp only: parts(4) z, simp add: nth_append TLS_TAG_LEN_def)
  then have "tls_open T rk (rec @ rest) = (Some (ct, p), rk\<lparr>rk_seq := rk_seq rk + 1\<rparr>)"
    using h(1) by (simp add: tls_open_def)
  moreover have "seal_into T rk ct p pad = Some (rec, rk\<lparr>rk_seq := rk_seq rk + 1\<rparr>)"
    by (simp only: seal_into_def Let_def s(1) [unfolded h_def] option.case prod.case rec_def h_def)
  moreover have "len16 (rec ! 3) (rec ! 4) = length rec - 5"
    using len lr by (simp add: nth_append)
  ultimately show ?thesis using lr by (auto simp: TLS_TAG_LEN_def)
qed

section \<open>Streams of records\<close>

fun tls_seal_all :: "tls_aead \<Rightarrow> record_keys \<Rightarrow> (u8 \<times> bytes \<times> nat) list \<Rightarrow> (bytes list \<times> record_keys) option" where
  "tls_seal_all T rk [] = Some ([], rk)"
| "tls_seal_all T rk ((ct, p, pad) # ms) =
     (case seal_into T rk ct p pad of
        None \<Rightarrow> None
      | Some (r, rk') \<Rightarrow> map_option (apfst ((#) r)) (tls_seal_all T rk' ms))"

fun tls_open_all :: "tls_aead \<Rightarrow> record_keys \<Rightarrow> bytes list \<Rightarrow> (u8 \<times> bytes) option list" where
  "tls_open_all T rk [] = []"
| "tls_open_all T rk (r # rs) = (case tls_open T rk r of (x, rk') \<Rightarrow> x # tls_open_all T rk' rs)"

lemma be64_inj: "be64 a = be64 b \<Longrightarrow> a = b"
proof (rule bit_eqI)
  fix n
  assume e: "be64 a = be64 b" and n: "possible_bit TYPE(u64) n"
  then have n64: "n < 64" by (simp add: possible_bit_def)
  let ?i = "7 - n div 8"
  have i: "?i < 8" "8 * (7 - ?i) = 8 * (n div 8)" using n64 by auto
  have "be64 a ! ?i = be64 b ! ?i" using e by simp
  then have "(ucast (drop_bit (8 * (n div 8)) a) :: u8) = ucast (drop_bit (8 * (n div 8)) b)"
    using i by (simp add: be64_def)
  then have "bit (ucast (drop_bit (8 * (n div 8)) a) :: u8) (n mod 8) = bit (ucast (drop_bit (8 * (n div 8)) b) :: u8) (n mod 8)"
    by simp
  then show "bit a n = bit b n" using n64 by (simp add: bit_simps)
qed

lemma length_be64 [simp]: "length (be64 w) = 8"
  by (simp add: be64_def)

lemma map2_xor_cancel:
  "length a = length b \<Longrightarrow> length b = length c \<Longrightarrow> map2 (XOR) a b = map2 (XOR) a c \<Longrightarrow> b = (c :: bytes)"
proof (induction a b c rule: list_induct3)
  case (Cons x xs y ys z zs)
  then have "x XOR (x XOR y) = x XOR (x XOR z)" by simp
  then have "y = z" by (simp flip: xor.assoc)
  with Cons show ?case by simp
qed simp

text \<open>The nonces of a key are all different: the sequence number can be read off them.\<close>

lemma rk_nonce_inj:
  assumes "length iv = 12" and "rk_nonce (rk\<lparr>rk_iv := iv, rk_seq := a\<rparr>) = rk_nonce (rk\<lparr>rk_iv := iv, rk_seq := b\<rparr>)"
  shows "a = b"
proof -
  have "map2 (XOR) (drop 4 iv) (be64 a) = map2 (XOR) (drop 4 iv) (be64 b)"
    using assms by (simp add: rk_nonce_def)
  with map2_xor_cancel [of "drop 4 iv" "be64 a" "be64 b"] assms(1) have "be64 a = be64 b" by simp
  then show ?thesis by (rule be64_inj)
qed

lemma seal_then_open_all:
  assumes T: "tls_aead_correct T"
    and "list_all (\<lambda>(ct, p, pad). ct \<noteq> 0 \<and> length p + pad + 17 < 2 ^ 16) ms"
  shows "\<exists>rs rk'. tls_seal_all T rk ms = Some (rs, rk') \<and> length rs = length ms \<and>
    rk' = rk\<lparr>rk_seq := rk_seq rk + of_nat (length ms)\<rparr> \<and>
    tls_open_all T rk rs = map (\<lambda>(ct, p, pad). Some (ct, p)) ms"
  using assms(2)
proof (induction ms arbitrary: rk)
  case (Cons m ms)
  obtain ct p pad where m: "m = (ct, p, pad)" by (cases m)
  from Cons.prems m have "length p + pad + 17 < 2 ^ 16" "ct \<noteq> 0" by auto
  from seal_then_open_tls [OF T this, of rk "[]"] obtain r rk1 where r: "seal_into T rk ct p pad = Some (r, rk1)"
    "tls_open T rk r = (Some (ct, p), rk1)" "rk1 = rk\<lparr>rk_seq := rk_seq rk + 1\<rparr>" by auto
  from Cons.IH [of rk1] Cons.prems obtain rs rk2 where i: "tls_seal_all T rk1 ms = Some (rs, rk2)" "length rs = length ms"
    "rk2 = rk1\<lparr>rk_seq := rk_seq rk1 + of_nat (length ms)\<rparr>" "tls_open_all T rk1 rs = map (\<lambda>(ct, p, pad). Some (ct, p)) ms"
    by auto
  with m r show ?case by (auto simp: add.assoc)
qed simp

text \<open>
  TLS 1.3 records: from equal keys, every sequence of messages (any non-zero content type, any
  padding, zero bytes at the end of the data included) whose records fit the 16-bit length is sealed
  without a panic and opened by the other end to exactly the same types and data in order; and the
  nonces of one key are different for different sequence numbers.
\<close>

lemma tls_records_in_order:
  assumes "tls_aead_correct T" and "record_keys_new s k iv = Some rk" and "length iv = 12"
    and "list_all (\<lambda>(ct, p, pad). ct \<noteq> 0 \<and> length p + pad + 17 < 2 ^ 16) ms"
  shows "(\<exists>rs rk'. tls_seal_all T rk ms = Some (rs, rk') \<and>
      tls_open_all T rk rs = map (\<lambda>(ct, p, pad). Some (ct, p)) ms) \<and>
    (\<forall>a b. a \<noteq> b \<longrightarrow> rk_nonce (rk\<lparr>rk_seq := a\<rparr>) \<noteq> rk_nonce (rk\<lparr>rk_seq := b\<rparr>))"
proof -
  have "rk\<lparr>rk_iv := iv\<rparr> = rk" using assms(2) by (auto simp: record_keys_new_def split: if_splits)
  then have "rk\<lparr>rk_iv := iv, rk_seq := x\<rparr> = rk\<lparr>rk_seq := x\<rparr>" for x by simp
  with rk_nonce_inj [OF assms(3), where rk = rk] seal_then_open_all [OF assms(1,4), of rk] show ?thesis by metis
qed

text \<open>A stand-in cipher: the tag is sixteen zero bytes.\<close>

definition toy_tls_aead :: tls_aead where
  "toy_tls_aead = \<lparr>t_seal = (\<lambda>_ _ _ _ p. Some (p, replicate 16 0)), t_open = (\<lambda>_ _ _ _ c _. Some c)\<rparr>"

lemma toy_tls_aead_correct: "tls_aead_correct toy_tls_aead"
  by (simp add: tls_aead_correct_def toy_tls_aead_def)

lemma tls_records_in_order_example:
  "let rk = \<lparr>rk_suite = Aes128GcmSha256, rk_key = replicate 16 1, rk_iv = replicate 12 2, rk_seq = 0\<rparr>
   in \<exists>rs rk'. tls_seal_all toy_tls_aead rk [(22, [1, 0], 3), (23, [], 0)] = Some (rs, rk') \<and>
        tls_open_all toy_tls_aead rk rs = [Some (22, [1, 0]), Some (23, [])]"
proof -
  have "record_keys_new Aes128GcmSha256 (replicate 16 1) (replicate 12 2) =
      Some \<lparr>rk_suite = Aes128GcmSha256, rk_key = replicate 16 1, rk_iv = replicate 12 2, rk_seq = 0\<rparr>"
    by (simp add: record_keys_new_def)
  from tls_records_in_order [OF toy_tls_aead_correct this, of "[(22, [1, 0], 3), (23, [], 0)]"] show ?thesis
    by (auto simp: Let_def simp del: tls_seal_all.simps tls_open_all.simps)
qed

end
