(* ===== verification/TlsKeys.thy ===== *)
theory TlsKeys
  imports TlsRecord ServerKeys "HOL-Library.Monad_Syntax"
begin

text \<open>
  The TLS 1.3 key schedule, \<^verbatim>\<open>src/tls/tls13/keyschedule.rs\<close>, and the server's key share,
  \<^verbatim>\<open>src/tls/tls13/keyshare.rs\<close>. Hashing, HMAC and HKDF of other crates are the parameter \<open>hkdf\<close>, X25519 is
  the parameter \<open>crypto\<close>. \<open>None\<close> is a panic of the source (\<open>expect\<close> on the result of HKDF).
\<close>

section \<open>Hash algorithms\<close>

record hkdf =
  hk_hash :: "hash_alg \<Rightarrow> bytes \<Rightarrow> bytes"
  hk_extract :: "hash_alg \<Rightarrow> bytes \<Rightarrow> bytes \<Rightarrow> bytes"
  hk_expand :: "hash_alg \<Rightarrow> bytes \<Rightarrow> bytes \<Rightarrow> nat \<Rightarrow> bytes option"
  hk_hmac :: "hash_alg \<Rightarrow> bytes \<Rightarrow> bytes \<Rightarrow> bytes"

fun output_len :: "hash_alg \<Rightarrow> nat" where
  "output_len Sha256 = 32"
| "output_len Sha384 = 48"

text \<open>What is documented: outputs have the length of the hash, and expansion succeeds for a
  pseudo-random key of at least that length and at most 255 blocks of output.\<close>

definition hkdf_correct :: "hkdf \<Rightarrow> bool" where
  "hkdf_correct H \<longleftrightarrow>
     (\<forall>h x. length (hk_hash H h x) = output_len h) \<and>
     (\<forall>h s x. length (hk_extract H h s x) = output_len h) \<and>
     (\<forall>h k x. length (hk_hmac H h k x) = output_len h) \<and>
     (\<forall>h prk info n. output_len h \<le> length prk \<longrightarrow> n \<le> 255 * output_len h \<longrightarrow>
        (\<exists>out. hk_expand H h prk info n = Some out \<and> length out = n))"

definition empty_hash :: "hkdf \<Rightarrow> hash_alg \<Rightarrow> bytes" where
  "empty_hash H h = hk_hash H h []"

definition hkdf_label :: "bytes \<Rightarrow> bytes \<Rightarrow> nat \<Rightarrow> bytes" where
  "hkdf_label label ctx len =
     (let full_label = bytes_of ''tls13 '' @ label
      in be_len16 len @ of_nat (length full_label) # full_label @ of_nat (length ctx) # ctx)"

definition expand_label :: "hkdf \<Rightarrow> hash_alg \<Rightarrow> bytes \<Rightarrow> bytes \<Rightarrow> bytes \<Rightarrow> nat \<Rightarrow> bytes option" where
  "expand_label H h secret label ctx len = hk_expand H h secret (hkdf_label label ctx len) len"

definition derive_secret :: "hkdf \<Rightarrow> hash_alg \<Rightarrow> bytes \<Rightarrow> bytes \<Rightarrow> bytes \<Rightarrow> bytes option" where
  "derive_secret H h secret label transcript = expand_label H h secret label (hk_hash H h transcript) (output_len h)"

definition derive_secret_with_hash :: "hkdf \<Rightarrow> hash_alg \<Rightarrow> bytes \<Rightarrow> bytes \<Rightarrow> bytes \<Rightarrow> bytes option" where
  "derive_secret_with_hash H h secret label transcript_hash = expand_label H h secret label transcript_hash (output_len h)"

section \<open>\<open>KeySchedule\<close>\<close>

record key_schedule =
  sch_hash :: hash_alg
  master_secret :: bytes
  client_hs_traffic :: bytes
  server_hs_traffic :: bytes

definition key_schedule_new :: "hkdf \<Rightarrow> hash_alg \<Rightarrow> bytes \<Rightarrow> bytes \<Rightarrow> key_schedule option" where
  "key_schedule_new H h ecdhe transcript_hash_ch_sh =
     (let zero = replicate (output_len h) 0;
          early_secret = hk_extract H h zero zero
      in do {
        derived \<leftarrow> derive_secret H h early_secret (bytes_of ''derived'') [];
        let handshake_secret = hk_extract H h derived ecdhe;
        c \<leftarrow> derive_secret_with_hash H h handshake_secret (bytes_of ''c hs traffic'') transcript_hash_ch_sh;
        s \<leftarrow> derive_secret_with_hash H h handshake_secret (bytes_of ''s hs traffic'') transcript_hash_ch_sh;
        derived2 \<leftarrow> derive_secret H h handshake_secret (bytes_of ''derived'') [];
        Some \<lparr>sch_hash = h, master_secret = hk_extract H h derived2 zero, client_hs_traffic = c, server_hs_traffic = s\<rparr>
      })"

definition traffic_keys :: "hkdf \<Rightarrow> key_schedule \<Rightarrow> bytes \<Rightarrow> nat \<Rightarrow> (bytes \<times> bytes) option" where
  "traffic_keys H ks secret n =
     do {
       k \<leftarrow> expand_label H (sch_hash ks) secret (bytes_of ''key'') [] n;
       iv \<leftarrow> expand_label H (sch_hash ks) secret (bytes_of ''iv'') [] 12;
       Some (k, iv)
     }"

definition finished_verify_data :: "hkdf \<Rightarrow> key_schedule \<Rightarrow> bytes \<Rightarrow> bytes \<Rightarrow> bytes option" where
  "finished_verify_data H ks base transcript_hash =
     do {
       finished_key \<leftarrow> expand_label H (sch_hash ks) base (bytes_of ''finished'') [] (output_len (sch_hash ks));
       Some (hk_hmac H (sch_hash ks) finished_key transcript_hash)
     }"

definition application_traffic_secrets :: "hkdf \<Rightarrow> key_schedule \<Rightarrow> bytes \<Rightarrow> (bytes \<times> bytes) option" where
  "application_traffic_secrets H ks transcript_hash =
     do {
       c \<leftarrow> derive_secret_with_hash H (sch_hash ks) (master_secret ks) (bytes_of ''c ap traffic'') transcript_hash;
       s \<leftarrow> derive_secret_with_hash H (sch_hash ks) (master_secret ks) (bytes_of ''s ap traffic'') transcript_hash;
       Some (c, s)
     }"

section \<open>Key share\<close>

definition GROUP_X25519 :: u16 where "GROUP_X25519 = 0x1d"

record server_key_share =
  sks_group :: u16
  sks_public :: bytes
  sks_secret :: bytes

datatype key_share_error = UnsupportedGroup u16 | InvalidShareLength u16 nat nat | ShareNonContributory

definition x25519_with_secret :: "crypto \<Rightarrow> bytes \<Rightarrow> bytes \<Rightarrow> key_share_error + server_key_share" where
  "x25519_with_secret C peer_key secret =
     (if length peer_key \<noteq> 32 then Inl (InvalidShareLength GROUP_X25519 32 (length peer_key))
      else let shared = x_dh C secret peer_key
           in if \<not> contributory C shared then Inl ShareNonContributory
              else Inr \<lparr>sks_group = GROUP_X25519, sks_public = x_public C secret, sks_secret = shared\<rparr>)"

text \<open>The random number generator is the secret it draws.\<close>

definition generate_server_keyshare :: "crypto \<Rightarrow> u16 \<Rightarrow> bytes \<Rightarrow> bytes \<Rightarrow> key_share_error + server_key_share" where
  "generate_server_keyshare C grp peer_key secret =
     (if grp = GROUP_X25519 then x25519_with_secret C peer_key secret else Inl (UnsupportedGroup grp))"

section \<open>The schedule does not panic\<close>

lemma expand_label_total:
  assumes "hkdf_correct H" and "output_len h \<le> length secret" and "n \<le> 255 * output_len h"
  shows "\<exists>out. expand_label H h secret label ctx n = Some out \<and> length out = n"
  using assms by (simp add: hkdf_correct_def expand_label_def)

lemma hkdf_lengths:
  "hkdf_correct H \<Longrightarrow> length (hk_hash H h x) = output_len h \<and> length (hk_extract H h s x) = output_len h \<and>
     length (hk_hmac H h k x) = output_len h"
  by (simp add: hkdf_correct_def)

lemma output_len_bounds: "output_len h \<le> 255 * output_len h" "12 \<le> 255 * output_len h" "key_len s \<le> 255 * output_len h"
  by (cases h; cases s; simp)+

lemma derive_secret_total:
  assumes "hkdf_correct H" and "output_len h \<le> length secret"
  shows "\<exists>out. derive_secret H h secret label t = Some out \<and> length out = output_len h"
    and "\<exists>out. derive_secret_with_hash H h secret label th = Some out \<and> length out = output_len h"
  using expand_label_total [OF assms output_len_bounds(1)]
  by (simp_all add: derive_secret_def derive_secret_with_hash_def)

text \<open>A schedule whose secrets have the length of its hash.\<close>

definition sch_ok :: "key_schedule \<Rightarrow> bool" where
  "sch_ok ks \<longleftrightarrow>
     length (master_secret ks) = output_len (sch_hash ks) \<and>
     length (client_hs_traffic ks) = output_len (sch_hash ks) \<and>
     length (server_hs_traffic ks) = output_len (sch_hash ks)"

lemma key_schedule_total:
  assumes H: "hkdf_correct H"
  shows "\<exists>ks. key_schedule_new H h ecdhe th = Some ks \<and> sch_hash ks = h \<and> sch_ok ks"
proof -
  let ?zero = "replicate (output_len h) 0"
  have le: "output_len h \<le> length (hk_extract H h s x)" for s x using hkdf_lengths [OF H] by simp
  obtain d where d: "derive_secret H h (hk_extract H h ?zero ?zero) (bytes_of ''derived'') [] = Some d"
    using derive_secret_total(1) [OF H le] by blast
  let ?hs = "hk_extract H h d ecdhe"
  obtain c where c: "derive_secret_with_hash H h ?hs (bytes_of ''c hs traffic'') th = Some c" "length c = output_len h"
    using derive_secret_total(2) [OF H le] by blast
  obtain s where s: "derive_secret_with_hash H h ?hs (bytes_of ''s hs traffic'') th = Some s" "length s = output_len h"
    using derive_secret_total(2) [OF H le] by blast
  obtain d2 where d2: "derive_secret H h ?hs (bytes_of ''derived'') [] = Some d2"
    using derive_secret_total(1) [OF H le] by blast
  from c s show ?thesis using hkdf_lengths [OF H]
    by (simp add: key_schedule_new_def Let_def d d2 sch_ok_def)
qed

lemma traffic_keys_total:
  assumes H: "hkdf_correct H" and l: "length secret = output_len (sch_hash ks)"
  shows "\<exists>k iv. traffic_keys H ks secret (key_len s) = Some (k, iv) \<and> length k = key_len s \<and> length iv = 12"
proof -
  have le: "output_len (sch_hash ks) \<le> length secret" using l by simp
  obtain k where k: "expand_label H (sch_hash ks) secret (bytes_of ''key'') [] (key_len s) = Some k" "length k = key_len s"
    using expand_label_total [OF H le output_len_bounds(3)] by blast
  obtain iv where "expand_label H (sch_hash ks) secret (bytes_of ''iv'') [] 12 = Some iv" "length iv = 12"
    using expand_label_total [OF H le output_len_bounds(2)] by blast
  with k show ?thesis by (simp add: traffic_keys_def)
qed

lemma finished_total:
  assumes H: "hkdf_correct H" and l: "length base = output_len (sch_hash ks)"
  shows "\<exists>v. finished_verify_data H ks base th = Some v \<and> length v = output_len (sch_hash ks)"
proof -
  obtain fk where fk: "expand_label H (sch_hash ks) base (bytes_of ''finished'') [] (output_len (sch_hash ks)) = Some fk"
    using expand_label_total [OF H _ output_len_bounds(1), of "sch_hash ks" base "bytes_of ''finished''" "[]"] l by auto
  then show ?thesis using hkdf_lengths [OF H] by (simp add: finished_verify_data_def)
qed

lemma application_secrets_total:
  assumes H: "hkdf_correct H" and "sch_ok ks"
  shows "\<exists>c s. application_traffic_secrets H ks th = Some (c, s) \<and>
    length c = output_len (sch_hash ks) \<and> length s = output_len (sch_hash ks)"
proof -
  have le: "output_len (sch_hash ks) \<le> length (master_secret ks)" using assms(2) by (simp add: sch_ok_def)
  obtain c where c: "derive_secret_with_hash H (sch_hash ks) (master_secret ks) (bytes_of ''c ap traffic'') th = Some c"
      "length c = output_len (sch_hash ks)"
    using derive_secret_total(2) [OF H le] by blast
  obtain s where "derive_secret_with_hash H (sch_hash ks) (master_secret ks) (bytes_of ''s ap traffic'') th = Some s"
      "length s = output_len (sch_hash ks)"
    using derive_secret_total(2) [OF H le] by blast
  with c show ?thesis by (simp add: application_traffic_secrets_def)
qed

section \<open>Key separation\<close>

lemma be_len16_inj:
  assumes "be_len16 n = be_len16 m" and "n < 2 ^ 16" and "m < 2 ^ 16"
  shows "n = m"
proof -
  have "Inr (of_nat n :: u16, [] :: bytes) = (Inr (of_nat m, []) :: io_error + u16 \<times> bytes)"
    using assms(1) read_u16_be_len16 [of n "[]"] read_u16_be_len16 [of m "[]"] by metis
  then have "unat (of_nat n :: u16) = unat (of_nat m :: u16)" by simp
  then show ?thesis using assms(2,3) by (simp add: unat_of_nat)
qed

lemma append_same_length: "xs @ a # ys = xs' @ a' # ys' \<Longrightarrow> length xs = length xs' \<Longrightarrow> xs = xs' \<and> a = a' \<and> ys = ys'"
  by simp

text \<open>
  Key separation: the HKDF labels of the schedule determine the label, the context and the output
  length they were made from, as long as these fit their one- and two-byte length fields; so two
  derivations from one secret use the same HKDF input only when they are the same derivation, and
  every derivation of a key schedule, its traffic keys, its Finished value and its application
  secrets succeeds with outputs of the right lengths.
\<close>

lemma hkdf_labels_separate:
  assumes "length label < 250" and "length label' < 250" and "length ctx < 256" and "length ctx' < 256"
    and "n < 2 ^ 16" and "n' < 2 ^ 16"
  shows "(hkdf_label label ctx n = hkdf_label label' ctx' n' \<longleftrightarrow> label = label' \<and> ctx = ctx' \<and> n = n') \<and>
    (hkdf_correct H \<longrightarrow>
       (\<exists>ks c s. key_schedule_new H h ecdhe th = Some ks \<and>
          application_traffic_secrets H ks th' = Some (c, s) \<and>
          finished_verify_data H ks (server_hs_traffic ks) th' \<noteq> None \<and>
          (\<forall>secret \<in> {client_hs_traffic ks, server_hs_traffic ks, c, s}.
             \<exists>k iv. traffic_keys H ks secret (key_len suite) = Some (k, iv) \<and> length k = key_len suite \<and> length iv = 12)))"
proof (intro conjI impI)
  show "hkdf_label label ctx n = hkdf_label label' ctx' n' \<longleftrightarrow> label = label' \<and> ctx = ctx' \<and> n = n'"
  proof
    assume e: "hkdf_label label ctx n = hkdf_label label' ctx' n'"
    let ?l = "bytes_of ''tls13 '' @ label" and ?l' = "bytes_of ''tls13 '' @ label'"
    have "be_len16 n @ of_nat (length ?l) # (?l @ of_nat (length ctx) # ctx) =
        be_len16 n' @ of_nat (length ?l') # (?l' @ of_nat (length ctx') # ctx')"
      using e by (simp add: hkdf_label_def Let_def)
    from append_same_length [OF this] have e1: "be_len16 n = be_len16 n'" "(of_nat (length ?l) :: u8) = of_nat (length ?l')"
      "?l @ of_nat (length ctx) # ctx = ?l' @ of_nat (length ctx') # ctx'" by simp_all
    have lab: "length label = length label'"
    proof -
      have "unat (of_nat (length ?l) :: u8) = unat (of_nat (length ?l') :: u8)" using e1(2) by simp
      then show ?thesis using assms(1,2) unfolding unat_of_nat by simp
    qed
    moreover from append_same_length [OF e1(3)] lab have "label = label' \<and> ctx = ctx'" by simp
    moreover have "n = n'"
      by (rule be_len16_inj [OF e1(1) assms(5,6)])
    ultimately show "label = label' \<and> ctx = ctx' \<and> n = n'" by simp
  qed simp
next
  assume H: "hkdf_correct H"
  obtain ks where ks: "key_schedule_new H h ecdhe th = Some ks" "sch_ok ks" using key_schedule_total [OF H] by blast
  obtain c s where cs: "application_traffic_secrets H ks th' = Some (c, s)" "length c = output_len (sch_hash ks)"
      "length s = output_len (sch_hash ks)"
    using application_secrets_total [OF H ks(2)] by blast
  have "finished_verify_data H ks (server_hs_traffic ks) th' \<noteq> None"
    using finished_total [OF H, of "server_hs_traffic ks" ks th'] ks(2) by (auto simp: sch_ok_def)
  moreover have "\<forall>secret \<in> {client_hs_traffic ks, server_hs_traffic ks, c, s}.
             \<exists>k iv. traffic_keys H ks secret (key_len suite) = Some (k, iv) \<and> length k = key_len suite \<and> length iv = 12"
    using traffic_keys_total [OF H] ks(2) cs(2,3) by (simp add: sch_ok_def)
  ultimately show "\<exists>ks c s. key_schedule_new H h ecdhe th = Some ks \<and>
          application_traffic_secrets H ks th' = Some (c, s) \<and>
          finished_verify_data H ks (server_hs_traffic ks) th' \<noteq> None \<and>
          (\<forall>secret \<in> {client_hs_traffic ks, server_hs_traffic ks, c, s}.
             \<exists>k iv. traffic_keys H ks secret (key_len suite) = Some (k, iv) \<and> length k = key_len suite \<and> length iv = 12)"
    using ks(1) cs(1) by (intro exI [of _ ks] exI [of _ c] exI [of _ s]) simp
qed

text \<open>A stand-in for the hash functions.\<close>

definition toy_hkdf :: hkdf where
  "toy_hkdf = \<lparr>hk_hash = (\<lambda>h x. replicate (output_len h) 0), hk_extract = (\<lambda>h s x. replicate (output_len h) 0),
     hk_expand = (\<lambda>h prk info n. Some (replicate n 0)), hk_hmac = (\<lambda>h k x. replicate (output_len h) 0)\<rparr>"

lemma toy_hkdf_correct: "hkdf_correct toy_hkdf"
  by (simp add: hkdf_correct_def toy_hkdf_def)

lemma hkdf_labels_separate_example:
  "hkdf_label (bytes_of ''key'') [] 16 \<noteq> hkdf_label (bytes_of ''iv'') [] 12 \<and>
   (\<exists>ks. key_schedule_new toy_hkdf Sha256 [1] [2] = Some ks)"
  using hkdf_labels_separate [of "bytes_of ''key''" "bytes_of ''iv''" "[]" "[]" 16 12 toy_hkdf Sha256 "[1]" "[2]" "[]" Aes128GcmSha256]
    toy_hkdf_correct
  by (auto simp: bytes_of_def)

end
