(* ===== verification/TlsMessages.thy ===== *)
theory TlsMessages
  imports ClientHello TlsKeys
begin

text \<open>
  The handshake messages of the TLS backend, \<^verbatim>\<open>src/tls/tls13/messages.rs\<close>, and the ServerHello synthesised from a
  captured template, the first half of \<^verbatim>\<open>src/tls/tls13/flight.rs\<close>. Randomness is an argument. In the results of
  lookups the outer \<open>None\<close> is the panic of an index out of range.
\<close>

section \<open>Messages\<close>

definition HS_SERVER_HELLO :: u8 where "HS_SERVER_HELLO = 2"
definition HS_NEW_SESSION_TICKET :: u8 where "HS_NEW_SESSION_TICKET = 4"
definition HS_ENCRYPTED_EXTENSIONS :: u8 where "HS_ENCRYPTED_EXTENSIONS = 8"
definition HS_CERTIFICATE :: u8 where "HS_CERTIFICATE = 11"
definition HS_CERTIFICATE_VERIFY :: u8 where "HS_CERTIFICATE_VERIFY = 15"
definition HS_FINISHED :: u8 where "HS_FINISHED = 20"

text \<open>Three bytes of a length, the upper ones cut off as the casts do.\<close>

definition u24 :: "nat \<Rightarrow> bytes" where
  "u24 n = (let len = (of_nat n :: u32) in [ucast (drop_bit 16 len), ucast (drop_bit 8 len), ucast len])"

definition handshake_message :: "u8 \<Rightarrow> bytes \<Rightarrow> bytes" where
  "handshake_message t body = t # u24 (length body) @ body"

definition encrypted_extensions :: bytes where
  "encrypted_extensions = handshake_message HS_ENCRYPTED_EXTENSIONS [0, 0]"

definition encrypted_extensions_with_alpn :: "bytes option \<Rightarrow> bytes" where
  "encrypted_extensions_with_alpn p =
     (case p of
        None \<Rightarrow> encrypted_extensions
      | Some protocol \<Rightarrow>
          let protocol_name_list = of_nat (length protocol) # protocol;
              alpn_body = be_len16 (length protocol_name_list) @ protocol_name_list;
              extensions = to_be16 EXT_ALPN @ be_len16 (length alpn_body) @ alpn_body
          in handshake_message HS_ENCRYPTED_EXTENSIONS (be_len16 (length extensions) @ extensions))"

definition finished_message :: "bytes \<Rightarrow> bytes" where
  "finished_message verify_data = handshake_message HS_FINISHED verify_data"

definition be32 :: "u32 \<Rightarrow> bytes" where
  "be32 w = [ucast (drop_bit 24 w), ucast (drop_bit 16 w), ucast (drop_bit 8 w), ucast w]"

definition new_session_ticket :: "u32 \<Rightarrow> (nat \<Rightarrow> bytes) \<Rightarrow> nat \<Rightarrow> bytes" where
  "new_session_ticket age_add fill n =
     (let ticket_len = max n 1
      in handshake_message HS_NEW_SESSION_TICKET
           (be32 7200 @ be32 age_add @ 0 # be_len16 ticket_len @ fill ticket_len @ [0, 0]))"

text \<open>\<open>slice.get(i)\<close>, and the loop over the extensions, which indexes without a check.\<close>

definition get_at :: "'a list \<Rightarrow> nat \<Rightarrow> 'a option" where
  "get_at xs i = (if i < length xs then Some (xs ! i) else None)"

definition get_u16 :: "bytes \<Rightarrow> nat \<Rightarrow> u16 option" where
  "get_u16 xs i = (if i + 1 < length xs then Some (from_be16 (xs ! i) (xs ! (i + 1))) else None)"

definition keyshare_at :: "bytes \<Rightarrow> nat \<Rightarrow> (u16 \<times> nat \<times> nat) option" where
  "keyshare_at sh p =
     do {
       grp \<leftarrow> get_u16 sh p;
       kx_len \<leftarrow> get_u16 sh (p + 2);
       if length sh < p + 4 + unat kx_len then None
       else Some (grp, p + 4, unat kx_len)
     }"

function find_keyshare_from :: "bytes \<Rightarrow> nat \<Rightarrow> nat \<Rightarrow> (u16 \<times> nat \<times> nat) option option" where
  "find_keyshare_from sh ext_end pos =
     (if ext_end < pos + 4 then Some None
      else (case (get_u16 sh pos, get_u16 sh (pos + 2)) of
              (Some t, Some ext_len) \<Rightarrow>
                if t = EXT_KEY_SHARE then Some (keyshare_at sh (pos + 4))
                else find_keyshare_from sh ext_end (pos + 4 + unat ext_len)
            | _ \<Rightarrow> None))"
  by pat_completeness auto
termination
  by (relation "measure (\<lambda>(sh, ext_end, pos). ext_end - pos)") auto

declare find_keyshare_from.simps [simp del]

definition find_server_keyshare :: "bytes \<Rightarrow> (u16 \<times> nat \<times> nat) option option" where
  "find_server_keyshare sh =
     (let pos = 1 + 3 + 2 + 32
      in case get_at sh pos of
           None \<Rightarrow> Some None
         | Some sid_len \<Rightarrow>
             let pos1 = pos + 1 + unat sid_len + 2 + 1
             in (case get_u16 sh pos1 of
                   None \<Rightarrow> Some None
                 | Some ext_total \<Rightarrow> find_keyshare_from sh (pos1 + 2 + unat ext_total) (pos1 + 2)))"

definition server_hello_cipher_suite :: "bytes \<Rightarrow> u16 option" where
  "server_hello_cipher_suite sh =
     (let pos = 1 + 3 + 2 + 32
      in case get_at sh pos of None \<Rightarrow> None | Some sid_len \<Rightarrow> get_u16 sh (pos + 1 + unat sid_len))"

section \<open>Synthesis of a ServerHello\<close>

record synthesized_hello =
  sh_message :: bytes
  sh_suite :: cipher_suite
  key_share_group :: u16

datatype flight_error =
    MalformedServerHello | Tls13NotOffered | SessionIdTooLong | UnsupportedCipherSuite u16 | CipherNotOffered u16
  | KeyShareGroupNotOffered u16 | KeyShareLengthMismatch u16 nat nat | CipherHashMismatch

definition server_hello_body_len :: "bytes \<Rightarrow> flight_error + nat" where
  "server_hello_body_len t =
     (if length t < 4 \<or> t ! 0 \<noteq> HS_SERVER_HELLO then Inl MalformedServerHello
      else Inr (len24 (t ! 1) (t ! 2) (t ! 3)))"

text \<open>The outer \<open>None\<close> is the panic inside \<open>find_server_keyshare\<close>.\<close>

definition validate_server_hello_template :: "bytes \<Rightarrow> (flight_error + unit) option" where
  "validate_server_hello_template t =
     (case server_hello_body_len t of
        Inl e \<Rightarrow> Some (Inl e)
      | Inr n \<Rightarrow>
          if n \<noteq> length t - 4 then Some (Inl MalformedServerHello)
          else (case find_server_keyshare t of
                  None \<Rightarrow> None
                | Some None \<Rightarrow> Some (Inl MalformedServerHello)
                | Some (Some _) \<Rightarrow>
                    (case server_hello_cipher_suite t of
                       None \<Rightarrow> Some (Inl MalformedServerHello)
                     | Some _ \<Rightarrow> Some (Inr ()))))"

definition rewrite_random_and_session_id :: "bytes \<Rightarrow> bytes \<Rightarrow> bytes \<Rightarrow> flight_error + bytes" where
  "rewrite_random_and_session_id t sid random =
     (case server_hello_body_len t of
        Inl e \<Rightarrow> Inl e
      | Inr _ \<Rightarrow>
          (case get_at t 38 of
             None \<Rightarrow> Inl MalformedServerHello
           | Some old \<Rightarrow>
               let old_sid_end = 38 + (1 + unat old)
               in if length t < old_sid_end then Inl MalformedServerHello
                  else
                    let out1 = take 6 t @ random @ of_nat (length sid) # sid @ drop old_sid_end t;
                        body_len = length out1 - 4
                    in Inr (take 1 out1 @ u24 body_len @ drop 4 out1)))"

definition splice :: "bytes \<Rightarrow> nat \<Rightarrow> bytes \<Rightarrow> bytes" where
  "splice xs i ys = take i xs @ ys @ drop (i + length ys) xs"

definition synthesize_server_hello ::
  "bytes \<Rightarrow> client_hello \<Rightarrow> bytes \<Rightarrow> bytes \<Rightarrow> (flight_error + synthesized_hello) option" where
  "synthesize_server_hello t client server_keyshare random =
     (case validate_server_hello_template t of
        None \<Rightarrow> None
      | Some (Inl e) \<Rightarrow> Some (Inl e)
      | Some (Inr _) \<Rightarrow>
          if \<not> offers_tls13 (ch_offer client) then Some (Inl Tls13NotOffered)
          else if 32 < length (ch_session_id client) then Some (Inl SessionIdTooLong)
          else (case server_hello_cipher_suite t of
            None \<Rightarrow> Some (Inl MalformedServerHello)
          | Some cipher_id \<Rightarrow>
              (case suite_from_u16 cipher_id of
                 None \<Rightarrow> Some (Inl (UnsupportedCipherSuite cipher_id))
               | Some suite \<Rightarrow>
                   if \<not> cipher_offered client cipher_id then Some (Inl (CipherNotOffered cipher_id))
                   else (case find_server_keyshare t of
                     None \<Rightarrow> None
                   | Some None \<Rightarrow> Some (Inl MalformedServerHello)
                   | Some (Some (grp, _, template_len)) \<Rightarrow>
                       if \<not> keyshare_group_offered client grp then Some (Inl (KeyShareGroupNotOffered grp))
                       else if template_len \<noteq> length server_keyshare
                       then Some (Inl (KeyShareLengthMismatch grp template_len (length server_keyshare)))
                       else (case rewrite_random_and_session_id t (ch_session_id client) random of
                         Inl e \<Rightarrow> Some (Inl e)
                       | Inr m \<Rightarrow>
                           (case find_server_keyshare m of
                              None \<Rightarrow> None
                            | Some None \<Rightarrow> Some (Inl MalformedServerHello)
                            | Some (Some (_, offset, len)) \<Rightarrow>
                                if len \<noteq> length server_keyshare then None
                                else Some (Inr \<lparr>sh_message = splice m offset server_keyshare, sh_suite = suite,
                                                key_share_group = grp\<rparr>)))))))"

section \<open>Well-formed ServerHello messages\<close>

text \<open>A ServerHello with its extensions as type and data.\<close>

definition encode_exts :: "(u16 \<times> bytes) list \<Rightarrow> bytes" where
  "encode_exts es = concat (map (\<lambda>(t, d). to_be16 t @ vec16 d) es)"

definition share_data :: "u16 \<Rightarrow> bytes \<Rightarrow> bytes" where
  "share_data grp k = to_be16 grp @ vec16 k"

definition server_hello_body :: "bytes \<Rightarrow> bytes \<Rightarrow> u16 \<Rightarrow> (u16 \<times> bytes) list \<Rightarrow> bytes" where
  "server_hello_body random sid cipher es =
     [3, 3] @ random @ vec8 sid @ to_be16 cipher @ [0] @ vec16 (encode_exts es)"

definition server_hello :: "bytes \<Rightarrow> bytes \<Rightarrow> u16 \<Rightarrow> (u16 \<times> bytes) list \<Rightarrow> bytes" where
  "server_hello random sid cipher es = handshake_message HS_SERVER_HELLO (server_hello_body random sid cipher es)"

definition exts_ok :: "(u16 \<times> bytes) list \<Rightarrow> bool" where
  "exts_ok es \<longleftrightarrow> list_all (\<lambda>(t, d). length d < 2 ^ 16) es \<and> length (encode_exts es) < 2 ^ 16"

lemma length_u24 [simp]: "length (u24 n) = 3"
  by (simp add: u24_def Let_def)

lemma get_u16_append: "length xs = i \<Longrightarrow> get_u16 (xs @ to_be16 w @ ys) i = Some w"
  by (simp add: get_u16_def to_be16_def nth_append)

lemma get_u16_append2: "length xs = i \<Longrightarrow> get_u16 (xs @ to_be16 v @ to_be16 w @ ys) (i + 2) = Some w"
  using get_u16_append [of "xs @ to_be16 v" "i + 2" w ys] by simp

lemma vec16_front: "vec16 d = to_be16 (of_nat (length d)) @ d"
  by (simp add: vec16_def be_len16_def)

lemma keyshare_at_share:
  assumes "length xs = i" and "length k < 2 ^ 16"
  shows "keyshare_at (xs @ share_data grp k @ ys) i = Some (grp, i + 4, length k)"
proof -
  have "unat (of_nat (length k) :: u16) = length k" using assms(2) by (simp add: unat_of_nat)
  then show ?thesis
    using get_u16_append [OF assms(1), of grp "vec16 k @ ys"]
      get_u16_append2 [OF assms(1), of grp "of_nat (length k)" "k @ ys"] assms(1)
    by (simp add: keyshare_at_def share_data_def vec16_front)
qed

lemma find_keyshare_skip:
  assumes "list_all (\<lambda>(t, d). length d < 2 ^ 16) pre" and "EXT_KEY_SHARE \<notin> fst ` set pre" and "length k < 2 ^ 16"
    and "length (share_data grp k) < 2 ^ 16"
    and "length xs + length (encode_exts (pre @ (EXT_KEY_SHARE, share_data grp k) # post)) \<le> e"
  shows "find_keyshare_from (xs @ encode_exts (pre @ (EXT_KEY_SHARE, share_data grp k) # post) @ ys) e (length xs) =
    Some (Some (grp, length xs + length (encode_exts pre) + 8, length k))"
  using assms
proof (induction pre arbitrary: xs)
  case Nil
  let ?d = "share_data grp k"
  have m: "xs @ encode_exts ((EXT_KEY_SHARE, ?d) # post) @ ys =
      xs @ to_be16 EXT_KEY_SHARE @ to_be16 (of_nat (length ?d)) @ ?d @ encode_exts post @ ys"
    by (simp add: encode_exts_def vec16_front)
  have "keyshare_at ((xs @ to_be16 EXT_KEY_SHARE @ to_be16 (of_nat (length ?d))) @ ?d @ encode_exts post @ ys) (length xs + 4) =
      Some (grp, length xs + 8, length k)"
    using keyshare_at_share [of "xs @ to_be16 EXT_KEY_SHARE @ to_be16 (of_nat (length ?d))" "length xs + 4" k grp] Nil(3) by simp
  moreover have "length xs + 4 \<le> e" using Nil(5) by (simp add: encode_exts_def)
  ultimately show ?case
    using get_u16_append [of xs "length xs" EXT_KEY_SHARE] get_u16_append2 [of xs "length xs" EXT_KEY_SHARE]
    by (simp only: append_Nil m, subst find_keyshare_from.simps) (simp add: encode_exts_def)
next
  case (Cons x pre)
  obtain t d where x: "x = (t, d)" by (cases x)
  let ?rest = "encode_exts (pre @ (EXT_KEY_SHARE, share_data grp k) # post)"
  have m: "xs @ encode_exts ((x # pre) @ (EXT_KEY_SHARE, share_data grp k) # post) @ ys =
      xs @ to_be16 t @ to_be16 (of_nat (length d)) @ d @ ?rest @ ys"
    by (simp add: encode_exts_def vec16_front x)
  have l: "length d < 2 ^ 16" "t \<noteq> EXT_KEY_SHARE" using Cons.prems(1,2) x by auto
  then have u: "unat (of_nat (length d) :: u16) = length d" by (simp add: unat_of_nat)
  have IH: "find_keyshare_from ((xs @ to_be16 t @ to_be16 (of_nat (length d)) @ d) @ ?rest @ ys) e
      (length (xs @ to_be16 t @ to_be16 (of_nat (length d)) @ d)) =
    Some (Some (grp, length (xs @ to_be16 t @ to_be16 (of_nat (length d)) @ d) + length (encode_exts pre) + 8, length k))"
    using Cons.prems x by (intro Cons.IH) (auto simp: encode_exts_def)
  have "length xs + 4 \<le> e" using Cons.prems(5) x by (simp add: encode_exts_def)
  then have "find_keyshare_from (xs @ to_be16 t @ to_be16 (of_nat (length d)) @ d @ ?rest @ ys) e (length xs) =
      find_keyshare_from (xs @ to_be16 t @ to_be16 (of_nat (length d)) @ d @ ?rest @ ys) e (length xs + 4 + length d)"
    using get_u16_append [of xs "length xs" t] get_u16_append2 [of xs "length xs" t] l(2) u
    by (subst find_keyshare_from.simps) simp
  also have "\<dots> = Some (Some (grp, length xs + 4 + length d + length (encode_exts pre) + 8, length k))"
  proof -
    have "length (xs @ to_be16 t @ to_be16 (of_nat (length d)) @ d) = length xs + 4 + length d" by simp
    with IH show ?thesis by (simp only: append_assoc)
  qed
  also have "length xs + 4 + length d + length (encode_exts pre) + 8 = length xs + length (encode_exts (x # pre)) + 8"
    by (simp add: encode_exts_def x)
  finally show ?case unfolding m .
qed

text \<open>The fixed part of a ServerHello around its random and session id.\<close>

definition hello_form :: "bytes \<Rightarrow> bytes \<Rightarrow> bytes \<Rightarrow> u16 \<Rightarrow> (u16 \<times> bytes) list \<Rightarrow> bytes" where
  "hello_form front random sid cipher es = front @ random @ vec8 sid @ to_be16 cipher @ 0 # vec16 (encode_exts es)"

lemma server_hello_form:
  "server_hello random sid cipher es =
     hello_form (HS_SERVER_HELLO # u24 (length (server_hello_body random sid cipher es)) @ [3, 3]) random sid cipher es"
  by (simp add: server_hello_def handshake_message_def server_hello_body_def hello_form_def)

lemma hello_form_sid:
  assumes "length front = 6" and "length random = 32" and "length sid < 256"
  shows "get_at (hello_form front random sid cipher es) 38 = Some (of_nat (length sid)) \<and>
    unat (of_nat (length sid) :: u8) = length sid \<and> 39 + length sid \<le> length (hello_form front random sid cipher es)"
proof -
  have "unat (of_nat (length sid) :: u8) = length sid" using assms(3) unfolding unat_of_nat by simp
  with assms show ?thesis by (simp add: get_at_def hello_form_def vec8_def nth_append)
qed

lemma hello_form_cipher:
  assumes "length front = 6" and "length random = 32" and "length sid < 256"
  shows "server_hello_cipher_suite (hello_form front random sid cipher es) = Some cipher"
proof -
  have "get_u16 ((front @ random @ vec8 sid) @ to_be16 cipher @ 0 # vec16 (encode_exts es)) (39 + length sid) = Some cipher"
    using assms by (intro get_u16_append) simp
  with hello_form_sid [OF assms, of cipher es] show ?thesis
    by (simp add: server_hello_cipher_suite_def) (simp add: hello_form_def)
qed

text \<open>A list of extensions with exactly the key share \<open>k\<close> of group \<open>grp\<close> first among the key shares.\<close>

definition share_in :: "(u16 \<times> bytes) list \<Rightarrow> (u16 \<times> bytes) list \<Rightarrow> u16 \<Rightarrow> bytes \<Rightarrow> (u16 \<times> bytes) list" where
  "share_in pre post grp k = pre @ (EXT_KEY_SHARE, share_data grp k) # post"

definition share_ok :: "(u16 \<times> bytes) list \<Rightarrow> (u16 \<times> bytes) list \<Rightarrow> u16 \<Rightarrow> bytes \<Rightarrow> bool" where
  "share_ok pre post grp k \<longleftrightarrow> exts_ok (share_in pre post grp k) \<and> EXT_KEY_SHARE \<notin> fst ` set pre"

lemma length_share_data [simp]: "length (share_data grp k) = length k + 4"
  by (simp add: share_data_def)

lemma hello_form_keyshare:
  assumes "length front = 6" and "length random = 32" and "length sid < 256" and "share_ok pre post grp k"
  shows "find_server_keyshare (hello_form front random sid cipher (share_in pre post grp k)) =
    Some (Some (grp, 44 + length sid + length (encode_exts pre) + 8, length k))"
proof -
  let ?es = "share_in pre post grp k"
  let ?x = "front @ random @ vec8 sid @ to_be16 cipher @ [0]"
  let ?m = "hello_form front random sid cipher ?es"
  have m: "?m = ?x @ to_be16 (of_nat (length (encode_exts ?es))) @ encode_exts ?es"
    by (simp add: hello_form_def vec16_front)
  have lx: "length ?x = 42 + length sid" using assms by simp
  have le: "length (encode_exts ?es) < 2 ^ 16" using assms(4) by (simp add: share_ok_def exts_ok_def)
  then have u: "unat (of_nat (length (encode_exts ?es)) :: u16) = length (encode_exts ?es)" by (simp add: unat_of_nat)
  have g: "get_u16 ?m (42 + length sid) = Some (of_nat (length (encode_exts ?es)))"
    unfolding m by (rule get_u16_append [OF lx])
  have "find_keyshare_from ((?x @ to_be16 (of_nat (length (encode_exts ?es)))) @ encode_exts ?es @ [])
      (44 + length sid + length (encode_exts ?es)) (length (?x @ to_be16 (of_nat (length (encode_exts ?es))))) =
    Some (Some (grp, length (?x @ to_be16 (of_nat (length (encode_exts ?es)))) + length (encode_exts pre) + 8, length k))"
    using assms(4) lx unfolding share_in_def
    by (intro find_keyshare_skip) (auto simp: share_ok_def exts_ok_def share_in_def)
  then have "find_keyshare_from ?m (44 + length sid + length (encode_exts ?es)) (44 + length sid) =
    Some (Some (grp, 44 + length sid + length (encode_exts pre) + 8, length k))"
    using assms(1,2) unfolding m by simp
  with g u hello_form_sid [OF assms(1-3), of cipher ?es] show ?thesis
    by (simp add: find_server_keyshare_def Let_def add.commute add.left_commute)
qed

lemma u24_length:
  "n < 2 ^ 24 \<Longrightarrow> len24 (u24 n ! 0) (u24 n ! 1) (u24 n ! 2) = n"
proof -
  assume n: "n < 2 ^ 24"
  have w: "unat (of_nat n :: u32) = n" using n by (simp add: unat_of_nat)
  have "unat (ucast (drop_bit 16 (of_nat n :: u32)) :: u8) = n div 65536 mod 256"
       "unat (ucast (drop_bit 8 (of_nat n :: u32)) :: u8) = n div 256 mod 256"
       "unat (ucast (of_nat n :: u32) :: u8) = n mod 256"
    using w by (simp_all add: unsigned_ucast_eq drop_bit_eq_div unat_div take_bit_eq_mod del: unat_of_nat)
  moreover have "n div 65536 mod 256 = n div 65536" using n by simp
  moreover have "n div 65536 * 65536 + n div 256 mod 256 * 256 + n mod 256 = n"
  proof -
    have "n div 65536 = n div 256 div 256" by (simp add: div_mult2_eq)
    moreover have "n div 256 div 256 * 256 + n div 256 mod 256 = n div 256" "n div 256 * 256 + n mod 256 = n"
      by (rule div_mult_mod_eq)+
    ultimately show ?thesis by linarith
  qed
  ultimately show ?thesis by (simp add: len24_def u24_def Let_def)
qed

lemma u24_len24: "u24 (len24 a b c) = [a, b, c]"
proof -
  let ?n = "len24 a b c"
  have l: "unat a < 256" "unat b < 256" "unat c < 256"
    using unsigned_less [of a, where 'a = nat] unsigned_less [of b, where 'a = nat] unsigned_less [of c, where 'a = nat] by simp_all
  then have n: "?n < 2 ^ 24" by (simp add: len24_def)
  have w: "unat (of_nat ?n :: u32) = ?n" using n by (simp add: unat_of_nat)
  have q: "?n = (unat a * 256 + unat b) * 256 + unat c" by (simp add: len24_def)
  have "?n div 65536 = unat a" using l by (simp add: len24_def)
  moreover have "?n div 256 = unat a * 256 + unat b" "?n mod 256 = unat c"
    using l(3) div_mult_self3 [of 256 "unat a * 256 + unat b" "unat c"] mod_mult_self3 [of "unat a * 256 + unat b" 256 "unat c"]
    unfolding q by simp_all
  moreover have "(unat a * 256 + unat b) mod 256 = unat b" using l(2) by simp
  ultimately have "?n div 65536 = unat a" "?n div 256 mod 256 = unat b" "?n mod 256 = unat c" by simp_all
  then have "unat (ucast (drop_bit 16 (of_nat ?n :: u32)) :: u8) = unat a"
       "unat (ucast (drop_bit 8 (of_nat ?n :: u32)) :: u8) = unat b"
       "unat (ucast (of_nat ?n :: u32) :: u8) = unat c"
    using w l by (simp_all add: unsigned_ucast_eq drop_bit_eq_div unat_div take_bit_eq_mod del: unat_of_nat)
  then show ?thesis by (simp add: u24_def Let_def word_unat_eq_iff)
qed

lemma length_server_hello_body:
  assumes "length random = 32" and "length sid < 256" and "length (encode_exts es) < 2 ^ 16"
  shows "length (server_hello_body random sid cipher es) < 2 ^ 24"
  using assms by (simp add: server_hello_body_def)

lemma server_hello_body_len_ok:
  assumes "length random = 32" and "length sid < 256" and "length (encode_exts es) < 2 ^ 16"
  shows "server_hello_body_len (server_hello random sid cipher es) = Inr (length (server_hello random sid cipher es) - 4)"
proof -
  let ?n = "length (server_hello_body random sid cipher es)"
  have "u24 ?n = [u24 ?n ! 0, u24 ?n ! 1, u24 ?n ! 2]" by (simp add: u24_def Let_def)
  then have "(u24 ?n @ x) ! 0 = u24 ?n ! 0" "(u24 ?n @ x) ! Suc 0 = u24 ?n ! 1" "(u24 ?n @ x) ! Suc (Suc 0) = u24 ?n ! 2" for x
    by (simp_all add: nth_append numeral_2_eq_2)
  then show ?thesis using u24_length [OF length_server_hello_body [OF assms]]
    by (simp add: server_hello_body_len_def server_hello_def handshake_message_def numeral_2_eq_2 numeral_3_eq_3)
qed

lemma rewrite_server_hello:
  assumes "length r0 = 32" and "length sid0 < 256" and "length (encode_exts es) < 2 ^ 16" and "length r = 32"
  shows "rewrite_random_and_session_id (server_hello r0 sid0 cipher es) sid r = Inr (server_hello r sid cipher es)"
proof -
  let ?u = "u24 (length (server_hello_body r0 sid0 cipher es))"
  let ?t = "server_hello r0 sid0 cipher es"
  have front: "length (HS_SERVER_HELLO # ?u @ [3, 3]) = 6" by simp
  have t: "?t = hello_form (HS_SERVER_HELLO # ?u @ [3, 3]) r0 sid0 cipher es" by (rule server_hello_form)
  have sid: "get_at ?t 38 = Some (of_nat (length sid0))" "unat (of_nat (length sid0) :: u8) = length sid0"
      "39 + length sid0 \<le> length ?t"
    using hello_form_sid [OF front assms(1,2)] unfolding t by blast+
  have tk: "take 6 ?t = HS_SERVER_HELLO # ?u @ [3, 3]"
    unfolding t hello_form_def using front by (simp del: append_Cons)
  have dr: "drop (39 + length sid0) ?t = to_be16 cipher @ 0 # vec16 (encode_exts es)"
  proof -
    have "?t = ((HS_SERVER_HELLO # ?u @ [3, 3]) @ r0 @ vec8 sid0) @ to_be16 cipher @ 0 # vec16 (encode_exts es)"
      unfolding t hello_form_def by simp
    moreover have "length ((HS_SERVER_HELLO # ?u @ [3, 3]) @ r0 @ vec8 sid0) = 39 + length sid0" using assms(1) by simp
    ultimately show ?thesis by (metis append_eq_conv_conj)
  qed
  let ?out = "take 6 ?t @ r @ of_nat (length sid) # sid @ drop (38 + (1 + length sid0)) ?t"
  have out: "?out = HS_SERVER_HELLO # ?u @ server_hello_body r sid cipher es"
    using tk dr by (simp add: server_hello_body_def vec8_def)
  have "rewrite_random_and_session_id ?t sid r = Inr (take 1 ?out @ u24 (length ?out - 4) @ drop 4 ?out)"
    using sid server_hello_body_len_ok [OF assms(1-3), of cipher]
    by (simp add: rewrite_random_and_session_id_def Let_def)
  also have "take 1 ?out @ u24 (length ?out - 4) @ drop 4 ?out = server_hello r sid cipher es"
    unfolding out by (simp add: server_hello_def handshake_message_def)
  finally show ?thesis .
qed

lemma encode_exts_share:
  "encode_exts (share_in pre post grp k) =
     (encode_exts pre @ to_be16 EXT_KEY_SHARE @ be_len16 (length k + 4) @ to_be16 grp @ be_len16 (length k)) @ k @ encode_exts post"
  by (simp add: encode_exts_def share_in_def vec16_def) (simp add: share_data_def vec16_def)

lemma splice_middle: "length a = i \<Longrightarrow> length k = length k0 \<Longrightarrow> splice (a @ k0 @ b) i k = a @ k @ b"
  by (simp add: splice_def)

lemma splice_server_hello:
  assumes "length r = 32" and "length sid < 256" and "length k = length k0"
  shows "splice (server_hello r sid cipher (share_in pre post grp k0)) (44 + length sid + length (encode_exts pre) + 8) k =
    server_hello r sid cipher (share_in pre post grp k)"
proof -
  let ?n = "length (server_hello_body r sid cipher (share_in pre post grp k0))"
  have n: "length (server_hello_body r sid cipher (share_in pre post grp k)) = ?n"
    using assms(3) by (simp add: server_hello_body_def encode_exts_share)
  have l: "length (encode_exts (share_in pre post grp k)) = length (encode_exts (share_in pre post grp k0))"
    using assms(3) by (simp add: encode_exts_share)
  let ?a = "HS_SERVER_HELLO # u24 ?n @ [3, 3] @ r @ vec8 sid @ to_be16 cipher @ 0 #
    be_len16 (length (encode_exts (share_in pre post grp k0))) @ encode_exts pre @ to_be16 EXT_KEY_SHARE @
    be_len16 (length k0 + 4) @ to_be16 grp @ be_len16 (length k0)"
  have f: "server_hello r sid cipher (share_in pre post grp k0) = ?a @ k0 @ encode_exts post"
    by (simp add: server_hello_def handshake_message_def server_hello_body_def vec16_def encode_exts_share [of _ _ _ k0])
  have g: "server_hello r sid cipher (share_in pre post grp k) = ?a @ k @ encode_exts post"
    unfolding server_hello_def handshake_message_def n
    using assms(3) by (simp add: server_hello_body_def vec16_def l) (simp add: encode_exts_share)
  have "length ?a = 44 + length sid + length (encode_exts pre) + 8" using assms(1) by simp
  then show ?thesis unfolding f g by (rule splice_middle [OF _ assms(3)])
qed

lemma share_ok_same_length: "share_ok pre post grp k0 \<Longrightarrow> length k = length k0 \<Longrightarrow> share_ok pre post grp k"
  by (simp add: share_ok_def exts_ok_def encode_exts_share) (simp add: share_in_def)

lemma find_in_server_hello:
  assumes "length r = 32" and "length sid < 256" and "share_ok pre post grp k"
  shows "find_server_keyshare (server_hello r sid cipher (share_in pre post grp k)) =
      Some (Some (grp, 44 + length sid + length (encode_exts pre) + 8, length k))"
    and "server_hello_cipher_suite (server_hello r sid cipher (share_in pre post grp k)) = Some cipher"
  using hello_form_keyshare [OF _ assms] hello_form_cipher [OF _ assms(1,2)]
  by (simp_all add: server_hello_form)

lemma synthesized:
  assumes t: "length r0 = 32" "length sid0 < 256" "share_ok pre post grp k0"
    and c: "offers_tls13 (ch_offer client)" "length (ch_session_id client) \<le> 32" "cipher_offered client (suite_to_u16 suite)"
      "keyshare_group_offered client grp"
    and k: "length k = length k0" and r: "length r = 32"
  shows "synthesize_server_hello (server_hello r0 sid0 (suite_to_u16 suite) (share_in pre post grp k0)) client k r =
    Some (Inr \<lparr>sh_message = server_hello r (ch_session_id client) (suite_to_u16 suite) (share_in pre post grp k),
               sh_suite = suite, key_share_group = grp\<rparr>)"
proof -
  let ?cipher = "suite_to_u16 suite"
  have le: "length (encode_exts (share_in pre post grp k0)) < 2 ^ 16" using t(3) by (simp add: share_ok_def exts_ok_def)
  have sid: "length (ch_session_id client) < 256" using c(2) by simp
  have v: "validate_server_hello_template (server_hello r0 sid0 ?cipher (share_in pre post grp k0)) = Some (Inr ())"
    using server_hello_body_len_ok [OF t(1,2) le] find_in_server_hello [OF t] by (simp add: validate_server_hello_template_def)
  show ?thesis
    using v c k find_in_server_hello [OF t] rewrite_server_hello [OF t(1,2) le r] find_in_server_hello(1) [OF r sid t(3)]
      splice_server_hello [OF r sid k]
    by (simp add: synthesize_server_hello_def)
qed

text \<open>
  The ServerHello is the template with three fields replaced: for a well-formed captured template and
  a client that offers TLS 1.3, its cipher suite and its group, synthesis yields exactly the template
  with the new random, the client's session id (of any length up to 32) and the new key share, all
  length fields right and every other extension kept in place; and whatever the template, a
  ServerHello is synthesised only for a client that offered TLS 1.3, the chosen suite and the chosen
  group.
\<close>

lemma server_hello_synthesised:
  assumes "length r0 = 32" and "length sid0 < 256" and "share_ok pre post grp k0" and "length k = length k0" and "length r = 32"
    and "offers_tls13 (ch_offer client)" and "length (ch_session_id client) \<le> 32"
    and "cipher_offered client (suite_to_u16 suite)" and "keyshare_group_offered client grp"
  shows "synthesize_server_hello (server_hello r0 sid0 (suite_to_u16 suite) (share_in pre post grp k0)) client k r =
      Some (Inr \<lparr>sh_message = server_hello r (ch_session_id client) (suite_to_u16 suite) (share_in pre post grp k),
                 sh_suite = suite, key_share_group = grp\<rparr>) \<and>
    (\<forall>t cl k' r' sh. synthesize_server_hello t cl k' r' = Some (Inr sh) \<longrightarrow>
       offers_tls13 (ch_offer cl) \<and> length (ch_session_id cl) \<le> 32 \<and>
       cipher_offered cl (suite_to_u16 (sh_suite sh)) \<and> keyshare_group_offered cl (key_share_group sh))"
proof
  show "synthesize_server_hello (server_hello r0 sid0 (suite_to_u16 suite) (share_in pre post grp k0)) client k r =
      Some (Inr \<lparr>sh_message = server_hello r (ch_session_id client) (suite_to_u16 suite) (share_in pre post grp k),
                 sh_suite = suite, key_share_group = grp\<rparr>)"
    using assms by (intro synthesized)
  show "\<forall>t cl k' r' sh. synthesize_server_hello t cl k' r' = Some (Inr sh) \<longrightarrow>
       offers_tls13 (ch_offer cl) \<and> length (ch_session_id cl) \<le> 32 \<and>
       cipher_offered cl (suite_to_u16 (sh_suite sh)) \<and> keyshare_group_offered cl (key_share_group sh)"
    by (auto simp: synthesize_server_hello_def suite_from_u16_Some
        split: option.splits sum.splits if_splits prod.splits)
qed

definition demo_client :: client_hello where
  "demo_client = \<lparr>ch_offer = \<lparr>server_name = None, key_shares = [\<lparr>ks_group = 0x1d, ks_data = replicate 32 1\<rparr>],
       signature_schemes = [0x0403], offers_tls13 = True, alpn = []\<rparr>,
     ch_random = replicate 32 2, ch_session_id = replicate 32 9, cipher_suites = [0x1301], raw_message = []\<rparr>"

lemma demo_client_offers:
  "offers_tls13 (ch_offer demo_client)" "length (ch_session_id demo_client) \<le> 32"
  "cipher_offered demo_client (suite_to_u16 Aes128GcmSha256)" "keyshare_group_offered demo_client 0x1d"
proof -
  have "is_grease 0x1d \<longleftrightarrow> False" by (simp add: is_grease_def)
  then show "offers_tls13 (ch_offer demo_client)" "length (ch_session_id demo_client) \<le> 32"
    "cipher_offered demo_client (suite_to_u16 Aes128GcmSha256)" "keyshare_group_offered demo_client 0x1d"
    by (simp_all add: demo_client_def cipher_offered_def keyshare_group_offered_def)
qed

lemma demo_share_ok: "share_ok [(0x2b, [3, 4])] [] 0x1d (replicate 32 5)"
  by (simp add: share_ok_def exts_ok_def share_in_def encode_exts_def EXT_KEY_SHARE_def)

lemma server_hello_synthesised_example:
  "synthesize_server_hello (server_hello (replicate 32 0) [] 0x1301 (share_in [(0x2b, [3, 4])] [] 0x1d (replicate 32 5)))
     demo_client (replicate 32 6) (replicate 32 7) =
   Some (Inr \<lparr>sh_message = server_hello (replicate 32 7) (replicate 32 9) 0x1301 (share_in [(0x2b, [3, 4])] [] 0x1d (replicate 32 6)),
              sh_suite = Aes128GcmSha256, key_share_group = 0x1d\<rparr>)"
proof -
  have "ch_session_id demo_client = replicate 32 9" by (simp add: demo_client_def)
  with server_hello_synthesised [OF _ _ demo_share_ok _ _ demo_client_offers, of "replicate 32 0" "[]" "replicate 32 6" "replicate 32 7"]
  show ?thesis by simp
qed

text \<open>
  The template check can itself panic: a captured ServerHello whose extension block announces more
  bytes than the message holds passes the length check of the handshake header and makes the
  extension loop index past the end.
\<close>

lemma truncated_template_panics:
  "\<exists>t. server_hello_body_len t = Inr (length t - 4) \<and> validate_server_hello_template t = None"
proof -
  let ?body = "replicate 34 0 @ [0, 0x13, 1, 0, 0, 4] :: bytes"
  let ?t = "[2, 0, 0, 40] @ ?body"
  have l: "length ?t = 44" by simp
  have r: "?t ! 38 = 0" "?t ! 42 = 0" "?t ! 43 = 4"
    by (simp_all add: nth_append nth_Cons' )
  have b: "server_hello_body_len ?t = Inr (length ?t - 4)"
    by (simp add: server_hello_body_len_def HS_SERVER_HELLO_def len24_def)
  have "get_at ?t 38 = Some 0" using r l by (simp only: get_at_def) simp
  moreover have "get_u16 ?t 42 = Some 4" using r l by (simp only: get_u16_def) (simp add: from_be16_def)
  moreover have "find_keyshare_from ?t 48 44 = None"
    using l by (subst find_keyshare_from.simps) (simp only: get_u16_def, simp)
  ultimately have "find_server_keyshare ?t = None"
    by (simp only: find_server_keyshare_def Let_def) simp
  with b show ?thesis by (intro exI [of _ ?t]) (simp add: validate_server_hello_template_def)
qed

end
