(* ===== verification/TlsCert.thy ===== *)
theory TlsCert
  imports TlsMessages Text
begin

text \<open>
  Certificates and signing of the TLS backend, \<^verbatim>\<open>src/tls/cert.rs\<close>: the PEM reader, the choice of a signature
  scheme, and the Certificate and CertificateVerify messages. Signing itself (the \<open>ring\<close> crate) and the
  base64 decoder are parameters; reading files, DER parsing and the match of key and leaf certificate
  (\<open>x509_parser\<close>) are not modelled.
\<close>

section \<open>PEM\<close>

record pem_section =
  pem_label :: bytes
  pem_der :: bytes

datatype tls_error = PemError | MissingCertificate | MissingPrivateKey

definition newline :: u8 where "newline = 10"
definition carriage_return :: u8 where "carriage_return = 13"

definition strip_cr :: "bytes \<Rightarrow> bytes" where
  "strip_cr l = (case strip_suffix [carriage_return] l of Some l' \<Rightarrow> l' | None \<Rightarrow> l)"

text \<open>\<open>str::lines\<close>: a line that ends in a line feed loses it and a carriage return before it; the rest
  after the last line feed is a line unless it is empty.\<close>

definition text_lines :: "bytes \<Rightarrow> bytes list" where
  "text_lines s =
     (let parts = split_on newline s
      in map strip_cr (butlast parts) @ (if last parts = [] then [] else [last parts]))"

definition is_ascii_whitespace :: "u8 \<Rightarrow> bool" where
  "is_ascii_whitespace b \<longleftrightarrow> b \<in> {32, 9, 10, 12, 13}"

fun pem_body :: "bytes \<Rightarrow> bytes \<Rightarrow> bytes list \<Rightarrow> (bytes \<times> bytes list) option" where
  "pem_body end_line body [] = None"
| "pem_body end_line body (l # ls) =
     (if l = end_line then Some (body, ls)
      else pem_body end_line (body @ filter (\<lambda>c. \<not> is_ascii_whitespace c) l) ls)"

lemma pem_body_shorter: "pem_body e b ls = Some (x, rest) \<Longrightarrow> length rest < length ls"
  by (induction ls arbitrary: b) (fastforce split: if_splits)+

definition begin_label :: "bytes \<Rightarrow> bytes option" where
  "begin_label l = Option.bind (strip_prefix (bytes_of ''-----BEGIN '') l) (strip_suffix (bytes_of ''-----''))"

definition end_line :: "bytes \<Rightarrow> bytes" where
  "end_line label = bytes_of ''-----END '' @ label @ bytes_of ''-----''"

function pem_from :: "(bytes \<Rightarrow> bytes option) \<Rightarrow> bytes list \<Rightarrow> tls_error + pem_section list" where
  "pem_from b64 [] = Inr []"
| "pem_from b64 (l # ls) =
     (case begin_label l of
        None \<Rightarrow> pem_from b64 ls
      | Some label \<Rightarrow>
          (case pem_body (end_line label) [] ls of
             None \<Rightarrow> Inl PemError
           | Some (body, rest) \<Rightarrow>
               (case b64 body of
                  None \<Rightarrow> Inl PemError
                | Some der \<Rightarrow>
                    (case pem_from b64 rest of
                       Inl e \<Rightarrow> Inl e
                     | Inr secs \<Rightarrow> Inr (\<lparr>pem_label = label, pem_der = der\<rparr> # secs)))))"
  by pat_completeness auto
termination
  by (relation "measure (length \<circ> snd)") (auto dest: pem_body_shorter)

definition pem_sections :: "(bytes \<Rightarrow> bytes option) \<Rightarrow> bytes \<Rightarrow> tls_error + pem_section list" where
  "pem_sections b64 input = (if \<not> utf8_valid input then Inl PemError else pem_from b64 (text_lines input))"

definition load_cert_chain :: "(bytes \<Rightarrow> bytes option) \<Rightarrow> bytes \<Rightarrow> tls_error + bytes list" where
  "load_cert_chain b64 file =
     (case pem_sections b64 file of
        Inl e \<Rightarrow> Inl e
      | Inr secs \<Rightarrow>
          let chain = map pem_der (filter (\<lambda>s. pem_label s = bytes_of ''CERTIFICATE'') secs)
          in if chain = [] then Inl MissingCertificate else Inr chain)"

datatype private_key_der = Pkcs1 bytes | Sec1 bytes | Pkcs8 bytes

fun first_key :: "pem_section list \<Rightarrow> tls_error + private_key_der" where
  "first_key [] = Inl MissingPrivateKey"
| "first_key (s # ss) =
     (if pem_label s = bytes_of ''RSA PRIVATE KEY'' then Inr (Pkcs1 (pem_der s))
      else if pem_label s = bytes_of ''EC PRIVATE KEY'' then Inr (Sec1 (pem_der s))
      else if pem_label s = bytes_of ''PRIVATE KEY'' then Inr (Pkcs8 (pem_der s))
      else first_key ss)"

definition load_private_key :: "(bytes \<Rightarrow> bytes option) \<Rightarrow> bytes \<Rightarrow> tls_error + private_key_der" where
  "load_private_key b64 file = (case pem_sections b64 file of Inl e \<Rightarrow> Inl e | Inr secs \<Rightarrow> first_key secs)"

section \<open>Signature schemes\<close>

definition ECDSA_NISTP256_SHA256 :: u16 where "ECDSA_NISTP256_SHA256 = 0x0403"
definition ECDSA_NISTP384_SHA384 :: u16 where "ECDSA_NISTP384_SHA384 = 0x0503"
definition RSA_PSS_SHA256 :: u16 where "RSA_PSS_SHA256 = 0x0804"
definition RSA_PSS_SHA384 :: u16 where "RSA_PSS_SHA384 = 0x0805"
definition RSA_PSS_SHA512 :: u16 where "RSA_PSS_SHA512 = 0x0806"
definition ED25519 :: u16 where "ED25519 = 0x0807"

datatype ring_signing_key = RsaKey | EcdsaP256Key | EcdsaP384Key | Ed25519Key

definition choose_first :: "u16 list \<Rightarrow> u16 list \<Rightarrow> u16 option" where
  "choose_first offered allowed = find (\<lambda>s. s \<in> set allowed) offered"

fun choose_scheme :: "ring_signing_key \<Rightarrow> u16 list \<Rightarrow> u16 option" where
  "choose_scheme RsaKey offered = choose_first offered [RSA_PSS_SHA256, RSA_PSS_SHA384, RSA_PSS_SHA512]"
| "choose_scheme EcdsaP256Key offered = (if ECDSA_NISTP256_SHA256 \<in> set offered then Some ECDSA_NISTP256_SHA256 else None)"
| "choose_scheme EcdsaP384Key offered = (if ECDSA_NISTP384_SHA384 \<in> set offered then Some ECDSA_NISTP384_SHA384 else None)"
| "choose_scheme Ed25519Key offered = (if ED25519 \<in> set offered then Some ED25519 else None)"

section \<open>Messages\<close>

text \<open>\<open>id_sign\<close> is the signer of the key: scheme and message to signature.\<close>

record identity =
  id_chain :: "bytes list"
  id_key :: ring_signing_key
  id_sign :: "u16 \<Rightarrow> bytes \<Rightarrow> bytes option"

datatype certificate_verify_error = NoSupportedSignatureScheme | SigningFailed

definition new_identity :: "bytes list \<Rightarrow> ring_signing_key \<Rightarrow> (u16 \<Rightarrow> bytes \<Rightarrow> bytes option) \<Rightarrow> tls_error + identity" where
  "new_identity chain k sign =
     (if chain = [] then Inl MissingCertificate else Inr \<lparr>id_chain = chain, id_key = k, id_sign = sign\<rparr>)"

definition certificate_message :: "bytes list \<Rightarrow> bytes" where
  "certificate_message chain =
     (let cert_list = concat (map (\<lambda>c. u24 (length c) @ c @ [0, 0]) chain)
      in handshake_message HS_CERTIFICATE (0 # u24 (length cert_list) @ cert_list))"

definition certificate_verify_content :: "bytes \<Rightarrow> bytes" where
  "certificate_verify_content transcript_hash =
     replicate 64 0x20 @ bytes_of ''TLS 1.3, server CertificateVerify'' @ 0 # transcript_hash"

definition certificate_verify_message :: "u16 \<Rightarrow> bytes \<Rightarrow> bytes" where
  "certificate_verify_message scheme signature =
     handshake_message HS_CERTIFICATE_VERIFY (to_be16 scheme @ be_len16 (length signature) @ signature)"

definition sign_certificate_verify :: "identity \<Rightarrow> bytes \<Rightarrow> u16 list \<Rightarrow> certificate_verify_error + bytes" where
  "sign_certificate_verify i transcript_hash offered =
     (case choose_scheme (id_key i) offered of
        None \<Rightarrow> Inl NoSupportedSignatureScheme
      | Some scheme \<Rightarrow>
          (case id_sign i scheme (certificate_verify_content transcript_hash) of
             None \<Rightarrow> Inl SigningFailed
           | Some signature \<Rightarrow> Inr (certificate_verify_message scheme signature)))"

lemma choose_scheme_offered: "choose_scheme k offered = Some s \<Longrightarrow> s \<in> set offered"
  by (cases k) (auto simp: choose_first_def find_Some_iff in_set_conv_nth split: if_splits)

section \<open>Reading back what a PEM file holds\<close>

text \<open>A section as it is written: the base64 text of the data in lines, each line with a line feed.\<close>

definition write_lines :: "bytes list \<Rightarrow> bytes" where
  "write_lines ls = concat (map (\<lambda>l. l @ [newline]) ls)"

definition section_lines :: "bytes \<Rightarrow> bytes list \<Rightarrow> bytes list" where
  "section_lines label body = (bytes_of ''-----BEGIN '' @ label @ bytes_of ''-----'') # body @ [end_line label]"

lemma split_write_lines: "\<forall>l \<in> set ls. newline \<notin> set l \<Longrightarrow> split_on newline (write_lines ls) = ls @ [[]]"
  by (induction ls) (simp_all add: write_lines_def split_on_append)

lemma strip_cr_id: "carriage_return \<notin> set l \<Longrightarrow> strip_cr l = l"
proof (cases "strip_suffix [carriage_return] l")
  case (Some x)
  moreover assume "carriage_return \<notin> set l"
  ultimately have "rev l = [carriage_return] @ rev x \<Longrightarrow> False"
    by (metis append_Cons list.set_intros(1) set_rev)
  with Some show ?thesis by (auto simp: strip_suffix_def strip_prefix_Some)
qed (simp add: strip_cr_def)

lemma text_lines_write:
  assumes "\<forall>l \<in> set ls. newline \<notin> set l \<and> carriage_return \<notin> set l"
  shows "text_lines (write_lines ls) = ls"
proof -
  have "map strip_cr ls = ls" using assms by (intro map_idI) (simp add: strip_cr_id)
  with split_write_lines [of ls] assms show ?thesis by (simp add: text_lines_def)
qed

lemma begin_label_write: "begin_label (bytes_of ''-----BEGIN '' @ label @ bytes_of ''-----'') = Some label"
  by (simp add: begin_label_def)

text \<open>A line of base64 text: no white space, and not a dashed line.\<close>

definition body_line :: "bytes \<Rightarrow> bool" where
  "body_line l \<longleftrightarrow> list_all (\<lambda>c. \<not> is_ascii_whitespace c) l \<and> of_char (CHR ''-'') \<notin> set l"

lemma pem_body_write:
  "list_all body_line body \<Longrightarrow> pem_body (end_line label) b (body @ end_line label # rest) = Some (b @ concat body, rest)"
proof (induction body arbitrary: b)
  case (Cons l body)
  have "of_char (CHR ''-'') \<in> set (end_line label)" by (simp add: end_line_def bytes_of_def)
  then have "l \<noteq> end_line label" using Cons.prems by (auto simp: body_line_def)
  moreover have "filter (\<lambda>c. \<not> is_ascii_whitespace c) l = l" using Cons.prems by (simp add: body_line_def list_all_iff)
  ultimately show ?case using Cons by simp
qed simp

lemma pem_from_write:
  assumes "\<forall>(label, body, der) \<in> set secs. list_all body_line body \<and> b64 (concat body) = Some der"
  shows "pem_from b64 (concat (map (\<lambda>(label, body, der). section_lines label body) secs)) =
    Inr (map (\<lambda>(label, body, der). \<lparr>pem_label = label, pem_der = der\<rparr>) secs)"
  using assms
proof (induction secs)
  case (Cons s secs)
  obtain label body der where s: "s = (label, body, der)" by (cases s)
  with Cons show ?case
    by (simp add: section_lines_def begin_label_write pem_body_write)
qed simp

end
