(* ===== verification/CertStore.thy ===== *)
theory CertStore
  imports TlsCert
begin

text \<open>
  The certificate cache of \<^verbatim>\<open>src/acme.rs\<close> and the loading of an identity from its files
  (\<open>CertifiedIdentity::from_config\<close>, \<^verbatim>\<open>src/tls/cert.rs\<close>). The cache directory is a table of regular files,
  directories of regular files and symbolic links; the system calls the code makes are operations on it. Each of them can fail for
  reasons outside the program: \<open>faults\<close> is the script of these failures, \<open>Breaks n\<close> a call that stops after
  \<open>n\<close> of the bytes it has to write. \<open>history\<close> holds every state of the directory another process, or this
  process after a restart, could have found it in. What a power failure leaves of data that was not synced
  is not modelled; \<open>sync_all\<close> can only succeed or fail.
\<close>

section \<open>The cache directory\<close>

type_synonym dir_files = "(bytes \<times> bytes \<times> nat) list"

datatype cache_node = CacheFile bytes nat | CacheDir dir_files nat | CacheLink bytes

type_synonym cache = "(bytes \<times> cache_node) list"

datatype errno = ENoEnt | EExist | ENotDir | EIsDir | ENotEmpty | EIo

datatype acme_error =
    AIo errno
  | Protocol nat
  | Json
  | MissingHttpChallenge bytes
  | BadAuthorization nat
  | BadOrder nat
  | AcmeTimeout
  | BadCertificate
  | Clock

datatype fault = Passes | Breaks nat

record disk =
  cache :: cache
  faults :: "fault list"
  history :: "cache list"

type_synonym 'a io = "disk \<Rightarrow> (acme_error + 'a) \<times> disk"

definition observe :: "cache \<Rightarrow> disk \<Rightarrow> disk" where
  "observe c d = d\<lparr>cache := c, history := c # history d\<rparr>"

text \<open>A system call: what it does when it goes through, and what is left when it fails after \<open>n\<close> bytes.\<close>

definition sys :: "(cache \<Rightarrow> errno + 'a \<times> cache) \<Rightarrow> (nat \<Rightarrow> cache \<Rightarrow> cache) \<Rightarrow> 'a io" where
  "sys act part d =
     (let d' = d\<lparr>faults := tl (faults d)\<rparr>
      in case faults d of
           Breaks n # _ \<Rightarrow> (Inl (AIo EIo), observe (part n (cache d)) d')
         | _ \<Rightarrow> (case act (cache d) of
                   Inl e \<Rightarrow> (Inl (AIo e), d')
                 | Inr (x, c) \<Rightarrow> (Inr x, observe c d')))"

definition succeed :: "'a \<Rightarrow> 'a io" where
  "succeed x d = (Inr x, d)"

definition fail_with :: "acme_error \<Rightarrow> 'a io" where
  "fail_with e d = (Inl e, d)"

definition and_then :: "'a io \<Rightarrow> ('a \<Rightarrow> 'b io) \<Rightarrow> 'b io" where
  "and_then m f d = (case m d of (Inl e, d') \<Rightarrow> (Inl e, d') | (Inr x, d') \<Rightarrow> f x d')"

text \<open>\<open>let _ = ...\<close>, \<open>.ok()\<close>, and work done when a result is an error.\<close>

definition attempt :: "'a io \<Rightarrow> 'a option io" where
  "attempt m d = (case m d of (Inl e, d') \<Rightarrow> (Inr None, d') | (Inr x, d') \<Rightarrow> (Inr (Some x), d'))"

definition on_error :: "'a io \<Rightarrow> 'b io \<Rightarrow> 'a io" where
  "on_error m h d = (case m d of (Inl e, d') \<Rightarrow> (Inl e, snd (h d')) | (Inr x, d') \<Rightarrow> (Inr x, d'))"

section \<open>System calls\<close>

definition create_dir :: "bytes \<Rightarrow> unit io" where
  "create_dir n =
     sys (\<lambda>c. if map_of c n \<noteq> None then Inl EExist else Inr ((), AList.update n (CacheDir [] 0x1FF) c)) (\<lambda>_ c. c)"

definition set_permissions :: "bytes \<Rightarrow> nat \<Rightarrow> unit io" where
  "set_permissions n m =
     sys (\<lambda>c. case map_of c n of
                None \<Rightarrow> Inl ENoEnt
              | Some (CacheDir fs _) \<Rightarrow> Inr ((), AList.update n (CacheDir fs m) c)
              | Some (CacheFile b _) \<Rightarrow> Inr ((), AList.update n (CacheFile b m) c)
              | Some (CacheLink _) \<Rightarrow> Inl ENoEnt) (\<lambda>_ c. c)"

definition open_in :: "bytes \<Rightarrow> bytes \<Rightarrow> nat \<Rightarrow> unit io" where
  "open_in dir f m =
     sys (\<lambda>c. case map_of c dir of
                Some (CacheDir fs dm) \<Rightarrow>
                  if map_of fs f \<noteq> None then Inl EExist else Inr ((), AList.update dir (CacheDir (AList.update f ([], m) fs) dm) c)
              | None \<Rightarrow> Inl ENoEnt
              | _ \<Rightarrow> Inl ENotDir) (\<lambda>_ c. c)"

definition put_in :: "bytes \<Rightarrow> bytes \<Rightarrow> bytes \<Rightarrow> cache \<Rightarrow> cache" where
  "put_in dir f data c =
     (case map_of c dir of
        Some (CacheDir fs dm) \<Rightarrow>
          (case map_of fs f of
             Some (_, m) \<Rightarrow> AList.update dir (CacheDir (AList.update f (data, m) fs) dm) c
           | None \<Rightarrow> c)
      | _ \<Rightarrow> c)"

definition write_all_in :: "bytes \<Rightarrow> bytes \<Rightarrow> bytes \<Rightarrow> unit io" where
  "write_all_in dir f data = sys (\<lambda>c. Inr ((), put_in dir f data c)) (\<lambda>k. put_in dir f (take k data))"

definition sync_all :: "unit io" where
  "sync_all = sys (\<lambda>c. Inr ((), c)) (\<lambda>_ c. c)"

definition read_in :: "bytes \<Rightarrow> bytes \<Rightarrow> bytes io" where
  "read_in dir f =
     sys (\<lambda>c. case map_of c dir of
                Some (CacheDir fs _) \<Rightarrow> (case map_of fs f of Some (b, _) \<Rightarrow> Inr (b, c) | None \<Rightarrow> Inl ENoEnt)
              | None \<Rightarrow> Inl ENoEnt
              | _ \<Rightarrow> Inl ENotDir) (\<lambda>_ c. c)"

text \<open>\<open>rename(2)\<close>: a directory may replace an empty directory, anything else what is not a directory.\<close>

definition rename_node :: "bytes \<Rightarrow> bytes \<Rightarrow> cache \<Rightarrow> errno + unit \<times> cache" where
  "rename_node a b c =
     (case map_of c a of
        None \<Rightarrow> Inl ENoEnt
      | Some x \<Rightarrow>
          let done = Inr ((), AList.update b x (AList.delete a c))
          in if a = b then Inr ((), c)
             else (case (x, map_of c b) of
                     (_, None) \<Rightarrow> done
                   | (CacheDir _ _, Some (CacheDir fs _)) \<Rightarrow> if fs = [] then done else Inl ENotEmpty
                   | (CacheDir _ _, Some _) \<Rightarrow> Inl ENotDir
                   | (_, Some (CacheDir _ _)) \<Rightarrow> Inl EIsDir
                   | (_, Some _) \<Rightarrow> done))"

definition rename :: "bytes \<Rightarrow> bytes \<Rightarrow> unit io" where
  "rename a b = sys (rename_node a b) (\<lambda>_ c. c)"

definition read_link :: "bytes \<Rightarrow> bytes io" where
  "read_link n = sys (\<lambda>c. case map_of c n of Some (CacheLink t) \<Rightarrow> Inr (t, c) | _ \<Rightarrow> Inl ENoEnt) (\<lambda>_ c. c)"

definition symlink :: "bytes \<Rightarrow> bytes \<Rightarrow> unit io" where
  "symlink t n =
     sys (\<lambda>c. if map_of c n \<noteq> None then Inl EExist else Inr ((), AList.update n (CacheLink t) c)) (\<lambda>_ c. c)"

definition remove_file :: "bytes \<Rightarrow> unit io" where
  "remove_file n =
     sys (\<lambda>c. case map_of c n of
                None \<Rightarrow> Inl ENoEnt
              | Some (CacheDir _ _) \<Rightarrow> Inl EIsDir
              | Some _ \<Rightarrow> Inr ((), AList.delete n c)) (\<lambda>_ c. c)"

definition unlink_in :: "bytes \<Rightarrow> bytes \<Rightarrow> unit io" where
  "unlink_in dir f =
     sys (\<lambda>c. case map_of c dir of
                Some (CacheDir fs dm) \<Rightarrow>
                  if map_of fs f = None then Inl ENoEnt else Inr ((), AList.update dir (CacheDir (AList.delete f fs) dm) c)
              | _ \<Rightarrow> Inl ENoEnt) (\<lambda>_ c. c)"

definition remove_dir :: "bytes \<Rightarrow> unit io" where
  "remove_dir n =
     sys (\<lambda>c. case map_of c n of
                Some (CacheDir fs _) \<Rightarrow> if fs = [] then Inr ((), AList.delete n c) else Inl ENotEmpty
              | None \<Rightarrow> Inl ENoEnt
              | _ \<Rightarrow> Inl ENotDir) (\<lambda>_ c. c)"

definition file_type :: "bytes \<Rightarrow> cache_node io" where
  "file_type n = sys (\<lambda>c. case map_of c n of Some x \<Rightarrow> Inr (x, c) | None \<Rightarrow> Inl ENoEnt) (\<lambda>_ c. c)"

definition read_dir :: "bytes list io" where
  "read_dir = sys (\<lambda>c. Inr (map fst c, c)) (\<lambda>_ c. c)"

text \<open>\<open>fs::remove_dir_all\<close>: a link is removed itself, a directory after its files, one by one.\<close>

fun unlink_all :: "bytes \<Rightarrow> bytes list \<Rightarrow> unit io" where
  "unlink_all dir [] = succeed ()"
| "unlink_all dir (f # fs) = and_then (unlink_in dir f) (\<lambda>_. unlink_all dir fs)"

definition remove_dir_all :: "bytes \<Rightarrow> unit io" where
  "remove_dir_all n =
     and_then (file_type n) (\<lambda>x.
       case x of
         CacheLink _ \<Rightarrow> remove_file n
       | CacheFile _ _ \<Rightarrow> fail_with (AIo ENotDir)
       | CacheDir fs _ \<Rightarrow> and_then (unlink_all n (map fst fs)) (\<lambda>_. remove_dir n))"

section \<open>Loading an identity\<close>

text \<open>
  \<open>ring\<close>, the base64 decoder and \<open>x509_parser\<close> are parameters: the parsers of key pairs give the public key
  and the signer, \<open>x509_der\<close> the subject public key and the validity of a certificate.
\<close>

type_synonym key_pair = "bytes \<times> (u16 \<Rightarrow> bytes \<Rightarrow> bytes option)"

record x509 =
  x_public_key :: bytes
  x_not_before :: int
  x_not_after :: int

record tls_env =
  base64 :: "bytes \<Rightarrow> bytes option"
  rsa_der :: "bytes \<Rightarrow> key_pair option"
  rsa_pkcs8 :: "bytes \<Rightarrow> key_pair option"
  p256_pkcs8 :: "bytes \<Rightarrow> key_pair option"
  p384_pkcs8 :: "bytes \<Rightarrow> key_pair option"
  ed25519_pkcs8 :: "bytes \<Rightarrow> key_pair option"
  x509_der :: "bytes \<Rightarrow> x509 option"
  x509_pem :: "bytes \<Rightarrow> bytes option"

datatype server_error =
  TlsIo acme_error | CertError tls_error | SigningKey | InvalidCertificate | CertificateKeyMismatch

fun parse_rsa_key :: "tls_env \<Rightarrow> private_key_der \<Rightarrow> key_pair option" where
  "parse_rsa_key E (Pkcs1 d) = rsa_der E d"
| "parse_rsa_key E (Pkcs8 d) = rsa_pkcs8 E d"
| "parse_rsa_key E (Sec1 d) = None"

definition from_private_key :: "tls_env \<Rightarrow> private_key_der \<Rightarrow> server_error + ring_signing_key \<times> key_pair" where
  "from_private_key E k =
     (case parse_rsa_key E k of
        Some kp \<Rightarrow> Inr (RsaKey, kp)
      | None \<Rightarrow>
          (case k of
             Pkcs8 d \<Rightarrow>
               (case p256_pkcs8 E d of
                  Some kp \<Rightarrow> Inr (EcdsaP256Key, kp)
                | None \<Rightarrow>
                    (case p384_pkcs8 E d of
                       Some kp \<Rightarrow> Inr (EcdsaP384Key, kp)
                     | None \<Rightarrow> (case ed25519_pkcs8 E d of Some kp \<Rightarrow> Inr (Ed25519Key, kp) | None \<Rightarrow> Inl SigningKey)))
           | _ \<Rightarrow> Inl SigningKey))"

text \<open>What \<open>from_config\<close> does with the private key once the chain is loaded.\<close>

definition identity_with_key :: "tls_env \<Rightarrow> bytes list \<Rightarrow> bytes \<Rightarrow> server_error + identity" where
  "identity_with_key E chain key_file =
     (case load_private_key (base64 E) key_file of
        Inl e \<Rightarrow> Inl (CertError e)
      | Inr k \<Rightarrow>
          (case from_private_key E k of
             Inl e \<Rightarrow> Inl e
           | Inr (rk, pub, sign) \<Rightarrow>
               (case x509_der E (hd chain) of
                  None \<Rightarrow> Inl InvalidCertificate
                | Some leaf \<Rightarrow>
                    if x_public_key leaf \<noteq> pub then Inl CertificateKeyMismatch
                    else (case new_identity chain rk sign of Inl e \<Rightarrow> Inl (CertError e) | Inr i \<Rightarrow> Inr i))))"

definition identity_of :: "tls_env \<Rightarrow> bytes \<times> bytes \<Rightarrow> server_error + identity" where
  "identity_of E p =
     (case load_cert_chain (base64 E) (fst p) of
        Inl e \<Rightarrow> Inl (CertError e)
      | Inr chain \<Rightarrow> identity_with_key E chain (snd p))"

definition usable :: "tls_env \<Rightarrow> bytes \<times> bytes \<Rightarrow> bool" where
  "usable E p \<longleftrightarrow> (case identity_of E p of Inl _ \<Rightarrow> False | Inr _ \<Rightarrow> True)"

definition CERT :: bytes where "CERT = bytes_of ''certificate.pem''"
definition KEY :: bytes where "KEY = bytes_of ''private-key.pem''"
definition CURRENT :: bytes where "CURRENT = bytes_of ''current''"

text \<open>\<open>CertifiedIdentity::from_config\<close> on the two files of a directory of the cache, given how the files are
  read; the files are read in the order of the code.\<close>

definition load_identity :: "tls_env \<Rightarrow> (bytes \<Rightarrow> bytes io) \<Rightarrow> disk \<Rightarrow> (server_error + identity) \<times> disk" where
  "load_identity E rd d =
     (case rd CERT d of
        (Inl e, d1) \<Rightarrow> (Inl (TlsIo e), d1)
      | (Inr cert, d1) \<Rightarrow>
          (case load_cert_chain (base64 E) cert of
             Inl e \<Rightarrow> (Inl (CertError e), d1)
           | Inr chain \<Rightarrow>
               (case rd KEY d1 of
                  (Inl e, d2) \<Rightarrow> (Inl (TlsIo e), d2)
                | (Inr key, d2) \<Rightarrow> (identity_with_key E chain key, d2))))"

definition validate_candidate :: "tls_env \<Rightarrow> bytes \<Rightarrow> unit io" where
  "validate_candidate E dir d =
     (case load_identity E (read_in dir) d of
        (Inl _, d') \<Rightarrow> (Inl BadCertificate, d')
      | (Inr _, d') \<Rightarrow> (Inr (), d'))"

section \<open>Publishing a certificate\<close>

definition hex16 :: "u64 \<Rightarrow> bytes" where
  "hex16 r = map (\<lambda>i. bytes_of ''0123456789abcdef'' ! unat (drop_bit (4 * i) r AND 0xF)) (rev [0..<16])"

definition GENERATION :: bytes where "GENERATION = bytes_of ''generation-''"

definition generation_name :: "u64 \<Rightarrow> bytes" where
  "generation_name r = GENERATION @ hex16 r"

definition temporary_name :: "bytes \<Rightarrow> bytes" where
  "temporary_name g = bytes_of ''.'' @ g @ bytes_of ''.tmp''"

definition link_name :: "nat \<Rightarrow> u64 \<Rightarrow> bytes" where
  "link_name pid r = bytes_of ''.current-'' @ decimal pid @ bytes_of ''-'' @ hex16 r"

definition write_new_file :: "bytes \<Rightarrow> bytes \<Rightarrow> bytes \<Rightarrow> nat \<Rightarrow> unit io" where
  "write_new_file dir f data m =
     and_then (open_in dir f m) (\<lambda>_. and_then (write_all_in dir f data) (\<lambda>_. sync_all))"

definition sync_directory :: "unit io" where
  "sync_directory = and_then (sys (\<lambda>c. Inr ((), c)) (\<lambda>_ c. c)) (\<lambda>_. sync_all)"

text \<open>\<open>Path::file_name\<close>: the last component, unless it is \<open>..\<close>; a component \<open>.\<close> and empty ones do not count.\<close>

definition path_file_name :: "bytes \<Rightarrow> bytes option" where
  "path_file_name t =
     (case rev (filter (\<lambda>p. p \<noteq> [] \<and> p \<noteq> bytes_of ''.'') (split_on (of_char (CHR ''/'')) t)) of
        [] \<Rightarrow> None
      | p # _ \<Rightarrow> if p = bytes_of ''..'' then None else Some p)"

text \<open>An entry of the directory stream can be an error of its own; it is skipped, like a name that is not
  UTF-8 and an entry whose type cannot be read.\<close>

fun cleanup_entries :: "bytes \<Rightarrow> bytes option \<Rightarrow> bytes list \<Rightarrow> unit io" where
  "cleanup_entries cur prev [] = succeed ()"
| "cleanup_entries cur prev (n # ns) =
     and_then (attempt (sys (\<lambda>c. Inr ((), c)) (\<lambda>_ c. c))) (\<lambda>entry.
       if entry = None \<or> \<not> utf8_valid n \<or> strip_prefix GENERATION n = None \<or> n = cur \<or> prev = Some n
       then cleanup_entries cur prev ns
       else and_then (attempt (file_type n)) (\<lambda>x.
              case x of
                Some (CacheDir _ _) \<Rightarrow> and_then (attempt (remove_dir_all n)) (\<lambda>_. cleanup_entries cur prev ns)
              | _ \<Rightarrow> cleanup_entries cur prev ns))"

definition cleanup_generations :: "bytes \<Rightarrow> bytes option \<Rightarrow> unit io" where
  "cleanup_generations cur prev =
     and_then (attempt read_dir) (\<lambda>names.
       case names of
         None \<Rightarrow> succeed ()
       | Some ns \<Rightarrow> cleanup_entries cur (Option.bind prev path_file_name) ns)"

definition switch_current :: "bytes \<Rightarrow> bytes \<Rightarrow> unit io" where
  "switch_current g link =
     and_then (symlink g link) (\<lambda>_. on_error (rename link CURRENT) (remove_file link))"

definition publish_certificate_pair :: "tls_env \<Rightarrow> nat \<Rightarrow> u64 \<Rightarrow> u64 \<Rightarrow> bytes \<times> bytes \<Rightarrow> unit io" where
  "publish_certificate_pair E pid r1 r2 p =
     (let g = generation_name r1; tmp = temporary_name g
      in and_then (create_dir tmp) (\<lambda>_. and_then (set_permissions tmp 0x1C0) (\<lambda>_.
           on_error
             (and_then (write_new_file tmp KEY (snd p) 0x180) (\<lambda>_.
              and_then (write_new_file tmp CERT (fst p) 0x1A4) (\<lambda>_.
              and_then (validate_candidate E tmp) (\<lambda>_.
              and_then (rename tmp g) (\<lambda>_.
              and_then sync_directory (\<lambda>_.
              and_then (attempt (read_link CURRENT)) (\<lambda>prev.
              and_then (switch_current g (link_name pid r2)) (\<lambda>_.
              and_then sync_directory (\<lambda>_. cleanup_generations g prev)))))))))
             (remove_dir_all tmp))))"

section \<open>Reasoning about programs with faults\<close>

text \<open>
  \<open>io_spec P m H Q R\<close>: started in a directory with \<open>P\<close>, every state \<open>m\<close> goes through satisfies \<open>H\<close>, a result
  satisfies \<open>Q\<close> and an error leaves a directory with \<open>R\<close>, whatever calls fail.
\<close>

definition seen :: "(cache \<Rightarrow> bool) \<Rightarrow> disk \<Rightarrow> disk \<Rightarrow> bool" where
  "seen H d d' \<longleftrightarrow> (\<exists>new. history d' = new @ history d \<and> (\<forall>c \<in> set new. H c))"

definition io_spec ::
  "(cache \<Rightarrow> bool) \<Rightarrow> 'a io \<Rightarrow> (cache \<Rightarrow> bool) \<Rightarrow> ('a \<Rightarrow> cache \<Rightarrow> bool) \<Rightarrow> (cache \<Rightarrow> bool) \<Rightarrow> bool" where
  "io_spec P m H Q R \<longleftrightarrow>
     (\<forall>d. P (cache d) \<longrightarrow>
        seen H d (snd (m d)) \<and> (case fst (m d) of Inl e \<Rightarrow> R (cache (snd (m d))) | Inr x \<Rightarrow> Q x (cache (snd (m d)))))"

lemma seen_refl [simp]: "seen H d d"
  by (simp add: seen_def)

lemma seen_trans: "seen H d d1 \<Longrightarrow> seen H d1 d2 \<Longrightarrow> seen H d d2"
  by (fastforce simp: seen_def)

lemma seen_observe: "H c \<Longrightarrow> seen H d (observe c (d\<lparr>faults := fl\<rparr>))"
  by (auto simp: seen_def observe_def intro!: exI [of _ "[c]"])

lemma seen_faults [simp]: "seen H d (d\<lparr>faults := fl\<rparr>)"
  by (simp add: seen_def)

lemma io_specI:
  assumes "\<And>d r d'. P (cache d) \<Longrightarrow> m d = (r, d') \<Longrightarrow>
             seen H d d' \<and> (case r of Inl e \<Rightarrow> R (cache d') | Inr x \<Rightarrow> Q x (cache d'))"
  shows "io_spec P m H Q R"
  unfolding io_spec_def
proof (intro allI impI)
  fix d :: disk
  assume "P (cache d)"
  then show "seen H d (snd (m d)) \<and>
    (case fst (m d) of Inl e \<Rightarrow> R (cache (snd (m d))) | Inr x \<Rightarrow> Q x (cache (snd (m d))))"
    using assms [of d "fst (m d)" "snd (m d)"] by simp
qed

lemma io_specD:
  assumes "io_spec P m H Q R" and "P (cache d)" and "m d = (r, d')"
  shows "seen H d d' \<and> (case r of Inl e \<Rightarrow> R (cache d') | Inr x \<Rightarrow> Q x (cache d'))"
  using assms unfolding io_spec_def by (metis fst_conv snd_conv)

lemma io_conseq:
  assumes "io_spec P' m H Q' R'"
    and "\<And>c. P c \<Longrightarrow> P' c" and "\<And>x c. Q' x c \<Longrightarrow> Q x c" and "\<And>c. R' c \<Longrightarrow> R c"
  shows "io_spec P m H Q R"
proof (rule io_specI)
  fix d :: disk and r d'
  assume "P (cache d)" "m d = (r, d')"
  with io_specD [OF assms(1) assms(2)] assms(3,4)
  show "seen H d d' \<and> (case r of Inl e \<Rightarrow> R (cache d') | Inr x \<Rightarrow> Q x (cache d'))"
    by (fastforce split: sum.splits)
qed

lemma io_sys:
  assumes "\<And>c. P c \<Longrightarrow> (case act c of Inl e \<Rightarrow> R c | Inr (x, c') \<Rightarrow> H c' \<and> Q x c')"
    and "\<And>c n. P c \<Longrightarrow> H (part n c) \<and> R (part n c)"
  shows "io_spec P (sys act part) H Q R"
proof (rule io_specI)
  fix d :: disk and r d'
  assume d: "P (cache d)" "sys act part d = (r, d')"
  show "seen H d d' \<and> (case r of Inl e \<Rightarrow> R (cache d') | Inr x \<Rightarrow> Q x (cache d'))"
  proof (cases "\<exists>n fs. faults d = Breaks n # fs")
    case True
    then obtain n fs where "faults d = Breaks n # fs" by blast
    with d(2) have "r = Inl (AIo EIo)" "d' = observe (part n (cache d)) (d\<lparr>faults := fs\<rparr>)"
      by (auto simp: sys_def Let_def)
    with assms(2) [OF d(1), of n] show ?thesis by (simp add: seen_observe) (simp add: observe_def)
  next
    case False
    then have "sys act part d = (let d' = d\<lparr>faults := tl (faults d)\<rparr>
        in case act (cache d) of Inl e \<Rightarrow> (Inl (AIo e), d') | Inr (x, c) \<Rightarrow> (Inr x, observe c d'))"
      by (auto simp: sys_def Let_def split: list.split fault.split)
    with d(2) assms(1) [OF d(1)] show ?thesis
      by (auto simp: Let_def seen_observe split: sum.splits prod.splits) (simp add: observe_def)
  qed
qed

lemma io_succeed: "(\<And>c. P c \<Longrightarrow> Q x c) \<Longrightarrow> io_spec P (succeed x) H Q R"
  by (rule io_specI) (auto simp: succeed_def)

lemma io_fail: "(\<And>c. P c \<Longrightarrow> R c) \<Longrightarrow> io_spec P (fail_with e) H Q R"
  by (rule io_specI) (auto simp: fail_with_def)

lemma io_and_then:
  assumes "io_spec P m H Q' R" and "\<And>x. io_spec (Q' x) (f x) H Q R"
  shows "io_spec P (and_then m f) H Q R"
proof (rule io_specI)
  fix d :: disk and r d'
  assume d: "P (cache d)" "and_then m f d = (r, d')"
  obtain r1 d1 where m: "m d = (r1, d1)" by fastforce
  note first = io_specD [OF assms(1) d(1) m]
  show "seen H d d' \<and> (case r of Inl e \<Rightarrow> R (cache d') | Inr x \<Rightarrow> Q x (cache d'))"
  proof (cases r1)
    case (Inl e)
    with d(2) m first show ?thesis by (auto simp: and_then_def)
  next
    case (Inr x)
    with d(2) m have "f x d1 = (r, d')" by (simp add: and_then_def)
    with io_specD [OF assms(2)] first Inr show ?thesis by (auto intro: seen_trans)
  qed
qed

lemma io_attempt:
  assumes "io_spec P m H (\<lambda>x. Q (Some x)) (Q None)"
  shows "io_spec P (attempt m) H Q R"
proof (rule io_specI)
  fix d :: disk and r d'
  assume d: "P (cache d)" "attempt m d = (r, d')"
  obtain r1 d1 where m: "m d = (r1, d1)" by fastforce
  show "seen H d d' \<and> (case r of Inl e \<Rightarrow> R (cache d') | Inr x \<Rightarrow> Q x (cache d'))"
    using io_specD [OF assms d(1) m] d(2) m by (auto simp: attempt_def split: sum.splits)
qed

lemma io_on_error:
  assumes "io_spec P m H Q R'" and "io_spec R' h H (\<lambda>_. R) R"
  shows "io_spec P (on_error m h) H Q R"
proof (rule io_specI)
  fix d :: disk and r d'
  assume d: "P (cache d)" "on_error m h d = (r, d')"
  obtain r1 d1 where m: "m d = (r1, d1)" by fastforce
  obtain r2 d2 where h: "h d1 = (r2, d2)" by fastforce
  note first = io_specD [OF assms(1) d(1) m]
  show "seen H d d' \<and> (case r of Inl e \<Rightarrow> R (cache d') | Inr x \<Rightarrow> Q x (cache d'))"
  proof (cases r1)
    case (Inl e)
    with first have "R' (cache d1)" "seen H d d1" by auto
    from io_specD [OF assms(2) this(1) h] this(2) d(2) m h Inl show ?thesis
      by (auto simp: on_error_def split: sum.splits intro: seen_trans)
  next
    case (Inr x)
    with d(2) m first show ?thesis by (auto simp: on_error_def)
  qed
qed

text \<open>Loading an identity reads two files and changes nothing; what it returns is the identity of what it read.\<close>

lemma load_identity_spec:
  assumes "io_spec P (rd CERT) H (\<lambda>b c. P c \<and> A b) P" and "io_spec P (rd KEY) H (\<lambda>b c. P c \<and> B b) P"
    and "P (cache d)" and "load_identity E rd d = (r, d')"
  shows "seen H d d' \<and> P (cache d') \<and> (\<forall>i. r = Inr i \<longrightarrow> (\<exists>cert key. A cert \<and> B key \<and> identity_of E (cert, key) = Inr i))"
proof -
  obtain r1 d1 where one: "rd CERT d = (r1, d1)" by fastforce
  obtain r2 d2 where two: "rd KEY d1 = (r2, d2)" by fastforce
  note first = io_specD [OF assms(1,3) one]
  show ?thesis
  proof (cases r1)
    case (Inl e)
    with first assms(4) one show ?thesis by (auto simp: load_identity_def)
  next
    case (Inr cert)
    then have cert: "P (cache d1)" "A cert" "seen H d d1" using first by auto
    note second = io_specD [OF assms(2) cert(1) two]
    show ?thesis
    proof (cases "load_cert_chain (base64 E) cert")
      case (Inl e)
      with assms(4) one Inr cert show ?thesis by (auto simp: load_identity_def \<open>r1 = Inr cert\<close>)
    next
      case (Inr chain)
      then have "identity_of E (cert, key) = identity_with_key E chain key" for key by (simp add: identity_of_def)
      then show ?thesis
        using assms(4) one two \<open>r1 = Inr cert\<close> cert second Inr
        by (cases r2) (auto simp: load_identity_def intro: seen_trans, metis)
    qed
  qed
qed

section \<open>Publishing is atomic\<close>

text \<open>The pair a reader of \<open>current/certificate.pem\<close> and \<open>current/private-key.pem\<close> finds.\<close>

definition pair_of :: "dir_files \<Rightarrow> (bytes \<times> bytes) option" where
  "pair_of fs =
     (case (map_of fs CERT, map_of fs KEY) of (Some (c, _), Some (k, _)) \<Rightarrow> Some (c, k) | _ \<Rightarrow> None)"

definition live_dir :: "cache \<Rightarrow> dir_files option" where
  "live_dir c =
     (case map_of c CURRENT of
        Some (CacheDir fs _) \<Rightarrow> Some fs
      | Some (CacheLink t) \<Rightarrow> (case map_of c t of Some (CacheDir fs _) \<Rightarrow> Some fs | _ \<Rightarrow> None)
      | _ \<Rightarrow> None)"

definition live_pair :: "cache \<Rightarrow> (bytes \<times> bytes) option" where
  "live_pair c = Option.bind (live_dir c) pair_of"

text \<open>Private keys are readable by the owner only; the link leads to a generation of this directory.\<close>

fun node_private :: "cache_node \<Rightarrow> bool" where
  "node_private (CacheDir fs _) = (case map_of fs KEY of Some (_, m) \<Rightarrow> m = 0x180 | None \<Rightarrow> True)"
| "node_private _ = True"

definition keys_private :: "cache \<Rightarrow> bool" where
  "keys_private c \<longleftrightarrow> (\<forall>n x. map_of c n = Some x \<longrightarrow> node_private x)"

definition link_ok :: "cache \<Rightarrow> bool" where
  "link_ok c \<longleftrightarrow>
     (\<forall>t. map_of c CURRENT = Some (CacheLink t) \<longrightarrow> strip_prefix GENERATION t \<noteq> None)"

text \<open>The phases of a publication that started in \<open>c0\<close>: the new generation \<open>g\<close> is not there yet, it has its
  name, \<open>current\<close> leads to it. The generation that was live stays as it was until then.\<close>

definition old_kept :: "cache \<Rightarrow> bytes \<Rightarrow> cache \<Rightarrow> bool" where
  "old_kept c0 g c \<longleftrightarrow> keys_private c \<and> (\<forall>t. map_of c0 CURRENT = Some (CacheLink t) \<longrightarrow> t \<noteq> g \<longrightarrow> map_of c t = map_of c0 t)"

definition before :: "cache \<Rightarrow> bytes \<Rightarrow> cache \<Rightarrow> bool" where
  "before c0 g c \<longleftrightarrow> old_kept c0 g c \<and> map_of c CURRENT = map_of c0 CURRENT \<and> map_of c g = map_of c0 g"

definition in_place :: "bytes \<Rightarrow> bytes \<times> bytes \<Rightarrow> cache \<Rightarrow> bool" where
  "in_place n p c \<longleftrightarrow> (\<exists>fs m. map_of c n = Some (CacheDir fs m) \<and> pair_of fs = Some p)"

definition replaceable :: "cache \<Rightarrow> bytes \<Rightarrow> bool" where
  "replaceable c g \<longleftrightarrow> (\<forall>x. map_of c g = Some x \<longrightarrow> (\<exists>m. x = CacheDir [] m))"

definition renamed :: "cache \<Rightarrow> bytes \<Rightarrow> bytes \<times> bytes \<Rightarrow> cache \<Rightarrow> bool" where
  "renamed c0 g p c \<longleftrightarrow>
     old_kept c0 g c \<and> map_of c CURRENT = map_of c0 CURRENT \<and> in_place g p c \<and> replaceable c0 g"

definition switched :: "bytes \<Rightarrow> bytes \<times> bytes \<Rightarrow> cache \<Rightarrow> bool" where
  "switched g p c \<longleftrightarrow> keys_private c \<and> map_of c CURRENT = Some (CacheLink g) \<and> in_place g p c"

definition old_or_new :: "tls_env \<Rightarrow> cache \<Rightarrow> bytes \<times> bytes \<Rightarrow> cache \<Rightarrow> bool" where
  "old_or_new E c0 p c \<longleftrightarrow> keys_private c \<and> (live_pair c = live_pair c0 \<or> live_pair c = Some p \<and> usable E p)"

lemma pair_of_Nil [simp]: "pair_of [] = None"
  by (simp add: pair_of_def)

lemma before_old: "before c0 g c \<Longrightarrow> old_or_new E c0 p c"
  by (auto simp: before_def old_kept_def old_or_new_def live_pair_def live_dir_def
      split: option.splits cache_node.splits)

lemma switched_live: "switched g p c \<Longrightarrow> live_pair c = Some p"
  by (auto simp: switched_def in_place_def live_pair_def live_dir_def)

lemma switched_new: "switched g p c \<Longrightarrow> usable E p \<Longrightarrow> old_or_new E c0 p c"
  using switched_live [of g p c] by (auto simp: switched_def old_or_new_def)

lemma renamed_new:
  assumes "renamed c0 g p c" and "usable E p"
  shows "old_or_new E c0 p c"
proof (cases "map_of c0 CURRENT = Some (CacheLink g)")
  case True
  then have "live_pair c = Some p"
    using assms(1) by (auto simp: renamed_def in_place_def live_pair_def live_dir_def)
  then show ?thesis using assms by (simp add: renamed_def old_kept_def old_or_new_def)
next
  case False
  then have "live_pair c = live_pair c0"
    using assms(1) by (auto simp: renamed_def old_kept_def live_pair_def live_dir_def split: option.split cache_node.split)
  then show ?thesis using assms by (simp add: renamed_def old_kept_def old_or_new_def)
qed

text \<open>A name the publication may change without touching what is live.\<close>

definition apart :: "cache \<Rightarrow> bytes \<Rightarrow> bytes \<Rightarrow> bool" where
  "apart c0 g n \<longleftrightarrow> n \<noteq> CURRENT \<and> n \<noteq> g \<and> map_of c0 CURRENT \<noteq> Some (CacheLink n)"

lemmas store_simps = update_conv' delete_conv'

lemma keys_private_update: "keys_private c \<Longrightarrow> node_private x \<Longrightarrow> keys_private (AList.update n x c)"
  by (auto simp: keys_private_def store_simps)

lemma keys_private_delete: "keys_private c \<Longrightarrow> keys_private (AList.delete n c)"
  by (auto simp: keys_private_def store_simps)

lemma old_kept_update: "old_kept c0 g c \<Longrightarrow> map_of c0 CURRENT \<noteq> Some (CacheLink n) \<or> n = g \<Longrightarrow> node_private x \<Longrightarrow> old_kept c0 g (AList.update n x c)"
  by (auto simp: old_kept_def store_simps intro: keys_private_update)

lemma old_kept_delete: "old_kept c0 g c \<Longrightarrow> map_of c0 CURRENT \<noteq> Some (CacheLink n) \<Longrightarrow> old_kept c0 g (AList.delete n c)"
  by (auto simp: old_kept_def store_simps intro: keys_private_delete)

lemma before_update: "before c0 g c \<Longrightarrow> apart c0 g n \<Longrightarrow> node_private x \<Longrightarrow> before c0 g (AList.update n x c)"
  by (auto simp: before_def apart_def store_simps intro: old_kept_update)

lemma before_delete: "before c0 g c \<Longrightarrow> apart c0 g n \<Longrightarrow> before c0 g (AList.delete n c)"
  by (auto simp: before_def apart_def store_simps intro: old_kept_delete)

lemma renamed_update: "renamed c0 g p c \<Longrightarrow> apart c0 g n \<Longrightarrow> node_private x \<Longrightarrow> renamed c0 g p (AList.update n x c)"
  by (auto simp: renamed_def in_place_def apart_def store_simps intro: old_kept_update)

lemma renamed_delete: "renamed c0 g p c \<Longrightarrow> apart c0 g n \<Longrightarrow> renamed c0 g p (AList.delete n c)"
  by (auto simp: renamed_def in_place_def apart_def store_simps intro: old_kept_delete)

lemma switched_update: "switched g p c \<Longrightarrow> n \<noteq> CURRENT \<Longrightarrow> n \<noteq> g \<Longrightarrow> node_private x \<Longrightarrow> switched g p (AList.update n x c)"
  by (auto simp: switched_def in_place_def store_simps intro: keys_private_update)

lemma switched_delete: "switched g p c \<Longrightarrow> n \<noteq> CURRENT \<Longrightarrow> n \<noteq> g \<Longrightarrow> switched g p (AList.delete n c)"
  by (auto simp: switched_def in_place_def store_simps intro: keys_private_delete)

lemmas phase_simps = before_update before_delete renamed_update renamed_delete switched_update switched_delete

lemma node_private_delete: "node_private (CacheDir fs m) \<Longrightarrow> node_private (CacheDir (AList.delete f fs) m)"
  by (auto simp: store_simps split: option.splits)

text \<open>Work on a name that an assertion does not depend on keeps the assertion.\<close>

definition stable_at :: "bytes \<Rightarrow> (cache \<Rightarrow> bool) \<Rightarrow> (cache \<Rightarrow> bool) \<Rightarrow> bool" where
  "stable_at n A H \<longleftrightarrow>
     (\<forall>c. A c \<longrightarrow> H c \<and> keys_private c \<and> A (AList.delete n c) \<and> (\<forall>x. node_private x \<longrightarrow> A (AList.update n x c)))"

lemma stable_atD:
  assumes "stable_at n A H" and "A c"
  shows "H c" "keys_private c" "A (AList.delete n c)" "node_private x \<Longrightarrow> A (AList.update n x c)"
    "H (AList.delete n c)" "node_private x \<Longrightarrow> H (AList.update n x c)"
  using assms by (auto simp: stable_at_def)

lemma unlink_in_stable: "stable_at n A H \<Longrightarrow> io_spec A (unlink_in n f) H (\<lambda>_. A) A"
  unfolding unlink_in_def
proof (rule io_sys)
  fix c
  assume s: "stable_at n A H" "A c"
  have "node_private (CacheDir fs m) \<Longrightarrow> A (AList.update n (CacheDir (AList.delete f fs) m) c) \<and> H (AList.update n (CacheDir (AList.delete f fs) m) c)" for fs m
    using stable_atD(4,6) [OF s] node_private_delete by blast
  moreover have "map_of c n = Some x \<Longrightarrow> node_private x" for x
    using stable_atD(2) [OF s] by (auto simp: keys_private_def)
  ultimately show "case (case map_of c n of
      Some (CacheDir fs dm) \<Rightarrow> if map_of fs f = None then Inl ENoEnt else Inr ((), AList.update n (CacheDir (AList.delete f fs) dm) c)
    | _ \<Rightarrow> Inl ENoEnt) of Inl e \<Rightarrow> A c | Inr (x, c') \<Rightarrow> H c' \<and> A c'"
    using s(2) by (auto split: option.split cache_node.split)
qed (auto dest: stable_atD(1))

lemma unlink_all_stable: "stable_at n A H \<Longrightarrow> io_spec A (unlink_all n fs) H (\<lambda>_. A) A"
  by (induction fs) (auto intro!: io_succeed io_and_then [OF unlink_in_stable])

lemma file_type_stable: "(\<And>c. A c \<Longrightarrow> H c) \<Longrightarrow> io_spec A (file_type n) H (\<lambda>_. A) A"
  unfolding file_type_def by (rule io_sys) (auto split: option.split)

lemma remove_file_stable: "stable_at n A H \<Longrightarrow> io_spec A (remove_file n) H (\<lambda>_. A) A"
  unfolding remove_file_def by (rule io_sys) (auto split: option.split cache_node.split dest: stable_atD)

lemma remove_dir_stable: "stable_at n A H \<Longrightarrow> io_spec A (remove_dir n) H (\<lambda>_. A) A"
  unfolding remove_dir_def by (rule io_sys) (auto split: option.split cache_node.split dest: stable_atD)

lemma remove_dir_all_stable:
  assumes "stable_at n A H"
  shows "io_spec A (remove_dir_all n) H (\<lambda>_. A) A"
  unfolding remove_dir_all_def
proof (rule io_and_then [OF file_type_stable])
  fix x
  show "io_spec A (case x of CacheLink _ \<Rightarrow> remove_file n | CacheFile _ _ \<Rightarrow> fail_with (AIo ENotDir)
      | CacheDir fs _ \<Rightarrow> and_then (unlink_all n (map fst fs)) (\<lambda>_. remove_dir n)) H (\<lambda>_. A) A"
    by (cases x) (auto intro!: io_fail remove_file_stable io_and_then [OF unlink_all_stable] remove_dir_stable assms)
qed (rule stable_atD(1) [OF assms])

lemma nop_stable: "(\<And>c. A c \<Longrightarrow> H c) \<Longrightarrow> io_spec A (sys (\<lambda>c. Inr ((), c)) (\<lambda>_ c. c)) H (\<lambda>_. A) A"
  by (rule io_sys) auto

lemma sync_directory_stable: "(\<And>c. A c \<Longrightarrow> H c) \<Longrightarrow> io_spec A sync_directory H (\<lambda>_. A) A"
  unfolding sync_directory_def sync_all_def by (rule io_and_then [OF nop_stable nop_stable])

lemma cleanup_entries_stable:
  assumes "\<And>n. strip_prefix GENERATION n \<noteq> None \<Longrightarrow> n \<noteq> cur \<Longrightarrow> prev \<noteq> Some n \<Longrightarrow> stable_at n A H" and "\<And>c. A c \<Longrightarrow> H c"
  shows "io_spec A (cleanup_entries cur prev ns) H (\<lambda>_. A) R"
proof (induction ns)
  case Nil
  show ?case by (simp add: io_succeed)
next
  case (Cons n ns)
  have type: "io_spec A (attempt (file_type n)) H (\<lambda>_. A) R"
    by (rule io_attempt) (rule file_type_stable [OF assms(2)])
  have entry: "io_spec A (attempt (sys (\<lambda>c. Inr ((), c)) (\<lambda>_ c. c))) H (\<lambda>_. A) R"
    by (rule io_attempt) (rule nop_stable [OF assms(2)])
  have remove: "io_spec A (attempt (remove_dir_all n)) H (\<lambda>_. A) R"
    if "strip_prefix GENERATION n \<noteq> None" "n \<noteq> cur" "prev \<noteq> Some n"
    by (rule io_attempt) (rule remove_dir_all_stable [OF assms(1) [OF that]])
  have one: "io_spec A (and_then (attempt (file_type n)) (\<lambda>x. case x of
      Some (CacheDir _ _) \<Rightarrow> and_then (attempt (remove_dir_all n)) (\<lambda>_. cleanup_entries cur prev ns)
    | _ \<Rightarrow> cleanup_entries cur prev ns)) H (\<lambda>_. A) R"
    if "strip_prefix GENERATION n \<noteq> None" "n \<noteq> cur" "prev \<noteq> Some n"
    by (rule io_and_then [OF type])
      (auto split: option.split cache_node.split intro!: Cons.IH io_and_then [OF remove [OF that]])
  show ?case
    unfolding cleanup_entries.simps by (rule io_and_then [OF entry]) (use Cons.IH one in auto)
qed

lemma cleanup_generations_stable:
  assumes "\<And>n. strip_prefix GENERATION n \<noteq> None \<Longrightarrow> n \<noteq> cur \<Longrightarrow> Option.bind prev path_file_name \<noteq> Some n \<Longrightarrow> stable_at n A H"
    and "\<And>c. A c \<Longrightarrow> H c"
  shows "io_spec A (cleanup_generations cur prev) H (\<lambda>_. A) R"
proof -
  have "io_spec A (attempt read_dir) H (\<lambda>_. A) R"
    unfolding read_dir_def by (intro io_attempt io_sys) (auto intro: assms(2))
  then show ?thesis
    unfolding cleanup_generations_def
    by (rule io_and_then) (auto split: option.split intro!: io_succeed cleanup_entries_stable assms)
qed

text \<open>The names of a publication are apart from what is live.\<close>

lemma names_start:
  "CURRENT \<noteq> 0x2E # n" "generation_name r \<noteq> 0x2E # n" "strip_prefix GENERATION (0x2E # n) = None"
  "CURRENT \<noteq> generation_name r"
  "\<exists>m. temporary_name g = 0x2E # m" "\<exists>m. link_name pid r = 0x2E # m"
  by (simp_all add: CURRENT_def generation_name_def GENERATION_def temporary_name_def link_name_def bytes_of_def)

lemma dotted_apart: "link_ok c0 \<Longrightarrow> apart c0 (generation_name r) (0x2E # n)"
  using names_start(1,2) [symmetric] names_start(3) by (fastforce simp: apart_def link_ok_def)

lemma temporary_apart: "link_ok c0 \<Longrightarrow> apart c0 (generation_name r) (temporary_name g)"
  using names_start(5) [of g] dotted_apart by auto

lemma link_apart: "link_ok c0 \<Longrightarrow> apart c0 (generation_name r) (link_name pid r2)"
  using names_start(6) [of pid r2] dotted_apart by auto

lemma old_kept_private: "old_kept c0 g c \<Longrightarrow> keys_private c"
  by (simp add: old_kept_def)

lemma before_stable: "apart c0 g n \<Longrightarrow> stable_at n (before c0 g) (old_or_new E c0 p)"
  by (auto simp: stable_at_def intro: phase_simps before_old) (simp add: before_def old_kept_def)

lemma renamed_stable: "apart c0 g n \<Longrightarrow> usable E p \<Longrightarrow> stable_at n (renamed c0 g p) (old_or_new E c0 p)"
  by (auto simp: stable_at_def intro: phase_simps renamed_new) (simp add: renamed_def old_kept_def)

lemma switched_stable: "n \<noteq> CURRENT \<Longrightarrow> n \<noteq> g \<Longrightarrow> usable E p \<Longrightarrow> stable_at n (switched g p) (old_or_new E c0 p)"
  by (auto simp: stable_at_def intro: phase_simps switched_new) (simp add: switched_def)

text \<open>Filling the temporary directory.\<close>

definition staged :: "cache \<Rightarrow> bytes \<Rightarrow> bytes \<Rightarrow> dir_files \<Rightarrow> cache \<Rightarrow> bool" where
  "staged c0 g tmp fs c \<longleftrightarrow> before c0 g c \<and> (\<exists>m. map_of c tmp = Some (CacheDir fs m))"

lemma staged_put:
  assumes "staged c0 g tmp fs c" and "apart c0 g tmp" and "\<And>m. node_private (CacheDir fs' m)"
  shows "staged c0 g tmp fs' (AList.update tmp (CacheDir fs' m) c)"
  using assms by (auto simp: staged_def store_simps intro: before_update)

lemma staged_old: "staged c0 g tmp fs c \<Longrightarrow> old_or_new E c0 p c"
  by (auto simp: staged_def intro: before_old)

lemma staged_before: "staged c0 g tmp fs c \<Longrightarrow> before c0 g c"
  by (simp add: staged_def)

lemma private_update:
  assumes "f = KEY \<Longrightarrow> m = 0x180" and "f \<noteq> KEY \<Longrightarrow> node_private (CacheDir fs dm)"
  shows "node_private (CacheDir (AList.update f (b, m) fs) dm')"
  using assms by (auto simp: store_simps)

lemma put_in_staged:
  assumes "staged c0 g tmp (AList.update f (b, m) fs) c"
  shows "\<exists>dm. put_in tmp f data c = AList.update tmp (CacheDir (AList.update f (data, m) fs) dm) c"
  using assms by (auto simp: staged_def put_in_def store_simps)

lemma write_new_file_staged:
  assumes a: "apart c0 g tmp" and k: "f = KEY \<Longrightarrow> m = 0x180" and "\<And>dm. node_private (CacheDir fs dm)"
  shows "io_spec (staged c0 g tmp fs) (write_new_file tmp f data m) (old_or_new E c0 p)
           (\<lambda>_. staged c0 g tmp (AList.update f (data, m) fs)) (before c0 g)"
proof -
  let ?H = "old_or_new E c0 p" and ?S = "\<lambda>b. staged c0 g tmp (AList.update f (b, m) fs)"
  have priv: "node_private (CacheDir (AList.update f (b, m) fs) dm)" for b dm
    by (rule private_update) (use assms in auto)
  have "io_spec (staged c0 g tmp fs) (open_in tmp f m) ?H (\<lambda>_. ?S []) (before c0 g)"
    unfolding open_in_def
  proof (rule io_sys)
    fix c
    assume c: "staged c0 g tmp fs c"
    then obtain dm where dm: "map_of c tmp = Some (CacheDir fs dm)" by (auto simp: staged_def)
    have new: "?S [] (AList.update tmp (CacheDir (AList.update f ([], m) fs) dm) c)" by (rule staged_put [OF c a priv])
    show "case (case map_of c tmp of
          Some (CacheDir fs dm) \<Rightarrow>
            if map_of fs f \<noteq> None then Inl EExist else Inr ((), AList.update tmp (CacheDir (AList.update f ([], m) fs) dm) c)
        | None \<Rightarrow> Inl ENoEnt
        | _ \<Rightarrow> Inl ENotDir) of Inl e \<Rightarrow> before c0 g c | Inr (x, c') \<Rightarrow> ?H c' \<and> ?S [] c'"
      using c new staged_old [OF new] by (simp add: dm staged_before)
  qed (auto simp: staged_old staged_before)
  moreover have "?S b (put_in tmp f b c)" if "?S [] c" for b c
    using put_in_staged [OF that, of b] staged_put [OF that a priv] by auto
  then have "io_spec (?S []) (write_all_in tmp f data) ?H (\<lambda>_. ?S data) (before c0 g)"
    unfolding write_all_in_def by (intro io_sys) (auto intro: staged_old staged_before)
  moreover have "io_spec (?S data) sync_all ?H (\<lambda>_. ?S data) (before c0 g)"
    unfolding sync_all_def by (rule io_sys) (auto simp: staged_old staged_before)
  ultimately show ?thesis
    unfolding write_new_file_def by (intro io_and_then) auto
qed

lemma read_in_staged:
  "io_spec (staged c0 g tmp fs) (read_in tmp f) (old_or_new E c0 p)
     (\<lambda>b c. staged c0 g tmp fs c \<and> (\<exists>m. map_of fs f = Some (b, m))) (staged c0 g tmp fs)"
  unfolding read_in_def
  by (rule io_sys) (auto simp: staged_old split: option.split cache_node.split, auto simp: staged_def)

lemma validate_staged:
  assumes "pair_of fs = Some p"
  shows "io_spec (staged c0 g tmp fs) (validate_candidate E tmp) (old_or_new E c0 p)
           (\<lambda>_ c. staged c0 g tmp fs c \<and> usable E p) (staged c0 g tmp fs)"
proof (rule io_specI)
  fix d :: disk and r d'
  assume d: "staged c0 g tmp fs (cache d)" "validate_candidate E tmp d = (r, d')"
  obtain r1 d1 where l: "load_identity E (read_in tmp) d = (r1, d1)" by fastforce
  have "cert = fst p" if "\<exists>m. map_of fs CERT = Some (cert, m)" for cert
    using that assms by (auto simp: pair_of_def split: option.splits)
  moreover have "key = snd p" if "\<exists>m. map_of fs KEY = Some (key, m)" for key
    using that assms by (auto simp: pair_of_def split: option.splits)
  ultimately have "usable E p" if "r1 = Inr i" for i
    using load_identity_spec [OF read_in_staged read_in_staged d(1) l] that by (fastforce simp: usable_def)
  with load_identity_spec [OF read_in_staged read_in_staged d(1) l] d(2) l
  show "seen (old_or_new E c0 p) d d' \<and>
      (case r of Inl e \<Rightarrow> staged c0 g tmp fs (cache d') | Inr x \<Rightarrow> staged c0 g tmp fs (cache d') \<and> usable E p)"
    by (auto simp: validate_candidate_def split: sum.splits)
qed

lemma rename_renamed:
  assumes "apart c0 g tmp" and "pair_of fs = Some p" and "\<And>m. node_private (CacheDir fs m)" and "usable E p" and "CURRENT \<noteq> g"
  shows "io_spec (staged c0 g tmp fs) (rename tmp g) (old_or_new E c0 p) (\<lambda>_. renamed c0 g p) (before c0 g)"
  unfolding rename_def
proof (rule io_sys)
  fix c
  assume c: "staged c0 g tmp fs c"
  then obtain m where m: "map_of c tmp = Some (CacheDir fs m)" by (auto simp: staged_def)
  let ?c = "AList.update g (CacheDir fs m) (AList.delete tmp c)"
  have kept: "old_kept c0 g ?c"
    using c assms(1,3) by (auto simp: staged_def before_def apart_def intro!: old_kept_update old_kept_delete)
  have "renamed c0 g p ?c" if "replaceable c g"
    using that c kept assms by (auto simp: renamed_def in_place_def staged_def before_def apart_def replaceable_def store_simps)
  with renamed_new [OF _ assms(4), of c0 g ?c] c m assms(1)
  show "case rename_node tmp g c of Inl e \<Rightarrow> before c0 g c | Inr (x, c') \<Rightarrow> old_or_new E c0 p c' \<and> renamed c0 g p c'"
    by (auto simp: rename_node_def Let_def replaceable_def apart_def staged_before split: option.split cache_node.split)
qed (auto simp: staged_old staged_before)

lemma switch_current_switched:
  assumes "link_ok c0" and "apart c0 g link" and "usable E p" and "CURRENT \<noteq> g"
  shows "io_spec (renamed c0 g p) (switch_current g link) (old_or_new E c0 p) (\<lambda>_. switched g p) (renamed c0 g p)"
proof -
  let ?H = "old_or_new E c0 p" and ?L = "\<lambda>c. renamed c0 g p c \<and> map_of c link = Some (CacheLink g)"
  have "io_spec (renamed c0 g p) (symlink g link) ?H (\<lambda>_. ?L) (renamed c0 g p)"
    unfolding symlink_def
    by (rule io_sys) (auto simp: store_simps assms(2) intro!: renamed_new [OF _ assms(3)] renamed_update)
  moreover have "io_spec ?L (rename link CURRENT) ?H (\<lambda>_. switched g p) (renamed c0 g p)"
    unfolding rename_def
  proof (rule io_sys)
    fix c
    assume c: "?L c"
    let ?c = "AList.update CURRENT (CacheLink g) (AList.delete link c)"
    have "keys_private c" using c by (simp add: renamed_def old_kept_def)
    then have "switched g p ?c"
      using c assms(2,4)
      by (auto simp: switched_def renamed_def in_place_def apart_def store_simps intro!: keys_private_update keys_private_delete)
    with switched_new [OF this assms(3), of c0] c assms(2)
    show "case rename_node link CURRENT c of Inl e \<Rightarrow> renamed c0 g p c | Inr (x, c') \<Rightarrow> ?H c' \<and> switched g p c'"
      by (auto simp: rename_node_def Let_def apart_def split: option.split cache_node.split)
  qed (auto intro: renamed_new [OF _ assms(3)])
  moreover have "io_spec (renamed c0 g p) (remove_file link) ?H (\<lambda>_. renamed c0 g p) (renamed c0 g p)"
    by (rule remove_file_stable [OF renamed_stable [OF assms(2,3)]])
  ultimately show ?thesis
    unfolding switch_current_def by (intro io_and_then io_on_error) auto
qed

definition any_phase :: "tls_env \<Rightarrow> cache \<Rightarrow> bytes \<Rightarrow> bytes \<times> bytes \<Rightarrow> cache \<Rightarrow> bool" where
  "any_phase E c0 g p c \<longleftrightarrow> before c0 g c \<or> usable E p \<and> (renamed c0 g p c \<or> switched g p c)"

lemma any_phase_stable: "apart c0 g n \<Longrightarrow> stable_at n (any_phase E c0 g p) (old_or_new E c0 p)"
  using before_stable [of c0 g n E p] renamed_stable [of c0 g n E p] switched_stable [of n g E p c0]
  by (auto simp: stable_at_def any_phase_def apart_def)

lemma io_weaken: "io_spec P m H Q R' \<Longrightarrow> (\<And>c. R' c \<Longrightarrow> R c) \<Longrightarrow> io_spec P m H Q R"
  by (rule io_conseq [of P m H Q R']) auto

lemma io_given: "(u \<Longrightarrow> io_spec P m H Q R) \<Longrightarrow> io_spec (\<lambda>c. P c \<and> u) m H Q R"
  unfolding io_spec_def by blast

lemma create_staged:
  assumes "apart c0 g tmp"
  shows "io_spec (before c0 g) (create_dir tmp) (old_or_new E c0 p) (\<lambda>_. staged c0 g tmp []) (before c0 g)"
proof -
  have "staged c0 g tmp [] (AList.update tmp (CacheDir [] m) c)" if "before c0 g c" for c m
    using that assms by (auto simp: staged_def store_simps intro: before_update)
  then show ?thesis
    unfolding create_dir_def by (intro io_sys) (auto intro: before_old staged_old)
qed

lemma permissions_staged:
  assumes "apart c0 g tmp"
  shows "io_spec (staged c0 g tmp []) (set_permissions tmp m) (old_or_new E c0 p) (\<lambda>_. staged c0 g tmp []) (before c0 g)"
  unfolding set_permissions_def
proof (rule io_sys)
  fix c
  assume c: "staged c0 g tmp [] c"
  have new: "staged c0 g tmp [] (AList.update tmp (CacheDir [] m) c)" by (rule staged_put [OF c assms]) simp
  from c obtain dm where "map_of c tmp = Some (CacheDir [] dm)" by (auto simp: staged_def)
  with new staged_old [OF new]
  show "case (case map_of c tmp of None \<Rightarrow> Inl ENoEnt | Some (CacheDir fs _) \<Rightarrow> Inr ((), AList.update tmp (CacheDir fs m) c)
      | Some (CacheFile b _) \<Rightarrow> Inr ((), AList.update tmp (CacheFile b m) c) | Some (CacheLink _) \<Rightarrow> Inl ENoEnt) of
      Inl e \<Rightarrow> before c0 g c | Inr (x, c') \<Rightarrow> old_or_new E c0 p c' \<and> staged c0 g tmp [] c'"
    by simp
qed (auto intro: staged_old staged_before)

text \<open>What follows the validation of the new pair.\<close>

lemma activate_spec:
  assumes "link_ok c0" and "apart c0 g tmp" and "apart c0 g link" and g: "CURRENT \<noteq> g"
    and "pair_of fs = Some p" and "\<And>m. node_private (CacheDir fs m)" and u: "usable E p"
  shows "io_spec (staged c0 g tmp fs)
           (and_then (rename tmp g) (\<lambda>_. and_then sync_directory (\<lambda>_. and_then (attempt (read_link CURRENT)) (\<lambda>prev.
            and_then (switch_current g link) (\<lambda>_. and_then sync_directory (\<lambda>_. cleanup_generations g prev))))))
           (old_or_new E c0 p) (\<lambda>_ c. switched g p c \<and> usable E p) (any_phase E c0 g p)"
proof -
  let ?H = "old_or_new E c0 p" and ?R = "any_phase E c0 g p"
  have ren: "io_spec (renamed c0 g p) sync_directory ?H (\<lambda>_. renamed c0 g p) ?R"
    by (rule io_weaken [OF sync_directory_stable]) (auto simp: any_phase_def u renamed_new)
  have link: "io_spec (renamed c0 g p) (attempt (read_link CURRENT)) ?H (\<lambda>_. renamed c0 g p) ?R"
    unfolding read_link_def
    by (intro io_attempt io_sys) (auto split: option.split cache_node.split intro: renamed_new [OF _ u])
  have sw: "io_spec (renamed c0 g p) (switch_current g link) ?H (\<lambda>_. switched g p) ?R"
    by (rule io_weaken [OF switch_current_switched [OF assms(1,3) u g]]) (simp add: any_phase_def u)
  have sync: "io_spec (switched g p) sync_directory ?H (\<lambda>_. switched g p) ?R"
    by (rule io_weaken [OF sync_directory_stable]) (auto simp: any_phase_def u intro: switched_new)
  have "strip_prefix GENERATION CURRENT = None" by (simp add: GENERATION_def CURRENT_def bytes_of_def)
  then have "io_spec (switched g p) (cleanup_generations g prev) ?H (\<lambda>_. switched g p) ?R" for prev
    by (intro cleanup_generations_stable switched_stable) (auto simp: u intro: switched_new)
  then have clean: "io_spec (switched g p) (cleanup_generations g prev) ?H (\<lambda>_ c. switched g p c \<and> usable E p) ?R" for prev
    using u by (simp add: io_spec_def)
  have first: "io_spec (staged c0 g tmp fs) (rename tmp g) ?H (\<lambda>_. renamed c0 g p) ?R"
    by (rule io_weaken [OF rename_renamed [OF assms(2,5,6) u g]]) (auto simp: any_phase_def)
  show ?thesis
    by (intro io_and_then [OF first] io_and_then [OF ren] io_and_then [OF link] io_and_then [OF sw] io_and_then [OF sync] clean)
qed

lemma publish_spec:
  assumes ok: "link_ok c0" "keys_private c0"
  shows "io_spec (\<lambda>c. c = c0) (publish_certificate_pair E pid r1 r2 p) (old_or_new E c0 p)
           (\<lambda>_ c. switched (generation_name r1) p c \<and> usable E p) (any_phase E c0 (generation_name r1) p)"
proof -
  define g where "g = generation_name r1"
  define tmp where "tmp = temporary_name g"
  define ks where "ks = AList.update KEY (snd p, 0x180 :: nat) []"
  define fs where "fs = AList.update CERT (fst p, 0x1A4) ks"
  let ?H = "old_or_new E c0 p" and ?R = "any_phase E c0 g p" and ?Q = "\<lambda>(_ :: unit) c. switched g p c \<and> usable E p"
  have tmp: "apart c0 g tmp" unfolding tmp_def g_def by (rule temporary_apart [OF ok(1)])
  have link: "apart c0 g (link_name pid r2)" unfolding g_def by (rule link_apart [OF ok(1)])
  have g: "CURRENT \<noteq> g" unfolding g_def by (rule names_start)
  have fs: "pair_of fs = Some p" "\<And>m. node_private (CacheDir fs m)" "\<And>m. node_private (CacheDir ks m)" "CERT \<noteq> KEY"
    by (simp_all add: fs_def ks_def pair_of_def CERT_def KEY_def bytes_of_def)
  have bef: "before c0 g c \<Longrightarrow> ?R c" and stg: "staged c0 g tmp l c \<Longrightarrow> ?R c" for c l
    by (auto simp: any_phase_def staged_def)
  have key: "io_spec (staged c0 g tmp []) (write_new_file tmp KEY (snd p) 0x180) ?H (\<lambda>_. staged c0 g tmp ks) ?R"
    unfolding ks_def by (rule io_weaken [OF write_new_file_staged [OF tmp]]) (auto intro: bef)
  have cert: "io_spec (staged c0 g tmp ks) (write_new_file tmp CERT (fst p) 0x1A4) ?H (\<lambda>_. staged c0 g tmp fs) ?R"
    unfolding fs_def by (rule io_weaken [OF write_new_file_staged [OF tmp _ fs(3)]]) (use fs(4) in \<open>auto intro: bef\<close>)
  have check: "io_spec (staged c0 g tmp fs) (validate_candidate E tmp) ?H (\<lambda>_ c. staged c0 g tmp fs c \<and> usable E p) ?R"
    by (rule io_weaken [OF validate_staged [OF fs(1)] stg])
  note activate = io_given [OF activate_spec [OF ok(1) tmp link g fs(1,2)]]
  have body: "io_spec (staged c0 g tmp [])
      (on_error (and_then (write_new_file tmp KEY (snd p) 0x180) (\<lambda>_. and_then (write_new_file tmp CERT (fst p) 0x1A4) (\<lambda>_.
         and_then (validate_candidate E tmp) (\<lambda>_. and_then (rename tmp g) (\<lambda>_. and_then sync_directory (\<lambda>_.
         and_then (attempt (read_link CURRENT)) (\<lambda>prev. and_then (switch_current g (link_name pid r2)) (\<lambda>_.
         and_then sync_directory (\<lambda>_. cleanup_generations g prev)))))))))
       (remove_dir_all tmp)) ?H ?Q ?R"
    by (intro io_on_error [OF _ remove_dir_all_stable [OF any_phase_stable [OF tmp]]]
        io_and_then [OF key] io_and_then [OF cert] io_and_then [OF check] activate)
  have "before c0 g c0" using ok(2) by (simp add: before_def old_kept_def)
  then have create: "io_spec (\<lambda>c. c = c0) (create_dir tmp) ?H (\<lambda>_. staged c0 g tmp []) ?R"
    by (intro io_conseq [OF create_staged [OF tmp]]) (auto intro: bef)
  have perms: "io_spec (staged c0 g tmp []) (set_permissions tmp 0x1C0) ?H (\<lambda>_. staged c0 g tmp []) ?R"
    by (rule io_weaken [OF permissions_staged [OF tmp] bef])
  show ?thesis
    unfolding publish_certificate_pair_def Let_def g_def [symmetric] tmp_def [symmetric]
    by (rule io_and_then [OF create]) (rule io_and_then [OF perms body])
qed

lemma any_phase_old_or_new: "any_phase E c0 g p c \<Longrightarrow> old_or_new E c0 p c"
  by (auto simp: any_phase_def intro: before_old renamed_new switched_new)

text \<open>
  C18. Whatever system calls fail, and wherever the publication of a certificate is cut off: at every moment the two files under
  \<open>current\<close> are the pair that was there before or the new pair, never one file of each and never a part of
  a file; the new pair is live only when the server can load it; every private key is readable by its owner
  only. When the publication reports success the new pair is live.
\<close>

theorem publish_atomic:
  assumes "link_ok c0" and "keys_private c0"
    and "publish_certificate_pair E pid r1 r2 p \<lparr>cache = c0, faults = fl, history = []\<rparr> = (r, d)"
  shows "(\<forall>c \<in> set (cache d # history d). keys_private c \<and> (live_pair c = live_pair c0 \<or> live_pair c = Some p \<and> usable E p)) \<and>
         (r = Inr () \<longrightarrow> live_pair (cache d) = Some p \<and> usable E p)"
proof -
  have *: "seen (old_or_new E c0 p) \<lparr>cache = c0, faults = fl, history = []\<rparr> d \<and>
      (case r of Inl e \<Rightarrow> any_phase E c0 (generation_name r1) p (cache d)
       | Inr x \<Rightarrow> switched (generation_name r1) p (cache d) \<and> usable E p)"
    by (rule io_specD [OF publish_spec [OF assms(1,2)] _ assms(3)]) simp
  then have "old_or_new E c0 p (cache d)"
    by (auto split: sum.splits intro: any_phase_old_or_new switched_new)
  with * show ?thesis by (auto simp: seen_def old_or_new_def intro: switched_live)
qed

section \<open>What a publication does when nothing fails\<close>

text \<open>\<open>runs m c x c'\<close>: when its system calls go through, \<open>m\<close> takes the directory \<open>c\<close> to \<open>c'\<close> and returns \<open>x\<close>.
  \<open>clear k fl fl'\<close>: the next \<open>k\<close> calls pass, and \<open>fl'\<close> is the script after them.\<close>

definition clear :: "nat \<Rightarrow> fault list \<Rightarrow> fault list \<Rightarrow> bool" where
  "clear k fl fl' \<longleftrightarrow> fl = [] \<and> fl' = [] \<or> fl = replicate k Passes @ fl'"

definition runs_in :: "nat \<Rightarrow> 'a io \<Rightarrow> cache \<Rightarrow> 'a \<Rightarrow> cache \<Rightarrow> bool" where
  "runs_in k m c x c' \<longleftrightarrow>
     (\<forall>d fl'. clear k (faults d) fl' \<longrightarrow> cache d = c \<longrightarrow>
        fst (m d) = Inr x \<and> faults (snd (m d)) = fl' \<and> cache (snd (m d)) = c')"

definition runs :: "'a io \<Rightarrow> cache \<Rightarrow> 'a \<Rightarrow> cache \<Rightarrow> bool" where
  "runs m c x c' \<longleftrightarrow> (\<exists>k. runs_in k m c x c')"

lemma runs_inD:
  assumes "runs_in k m c x c'" and "clear k (faults d) fl'" and "cache d = c"
  obtains d' where "m d = (Inr x, d')" and "faults d' = fl'" and "cache d' = c'"
  using assms unfolding runs_in_def by (metis prod.collapse)

lemma clear_split: "clear (j + k) fl fl' \<Longrightarrow> \<exists>mid. clear j fl mid \<and> clear k mid fl'"
  by (auto simp: clear_def replicate_add)

lemma runs_sys: "act c = Inr (x, c') \<Longrightarrow> runs (sys act part) c x c'"
  unfolding runs_def by (rule exI [of _ 1]) (auto simp: runs_in_def clear_def sys_def observe_def)

lemma runs_succeed: "runs (succeed x) c x c"
  unfolding runs_def by (rule exI [of _ 0]) (auto simp: runs_in_def clear_def succeed_def)

lemma runs_in_and_then:
  assumes "runs_in j m c x c1" and "runs_in k (f x) c1 y c2"
  shows "runs_in (j + k) (and_then m f) c y c2"
  unfolding runs_in_def
proof (intro allI impI)
  fix d :: disk and fl'
  assume d: "clear (j + k) (faults d) fl'" "cache d = c"
  then obtain mid where mid: "clear j (faults d) mid" "clear k mid fl'" by (auto dest: clear_split)
  obtain d1 where one: "m d = (Inr x, d1)" "faults d1 = mid" "cache d1 = c1" by (rule runs_inD [OF assms(1) mid(1) d(2)])
  obtain d2 where "f x d1 = (Inr y, d2)" "faults d2 = fl'" "cache d2 = c2"
    using runs_inD [OF assms(2), of d1 fl'] mid(2) one by auto
  with one show "fst (and_then m f d) = Inr y \<and> faults (snd (and_then m f d)) = fl' \<and> cache (snd (and_then m f d)) = c2"
    by (simp add: and_then_def)
qed

lemma runs_and_then: "runs m c x c1 \<Longrightarrow> runs (f x) c1 y c2 \<Longrightarrow> runs (and_then m f) c y c2"
  unfolding runs_def by (blast intro: runs_in_and_then)

lemma runs_in_attempt:
  assumes "runs_in k m c x c'"
  shows "runs_in k (attempt m) c (Some x) c'"
  unfolding runs_in_def
proof (intro allI impI)
  fix d :: disk and fl'
  assume "clear k (faults d) fl'" "cache d = c"
  then show "fst (attempt m d) = Inr (Some x) \<and> faults (snd (attempt m d)) = fl' \<and> cache (snd (attempt m d)) = c'"
    by (rule runs_inD [OF assms]) (simp add: attempt_def)
qed

lemma runs_attempt: "runs m c x c' \<Longrightarrow> runs (attempt m) c (Some x) c'"
  unfolding runs_def by (blast intro: runs_in_attempt)

lemma runs_attempt_fails: "act c = Inl e \<Longrightarrow> runs (attempt (sys act part)) c None c"
  unfolding runs_def by (rule exI [of _ 1]) (auto simp: runs_in_def clear_def attempt_def sys_def)

lemma runs_in_on_error:
  assumes "runs_in k m c x c'"
  shows "runs_in k (on_error m h) c x c'"
  unfolding runs_in_def
proof (intro allI impI)
  fix d :: disk and fl'
  assume "clear k (faults d) fl'" "cache d = c"
  then show "fst (on_error m h d) = Inr x \<and> faults (snd (on_error m h d)) = fl' \<and> cache (snd (on_error m h d)) = c'"
    by (rule runs_inD [OF assms]) (simp add: on_error_def)
qed

lemma runs_on_error: "runs m c x c' \<Longrightarrow> runs (on_error m h) c x c'"
  unfolding runs_def by (blast intro: runs_in_on_error)

lemma runs_quietly: "runs m c x c' \<Longrightarrow> \<exists>d. m \<lparr>cache = c, faults = [], history = h\<rparr> = (Inr x, d) \<and> cache d = c' \<and> faults d = []"
proof -
  assume "runs m c x c'"
  then obtain k where "runs_in k m c x c'" by (auto simp: runs_def)
  then show ?thesis by (rule runs_inD [where d = "\<lparr>cache = c, faults = [], history = h\<rparr>" and fl' = "[]"]) (auto simp: clear_def)
qed

text \<open>\<open>fails m c c'\<close>: some script of faults makes \<open>m\<close> fail with an I/O error and leave \<open>c'\<close>, and then goes on without faults.\<close>

definition fails :: "'a io \<Rightarrow> cache \<Rightarrow> cache \<Rightarrow> bool" where
  "fails m c c' \<longleftrightarrow>
     (\<exists>fl. \<forall>d. faults d = fl \<longrightarrow> cache d = c \<longrightarrow>
        fst (m d) = Inl (AIo EIo) \<and> faults (snd (m d)) = [] \<and> cache (snd (m d)) = c')"

lemma fails_sys: "fails (sys act part) c (part n c)"
  unfolding fails_def by (rule exI [of _ "[Breaks n]"]) (simp add: sys_def observe_def)

lemma fails_and_then_first: "fails m c c' \<Longrightarrow> fails (and_then m f) c c'"
  unfolding fails_def and_then_def by (fastforce split: prod.splits sum.splits)

lemma fails_and_then:
  assumes "runs m c x c1" and "fails (f x) c1 c2"
  shows "fails (and_then m f) c c2"
proof -
  obtain k where k: "runs_in k m c x c1" using assms(1) by (auto simp: runs_def)
  obtain fl where fl: "\<And>d. faults d = fl \<Longrightarrow> cache d = c1 \<Longrightarrow>
      fst (f x d) = Inl (AIo EIo) \<and> faults (snd (f x d)) = [] \<and> cache (snd (f x d)) = c2"
    using assms(2) unfolding fails_def by blast
  show ?thesis
    unfolding fails_def
  proof (intro exI [of _ "replicate k Passes @ fl"] allI impI)
    fix d :: disk
    assume d: "faults d = replicate k Passes @ fl" "cache d = c"
    obtain d1 where "m d = (Inr x, d1)" "faults d1 = fl" "cache d1 = c1"
      by (rule runs_inD [OF k _ d(2), of fl]) (simp add: d(1) clear_def)
    with fl [of d1] show "fst (and_then m f d) = Inl (AIo EIo) \<and> faults (snd (and_then m f d)) = [] \<and> cache (snd (and_then m f d)) = c2"
      by (simp add: and_then_def)
  qed
qed

lemma fails_on_error:
  assumes "fails m c c'" and "\<And>d. faults d = [] \<Longrightarrow> cache d = c' \<Longrightarrow> faults (snd (h d)) = [] \<and> cache (snd (h d)) = c''"
  shows "fails (on_error m h) c c''"
  using assms unfolding fails_def on_error_def by (fastforce split: prod.splits sum.splits)

definition names_distinct :: "cache \<Rightarrow> bool" where
  "names_distinct c \<longleftrightarrow> (\<forall>n fs m. map_of c n = Some (CacheDir fs m) \<longrightarrow> distinct (map fst fs))"

lemma unlink_all_runs:
  "map_of c n = Some (CacheDir fs m) \<Longrightarrow> distinct (map fst fs) \<Longrightarrow>
     \<exists>c'. runs (unlink_all n (map fst fs)) c () c' \<and> map_of c' = (map_of c)(n \<mapsto> CacheDir [] m)"
proof (induction fs arbitrary: c)
  case Nil
  have "(map_of c)(n \<mapsto> CacheDir [] m) = map_of c" using Nil(1) by (simp add: fun_upd_idem)
  then show ?case using runs_succeed by fastforce
next
  case (Cons f fs)
  let ?c = "AList.update n (CacheDir fs m) c"
  have "AList.delete (fst f) fs = fs" using Cons.prems(2) by (simp add: delete_id)
  then have "runs (unlink_in n (fst f)) c () ?c"
    using Cons.prems by (cases f) (auto simp: unlink_in_def intro!: runs_sys)
  moreover have "map_of ?c n = Some (CacheDir fs m)" by (simp add: update_conv')
  then obtain c' where c': "runs (unlink_all n (map fst fs)) ?c () c'" "map_of c' = (map_of ?c)(n \<mapsto> CacheDir [] m)"
    using Cons.IH [of ?c] Cons.prems(2) by (metis distinct.simps(2) list.simps(9))
  ultimately have "runs (unlink_all n (map fst (f # fs))) c () c'"
    by (auto intro: runs_and_then)
  moreover have "map_of c' = (map_of c)(n \<mapsto> CacheDir [] m)" using c'(2) by (simp add: update_conv')
  ultimately show ?case by blast
qed

lemma remove_dir_all_runs:
  assumes "map_of c n = Some (CacheDir fs m)" and "distinct (map fst fs)"
  shows "\<exists>c'. runs (remove_dir_all n) c () c' \<and> map_of c' = (map_of c)(n := None)"
proof -
  obtain c' where c': "runs (unlink_all n (map fst fs)) c () c'" "map_of c' = (map_of c)(n \<mapsto> CacheDir [] m)"
    using unlink_all_runs [OF assms] by blast
  have "runs (remove_dir n) c' () (AList.delete n c')"
    unfolding remove_dir_def using c'(2) by (intro runs_sys) simp
  moreover have "runs (file_type n) c (CacheDir fs m) c"
    unfolding file_type_def using assms(1) by (intro runs_sys) simp
  ultimately have "runs (remove_dir_all n) c () (AList.delete n c')"
    unfolding remove_dir_all_def using c'(1) by (auto intro!: runs_and_then)
  moreover have "map_of (AList.delete n c') = (map_of c)(n := None)" using c'(2) by (simp add: delete_conv')
  ultimately show ?thesis by blast
qed

text \<open>An old generation: a directory with such a name that is neither the current nor the previous one.\<close>

definition doomed :: "bytes \<Rightarrow> bytes option \<Rightarrow> cache \<Rightarrow> bytes \<Rightarrow> bool" where
  "doomed cur prev c n \<longleftrightarrow>
     utf8_valid n \<and> strip_prefix GENERATION n \<noteq> None \<and> n \<noteq> cur \<and> prev \<noteq> Some n \<and> (\<exists>fs m. map_of c n = Some (CacheDir fs m))"

lemma file_type_attempt: "runs (attempt (file_type n)) c (map_of c n) c"
  unfolding file_type_def
  by (cases "map_of c n") (auto intro!: runs_attempt_fails runs_attempt runs_sys)

lemma cleanup_entries_runs:
  "names_distinct c \<Longrightarrow>
     \<exists>c'. runs (cleanup_entries cur prev ns) c () c' \<and> map_of c' = (\<lambda>n. if n \<in> set ns \<and> doomed cur prev c n then None else map_of c n)"
proof (induction ns arbitrary: c)
  case Nil
  show ?case using runs_succeed by fastforce
next
  case (Cons n ns)
  have entry: "runs (attempt (sys (\<lambda>c. Inr ((), c)) (\<lambda>_ c. c))) c (Some ()) c"
    by (intro runs_attempt runs_sys) simp
  show ?case
  proof (cases "doomed cur prev c n")
    case False
    obtain c' where c': "runs (cleanup_entries cur prev ns) c () c'"
        "map_of c' = (\<lambda>n. if n \<in> set ns \<and> doomed cur prev c n then None else map_of c n)"
      using Cons by blast
    have "runs (cleanup_entries cur prev (n # ns)) c () c'"
      unfolding cleanup_entries.simps using False c'(1)
      by (intro runs_and_then [OF entry])
        (auto simp: doomed_def split: option.split cache_node.split intro!: runs_and_then [OF file_type_attempt])
    with c'(2) False show ?thesis by (intro exI [of _ c']) auto
  next
    case True
    then obtain fs m where d: "map_of c n = Some (CacheDir fs m)" by (auto simp: doomed_def)
    then obtain c1 where c1: "runs (remove_dir_all n) c () c1" "map_of c1 = (map_of c)(n := None)"
      using remove_dir_all_runs [OF d] Cons.prems unfolding names_distinct_def by blast
    then have "names_distinct c1" using Cons.prems by (simp add: names_distinct_def)
    then obtain c' where c': "runs (cleanup_entries cur prev ns) c1 () c'"
        "map_of c' = (\<lambda>n. if n \<in> set ns \<and> doomed cur prev c1 n then None else map_of c1 n)"
      using Cons.IH by blast
    have "runs (cleanup_entries cur prev (n # ns)) c () c'"
      unfolding cleanup_entries.simps using True d c'(1)
      by (intro runs_and_then [OF entry])
        (auto simp: doomed_def intro!: runs_and_then [OF file_type_attempt] runs_and_then [OF runs_attempt [OF c1(1)]])
    moreover have "map_of c' = (\<lambda>k. if k \<in> set (n # ns) \<and> doomed cur prev c k then None else map_of c k)"
      using c'(2) c1(2) True by (auto simp: doomed_def fun_eq_iff)
    ultimately show ?thesis by blast
  qed
qed

lemma cleanup_generations_runs:
  assumes "names_distinct c"
  shows "\<exists>c'. runs (cleanup_generations cur prev) c () c' \<and>
           map_of c' = (\<lambda>n. if doomed cur (Option.bind prev path_file_name) c n then None else map_of c n)"
proof -
  obtain c' where c': "runs (cleanup_entries cur (Option.bind prev path_file_name) (map fst c)) c () c'"
      "map_of c' = (\<lambda>n. if n \<in> set (map fst c) \<and> doomed cur (Option.bind prev path_file_name) c n then None else map_of c n)"
    using cleanup_entries_runs [OF assms] by blast
  have "runs (attempt read_dir) c (Some (map fst c)) c"
    unfolding read_dir_def by (intro runs_attempt runs_sys) simp
  with c'(1) have "runs (cleanup_generations cur prev) c () c'"
    unfolding cleanup_generations_def by (auto intro!: runs_and_then)
  moreover have "doomed cur (Option.bind prev path_file_name) c n \<Longrightarrow> n \<in> set (map fst c)" for n
    by (auto simp: doomed_def dest!: map_of_SomeD intro: rev_image_eqI)
  ultimately show ?thesis using c'(2) by (intro exI [of _ c']) auto
qed

text \<open>The directory after a publication that nothing disturbed.\<close>

definition published :: "cache \<Rightarrow> bytes \<Rightarrow> dir_files \<Rightarrow> bytes option \<Rightarrow> bytes \<Rightarrow> cache_node option" where
  "published c0 g fs prev n =
     (if n = CURRENT then Some (CacheLink g)
      else if n = g then Some (CacheDir fs 0x1C0)
      else if doomed g prev c0 n then None
      else map_of c0 n)"

definition names_free :: "cache \<Rightarrow> bytes \<Rightarrow> bytes \<Rightarrow> bytes \<Rightarrow> bool" where
  "names_free c g tmp link \<longleftrightarrow> map_of c g = None \<and> map_of c tmp = None \<and> map_of c link = None"

definition link_target :: "cache \<Rightarrow> bytes option" where
  "link_target c = (case map_of c CURRENT of Some (CacheLink t) \<Rightarrow> Some t | _ \<Rightarrow> None)"

lemma write_new_file_runs:
  assumes "map_of c tmp = Some (CacheDir fs dm)" and "map_of fs f = None"
  shows "\<exists>c'. runs (write_new_file tmp f data m) c () c' \<and> map_of c' = (map_of c)(tmp \<mapsto> CacheDir (AList.update f (data, m) fs) dm)"
proof -
  let ?c = "\<lambda>b c. AList.update tmp (CacheDir (AList.update f (b, m) fs) dm) c"
  have "runs (open_in tmp f m) c () (?c [] c)"
    unfolding open_in_def using assms by (intro runs_sys) simp
  moreover have "runs (write_all_in tmp f data) (?c [] c) () (?c data (?c [] c))"
    unfolding write_all_in_def by (intro runs_sys) (simp add: put_in_def update_conv')
  moreover have "runs sync_all c1 () c1" for c1 unfolding sync_all_def by (intro runs_sys) simp
  ultimately have "runs (write_new_file tmp f data m) c () (?c data (?c [] c))"
    unfolding write_new_file_def by (blast intro: runs_and_then)
  moreover have "map_of (?c data (?c [] c)) = (map_of c)(tmp \<mapsto> CacheDir (AList.update f (data, m) fs) dm)"
    by (simp add: update_conv')
  ultimately show ?thesis by blast
qed

lemma validate_runs:
  assumes "map_of c tmp = Some (CacheDir fs dm)" and "pair_of fs = Some p" and "usable E p"
  shows "runs (validate_candidate E tmp) c () c"
proof -
  have "runs (read_in tmp CERT) c (fst p) c" "runs (read_in tmp KEY) c (snd p) c"
    unfolding read_in_def using assms(1,2) by (auto simp: pair_of_def split: option.splits intro!: runs_sys)
  then obtain j k where reads: "runs_in j (read_in tmp CERT) c (fst p) c" "runs_in k (read_in tmp KEY) c (snd p) c"
    by (auto simp: runs_def)
  obtain chain i where load: "load_cert_chain (base64 E) (fst p) = Inr chain" "identity_with_key E chain (snd p) = Inr i"
    using assms(3) by (auto simp: usable_def identity_of_def split: sum.splits)
  have "runs_in (j + k) (validate_candidate E tmp) c () c"
    unfolding runs_in_def
  proof (intro allI impI)
    fix d :: disk and fl'
    assume d: "clear (j + k) (faults d) fl'" "cache d = c"
    then obtain mid where mid: "clear j (faults d) mid" "clear k mid fl'" by (auto dest: clear_split)
    obtain d1 where one: "read_in tmp CERT d = (Inr (fst p), d1)" "faults d1 = mid" "cache d1 = c"
      by (rule runs_inD [OF reads(1) mid(1) d(2)])
    obtain d2 where "read_in tmp KEY d1 = (Inr (snd p), d2)" "faults d2 = fl'" "cache d2 = c"
      using runs_inD [OF reads(2), of d1 fl'] mid(2) one by auto
    with one load show "fst (validate_candidate E tmp d) = Inr () \<and> faults (snd (validate_candidate E tmp d)) = fl' \<and>
        cache (snd (validate_candidate E tmp d)) = c"
      by (simp add: validate_candidate_def load_identity_def)
  qed
  then show ?thesis by (auto simp: runs_def)
qed

lemma rename_runs:
  assumes "map_of c a = Some x" and "a \<noteq> b" and "map_of c b = None \<or> (\<forall>fs m. x \<noteq> CacheDir fs m) \<and> (\<forall>fs m. map_of c b \<noteq> Some (CacheDir fs m))"
  shows "\<exists>c'. runs (rename a b) c () c' \<and> map_of c' = (map_of c)(a := None, b \<mapsto> x)"
proof -
  let ?c = "AList.update b x (AList.delete a c)"
  have "rename_node a b c = Inr ((), ?c)"
    using assms by (auto simp: rename_node_def Let_def split: option.split cache_node.split)
  then have "runs (rename a b) c () ?c" unfolding rename_def by (rule runs_sys)
  moreover have "map_of ?c = (map_of c)(a := None, b \<mapsto> x)" by (simp add: update_conv' delete_conv')
  ultimately show ?thesis by blast
qed

lemma switch_current_runs:
  assumes "map_of c link = None" and "link \<noteq> CURRENT" and "\<forall>fs m. map_of c CURRENT \<noteq> Some (CacheDir fs m)"
  shows "\<exists>c'. runs (switch_current g link) c () c' \<and> map_of c' = (map_of c)(CURRENT \<mapsto> CacheLink g)"
proof -
  let ?c = "AList.update link (CacheLink g) c"
  have m: "map_of ?c = (map_of c)(link \<mapsto> CacheLink g)" by (simp add: update_conv')
  have "runs (symlink g link) c () ?c"
    unfolding symlink_def using assms(1) by (intro runs_sys) simp
  moreover obtain c' where c': "runs (rename link CURRENT) ?c () c'" "map_of c' = (map_of ?c)(link := None, CURRENT \<mapsto> CacheLink g)"
    using rename_runs [of ?c link "CacheLink g" CURRENT] assms(2,3) m by auto
  moreover have "map_of c' = (map_of c)(CURRENT \<mapsto> CacheLink g)"
    using c'(2) m assms(1) by (auto simp: fun_eq_iff)
  ultimately show ?thesis
    unfolding switch_current_def by (blast intro: runs_and_then runs_on_error)
qed

lemma staged_pair_runs:
  assumes "map_of c tmp = None"
  shows "\<exists>c1 c2 c3 c4. runs (create_dir tmp) c () c1 \<and> runs (set_permissions tmp 0x1C0) c1 () c2 \<and>
           runs (write_new_file tmp KEY (snd p) 0x180) c2 () c3 \<and> runs (write_new_file tmp CERT (fst p) 0x1A4) c3 () c4 \<and>
           map_of c4 = (map_of c)(tmp \<mapsto> CacheDir [(KEY, snd p, 0x180), (CERT, fst p, 0x1A4)] 0x1C0)"
proof -
  let ?c1 = "AList.update tmp (CacheDir [] 0x1FF) c" and ?ks = "[(KEY, snd p, 0x180 :: nat)]"
  let ?c2 = "AList.update tmp (CacheDir [] 0x1C0) ?c1"
  have ne: "CERT \<noteq> KEY" by (simp add: CERT_def KEY_def bytes_of_def)
  have c2: "map_of ?c2 = (map_of c)(tmp \<mapsto> CacheDir [] 0x1C0)" by (simp add: update_conv')
  obtain c3 where c3: "runs (write_new_file tmp KEY (snd p) 0x180) ?c2 () c3" "map_of c3 = (map_of ?c2)(tmp \<mapsto> CacheDir ?ks 0x1C0)"
    using write_new_file_runs [of ?c2 tmp "[]" "0x1C0" KEY "snd p" "0x180"] c2 by auto
  then have c3': "map_of c3 = (map_of c)(tmp \<mapsto> CacheDir ?ks 0x1C0)" using c2 by simp
  obtain c4 where c4: "runs (write_new_file tmp CERT (fst p) 0x1A4) c3 () c4"
      "map_of c4 = (map_of c3)(tmp \<mapsto> CacheDir (AList.update CERT (fst p, 0x1A4) ?ks) 0x1C0)"
    using write_new_file_runs [of c3 tmp ?ks "0x1C0" CERT "fst p" "0x1A4"] c3' ne by auto
  have "runs (create_dir tmp) c () ?c1" unfolding create_dir_def using assms by (intro runs_sys) simp
  moreover have "runs (set_permissions tmp 0x1C0) ?c1 () ?c2"
    unfolding set_permissions_def by (intro runs_sys) (simp add: update_conv')
  moreover have "map_of c4 = (map_of c)(tmp \<mapsto> CacheDir [(KEY, snd p, 0x180), (CERT, fst p, 0x1A4)] 0x1C0)"
    using c4(2) c3' ne by simp
  ultimately show ?thesis using c3(1) c4(1) by blast
qed

lemma sync_directory_runs: "runs sync_directory c () c"
  unfolding sync_directory_def sync_all_def by (rule runs_and_then; rule runs_sys) simp_all

lemma read_link_runs: "runs (attempt (read_link CURRENT)) c (link_target c) c"
  unfolding read_link_def link_target_def
  by (cases "map_of c CURRENT") (auto split: cache_node.split intro!: runs_attempt_fails runs_attempt runs_sys)

text \<open>A publication up to the point where \<open>current\<close> has been switched, with the directory found there.\<close>

lemma publication_runs:
  assumes "names_free c0 g tmp link" and "\<forall>fs m. map_of c0 CURRENT \<noteq> Some (CacheDir fs m)" and "usable E p"
    and ne: "tmp \<noteq> g" "tmp \<noteq> CURRENT" "link \<noteq> g" "link \<noteq> CURRENT" "CURRENT \<noteq> g"
  shows "\<exists>c1 c2 c3 c4 c5 c6. runs (create_dir tmp) c0 () c1 \<and> runs (set_permissions tmp 0x1C0) c1 () c2 \<and>
           runs (write_new_file tmp KEY (snd p) 0x180) c2 () c3 \<and> runs (write_new_file tmp CERT (fst p) 0x1A4) c3 () c4 \<and>
           runs (validate_candidate E tmp) c4 () c4 \<and> runs (rename tmp g) c4 () c5 \<and> runs (switch_current g link) c5 () c6 \<and>
           link_target c5 = link_target c0 \<and>
           map_of c6 = (map_of c0)(g \<mapsto> CacheDir [(KEY, snd p, 0x180), (CERT, fst p, 0x1A4)] 0x1C0, CURRENT \<mapsto> CacheLink g)"
proof -
  define fs where "fs = [(KEY, snd p, 0x180 :: nat), (CERT, fst p, 0x1A4)]"
  have free: "map_of c0 g = None" "map_of c0 tmp = None" "map_of c0 link = None"
    using assms(1) by (simp_all add: names_free_def)
  have pair: "pair_of fs = Some p" by (simp add: fs_def pair_of_def CERT_def KEY_def bytes_of_def)
  obtain c1 c2 c3 c4 where s: "runs (create_dir tmp) c0 () c1" "runs (set_permissions tmp 0x1C0) c1 () c2"
      "runs (write_new_file tmp KEY (snd p) 0x180) c2 () c3" "runs (write_new_file tmp CERT (fst p) 0x1A4) c3 () c4"
      and c4: "map_of c4 = (map_of c0)(tmp \<mapsto> CacheDir fs 0x1C0)"
    using staged_pair_runs [OF free(2), of p] unfolding fs_def by blast
  have v: "runs (validate_candidate E tmp) c4 () c4" by (rule validate_runs [OF _ pair assms(3)]) (simp add: c4)
  obtain c5 where r: "runs (rename tmp g) c4 () c5" and "map_of c5 = (map_of c4)(tmp := None, g \<mapsto> CacheDir fs 0x1C0)"
    using rename_runs [of c4 tmp "CacheDir fs 0x1C0" g] c4 ne free by auto
  then have c5: "map_of c5 = (map_of c0)(g \<mapsto> CacheDir fs 0x1C0)" using c4 free(2) ne(1) by (auto simp: fun_eq_iff)
  then have prev: "link_target c5 = link_target c0" using ne(5) by (simp add: link_target_def)
  obtain c6 where w: "runs (switch_current g link) c5 () c6" and c6: "map_of c6 = (map_of c5)(CURRENT \<mapsto> CacheLink g)"
    using switch_current_runs [of c5 link g] c5 free ne assms(2) by auto
  from s v r w prev c6 show ?thesis unfolding c5 fs_def by blast
qed

lemma names_differ:
  "temporary_name g \<noteq> generation_name r" "temporary_name g \<noteq> CURRENT" "link_name pid r2 \<noteq> generation_name r"
  "link_name pid r2 \<noteq> CURRENT" "CURRENT \<noteq> generation_name r"
  using names_start(1,2,4) names_start(5) [of g] names_start(6) [of pid r2] by metis+

lemma publish_runs:
  assumes "names_free c0 (generation_name r1) (temporary_name (generation_name r1)) (link_name pid r2)"
    and "\<forall>fs m. map_of c0 CURRENT \<noteq> Some (CacheDir fs m)" and "names_distinct c0" and "usable E p"
  shows "\<exists>c'. runs (publish_certificate_pair E pid r1 r2 p) c0 () c' \<and>
           map_of c' = published c0 (generation_name r1) [(KEY, snd p, 0x180), (CERT, fst p, 0x1A4)]
             (Option.bind (link_target c0) path_file_name)"
proof -
  define g where "g = generation_name r1"
  define tmp where "tmp = temporary_name g"
  define link where "link = link_name pid r2"
  define fs where "fs = [(KEY, snd p, 0x180 :: nat), (CERT, fst p, 0x1A4)]"
  have ne: "tmp \<noteq> g" "tmp \<noteq> CURRENT" "link \<noteq> g" "link \<noteq> CURRENT" "CURRENT \<noteq> g"
    by (simp_all add: g_def tmp_def link_def names_differ)
  obtain c1 c2 c3 c4 c5 c6 where s: "runs (create_dir tmp) c0 () c1" "runs (set_permissions tmp 0x1C0) c1 () c2"
      "runs (write_new_file tmp KEY (snd p) 0x180) c2 () c3" "runs (write_new_file tmp CERT (fst p) 0x1A4) c3 () c4"
      "runs (validate_candidate E tmp) c4 () c4" "runs (rename tmp g) c4 () c5" "runs (switch_current g link) c5 () c6"
      and prev: "link_target c5 = link_target c0" and c6: "map_of c6 = (map_of c0)(g \<mapsto> CacheDir fs 0x1C0, CURRENT \<mapsto> CacheLink g)"
    using publication_runs [OF assms(1) [folded g_def, folded tmp_def link_def] assms(2,4) ne] unfolding fs_def by blast
  have "distinct (map fst fs)" by (simp add: fs_def CERT_def KEY_def bytes_of_def)
  then have "names_distinct c6" using assms(3) c6 by (auto simp: names_distinct_def)
  then obtain c7 where k: "runs (cleanup_generations g (link_target c0)) c6 () c7"
      and c7: "map_of c7 = (\<lambda>n. if doomed g (Option.bind (link_target c0) path_file_name) c6 n then None else map_of c6 n)"
    using cleanup_generations_runs by blast
  have "runs (publish_certificate_pair E pid r1 r2 p) c0 () c7"
    unfolding publish_certificate_pair_def Let_def g_def [symmetric] tmp_def [symmetric] link_def [symmetric]
    by (intro s [THEN runs_and_then] runs_on_error runs_and_then [OF sync_directory_runs] runs_and_then [OF read_link_runs]) (simp add: prev k)
  moreover have "strip_prefix GENERATION CURRENT = None" by (simp add: GENERATION_def CURRENT_def bytes_of_def)
  then have "map_of c7 = published c0 g fs (Option.bind (link_target c0) path_file_name)"
    using c7 c6 ne(5) by (auto simp: published_def doomed_def fun_eq_iff)
  ultimately show ?thesis unfolding g_def fs_def by blast
qed

text \<open>
  Without faults, with free names and a pair that loads, the publication succeeds, and the directory
  afterwards is exactly: \<open>current\<close> leads to the new generation, which holds the two files with their modes in
  a directory of mode 0700; of the older generations only the one \<open>current\<close> led to before is left; every
  other entry is as it was.
\<close>

lemma publish_succeeds:
  assumes "names_free c0 (generation_name r1) (temporary_name (generation_name r1)) (link_name pid r2)"
    and "\<forall>fs m. map_of c0 CURRENT \<noteq> Some (CacheDir fs m)" and "names_distinct c0" and "usable E p"
  shows "\<exists>d. publish_certificate_pair E pid r1 r2 p \<lparr>cache = c0, faults = [], history = []\<rparr> = (Inr (), d) \<and>
           map_of (cache d) = published c0 (generation_name r1) [(KEY, snd p, 0x180), (CERT, fst p, 0x1A4)]
             (Option.bind (link_target c0) path_file_name)"
proof -
  obtain c' where c': "runs (publish_certificate_pair E pid r1 r2 p) c0 () c'"
      "map_of c' = published c0 (generation_name r1) [(KEY, snd p, 0x180), (CERT, fst p, 0x1A4)] (Option.bind (link_target c0) path_file_name)"
    using publish_runs [OF assms] by blast
  from runs_quietly [OF c'(1), of "[]"] c'(2) show ?thesis by auto
qed

lemma published_live: "CURRENT \<noteq> g \<Longrightarrow> map_of c = published c0 g [(KEY, snd p, 0x180), (CERT, fst p, 0x1A4)] prev \<Longrightarrow> live_pair c = Some p"
  by (simp add: live_pair_def live_dir_def pair_of_def published_def) (simp add: CERT_def KEY_def bytes_of_def)

text \<open>When the last sync fails the publication reports an error although the new pair is live.\<close>

lemma publish_unsynced:
  assumes "names_free c0 (generation_name r1) (temporary_name (generation_name r1)) (link_name pid r2)"
    and "\<forall>fs m. map_of c0 CURRENT \<noteq> Some (CacheDir fs m)" and "usable E p"
  shows "\<exists>c'. fails (publish_certificate_pair E pid r1 r2 p) c0 c' \<and> live_dir c' = Some [(KEY, snd p, 0x180), (CERT, fst p, 0x1A4)]"
proof -
  define g where "g = generation_name r1"
  define tmp where "tmp = temporary_name g"
  define link where "link = link_name pid r2"
  have ne: "tmp \<noteq> g" "tmp \<noteq> CURRENT" "link \<noteq> g" "link \<noteq> CURRENT" "CURRENT \<noteq> g"
    by (simp_all add: g_def tmp_def link_def names_differ)
  obtain c1 c2 c3 c4 c5 c6 where s: "runs (create_dir tmp) c0 () c1" "runs (set_permissions tmp 0x1C0) c1 () c2"
      "runs (write_new_file tmp KEY (snd p) 0x180) c2 () c3" "runs (write_new_file tmp CERT (fst p) 0x1A4) c3 () c4"
      "runs (validate_candidate E tmp) c4 () c4" "runs (rename tmp g) c4 () c5" "runs (switch_current g link) c5 () c6"
      and c6: "map_of c6 = (map_of c0)(g \<mapsto> CacheDir [(KEY, snd p, 0x180), (CERT, fst p, 0x1A4)] 0x1C0, CURRENT \<mapsto> CacheLink g)"
    using publication_runs [OF assms(1) [folded g_def, folded tmp_def link_def] assms(2,3) ne] by blast
  have "map_of c6 tmp = None" using c6 ne assms(1) by (simp add: names_free_def g_def tmp_def)
  then have rest: "faults (snd (remove_dir_all tmp d)) = [] \<and> cache (snd (remove_dir_all tmp d)) = c6"
    if "faults d = []" "cache d = c6" for d
    using that by (simp add: remove_dir_all_def and_then_def file_type_def sys_def)
  have sync: "fails sync_directory c6 c6"
    unfolding sync_directory_def by (rule fails_and_then_first) (rule fails_sys)
  have last_sync: "fails (and_then sync_directory (\<lambda>_. and_then (attempt (read_link CURRENT)) (\<lambda>prev.
      and_then (switch_current g link) (\<lambda>_. and_then sync_directory (\<lambda>_. cleanup_generations g prev))))) c5 c6"
    by (rule fails_and_then [OF sync_directory_runs], rule fails_and_then [OF read_link_runs],
        rule fails_and_then [OF s(7)], rule fails_and_then_first [OF sync])
  have "fails (publish_certificate_pair E pid r1 r2 p) c0 c6"
    unfolding publish_certificate_pair_def Let_def g_def [symmetric] tmp_def [symmetric] link_def [symmetric]
    by (intro s(1-6) [THEN fails_and_then] fails_on_error [OF _ rest]) (rule last_sync)
  moreover have "live_dir c6 = Some [(KEY, snd p, 0x180), (CERT, fst p, 0x1A4)]" using c6 ne(5) by (simp add: live_dir_def)
  ultimately show ?thesis by blast
qed

text \<open>The name of a generation is a single path component of ASCII characters.\<close>

lemma hex16_digits: "set (hex16 r) \<subseteq> set (bytes_of ''0123456789abcdef'')"
proof -
  have "unat (w AND 0xF) < length (bytes_of ''0123456789abcdef'')" for w :: u64
  proof -
    have "w AND 0xF \<le> 0xF" by (rule word_and_le1)
    then show ?thesis by (simp add: word_le_nat_alt)
  qed
  then show ?thesis by (auto simp: hex16_def simp del: length_bytes_of intro!: nth_mem)
qed

lemma generation_chars: "set (generation_name r) \<subseteq> set (bytes_of ''generation-0123456789abcdef'')"
  using hex16_digits [of r] by (auto simp: generation_name_def GENERATION_def bytes_of_def)

lemma generation_utf8: "utf8_valid (generation_name r)"
proof (rule utf8_valid_ascii)
  have "\<forall>b \<in> set (bytes_of ''generation-0123456789abcdef''). b < 0x80" by (simp add: bytes_of_def)
  then show "list_all (\<lambda>b. b < 0x80) (generation_name r)" using generation_chars [of r] by (auto simp: list_all_iff)
qed

lemma generation_file_name: "path_file_name (generation_name r) = Some (generation_name r)"
proof -
  have "of_char (CHR ''/'') \<notin> set (bytes_of ''generation-0123456789abcdef'')" by (simp add: bytes_of_def)
  then have "of_char (CHR ''/'') \<notin> set (generation_name r)" using generation_chars [of r] by auto
  then have "split_on (of_char (CHR ''/'')) (generation_name r) = [generation_name r]" by (rule split_on_single)
  moreover have "generation_name r \<noteq> []" "generation_name r \<noteq> bytes_of ''.''" "generation_name r \<noteq> bytes_of ''..''"
    by (simp_all add: generation_name_def GENERATION_def bytes_of_def)
  ultimately show ?thesis by (simp add: path_file_name_def)
qed

section \<open>A small cache\<close>

definition demo_env :: tls_env where
  "demo_env =
     \<lparr>base64 = Some, rsa_der = (\<lambda>_. None), rsa_pkcs8 = (\<lambda>_. None), p256_pkcs8 = (\<lambda>_. None), p384_pkcs8 = (\<lambda>_. None),
      ed25519_pkcs8 = (\<lambda>d. Some (d, \<lambda>_ m. Some m)),
      x509_der = (\<lambda>d. Some \<lparr>x_public_key = d, x_not_before = 1000,
                            x_not_after = (if d = bytes_of ''new'' then 90000000 else 9000000)\<rparr>),
      x509_pem = (\<lambda>f. case pem_sections Some f of Inr (s # _) \<Rightarrow> Some (pem_der s) | _ \<Rightarrow> None)\<rparr>"

definition demo_file :: "string \<Rightarrow> string \<Rightarrow> bytes" where
  "demo_file label body = write_lines (section_lines (bytes_of label) [bytes_of body])"

definition demo_pair :: "string \<Rightarrow> bytes \<times> bytes" where
  "demo_pair body = (demo_file ''CERTIFICATE'' body, demo_file ''PRIVATE KEY'' body)"

definition demo_cache :: cache where
  "demo_cache =
     [(CURRENT, CacheLink (generation_name 1)),
      (generation_name 1, CacheDir [(KEY, snd (demo_pair ''old''), 0x180), (CERT, fst (demo_pair ''old''), 0x1A4)] 0x1C0),
      (generation_name 2, CacheDir [(KEY, [], 0x180)] 0x1C0)]"

lemma demo_sections:
  assumes "label \<in> {''CERTIFICATE'', ''PRIVATE KEY''}" and "body \<in> {''old'', ''new''}"
  shows "pem_sections Some (demo_file label body) = Inr [\<lparr>pem_label = bytes_of label, pem_der = bytes_of body\<rparr>]"
proof -
  have lines: "\<forall>l \<in> set (section_lines (bytes_of label) [bytes_of body]). newline \<notin> set l \<and> carriage_return \<notin> set l"
    and line: "body_line (bytes_of body)" and ascii: "list_all (\<lambda>b. b < 0x80) (demo_file label body)"
    using assms by (auto simp: section_lines_def end_line_def bytes_of_def newline_def carriage_return_def body_line_def
        is_ascii_whitespace_def demo_file_def write_lines_def)
  then show ?thesis
    using text_lines_write [OF lines] utf8_valid_ascii [OF ascii]
      pem_from_write [of "[(bytes_of label, [bytes_of body], bytes_of body)]" Some]
    by (simp add: pem_sections_def demo_file_def)
qed

lemma demo_usable: "usable demo_env (demo_pair ''old'')" "usable demo_env (demo_pair ''new'')"
  by (simp_all add: usable_def identity_of_def load_cert_chain_def identity_with_key_def load_private_key_def demo_pair_def
      demo_env_def demo_sections from_private_key_def new_identity_def) (simp_all add: bytes_of_def)

lemma demo_names: "generation_name 1 \<noteq> generation_name 2"
  by code_simp

lemma demo_cache_ok: "link_ok demo_cache" "keys_private demo_cache" "names_distinct demo_cache"
  "live_pair demo_cache = Some (demo_pair ''old'')"
  using names_start(4) [of 1] names_start(4) [of 2] demo_names
  by (auto simp: link_ok_def keys_private_def names_distinct_def demo_cache_def live_pair_def live_dir_def pair_of_def generation_name_def
      CERT_def KEY_def bytes_of_def split: if_splits)

lemma demo_free: "names_free demo_cache (generation_name 3) (temporary_name (generation_name 3)) (link_name 7 4)"
  by code_simp

theorem publish_atomic_witness:
  "link_ok demo_cache \<and> keys_private demo_cache \<and>
   (let (r, d) = publish_certificate_pair demo_env 7 3 4 (demo_pair ''new'')
                   \<lparr>cache = demo_cache, faults = replicate 12 Passes @ [Breaks 0], history = []\<rparr>
    in (\<forall>c \<in> set (cache d # history d). keys_private c \<and>
          (live_pair c = Some (demo_pair ''old'') \<or> live_pair c = Some (demo_pair ''new'') \<and> usable demo_env (demo_pair ''new''))) \<and>
       (r = Inr () \<longrightarrow> live_pair (cache d) = Some (demo_pair ''new'')))"
  using demo_cache_ok
    publish_atomic [OF demo_cache_ok(1,2), of demo_env 7 3 4 "demo_pair ''new''" "replicate 12 Passes @ [Breaks 0]", OF prod.collapse [symmetric]]
  by (simp add: case_prod_beta Let_def)

lemma publish_succeeds_example:
  "usable demo_env (demo_pair ''new'') \<and>
   (\<exists>d. publish_certificate_pair demo_env 7 3 4 (demo_pair ''new'') \<lparr>cache = demo_cache, faults = [], history = []\<rparr> = (Inr (), d) \<and>
        map_of (cache d) CURRENT = Some (CacheLink (generation_name 3)) \<and> map_of (cache d) (generation_name 2) = None)"
proof -
  have "\<forall>fs m. map_of demo_cache CURRENT \<noteq> Some (CacheDir fs m)" by (simp add: demo_cache_def)
  note run = publish_succeeds [OF demo_free this demo_cache_ok(3) demo_usable(2)]
  have "generation_name 2 \<noteq> generation_name 3" by code_simp
  moreover have "link_target demo_cache = Some (generation_name 1)" by (simp add: link_target_def demo_cache_def)
  ultimately have "doomed (generation_name 3) (Option.bind (link_target demo_cache) path_file_name) demo_cache (generation_name 2)"
    using demo_names names_start(4) [of 2]
    by (simp add: doomed_def generation_utf8 generation_file_name demo_cache_def) (simp add: generation_name_def)
  with run show ?thesis using demo_usable(2) names_start(4) [of 2] by (auto simp: published_def doomed_def)
qed

end
