(* ===== verification/TlsServer.thy ===== *)
theory TlsServer
  imports TlsCert
begin

text \<open>
  The TLS 1.3 server handshake of the self-contained backend: the encrypted flight, the second half of
  \<^verbatim>\<open>src/tls/tls13/flight.rs\<close>, and \<^verbatim>\<open>src/tls/tls13/handshake.rs\<close>. The outer \<open>None\<close> of a result is a panic of the source.
\<close>

section \<open>The flight\<close>

record server_flight =
  fl_server_hello :: bytes
  fl_change_cipher_spec :: bytes
  fl_plaintext :: bytes
  fl_record :: bytes
  fl_server_finished :: bytes
  fl_transcript_hash :: bytes

definition build_server_handshake_flight ::
  "hkdf \<Rightarrow> tls_aead \<Rightarrow> synthesized_hello \<Rightarrow> key_schedule \<Rightarrow> bytes \<Rightarrow> bytes \<Rightarrow> bytes \<Rightarrow> bytes \<Rightarrow> (flight_error + server_flight) option" where
  "build_server_handshake_flight H T selected schedule before ee cert cv =
     (if sch_hash schedule \<noteq> suite_hash (sh_suite selected) then Some (Inl CipherHashMismatch)
      else
        let transcript = before @ sh_message selected @ ee @ cert @ cv;
            th = hk_hash H (sch_hash schedule) transcript
        in do {
          verify_data \<leftarrow> finished_verify_data H schedule (server_hs_traffic schedule) th;
          let server_finished = finished_message verify_data;
          let plain = ee @ cert @ cv @ server_finished;
          (k, iv) \<leftarrow> traffic_keys H schedule (server_hs_traffic schedule) (key_len (sh_suite selected));
          rk \<leftarrow> record_keys_new (sh_suite selected) k iv;
          (rec, _) \<leftarrow> tls_seal T rk RECORD_HANDSHAKE plain;
          Some (Inr \<lparr>fl_server_hello = sh_message selected, fl_change_cipher_spec = change_cipher_spec_record,
                     fl_plaintext = plain, fl_record = rec, fl_server_finished = server_finished, fl_transcript_hash = th\<rparr>)
        })"

section \<open>Preparation\<close>

record prepared =
  pr_client :: client_hello
  selected_alpn :: "bytes option"
  pr_server_hello :: synthesized_hello
  pr_flight :: server_flight
  client_handshake_read :: record_keys
  transcript_hash_to_client_finished :: bytes
  pr_schedule :: key_schedule
  expected_client_finished :: bytes

datatype prepare_error =
    PrepClientHello parse_error | MissingTemplateKeyShare | MissingClientKeyShare u16 | MissingSignatureAlgorithms
  | PrepKeyShare key_share_error | PrepFlight flight_error | PrepCertificateVerify certificate_verify_error

definition select_alpn :: "client_hello \<Rightarrow> bytes list \<Rightarrow> bytes option" where
  "select_alpn client protocols = find (\<lambda>p. p \<in> set (alpn (ch_offer client))) protocols"

text \<open>The end of \<open>prepare_server_handshake\<close>, from the CertificateVerify message on.\<close>

definition finish_preparation ::
  "hkdf \<Rightarrow> tls_aead \<Rightarrow> client_hello \<Rightarrow> bytes option \<Rightarrow> synthesized_hello \<Rightarrow> bytes \<Rightarrow> bytes \<Rightarrow> bytes \<Rightarrow> bytes \<Rightarrow>
     (prepare_error + prepared) option" where
  "finish_preparation H T client alpn1 sh shared ee cert cv =
     (let h = suite_hash (sh_suite sh);
          th_ch_sh = hk_hash H h (raw_message client @ sh_message sh)
      in do {
        schedule \<leftarrow> key_schedule_new H h shared th_ch_sh;
        (k, iv) \<leftarrow> traffic_keys H schedule (client_hs_traffic schedule) (key_len (sh_suite sh));
        read_keys \<leftarrow> record_keys_new (sh_suite sh) k iv;
        fl \<leftarrow> build_server_handshake_flight H T sh schedule (raw_message client) ee cert cv;
        (case fl of
           Inl e \<Rightarrow> Some (Inl (PrepFlight e))
         | Inr flight \<Rightarrow>
             let th = hk_hash H h (raw_message client @ sh_message sh @ ee @ cert @ cv @ fl_server_finished flight)
             in do {
               expected1 \<leftarrow> finished_verify_data H schedule (client_hs_traffic schedule) th;
               Some (Inr \<lparr>pr_client = client, selected_alpn = alpn1, pr_server_hello = sh, pr_flight = flight,
                          client_handshake_read = read_keys, transcript_hash_to_client_finished = th,
                          pr_schedule = schedule, expected_client_finished = expected1\<rparr>)
             })
      })"

definition prepare_server_handshake ::
  "hkdf \<Rightarrow> tls_aead \<Rightarrow> crypto \<Rightarrow> bytes \<Rightarrow> bytes \<Rightarrow> identity \<Rightarrow> bytes list \<Rightarrow> bytes \<Rightarrow> bytes \<Rightarrow> (prepare_error + prepared) option" where
  "prepare_server_handshake H T C ch_message template i protocols secret random =
     (case parse_message ch_message of
        Inl e \<Rightarrow> Some (Inl (PrepClientHello e))
      | Inr client \<Rightarrow>
          if signature_schemes (ch_offer client) = [] then Some (Inl MissingSignatureAlgorithms)
          else (case find_server_keyshare template of
            None \<Rightarrow> None
          | Some None \<Rightarrow> Some (Inl MissingTemplateKeyShare)
          | Some (Some (grp, _, _)) \<Rightarrow>
              (case find (\<lambda>s. ks_group s = grp) (key_shares (ch_offer client)) of
                 None \<Rightarrow> Some (Inl (MissingClientKeyShare grp))
               | Some share \<Rightarrow>
                   (case generate_server_keyshare C grp (ks_data share) secret of
                      Inl e \<Rightarrow> Some (Inl (PrepKeyShare e))
                    | Inr ks \<Rightarrow>
                        (case synthesize_server_hello template client (sks_public ks) random of
                           None \<Rightarrow> None
                         | Some (Inl e) \<Rightarrow> Some (Inl (PrepFlight e))
                         | Some (Inr sh) \<Rightarrow>
                             let alpn1 = select_alpn client protocols;
                                 ee = encrypted_extensions_with_alpn alpn1;
                                 cert = certificate_message (id_chain i);
                                 th = hk_hash H (suite_hash (sh_suite sh)) (raw_message client @ sh_message sh @ ee @ cert)
                             in (case sign_certificate_verify i th (signature_schemes (ch_offer client)) of
                                   Inl e \<Rightarrow> Some (Inl (PrepCertificateVerify e))
                                 | Inr cv \<Rightarrow> finish_preparation H T client alpn1 sh (sks_secret ks) ee cert cv))))))"

datatype client_finished_error = FinishedMalformed | VerifyDataMismatch

definition verify_client_finished_message :: "prepared \<Rightarrow> bytes \<Rightarrow> client_finished_error + unit" where
  "verify_client_finished_message p m =
     (if length m \<noteq> 4 + length (expected_client_finished p) \<or> get_at m 0 \<noteq> Some HS_FINISHED then Inl FinishedMalformed
      else if len24 (m ! 1) (m ! 2) (m ! 3) \<noteq> length (expected_client_finished p) then Inl FinishedMalformed
      else if drop 4 m \<noteq> expected_client_finished p then Inl VerifyDataMismatch
      else Inr ())"

definition application_record_keys :: "hkdf \<Rightarrow> prepared \<Rightarrow> (record_keys \<times> record_keys) option" where
  "application_record_keys H p =
     do {
       (cs, ss) \<leftarrow> application_traffic_secrets H (pr_schedule p) (transcript_hash_to_client_finished p);
       let suite = sh_suite (pr_server_hello p);
       (ck, civ) \<leftarrow> traffic_keys H (pr_schedule p) cs (key_len suite);
       (sk, siv) \<leftarrow> traffic_keys H (pr_schedule p) ss (key_len suite);
       cr \<leftarrow> record_keys_new suite ck civ;
       sw \<leftarrow> record_keys_new suite sk siv;
       Some (cr, sw)
     }"

section \<open>The client's view\<close>

text \<open>What a client computes from the ServerHello: suite and key schedule.\<close>

definition client_schedule :: "hkdf \<Rightarrow> crypto \<Rightarrow> bytes \<Rightarrow> bytes \<Rightarrow> bytes \<Rightarrow> (cipher_suite \<times> key_schedule) option" where
  "client_schedule H C x m sh =
     do {
       (grp, off, len) \<leftarrow> Option.bind (find_server_keyshare sh) id;
       cipher \<leftarrow> server_hello_cipher_suite sh;
       suite \<leftarrow> suite_from_u16 cipher;
       sched \<leftarrow> key_schedule_new H (suite_hash suite) (x_dh C x (take len (drop off sh))) (hk_hash H (suite_hash suite) (m @ sh));
       Some (suite, sched)
     }"

text \<open>How it opens the flight, and the keys of the application data. The client derives its keys with the same labels as the
  server and takes records of any length, so an error in a label, or a flight longer than the \<open>2 ^ 14\<close> bytes a real client
  accepts, is not visible here.\<close>

definition client_open_flight :: "hkdf \<Rightarrow> tls_aead \<Rightarrow> cipher_suite \<Rightarrow> key_schedule \<Rightarrow> bytes \<Rightarrow> (u8 \<times> bytes) option" where
  "client_open_flight H T suite sched rec =
     do {
       (k, iv) \<leftarrow> traffic_keys H sched (server_hs_traffic sched) (key_len suite);
       rk \<leftarrow> record_keys_new suite k iv;
       fst (tls_open T rk rec)
     }"

definition client_handshake_keys :: "hkdf \<Rightarrow> cipher_suite \<Rightarrow> key_schedule \<Rightarrow> record_keys option" where
  "client_handshake_keys H suite sched =
     do {
       (k, iv) \<leftarrow> traffic_keys H sched (client_hs_traffic sched) (key_len suite);
       record_keys_new suite k iv
     }"

definition client_application_keys :: "hkdf \<Rightarrow> cipher_suite \<Rightarrow> key_schedule \<Rightarrow> bytes \<Rightarrow> (record_keys \<times> record_keys) option" where
  "client_application_keys H suite sched th =
     do {
       (cs, ss) \<leftarrow> application_traffic_secrets H sched th;
       (ck, civ) \<leftarrow> traffic_keys H sched cs (key_len suite);
       (sk, siv) \<leftarrow> traffic_keys H sched ss (key_len suite);
       cw \<leftarrow> record_keys_new suite ck civ;
       sr \<leftarrow> record_keys_new suite sk siv;
       Some (cw, sr)
     }"

lemma parse_message_raw:
  assumes "parse_message m = Inr client"
  shows "raw_message client = m"
  using assms by (auto simp: parse_message_def split: sum.splits if_splits)

lemma u24_nth: "(x # u24 n @ ys) ! 1 = u24 n ! 0" "(x # u24 n @ ys) ! 2 = u24 n ! 1" "(x # u24 n @ ys) ! 3 = u24 n ! 2"
  by (simp_all add: u24_def Let_def)

lemma verify_finished_iff:
  assumes "length (expected_client_finished p) < 2 ^ 24"
  shows "verify_client_finished_message p m = Inr () \<longleftrightarrow> m = finished_message (expected_client_finished p)"
proof
  let ?e = "expected_client_finished p"
  assume v: "verify_client_finished_message p m = Inr ()"
  then have l: "length m = 4 + length ?e" "m ! 0 = HS_FINISHED" "len24 (m ! 1) (m ! 2) (m ! 3) = length ?e" "drop 4 m = ?e"
    by (auto simp: verify_client_finished_message_def get_at_def split: if_splits)
  obtain a b c d where m: "m = a # b # c # d # ?e"
  proof -
    define w where "w = take 4 m"
    have "m = w @ ?e" using l(4) by (metis append_take_drop_id w_def)
    moreover have "length w = 4" using l(1) by (simp add: w_def)
    then obtain a b c d where "w = [a, b, c, d]"
      by (auto simp: numeral_eq_Suc length_Suc_conv)
    ultimately show ?thesis using that by simp
  qed
  have "len24 b c d = length ?e" "a = HS_FINISHED" using l m by (simp_all add: numeral_2_eq_2 numeral_3_eq_3)
  moreover have "u24 (len24 b c d) = [b, c, d]"
    by (rule u24_len24)
  ultimately show "m = finished_message ?e" using m by (simp add: finished_message_def handshake_message_def)
next
  let ?e = "expected_client_finished p"
  assume m: "m = finished_message ?e"
  have "len24 (m ! 1) (m ! 2) (m ! 3) = length ?e"
    unfolding m finished_message_def handshake_message_def u24_nth by (rule u24_length [OF assms])
  with m show "verify_client_finished_message p m = Inr ()"
    by (simp add: verify_client_finished_message_def finished_message_def handshake_message_def get_at_def)
qed

lemma tls_seal_open:
  assumes "tls_aead_correct T" and "length p + 17 < 2 ^ 16" and "ct \<noteq> 0"
  shows "\<exists>rec rk'. tls_seal T rk ct p = Some (rec, rk') \<and> fst (tls_open T rk rec) = Some (ct, p)"
  using seal_then_open_tls [OF assms(1) _ assms(3), of p 0 rk "[]"] assms(2)
  by (auto simp: tls_seal_def seal_with_padding_def)

lemma flight_opens:
  assumes H: "hkdf_correct H" and T: "tls_aead_correct T"
    and ks: "sch_ok ks" "sch_hash ks = suite_hash (sh_suite sh)"
    and l: "length ee + length cert + length cv + 100 < 2 ^ 16"
  shows "\<exists>fl vd. build_server_handshake_flight H T sh ks m ee cert cv = Some (Inr fl) \<and>
    finished_verify_data H ks (server_hs_traffic ks) (hk_hash H (sch_hash ks) (m @ sh_message sh @ ee @ cert @ cv)) = Some vd \<and>
    fl_server_finished fl = finished_message vd \<and> fl_server_hello fl = sh_message sh \<and>
    fl_change_cipher_spec fl = change_cipher_spec_record \<and>
    client_open_flight H T (sh_suite sh) ks (fl_record fl) = Some (RECORD_HANDSHAKE, ee @ cert @ cv @ finished_message vd)"
proof -
  let ?th = "hk_hash H (sch_hash ks) (m @ sh_message sh @ ee @ cert @ cv)"
  obtain vd where vd: "finished_verify_data H ks (server_hs_traffic ks) ?th = Some vd" "length vd = output_len (sch_hash ks)"
    using finished_total [OF H, of "server_hs_traffic ks" ks ?th] ks(1) by (auto simp: sch_ok_def)
  let ?plain = "ee @ cert @ cv @ finished_message vd"
  obtain k iv where k: "traffic_keys H ks (server_hs_traffic ks) (key_len (sh_suite sh)) = Some (k, iv)" "length k = key_len (sh_suite sh)"
    using traffic_keys_total [OF H, of "server_hs_traffic ks" ks "sh_suite sh"] ks(1) by (auto simp: sch_ok_def)
  obtain rk where rk: "record_keys_new (sh_suite sh) k iv = Some rk" using k(2) by (simp add: record_keys_new_def)
  have "length (finished_message vd) \<le> 52"
    using vd(2) by (cases "sch_hash ks") (simp_all add: finished_message_def handshake_message_def)
  then have "length ?plain + 17 < 2 ^ 16" using l by simp
  then obtain rec rk' where r: "tls_seal T rk RECORD_HANDSHAKE ?plain = Some (rec, rk')"
      "fst (tls_open T rk rec) = Some (RECORD_HANDSHAKE, ?plain)"
    using tls_seal_open [OF T, of ?plain RECORD_HANDSHAKE rk] by (auto simp: RECORD_HANDSHAKE_def)
  show ?thesis
    using ks(2) vd(1) k(1) rk r
    by (auto simp: build_server_handshake_flight_def client_open_flight_def Let_def)
qed

lemma application_keys_total:
  assumes H: "hkdf_correct H" and ks: "sch_ok ks"
  shows "client_application_keys H suite ks th \<noteq> None"
proof -
  obtain c s where cs: "application_traffic_secrets H ks th = Some (c, s)" "length c = output_len (sch_hash ks)"
      "length s = output_len (sch_hash ks)"
    using application_secrets_total [OF H ks] by blast
  obtain k iv where "traffic_keys H ks c (key_len suite) = Some (k, iv)" "length k = key_len suite"
    using traffic_keys_total [OF H cs(2)] by blast
  moreover obtain k' iv' where "traffic_keys H ks s (key_len suite) = Some (k', iv')" "length k' = key_len suite"
    using traffic_keys_total [OF H cs(3)] by blast
  ultimately show ?thesis using cs(1) by (simp add: client_application_keys_def record_keys_new_def)
qed

text \<open>The part after the ServerHello, for any shared secret.\<close>

lemma preparation_agrees:
  assumes H: "hkdf_correct H" and T: "tls_aead_correct T"
    and l: "length ee + length cert + length cv + 100 < 2 ^ 16"
    and sched: "key_schedule_new H (suite_hash (sh_suite sh)) shared (hk_hash H (suite_hash (sh_suite sh)) (raw_message client @ sh_message sh)) = Some ks"
  shows "\<exists>p plain hs vd cvd. finish_preparation H T client a sh shared ee cert cv = Some (Inr p) \<and>
    pr_schedule p = ks \<and> fl_server_hello (pr_flight p) = sh_message sh \<and> selected_alpn p = a \<and>
    fl_change_cipher_spec (pr_flight p) = change_cipher_spec_record \<and>
    client_handshake_keys H (sh_suite sh) ks = Some (client_handshake_read p) \<and>
    client_open_flight H T (sh_suite sh) ks (fl_record (pr_flight p)) = Some (RECORD_HANDSHAKE, plain) \<and>
    plain = hs @ finished_message vd \<and>
    finished_verify_data H ks (server_hs_traffic ks) (hk_hash H (sch_hash ks) (raw_message client @ sh_message sh @ hs)) = Some vd \<and>
    finished_verify_data H ks (client_hs_traffic ks) (hk_hash H (sch_hash ks) (raw_message client @ sh_message sh @ plain)) = Some cvd \<and>
    (\<forall>msg. verify_client_finished_message p msg = Inr () \<longleftrightarrow> msg = finished_message cvd) \<and>
    application_record_keys H p = client_application_keys H (sh_suite sh) ks (hk_hash H (sch_hash ks) (raw_message client @ sh_message sh @ plain)) \<and>
    application_record_keys H p \<noteq> None"
proof -
  have ks: "sch_ok ks" "sch_hash ks = suite_hash (sh_suite sh)"
    using key_schedule_total [OF H] sched by (metis option.inject)+
  obtain fl vd where fl: "build_server_handshake_flight H T sh ks (raw_message client) ee cert cv = Some (Inr fl)"
    "finished_verify_data H ks (server_hs_traffic ks) (hk_hash H (sch_hash ks) (raw_message client @ sh_message sh @ ee @ cert @ cv)) = Some vd"
    "fl_server_finished fl = finished_message vd" "fl_server_hello fl = sh_message sh"
    "client_open_flight H T (sh_suite sh) ks (fl_record fl) = Some (RECORD_HANDSHAKE, ee @ cert @ cv @ finished_message vd)"
    "fl_change_cipher_spec fl = change_cipher_spec_record"
    using flight_opens [OF H T ks l] by blast
  let ?plain = "ee @ cert @ cv @ finished_message vd"
  let ?th = "hk_hash H (sch_hash ks) (raw_message client @ sh_message sh @ ?plain)"
  obtain cvd where cvd: "finished_verify_data H ks (client_hs_traffic ks) ?th = Some cvd" "length cvd = output_len (sch_hash ks)"
    using finished_total [OF H, of "client_hs_traffic ks" ks ?th] ks(1) by (auto simp: sch_ok_def)
  obtain k iv where k: "traffic_keys H ks (client_hs_traffic ks) (key_len (sh_suite sh)) = Some (k, iv)" "length k = key_len (sh_suite sh)"
    using traffic_keys_total [OF H, of "client_hs_traffic ks" ks "sh_suite sh"] ks(1) by (auto simp: sch_ok_def)
  obtain rk where rk: "record_keys_new (sh_suite sh) k iv = Some rk" using k(2) by (simp add: record_keys_new_def)
  let ?p = "\<lparr>pr_client = client, selected_alpn = a, pr_server_hello = sh, pr_flight = fl,
                          client_handshake_read = rk, transcript_hash_to_client_finished = ?th,
                          pr_schedule = ks, expected_client_finished = cvd\<rparr>"
  have p: "finish_preparation H T client a sh shared ee cert cv = Some (Inr ?p)"
    using sched k(1) rk fl(1,3) cvd(1) ks(2) by (simp add: finish_preparation_def Let_def)
  have app: "application_record_keys H ?p = client_application_keys H (sh_suite sh) ks ?th"
    by (simp add: application_record_keys_def client_application_keys_def Let_def)
  have "length (expected_client_finished ?p) < 2 ^ 24" using cvd(2) by (cases "sch_hash ks") simp_all
  from verify_finished_iff [OF this] have ver: "verify_client_finished_message ?p msg = Inr () \<longleftrightarrow> msg = finished_message cvd" for msg
    by simp
  show ?thesis
    using p fl(2,4,5,6) cvd(1) app ver application_keys_total [OF H ks(1)] k(1) rk
    by (intro exI [of _ ?p] exI [of _ ?plain] exI [of _ "ee @ cert @ cv"] exI [of _ vd] exI [of _ cvd]) (simp add: client_handshake_keys_def)
qed

lemma client_schedule_server_hello:
  assumes C: "crypto_correct C" and "length r = 32" and "length sid < 256" and "share_ok pre post grp (x_public C secret)"
  shows "client_schedule H C x m (server_hello r sid (suite_to_u16 suite) (share_in pre post grp (x_public C secret))) =
    Option.bind (key_schedule_new H (suite_hash suite) (x_dh C secret (x_public C x))
       (hk_hash H (suite_hash suite) (m @ server_hello r sid (suite_to_u16 suite) (share_in pre post grp (x_public C secret)))))
      (\<lambda>s. Some (suite, s))"
proof -
  let ?k = "x_public C secret"
  let ?sh = "server_hello r sid (suite_to_u16 suite) (share_in pre post grp ?k)"
  let ?off = "44 + length sid + length (encode_exts pre) + 8"
  have "splice ?sh ?off ?k = ?sh" using splice_server_hello [OF assms(2,3) refl] by simp
  moreover have "?off + length ?k \<le> length ?sh"
    using assms(2) by (simp add: server_hello_def handshake_message_def server_hello_body_def encode_exts_share)
  ultimately have "take (length ?k) (drop ?off ?sh) = ?k"
    by (metis append_eq_conv_conj append_take_drop_id drop_drop length_take min.absorb2 splice_def add_leD1)
  then show ?thesis
    using find_in_server_hello [OF assms(2-4)] crypto_dh [OF C, of x secret] by (simp add: client_schedule_def)
qed

lemma handshake_prepared:
  assumes "hkdf_correct H" and "tls_aead_correct T" and "crypto_correct C"
    and "length r0 = 32" and "length sid0 < 256" and "share_ok pre post GROUP_X25519 k0" and "length k0 = 32"
    and "template = server_hello r0 sid0 (suite_to_u16 suite) (share_in pre post GROUP_X25519 k0)"
    and "parse_message m = Inr client" and "offers_tls13 (ch_offer client)" and "length (ch_session_id client) \<le> 32"
    and "cipher_offered client (suite_to_u16 suite)" and "keyshare_group_offered client GROUP_X25519"
    and "find (\<lambda>s. ks_group s = GROUP_X25519) (key_shares (ch_offer client)) = Some share" and "ks_data share = x_public C x"
    and "contributory C (x_dh C secret (x_public C x))"
    and "signature_schemes (ch_offer client) \<noteq> []"
    and "\<forall>th. \<exists>cv. sign_certificate_verify i th (signature_schemes (ch_offer client)) = Inr cv \<and>
           length (encrypted_extensions_with_alpn (select_alpn client protocols)) +
           length (certificate_message (id_chain i)) + length cv + 100 < 2 ^ 16"
    and "length random = 32"
  shows "\<exists>p ks plain hs vd cvd.
    (fl_change_cipher_spec (pr_flight p) = change_cipher_spec_record \<and>
     client_handshake_keys H suite ks = Some (client_handshake_read p)) \<and>
    prepare_server_handshake H T C m template i protocols secret random = Some (Inr p) \<and>
    client_schedule H C x m (fl_server_hello (pr_flight p)) = Some (suite, ks) \<and>
    client_open_flight H T suite ks (fl_record (pr_flight p)) = Some (RECORD_HANDSHAKE, plain) \<and>
    plain = hs @ finished_message vd \<and>
    finished_verify_data H ks (server_hs_traffic ks) (hk_hash H (sch_hash ks) (m @ fl_server_hello (pr_flight p) @ hs)) = Some vd \<and>
    finished_verify_data H ks (client_hs_traffic ks) (hk_hash H (sch_hash ks) (m @ fl_server_hello (pr_flight p) @ plain)) = Some cvd \<and>
    (\<forall>msg. verify_client_finished_message p msg = Inr () \<longleftrightarrow> msg = finished_message cvd) \<and>
    application_record_keys H p =
      client_application_keys H suite ks (hk_hash H (sch_hash ks) (m @ fl_server_hello (pr_flight p) @ plain)) \<and>
    application_record_keys H p \<noteq> None"
proof -
  let ?grp = GROUP_X25519 and ?pub = "x_public C secret"
  let ?sh = "server_hello random (ch_session_id client) (suite_to_u16 suite) (share_in pre post ?grp ?pub)"
  let ?syn = "\<lparr>sh_message = ?sh, sh_suite = suite, key_share_group = ?grp\<rparr>"
  let ?shared = "x_dh C secret (x_public C x)"
  have pub: "length ?pub = length k0" "length (x_public C x) = 32" using crypto_lengths [OF assms(3)] assms(7) by auto
  have raw: "raw_message client = m" by (rule parse_message_raw [OF assms(9)])
  have syn: "synthesize_server_hello template client ?pub random = Some (Inr ?syn)"
    unfolding assms(8) by (rule synthesized [OF assms(4,5,6,10,11,12,13) pub(1) assms(19)])
  have gen: "generate_server_keyshare C ?grp (ks_data share) secret = Inr \<lparr>sks_group = ?grp, sks_public = ?pub, sks_secret = ?shared\<rparr>"
    using assms(15,16) pub(2) by (simp add: generate_server_keyshare_def x25519_with_secret_def Let_def)
  have fs: "find_server_keyshare template = Some (Some (?grp, 44 + length sid0 + length (encode_exts pre) + 8, length k0))"
    unfolding assms(8) by (rule find_in_server_hello [OF assms(4,5,6)])
  let ?a = "select_alpn client protocols"
  let ?ee = "encrypted_extensions_with_alpn ?a" and ?cert = "certificate_message (id_chain i)"
  obtain cv where cv: "sign_certificate_verify i (hk_hash H (suite_hash suite) (m @ ?sh @ ?ee @ ?cert)) (signature_schemes (ch_offer client)) = Inr cv"
      "length ?ee + length ?cert + length cv + 100 < 2 ^ 16"
    using assms(18) by blast
  obtain ks where ks: "key_schedule_new H (suite_hash suite) ?shared (hk_hash H (suite_hash suite) (m @ ?sh)) = Some ks"
    using key_schedule_total [OF assms(1)] by blast
  have prep: "prepare_server_handshake H T C m template i protocols secret random =
      finish_preparation H T client ?a ?syn ?shared ?ee ?cert cv"
    using assms(9,14,17) fs gen syn cv(1) raw by (simp add: prepare_server_handshake_def Let_def)
  have sid: "length (ch_session_id client) < 256" using assms(11) by simp
  have cs: "client_schedule H C x m ?sh = Some (suite, ks)"
    using client_schedule_server_hello [OF assms(3,19) sid share_ok_same_length [OF assms(6) pub(1)], of H x m suite] ks by simp
  obtain p plain hs vd cvd where p: "finish_preparation H T client ?a ?syn ?shared ?ee ?cert cv = Some (Inr p)"
    "fl_server_hello (pr_flight p) = ?sh"
    "client_open_flight H T suite ks (fl_record (pr_flight p)) = Some (RECORD_HANDSHAKE, plain)"
    "plain = hs @ finished_message vd"
    "finished_verify_data H ks (server_hs_traffic ks) (hk_hash H (sch_hash ks) (m @ ?sh @ hs)) = Some vd"
    "finished_verify_data H ks (client_hs_traffic ks) (hk_hash H (sch_hash ks) (m @ ?sh @ plain)) = Some cvd"
    "\<forall>msg. verify_client_finished_message p msg = Inr () \<longleftrightarrow> msg = finished_message cvd"
    "application_record_keys H p = client_application_keys H suite ks (hk_hash H (sch_hash ks) (m @ ?sh @ plain))"
    "application_record_keys H p \<noteq> None" "fl_change_cipher_spec (pr_flight p) = change_cipher_spec_record"
    "client_handshake_keys H suite ks = Some (client_handshake_read p)"
    using preparation_agrees [OF assms(1,2) cv(2), of ?syn ?shared client ks ?a, unfolded synthesized_hello.select_convs raw, OF ks]
    by (elim exE conjE) (rule that; assumption)
  show ?thesis
    using p cs prep
    by (intro exI [of _ p] exI [of _ ks] exI [of _ plain] exI [of _ hs] exI [of _ vd] exI [of _ cvd]) simp
qed

text \<open>
  C14. The TLS 1.3 handshake agrees: for a well-formed template and a client that offers TLS 1.3, the
  template's suite and an X25519 share, the server prepares its handshake without error or panic; the
  client, from its own secret and the ServerHello alone, computes the server's key schedule, opens the
  encrypted flight, and finds a Finished message that verifies over the transcript before it; the
  server then accepts exactly the client's own Finished message and no other bytes, and both ends have
  the same application keys.
\<close>

theorem tls_handshake_agreement:
  assumes "hkdf_correct H" and "tls_aead_correct T" and "crypto_correct C"
    and "length r0 = 32" and "length sid0 < 256" and "share_ok pre post GROUP_X25519 k0" and "length k0 = 32"
    and "template = server_hello r0 sid0 (suite_to_u16 suite) (share_in pre post GROUP_X25519 k0)"
    and "parse_message m = Inr client" and "offers_tls13 (ch_offer client)" and "length (ch_session_id client) \<le> 32"
    and "cipher_offered client (suite_to_u16 suite)" and "keyshare_group_offered client GROUP_X25519"
    and "find (\<lambda>s. ks_group s = GROUP_X25519) (key_shares (ch_offer client)) = Some share" and "ks_data share = x_public C x"
    and "contributory C (x_dh C secret (x_public C x))"
    and "signature_schemes (ch_offer client) \<noteq> []"
    and "\<forall>th. \<exists>cv. sign_certificate_verify i th (signature_schemes (ch_offer client)) = Inr cv \<and>
           length (encrypted_extensions_with_alpn (select_alpn client protocols)) +
           length (certificate_message (id_chain i)) + length cv + 100 < 2 ^ 16"
    and "length random = 32"
  shows "\<exists>p ks plain hs vd cvd.
    prepare_server_handshake H T C m template i protocols secret random = Some (Inr p) \<and>
    client_schedule H C x m (fl_server_hello (pr_flight p)) = Some (suite, ks) \<and>
    client_open_flight H T suite ks (fl_record (pr_flight p)) = Some (RECORD_HANDSHAKE, plain) \<and>
    plain = hs @ finished_message vd \<and>
    finished_verify_data H ks (server_hs_traffic ks) (hk_hash H (sch_hash ks) (m @ fl_server_hello (pr_flight p) @ hs)) = Some vd \<and>
    finished_verify_data H ks (client_hs_traffic ks) (hk_hash H (sch_hash ks) (m @ fl_server_hello (pr_flight p) @ plain)) = Some cvd \<and>
    (\<forall>msg. verify_client_finished_message p msg = Inr () \<longleftrightarrow> msg = finished_message cvd) \<and>
    application_record_keys H p =
      client_application_keys H suite ks (hk_hash H (sch_hash ks) (m @ fl_server_hello (pr_flight p) @ plain)) \<and>
    application_record_keys H p \<noteq> None"
  using handshake_prepared [OF assms] by (elim exE) (drule conjunct2, intro exI, assumption)

definition demo_hello_message :: bytes where
  "demo_hello_message = encode_hello 0x0303 (replicate 32 7) (replicate 32 9) [0x1301] [0]
     [Versions [0x0304], SignatureAlgorithms [0x0403], KeyShares [\<lparr>ks_group = 0x1d, ks_data = x_public toy_crypto [3]\<rparr>]]"

definition demo_identity :: identity where
  "demo_identity = \<lparr>id_chain = [[1, 2, 3]], id_key = EcdsaP256Key, id_sign = (\<lambda>_ _. Some [1])\<rparr>"

definition demo_offer :: client_hello where
  "demo_offer = \<lparr>ch_offer = \<lparr>server_name = None, key_shares = [\<lparr>ks_group = 0x1d, ks_data = x_public toy_crypto [3]\<rparr>],
       signature_schemes = [0x0403], offers_tls13 = True, alpn = []\<rparr>,
     ch_random = replicate 32 7, ch_session_id = replicate 32 9, cipher_suites = [0x1301], raw_message = demo_hello_message\<rparr>"

lemma demo_hello_parsed: "parse_message demo_hello_message = Inr demo_offer"
proof -
  have "hello_fits (replicate 32 7) (replicate 32 9) [0x1301] [0]
     [Versions [0x0304], SignatureAlgorithms [0x0403], KeyShares [\<lparr>ks_group = 0x1d, ks_data = x_public toy_crypto [3]\<rparr>]]"
    by (simp add: hello_fits_def encode_extensions_def toy_crypto_def)
  from parse_encode_hello [OF this, of "0x0303"] show ?thesis
    by (simp add: demo_hello_message_def demo_offer_def no_offer_def)
qed

lemma demo_certificate_verify:
  "sign_certificate_verify demo_identity th [0x0403] = Inr (certificate_verify_message 0x0403 [1])"
  by (simp add: sign_certificate_verify_def demo_identity_def ECDSA_NISTP256_SHA256_def)

lemma demo_flight_fits:
  "length (encrypted_extensions_with_alpn None) + length (certificate_message (id_chain demo_identity)) +
     length (certificate_verify_message 0x0403 [1]) + 100 < 2 ^ 16"
  by (simp add: encrypted_extensions_with_alpn_def encrypted_extensions_def certificate_message_def certificate_verify_message_def
      handshake_message_def demo_identity_def Let_def)

theorem tls_handshake_agreement_witness:
  "\<exists>p ks plain. prepare_server_handshake toy_hkdf toy_tls_aead toy_crypto demo_hello_message
      (server_hello (replicate 32 0) [] 0x1301 (share_in [(0x2b, [3, 4])] [] GROUP_X25519 (replicate 32 5)))
      demo_identity [] [4] (replicate 32 6) = Some (Inr p) \<and>
    client_schedule toy_hkdf toy_crypto [3] demo_hello_message (fl_server_hello (pr_flight p)) = Some (Aes128GcmSha256, ks) \<and>
    client_open_flight toy_hkdf toy_tls_aead Aes128GcmSha256 ks (fl_record (pr_flight p)) = Some (RECORD_HANDSHAKE, plain) \<and>
    application_record_keys toy_hkdf p \<noteq> None"
proof -
  have g: "is_grease 0x1d \<longleftrightarrow> False" by (simp add: is_grease_def)
  have s: "suite_to_u16 Aes128GcmSha256 = 0x1301" by simp
  have o: "offers_tls13 (ch_offer demo_offer)" "length (ch_session_id demo_offer) \<le> 32"
    "cipher_offered demo_offer (suite_to_u16 Aes128GcmSha256)" "keyshare_group_offered demo_offer GROUP_X25519"
    "find (\<lambda>s. ks_group s = GROUP_X25519) (key_shares (ch_offer demo_offer)) = Some \<lparr>ks_group = 0x1d, ks_data = x_public toy_crypto [3]\<rparr>"
    "ks_data \<lparr>ks_group = 0x1d, ks_data = x_public toy_crypto [3]\<rparr> = x_public toy_crypto [3]"
    "contributory toy_crypto (x_dh toy_crypto [4] (x_public toy_crypto [3]))" "signature_schemes (ch_offer demo_offer) \<noteq> []"
    using g by (simp_all add: demo_offer_def cipher_offered_def keyshare_group_offered_def GROUP_X25519_def toy_crypto_def)
  have cv: "\<forall>th. \<exists>cv. sign_certificate_verify demo_identity th (signature_schemes (ch_offer demo_offer)) = Inr cv \<and>
     length (encrypted_extensions_with_alpn (select_alpn demo_offer [])) +
     length (certificate_message (id_chain demo_identity)) + length cv + 100 < 2 ^ 16"
    using demo_certificate_verify demo_flight_fits by (simp add: demo_offer_def select_alpn_def)
  have t: "length (replicate 32 0 :: bytes) = 32" "length ([] :: bytes) < 256" "share_ok [(0x2b, [3, 4])] [] GROUP_X25519 (replicate 32 5)"
    "length (replicate 32 5 :: bytes) = 32" "length (replicate 32 6 :: bytes) = 32"
    using demo_share_ok by (simp_all add: GROUP_X25519_def)
  from tls_handshake_agreement [OF toy_hkdf_correct toy_tls_aead_correct toy_crypto_correct t(1-4) refl demo_hello_parsed o cv t(5)]
  show ?thesis unfolding s by blast
qed

end
