(* ===== verification/TlsStream.thy ===== *)
theory TlsStream
  imports TlsServer Transport "HOL-Library.Sublist"
begin

text \<open>
  The stream of application data of the TLS backend, \<open>TlsStream\<close> in \<^verbatim>\<open>src/tls/nginx_backend.rs\<close>: a poll-based reader that
  collects and opens records, and a writer that seals at most 16 KiB per call and keeps what the
  socket has not taken. The receiving side of the socket is a list of transport events, the sending
  side the list of what successive writes find. Polls of the writer that return nothing but change the
  state are modelled with their state; \<open>None\<close> is a panic of the source.
\<close>

section \<open>State\<close>

definition MAX_TLS_RECORD :: nat where "MAX_TLS_RECORD = 18 * 1024"
definition MAX_APP_PLAINTEXT :: nat where "MAX_APP_PLAINTEXT = 16 * 1024"

record tls_stream =
  ts_aead :: tls_aead
  read_keys :: record_keys
  write_keys :: record_keys
  ts_encrypted :: bytes
  ts_plaintext :: bytes
  expected_record_len :: "nat option"
  write_buf :: bytes
  write_pos :: nat
  close_sent :: bool

definition tls_stream_new :: "tls_aead \<Rightarrow> record_keys \<Rightarrow> record_keys \<Rightarrow> tls_stream" where
  "tls_stream_new T rk wk =
     \<lparr>ts_aead = T, read_keys = rk, write_keys = wk, ts_encrypted = [], ts_plaintext = [], expected_record_len = None,
      write_buf = [], write_pos = 0, close_sent = False\<rparr>"

section \<open>Reading\<close>

text \<open>The first half of a round parses the header at the front; \<open>None\<close> is a record that is too large.\<close>

definition expect_record :: "tls_stream \<Rightarrow> tls_stream option" where
  "expect_record r =
     (if expected_record_len r = None \<and> 5 \<le> length (ts_encrypted r)
      then (let len = len16 (ts_encrypted r ! 3) (ts_encrypted r ! 4)
            in if MAX_TLS_RECORD < len then None else Some (r\<lparr>expected_record_len := Some len\<rparr>))
      else Some r)"

definition record_ready :: "tls_stream \<Rightarrow> nat option" where
  "record_ready r =
     (case expected_record_len r of
        None \<Rightarrow> None
      | Some n \<Rightarrow> if 5 + n \<le> length (ts_encrypted r) then Some n else None)"

definition open_ready :: "nat \<Rightarrow> tls_stream \<Rightarrow> transport_event list \<Rightarrow> (tls_stream \<times> transport_event list) loop" where
  "open_ready n r es =
     (let rec = take (5 + n) (ts_encrypted r);
          r1 = r\<lparr>ts_encrypted := drop (5 + n) (ts_encrypted r), expected_record_len := None\<rparr>
      in case tls_open (ts_aead r) (read_keys r) rec of
           (None, rk) \<Rightarrow> Return (ReadErr (InvalidData ''TLS record authentication failed'')) (r1\<lparr>read_keys := rk\<rparr>, es)
         | (Some (ct, p), rk) \<Rightarrow>
             let r2 = r1\<lparr>read_keys := rk\<rparr>
             in if ct = RECORD_APPLICATION_DATA then (if p = [] then Again (r2, es) else Again (r2\<lparr>ts_plaintext := p\<rparr>, es))
                else if ct = RECORD_ALERT then Return (Delivered []) (r2, es)
                else Return (ReadErr (InvalidData ''unexpected TLS inner content type'')) (r2, es))"

definition ts_round :: "nat \<Rightarrow> tls_stream \<Rightarrow> transport_event list \<Rightarrow> (tls_stream \<times> transport_event list) loop" where
  "ts_round room r es =
     (if ts_plaintext r \<noteq> [] then
        Return (Delivered (take room (ts_plaintext r))) (r\<lparr>ts_plaintext := drop room (ts_plaintext r)\<rparr>, es)
      else (case expect_record r of
        None \<Rightarrow> Return (ReadErr (InvalidData ''TLS record is too large'')) (r, es)
      | Some r1 \<Rightarrow>
          (case record_ready r1 of
             Some n \<Rightarrow> open_ready n r1 es
           | None \<Rightarrow>
               (case inner_read 8192 es of
                  (InnerPending, es') \<Rightarrow> Return NotYet (r1, es')
                | (InnerErr e, es') \<Rightarrow> Return (ReadErr e) (r1, es')
                | (Filled b, es') \<Rightarrow>
                    if b = [] then
                      (if ts_encrypted r1 = [] then Return (Delivered []) (r1, es')
                       else Return (ReadErr UnexpectedEof) (r1, es'))
                    else Again (r1\<lparr>ts_encrypted := ts_encrypted r1 @ b\<rparr>, es')))))"

definition ts_rank :: "tls_stream \<Rightarrow> nat" where
  "ts_rank r = length (ts_encrypted r)"

lemma expect_record_Some: "expect_record r = Some r1 \<Longrightarrow> \<exists>x. r1 = r\<lparr>expected_record_len := x\<rparr>"
proof -
  assume "expect_record r = Some r1"
  then have "r1 = r\<lparr>expected_record_len := expected_record_len r1\<rparr>"
    by (auto simp: expect_record_def Let_def split: if_splits)
  then show ?thesis by blast
qed

lemma record_ready_Some: "record_ready r = Some n \<longleftrightarrow> expected_record_len r = Some n \<and> 5 + n \<le> length (ts_encrypted r)"
  by (auto simp: record_ready_def split: option.splits)

lemma ts_round_decreases:
  assumes "ts_round room r es = Again (r', es')"
  shows "((weight es', ts_rank r'), (weight es, ts_rank r)) \<in> lex2"
proof -
  obtain r1 where r1: "expect_record r = Some r1"
    using assms by (auto simp: ts_round_def split: if_splits option.splits)
  obtain x where x: "r1 = r\<lparr>expected_record_len := x\<rparr>" using expect_record_Some [OF r1] by blast
  show ?thesis
  proof (cases "record_ready r1")
    case (Some n)
    then have n: "5 + n \<le> length (ts_encrypted r)" using x by (simp add: record_ready_Some)
    from Some assms r1 have "es' = es \<and> ts_encrypted r' = drop (5 + n) (ts_encrypted r1)"
      by (auto simp: ts_round_def open_ready_def Let_def split: if_splits prod.splits option.splits)
    with n x show ?thesis by (auto simp: ts_rank_def)
  next
    case None
    then have "case inner_read 8192 es of (Filled b, es'') \<Rightarrow> es' = es'' \<and> b \<noteq> [] | _ \<Rightarrow> False"
      using assms r1 by (auto simp: ts_round_def split: if_splits prod.splits inner_poll.splits)
    then show ?thesis
      using inner_read_weight [of 8192 es] by (auto split: prod.splits inner_poll.splits)
  qed
qed

function ts_poll_read :: "nat \<Rightarrow> tls_stream \<Rightarrow> transport_event list \<Rightarrow> read_result \<times> tls_stream \<times> transport_event list" where
  "ts_poll_read room r es =
     (case ts_round room r es of Again (r', es') \<Rightarrow> ts_poll_read room r' es' | Return x s \<Rightarrow> (x, s))"
  by pat_completeness auto
termination
  by (relation "inv_image lex2 (\<lambda>(room, r, es). (weight es, ts_rank r))")
    (auto dest: ts_round_decreases)

declare ts_poll_read.simps [simp del]

section \<open>Writing\<close>

text \<open>What successive writes to the socket find; after the last event it takes nothing more.\<close>

datatype write_event = Takes nat | WriteBlocked | WriteFails io_error

record socket_out =
  so_events :: "write_event list"
  so_bytes :: bytes

datatype write_poll = Wrote nat | WritePending | WriteErr io_error

fun inner_write :: "bytes \<Rightarrow> socket_out \<Rightarrow> write_poll \<times> socket_out" where
  "inner_write b so =
     (case so_events so of
        [] \<Rightarrow> (WritePending, so)
      | Takes n # es \<Rightarrow> (Wrote (min n (length b)), so\<lparr>so_events := es, so_bytes := so_bytes so @ take n b\<rparr>)
      | WriteBlocked # es \<Rightarrow> (WritePending, so\<lparr>so_events := es\<rparr>)
      | WriteFails e # es \<Rightarrow> (WriteErr e, so\<lparr>so_events := es\<rparr>))"

datatype flush_poll = Flushed | FlushPending | FlushErr io_error

function poll_flush_pending :: "tls_stream \<Rightarrow> socket_out \<Rightarrow> flush_poll \<times> tls_stream \<times> socket_out" where
  "poll_flush_pending s so =
     (if write_pos s < length (write_buf s) then
        (case inner_write (drop (write_pos s) (write_buf s)) so of
           (WritePending, so') \<Rightarrow> (FlushPending, s, so')
         | (WriteErr e, so') \<Rightarrow> (FlushErr e, s, so')
         | (Wrote n, so') \<Rightarrow>
             if n = 0 then (FlushErr WriteZero, s, so')
             else poll_flush_pending (s\<lparr>write_pos := write_pos s + n\<rparr>) so')
      else (Flushed, s\<lparr>write_buf := [], write_pos := 0\<rparr>, so))"
  by pat_completeness auto
termination
  by (relation "measure (\<lambda>(s, so). length (so_events so))") (auto split: list.splits write_event.splits)

declare poll_flush_pending.simps [simp del]

definition ts_poll_write :: "bytes \<Rightarrow> tls_stream \<Rightarrow> socket_out \<Rightarrow> (write_poll \<times> tls_stream \<times> socket_out) option" where
  "ts_poll_write buf s so =
     (case poll_flush_pending s so of
        (FlushPending, s1, so1) \<Rightarrow> Some (WritePending, s1, so1)
      | (FlushErr e, s1, so1) \<Rightarrow> Some (WriteErr e, s1, so1)
      | (Flushed, s1, so1) \<Rightarrow>
          if buf = [] then Some (Wrote 0, s1, so1)
          else
            let n = min (length buf) MAX_APP_PLAINTEXT
            in (case tls_seal (ts_aead s1) (write_keys s1) RECORD_APPLICATION_DATA (take n buf) of
                  None \<Rightarrow> None
                | Some (rec, wk) \<Rightarrow>
                    (case poll_flush_pending (s1\<lparr>write_keys := wk, write_buf := rec, write_pos := 0\<rparr>) so1 of
                       (_, s2, so2) \<Rightarrow> Some (Wrote n, s2, so2))))"

definition ts_poll_flush :: "flush_poll \<Rightarrow> tls_stream \<Rightarrow> socket_out \<Rightarrow> flush_poll \<times> tls_stream \<times> socket_out" where
  "ts_poll_flush inner s so =
     (case poll_flush_pending s so of
        (Flushed, s1, so1) \<Rightarrow> (inner, s1, so1)
      | (x, s1, so1) \<Rightarrow> (x, s1, so1))"

text \<open>\<open>inner_flush\<close> and \<open>inner_shut\<close> are what the socket answers to the calls passed on to it.\<close>

definition ts_poll_shutdown ::
  "flush_poll \<Rightarrow> flush_poll \<Rightarrow> tls_stream \<Rightarrow> socket_out \<Rightarrow> (flush_poll \<times> tls_stream \<times> socket_out) option" where
  "ts_poll_shutdown inner_flush inner_shut s so =
     (let close = (\<lambda>s1 so1. (if inner_flush = Flushed then inner_shut else inner_flush, s1, so1))
      in case poll_flush_pending s so of
           (Flushed, s1, so1) \<Rightarrow>
             (if close_sent s1 then Some (close s1 so1)
              else (case tls_seal (ts_aead s1) (write_keys s1) RECORD_ALERT [1, 0] of
                      None \<Rightarrow> None
                    | Some (rec, wk) \<Rightarrow>
                        (case poll_flush_pending (s1\<lparr>write_keys := wk, write_buf := rec, write_pos := 0, close_sent := True\<rparr>) so1 of
                           (Flushed, s2, so2) \<Rightarrow> Some (close s2 so2)
                         | (x, s2, so2) \<Rightarrow> Some (x, s2, so2))))
         | (x, s1, so1) \<Rightarrow> Some (x, s1, so1))"

section \<open>What the reader has to deliver\<close>

text \<open>Opening a complete stream of records up to an alert that ends it; \<open>False\<close> for a stream that is truncated, too
  large, not authentic or of another content type somewhere, or that goes on after an alert.\<close>

function tls_stream_of :: "tls_aead \<Rightarrow> record_keys \<Rightarrow> bytes \<Rightarrow> bytes \<times> bool" where
  "tls_stream_of T rk s =
     (if s = [] then ([], True)
      else if length s < 5 then ([], False)
      else
        let n = len16 (s ! 3) (s ! 4)
        in if MAX_TLS_RECORD < n \<or> length s < 5 + n then ([], False)
           else (case tls_open T rk (take (5 + n) s) of
                   (None, rk') \<Rightarrow> ([], False)
                 | (Some (ct, p), rk') \<Rightarrow>
                     if ct = RECORD_APPLICATION_DATA
                     then (case tls_stream_of T rk' (drop (5 + n) s) of (x, ok) \<Rightarrow> (p @ x, ok))
                     else ([], ct = RECORD_ALERT \<and> drop (5 + n) s = [])))"
  by pat_completeness auto
termination
  by (relation "measure (\<lambda>(T, rk, s). length s)") auto

declare tls_stream_of.simps [simp del]

definition ts_to_come :: "tls_stream \<Rightarrow> bytes \<Rightarrow> bytes \<times> bool" where
  "ts_to_come r bs =
     (case tls_stream_of (ts_aead r) (read_keys r) (ts_encrypted r @ bs) of (x, ok) \<Rightarrow> (ts_plaintext r @ x, ok))"

definition ts_ok :: "tls_stream \<Rightarrow> bool" where
  "ts_ok r \<longleftrightarrow>
     (\<forall>n. expected_record_len r = Some n \<longrightarrow> 5 \<le> length (ts_encrypted r) \<and>
        n = len16 (ts_encrypted r ! 3) (ts_encrypted r ! 4) \<and> n \<le> MAX_TLS_RECORD)"

lemma ts_to_come_expected [simp]: "ts_to_come (r\<lparr>expected_record_len := x\<rparr>) bs = ts_to_come r bs"
  by (simp add: ts_to_come_def)

lemma expect_record_ok:
  assumes "ts_ok r" and "snd (ts_to_come r bs)"
  obtains r1 x where "expect_record r = Some r1" "r1 = r\<lparr>expected_record_len := x\<rparr>" "ts_ok r1"
    "5 \<le> length (ts_encrypted r) \<longrightarrow> x = Some (len16 (ts_encrypted r ! 3) (ts_encrypted r ! 4))"
proof (cases "expected_record_len r = None \<and> 5 \<le> length (ts_encrypted r)")
  case True
  let ?n = "len16 (ts_encrypted r ! 3) (ts_encrypted r ! 4)"
  have "\<not> MAX_TLS_RECORD < ?n"
    using assms(2) True tls_stream_of.simps [of "ts_aead r" "read_keys r" "ts_encrypted r @ bs"]
    by (auto simp: ts_to_come_def nth_append Let_def split: if_splits)
  with True assms(1) that [of "r\<lparr>expected_record_len := Some ?n\<rparr>" "Some ?n"] show ?thesis
    by (auto simp: expect_record_def ts_ok_def Let_def)
next
  case False
  have "r = r\<lparr>expected_record_len := expected_record_len r\<rparr>" by simp
  with False assms(1) that [of r "expected_record_len r"] show ?thesis
    by (auto simp: expect_record_def ts_ok_def)
qed

lemma open_ready_sound:
  assumes h: "healthy es" and n: "record_ready r = Some n" and ok: "ts_ok r" and p0: "ts_plaintext r = []"
    and i: "snd (ts_to_come r (arriving es))"
  shows "round_sound ts_ok ts_to_come r es (open_ready n r es)"
proof -
  let ?e = "ts_encrypted r" and ?bs = "arriving es"
  have e: "n = len16 (?e ! 3) (?e ! 4)" "5 + n \<le> length ?e" "n \<le> MAX_TLS_RECORD" "5 \<le> length ?e"
    using n ok by (auto simp: record_ready_Some ts_ok_def)
  have f: "?e @ ?bs \<noteq> []" "\<not> length (?e @ ?bs) < 5" "(?e @ ?bs) ! 3 = ?e ! 3" "(?e @ ?bs) ! 4 = ?e ! 4"
      "\<not> (MAX_TLS_RECORD < n \<or> length (?e @ ?bs) < 5 + n)" "take (5 + n) (?e @ ?bs) = take (5 + n) ?e"
      "drop (5 + n) (?e @ ?bs) = drop (5 + n) ?e @ ?bs"
    using e by (auto simp: nth_append)
  obtain o1 rk where o1: "tls_open (ts_aead r) (read_keys r) (take (5 + n) ?e) = (o1, rk)" by fastforce
  have st: "tls_stream_of (ts_aead r) (read_keys r) (?e @ ?bs) =
      (case o1 of None \<Rightarrow> ([], False)
       | Some (ct, p) \<Rightarrow>
           if ct = RECORD_APPLICATION_DATA
           then (case tls_stream_of (ts_aead r) rk (drop (5 + n) ?e @ ?bs) of (x, ok) \<Rightarrow> (p @ x, ok))
           else ([], ct = RECORD_ALERT \<and> drop (5 + n) ?e @ ?bs = []))"
    by (subst tls_stream_of.simps) (simp only: f Let_def e(1) [symmetric] o1 if_False prod.case)
  obtain ct p where o: "o1 = Some (ct, p)" using i st by (cases o1) (auto simp: ts_to_come_def)
  show ?thesis
  proof (cases "ct = RECORD_APPLICATION_DATA")
    case True
    with o o1 st h p0 show ?thesis
      by (auto simp: open_ready_def round_sound_def ts_to_come_def ts_ok_def Let_def split: prod.splits)
  next
    case False
    with i st o have "ct = RECORD_ALERT" "drop (5 + n) ?e = []" "?bs = []"
      by (auto simp: ts_to_come_def split: if_splits)
    with False o o1 st h p0 tls_stream_of.simps [of "ts_aead r" rk "[]"] show ?thesis
      by (auto simp: open_ready_def round_sound_def ts_to_come_def ts_ok_def Let_def)
  qed
qed

lemma ts_truncated:
  assumes "snd (ts_to_come r [])" and "ts_encrypted r \<noteq> []"
  shows "5 \<le> length (ts_encrypted r) \<and> 5 + len16 (ts_encrypted r ! 3) (ts_encrypted r ! 4) \<le> length (ts_encrypted r)"
  using assms tls_stream_of.simps [of "ts_aead r" "read_keys r" "ts_encrypted r"]
  by (auto simp: ts_to_come_def Let_def split: if_splits)

lemma ts_round_sound:
  assumes h: "healthy es" and ok: "ts_ok r" and i: "snd (ts_to_come r (arriving es))"
  shows "round_sound ts_ok ts_to_come r es (ts_round room r es)"
proof (cases "ts_plaintext r = []")
  case False
  have "ts_to_come r bs = (take room (ts_plaintext r) @ fst (ts_to_come (r\<lparr>ts_plaintext := drop room (ts_plaintext r)\<rparr>) bs),
      snd (ts_to_come (r\<lparr>ts_plaintext := drop room (ts_plaintext r)\<rparr>) bs))" for bs
    by (auto simp: ts_to_come_def split: prod.splits)
  with False h ok show ?thesis by (simp add: ts_round_def round_sound_def ts_ok_def)
next
  case p0: True
  obtain r1 x where r1: "expect_record r = Some r1" "r1 = r\<lparr>expected_record_len := x\<rparr>" "ts_ok r1"
    "5 \<le> length (ts_encrypted r) \<longrightarrow> x = Some (len16 (ts_encrypted r ! 3) (ts_encrypted r ! 4))"
    using expect_record_ok [OF ok i] .
  have tc: "ts_to_come r1 bs = ts_to_come r bs" for bs by (simp add: r1(2))
  show ?thesis
  proof (cases "record_ready r1")
    case (Some n)
    have "ts_plaintext r1 = []" using p0 r1(2) by simp
    with open_ready_sound [OF h Some r1(3)] i tc have "round_sound ts_ok ts_to_come r1 es (open_ready n r1 es)" by simp
    then have "round_sound ts_ok ts_to_come r es (open_ready n r1 es)" by (simp only: round_sound_def tc)
    with p0 r1(1) Some show ?thesis by (simp add: ts_round_def)
  next
    case None
    obtain y es' where y: "inner_read 8192 es = (y, es')" by fastforce
    note hi = inner_read_healthy [OF h y]
    show ?thesis
    proof (cases y)
      case (Filled b)
      show ?thesis
      proof (cases "b = []")
        case True
        with Filled hi have es: "es = []" "es' = []" by simp_all
        have "ts_encrypted r = []"
          using ts_truncated [of r] i es r1 None record_ready_Some [of r1] by fastforce
        with True Filled y p0 r1 None h es tc show ?thesis
          by (simp add: ts_round_def round_sound_def)
      next
        case ne: False
        with Filled hi have b: "arriving es = b @ arriving es'" "healthy es'" by auto
        have "ts_ok (r1\<lparr>ts_encrypted := ts_encrypted r1 @ b\<rparr>)" using r1(3) by (auto simp: ts_ok_def nth_append)
        moreover have "ts_to_come (r1\<lparr>ts_encrypted := ts_encrypted r1 @ b\<rparr>) (arriving es') = ts_to_come r1 (arriving es)"
          by (simp add: ts_to_come_def b(1))
        ultimately show ?thesis using ne Filled y p0 r1(1) None b tc
          by (simp add: ts_round_def round_sound_def)
      qed
    next
      case InnerPending
      with hi y p0 r1(1,3) None tc show ?thesis by (simp add: ts_round_def round_sound_def)
    next
      case (InnerErr e)
      with hi show ?thesis by simp
    qed
  qed
qed

lemma ts_round_eof:
  assumes h: "healthy es" and ok: "ts_ok r" and i: "snd (ts_to_come r (arriving es))" and "0 < room"
    and e: "ts_round room r es = Return (Delivered []) s"
  shows "fst (ts_to_come r (arriving es)) = []"
proof (cases "ts_plaintext r = []")
  case False
  with assms(4) e show ?thesis by (auto simp: ts_round_def)
next
  case p0: True
  obtain r' es' where s: "s = (r', es')" by fastforce
  have rs: "fst (ts_to_come r (arriving es)) = fst (ts_to_come r' (arriving es'))"
    using ts_round_sound [OF h ok i, of room] e s by (simp add: round_sound_def)
  obtain r1 x where r1: "expect_record r = Some r1" "r1 = r\<lparr>expected_record_len := x\<rparr>" "ts_ok r1"
    using expect_record_ok [OF ok i] .
  have tc: "ts_to_come r1 bs = ts_to_come r bs" for bs by (simp add: r1(2))
  show ?thesis
  proof (cases "record_ready r1")
    case (Some n)
    obtain o1 rk where o1: "tls_open (ts_aead r1) (read_keys r1) (take (5 + n) (ts_encrypted r1)) = (o1, rk)" by fastforce
    obtain p where p: "o1 = Some (RECORD_ALERT, p)"
      using e p0 r1(1) Some o1
      by (auto simp: ts_round_def open_ready_def Let_def split: option.splits prod.splits if_splits)
    have n: "n = len16 (ts_encrypted r1 ! 3) (ts_encrypted r1 ! 4)" "5 + n \<le> length (ts_encrypted r1)" "n \<le> MAX_TLS_RECORD"
      using Some r1(3) by (auto simp: record_ready_Some ts_ok_def)
    have "tls_stream_of (ts_aead r1) (read_keys r1) (ts_encrypted r1 @ arriving es) =
        ([], drop (5 + n) (ts_encrypted r1 @ arriving es) = [])"
      using n o1 p
      by (subst tls_stream_of.simps)
        (auto simp: Let_def nth_append RECORD_ALERT_def RECORD_APPLICATION_DATA_def)
    then show ?thesis using tc p0 r1(2) by (simp add: ts_to_come_def)
  next
    case None
    obtain y es1 where y: "inner_read 8192 es = (y, es1)" by fastforce
    from e p0 r1(1) None y have "y = Filled []" "ts_encrypted r1 = []"
      by (auto simp: ts_round_def split: inner_poll.splits if_splits)
    with inner_read_healthy [OF h y] r1(2) p0 tls_stream_of.simps [of "ts_aead r" "read_keys r" "[]"] show ?thesis
      by (auto simp: ts_to_come_def)
  qed
qed

interpretation ts: poll_reader ts_round ts_poll_read ts_ok ts_to_come ts_rank
proof
  show "ts_poll_read room r es =
      (case ts_round room r es of Again (r', es') \<Rightarrow> ts_poll_read room r' es' | Return x s \<Rightarrow> (x, s))" for room r es
    by (rule ts_poll_read.simps)
qed (rule ts_round_decreases ts_round_sound ts_round_eof; assumption)+

section \<open>Calls of the writer\<close>

datatype stream_op = OpWrite bytes | OpFlush flush_poll | OpShutdown flush_poll flush_poll

text \<open>A call, with the messages it accepted: the bytes a write returned as written, and the alert of the first
  shutdown that got to it.\<close>

fun stream_step :: "stream_op \<Rightarrow> tls_stream \<Rightarrow> socket_out \<Rightarrow> ((u8 \<times> bytes) list \<times> tls_stream \<times> socket_out) option" where
  "stream_step (OpWrite b) s so =
     (case ts_poll_write b s so of
        None \<Rightarrow> None
      | Some (Wrote n, s', so') \<Rightarrow> Some (if n = 0 then [] else [(RECORD_APPLICATION_DATA, take n b)], s', so')
      | Some (_, s', so') \<Rightarrow> Some ([], s', so'))"
| "stream_step (OpFlush i) s so = (case ts_poll_flush i s so of (_, s', so') \<Rightarrow> Some ([], s', so'))"
| "stream_step (OpShutdown i j) s so =
     (case ts_poll_shutdown i j s so of
        None \<Rightarrow> None
      | Some (_, s', so') \<Rightarrow> Some (if close_sent s' \<and> \<not> close_sent s then [(RECORD_ALERT, [1, 0])] else [], s', so'))"

fun stream_run :: "stream_op list \<Rightarrow> tls_stream \<Rightarrow> socket_out \<Rightarrow> ((u8 \<times> bytes) list \<times> tls_stream \<times> socket_out) option" where
  "stream_run [] s so = Some ([], s, so)"
| "stream_run (x # ops) s so =
     (case stream_step x s so of
        None \<Rightarrow> None
      | Some (ms, s', so') \<Rightarrow>
          (case stream_run ops s' so' of None \<Rightarrow> None | Some (ms', r) \<Rightarrow> Some (ms @ ms', r)))"

definition unsent :: "tls_stream \<Rightarrow> bytes" where
  "unsent s = drop (write_pos s) (write_buf s)"

lemma flush_pending_wire:
  assumes "poll_flush_pending s so = (x, s', so')"
  shows "so_bytes so' @ unsent s' = so_bytes so @ unsent s \<and> (x = Flushed \<longrightarrow> write_buf s' = []) \<and>
    ts_aead s' = ts_aead s \<and> write_keys s' = write_keys s \<and> close_sent s' = close_sent s"
  using assms
proof (induction s so rule: poll_flush_pending.induct)
  case (1 s so)
  show ?case
  proof (cases "write_pos s < length (write_buf s)")
    case False
    with "1.prems" show ?thesis by (auto simp: poll_flush_pending.simps [of s so] unsent_def)
  next
    case True
    let ?b = "drop (write_pos s) (write_buf s)"
    show ?thesis
    proof (cases "so_events so")
      case Nil
      with True "1.prems" show ?thesis by (simp add: poll_flush_pending.simps [of s so])
    next
      case (Cons e es)
      show ?thesis
      proof (cases e)
        case (Takes n)
        let ?k = "min n (length ?b)" and ?so = "so\<lparr>so_events := es, so_bytes := so_bytes so @ take n ?b\<rparr>"
        have w: "inner_write ?b so = (Wrote ?k, ?so)" using Cons Takes by simp
        have d: "take n ?b @ drop (write_pos s + ?k) (write_buf s) = ?b"
          by (metis add.commute append_take_drop_id drop_drop take_all_iff min_def nle_le drop_all)
        show ?thesis
        proof (cases "?k = 0")
          case True
          then have "take n ?b = []" by (auto simp: min_def split: if_splits)
          with True \<open>write_pos s < length (write_buf s)\<close> w "1.prems" show ?thesis
            by (auto simp: poll_flush_pending.simps [of s so] simp del: inner_write.simps)
        next
          case False
          have "poll_flush_pending (s\<lparr>write_pos := write_pos s + ?k\<rparr>) ?so = (x, s', so')"
            using True False w "1.prems" by (simp add: poll_flush_pending.simps [of s so] del: inner_write.simps neq0_conv)
          from "1.IH" [OF True w [symmetric] refl False this] d show ?thesis by (simp add: unsent_def)
        qed
      qed (use True Cons "1.prems" in \<open>auto simp: poll_flush_pending.simps [of s so]\<close>)
    qed
  qed
qed

definition messages :: "(u8 \<times> bytes) list \<Rightarrow> (u8 \<times> bytes \<times> nat) list" where
  "messages acc = map (\<lambda>(ct, p). (ct, p, 0)) acc"

definition sealed_so_far :: "tls_aead \<Rightarrow> record_keys \<Rightarrow> (u8 \<times> bytes) list \<Rightarrow> tls_stream \<Rightarrow> socket_out \<Rightarrow> bool" where
  "sealed_so_far T rk acc s so \<longleftrightarrow> ts_aead s = T \<and>
     list_all (\<lambda>(ct, p). (ct = RECORD_APPLICATION_DATA \<or> ct = RECORD_ALERT) \<and> length p \<le> MAX_APP_PLAINTEXT) acc \<and>
     (\<exists>rs. tls_seal_all T rk (messages acc) = Some (rs, write_keys s) \<and> so_bytes so @ unsent s = concat rs)"

lemma tls_seal_all_snoc:
  "tls_seal_all T rk ms = Some (rs, rk1) \<Longrightarrow> seal_into T rk1 ct p pad = Some (r, rk2) \<Longrightarrow>
     tls_seal_all T rk (ms @ [(ct, p, pad)]) = Some (rs @ [r], rk2)"
proof (induction ms arbitrary: rk rs)
  case (Cons m ms)
  then show ?case by (cases m) (auto split: option.splits)
qed simp

text \<open>Sealing one more message, and what is flushed around it.\<close>

lemma sealed_more:
  assumes T: "tls_aead_correct T" and inv: "sealed_so_far T rk acc s so" and b: "write_buf s = []"
    and ct: "ct = RECORD_APPLICATION_DATA \<or> ct = RECORD_ALERT" and p: "length p \<le> MAX_APP_PLAINTEXT"
  obtains rec wk where "tls_seal (ts_aead s) (write_keys s) ct p = Some (rec, wk)"
    "\<And>c. sealed_so_far T rk (acc @ [(ct, p)]) (s\<lparr>write_keys := wk, write_buf := rec, write_pos := 0, close_sent := c\<rparr>) so"
proof -
  have "ct \<noteq> 0" using ct by (auto simp: RECORD_APPLICATION_DATA_def RECORD_ALERT_def)
  moreover have "length p + 0 + 17 < 2 ^ 16" using p by (simp add: MAX_APP_PLAINTEXT_def)
  ultimately obtain rec wk where r: "seal_into T (write_keys s) ct p 0 = Some (rec, wk)"
    using seal_then_open_tls [OF T, of p 0 ct "write_keys s" "[]"] by blast
  obtain rs where rs: "tls_seal_all T rk (messages acc) = Some (rs, write_keys s)" "so_bytes so @ unsent s = concat rs" "ts_aead s = T"
    using inv by (auto simp: sealed_so_far_def)
  show thesis
    by (rule that [of rec wk])
      (use r rs tls_seal_all_snoc [OF rs(1) r] inv b ct p in
        \<open>auto simp: tls_seal_def seal_with_padding_def sealed_so_far_def messages_def unsent_def\<close>)
qed

lemma sealed_flush:
  assumes "sealed_so_far T rk acc s so" and "poll_flush_pending s so = (x, s', so')"
  shows "sealed_so_far T rk acc s' so'"
  using assms(1) flush_pending_wire [OF assms(2)] by (auto simp: sealed_so_far_def)

lemma stream_step_sealed:
  assumes T: "tls_aead_correct T" and inv: "sealed_so_far T rk acc s so"
  shows "\<exists>ms s' so'. stream_step x s so = Some (ms, s', so') \<and> sealed_so_far T rk (acc @ ms) s' so'"
proof -
  obtain y s1 so1 where f: "poll_flush_pending s so = (y, s1, so1)" by (metis prod_cases3)
  note inv1 = sealed_flush [OF inv f] and w = flush_pending_wire [OF f]
  show ?thesis
  proof (cases x)
    case (OpFlush i)
    with f inv1 show ?thesis by (cases y) (auto simp: ts_poll_flush_def)
  next
    case (OpWrite b)
    let ?n = "min (length b) MAX_APP_PLAINTEXT"
    show ?thesis
    proof (cases "y = Flushed \<and> b \<noteq> []")
      case False
      with f inv1 OpWrite show ?thesis by (cases y) (auto simp: ts_poll_write_def)
    next
      case True
      then have "write_buf s1 = []" using w by simp
      then obtain rec wk where r: "tls_seal (ts_aead s1) (write_keys s1) RECORD_APPLICATION_DATA (take ?n b) = Some (rec, wk)"
        "\<And>c. sealed_so_far T rk (acc @ [(RECORD_APPLICATION_DATA, take ?n b)]) (s1\<lparr>write_keys := wk, write_buf := rec, write_pos := 0, close_sent := c\<rparr>) so1"
        using sealed_more [OF T inv1, of RECORD_APPLICATION_DATA "take ?n b"] by auto
      let ?s = "s1\<lparr>write_keys := wk, write_buf := rec, write_pos := 0\<rparr>"
      have "?s = s1\<lparr>write_keys := wk, write_buf := rec, write_pos := 0, close_sent := close_sent s1\<rparr>" by simp
      with r(2) have i2: "sealed_so_far T rk (acc @ [(RECORD_APPLICATION_DATA, take ?n b)]) ?s so1" by metis
      obtain z s2 so2 where g: "poll_flush_pending ?s so1 = (z, s2, so2)" by (metis prod_cases3)
      have "?n \<noteq> 0" using True by (simp add: MAX_APP_PLAINTEXT_def min_def)
      with True OpWrite f g r(1) sealed_flush [OF i2 g] show ?thesis
        by (auto simp: ts_poll_write_def Let_def simp del: neq0_conv iff del: neq0_conv)
    qed
  next
    case (OpShutdown i j)
    show ?thesis
    proof (cases "y = Flushed \<and> \<not> close_sent s1")
      case False
      with f inv1 w OpShutdown show ?thesis by (cases y) (auto simp: ts_poll_shutdown_def Let_def)
    next
      case True
      then have "write_buf s1 = []" using w by simp
      then obtain rec wk where r: "tls_seal (ts_aead s1) (write_keys s1) RECORD_ALERT [1, 0] = Some (rec, wk)"
        "\<And>c. sealed_so_far T rk (acc @ [(RECORD_ALERT, [1, 0])]) (s1\<lparr>write_keys := wk, write_buf := rec, write_pos := 0, close_sent := c\<rparr>) so1"
        using sealed_more [OF T inv1, of RECORD_ALERT "[1, 0]"] by (auto simp: MAX_APP_PLAINTEXT_def)
      let ?s = "s1\<lparr>write_keys := wk, write_buf := rec, write_pos := 0, close_sent := True\<rparr>"
      obtain z s2 so2 where g: "poll_flush_pending ?s so1 = (z, s2, so2)" by (metis prod_cases3)
      from flush_pending_wire [OF g] sealed_flush [OF r(2) g] True OpShutdown f g r(1) w show ?thesis
        by (cases z) (auto simp: ts_poll_shutdown_def Let_def)
    qed
  qed
qed

lemma stream_run_sealed:
  assumes T: "tls_aead_correct T"
  shows "sealed_so_far T rk acc s so \<Longrightarrow>
    \<exists>ms s' so'. stream_run ops s so = Some (ms, s', so') \<and> sealed_so_far T rk (acc @ ms) s' so'"
proof (induction ops arbitrary: acc s so)
  case (Cons x ops)
  obtain ms s1 so1 where "stream_step x s so = Some (ms, s1, so1)" "sealed_so_far T rk (acc @ ms) s1 so1"
    using stream_step_sealed [OF T Cons.prems] by blast
  with Cons.IH [of "acc @ ms" s1 so1] show ?case by fastforce
qed simp

section \<open>Both ends\<close>

definition app_data :: "(u8 \<times> bytes) list \<Rightarrow> bytes" where
  "app_data acc = concat (map snd (filter (\<lambda>m. fst m = RECORD_APPLICATION_DATA) acc))"

definition wire_of :: "tls_aead \<Rightarrow> record_keys \<Rightarrow> (u8 \<times> bytes) list \<Rightarrow> bytes" where
  "wire_of T rk acc = (case tls_seal_all T rk (messages acc) of None \<Rightarrow> [] | Some (rs, _) \<Rightarrow> concat rs)"

text \<open>Nothing was written after the stream was shut down.\<close>

definition closed_last :: "(u8 \<times> bytes) list \<Rightarrow> bool" where
  "closed_last acc \<longleftrightarrow> list_all (\<lambda>m. fst m = RECORD_APPLICATION_DATA) (butlast acc)"

lemma tls_stream_of_sealed:
  assumes T: "tls_aead_correct T" and "tls_seal_all T rk (messages acc) = Some (rs, rk')"
    and "list_all (\<lambda>(ct, p). (ct = RECORD_APPLICATION_DATA \<or> ct = RECORD_ALERT) \<and> length p \<le> MAX_APP_PLAINTEXT) acc"
    and "closed_last acc"
  shows "tls_stream_of T rk (concat rs) = (app_data acc, True)"
  using assms(2-)
proof (induction acc arbitrary: rk rs)
  case Nil
  then show ?case by (simp add: messages_def app_data_def tls_stream_of.simps)
next
  case (Cons m acc)
  obtain ct p where m: "m = (ct, p)" by fastforce
  have ct: "ct \<noteq> 0" "length p + 0 + 17 < 2 ^ 16"
    using Cons.prems(2) m by (auto simp: RECORD_APPLICATION_DATA_def RECORD_ALERT_def MAX_APP_PLAINTEXT_def)
  obtain rec rk1 where r: "seal_into T rk ct p 0 = Some (rec, rk1)" "tls_open T rk rec = (Some (ct, p), rk1)"
      "length rec = length p + 22" "len16 (rec ! 3) (rec ! 4) = length rec - 5"
    using seal_then_open_tls [OF T ct(2,1), of rk "[]"] by auto
  obtain rs1 where rs: "tls_seal_all T rk1 (messages acc) = Some (rs1, rk')" "rs = rec # rs1"
    using Cons.prems(1) m r(1) by (auto simp: messages_def)
  have n: "len16 ((rec @ concat rs1) ! 3) ((rec @ concat rs1) ! 4) = length p + 17" "length p + 17 \<le> MAX_TLS_RECORD"
    using r(3,4) Cons.prems(2) m by (auto simp: nth_append MAX_TLS_RECORD_def MAX_APP_PLAINTEXT_def)
  have st: "tls_stream_of T rk (rec @ concat rs1) =
      (if ct = RECORD_APPLICATION_DATA then (case tls_stream_of T rk1 (concat rs1) of (x, ok) \<Rightarrow> (p @ x, ok))
       else ([], ct = RECORD_ALERT \<and> concat rs1 = []))"
    using n r(2,3) by (subst tls_stream_of.simps) (auto simp: Let_def)
  show ?case
  proof (cases "acc = []")
    case True
    with rs have "rs1 = []" by (simp add: messages_def)
    with st m rs(2) True Cons.prems(2) show ?thesis
      by (auto simp: app_data_def tls_stream_of.simps [of T rk1 "[]"])
  next
    case False
    with Cons.prems(3) m have "ct = RECORD_APPLICATION_DATA" "closed_last acc" by (simp_all add: closed_last_def)
    with st m rs Cons.IH [OF rs(1)] Cons.prems(2) show ?thesis by (simp add: app_data_def)
  qed
qed

text \<open>
  C17. A TLS connection carries its data: for every sequence of writes, flushes and shutdowns and whatever
  the socket takes of each write, the writer never panics, the bytes on the socket are at any time a
  prefix of the sealed records of what the writes reported as written, in order, and all of them once
  the buffer is empty; and the other end, reading this wire in any pieces and with any buffer sizes,
  gets exactly these bytes without an error, and end of file only after the last of them.
\<close>

theorem tls_stream_transparent:
  assumes "tls_aead_correct T"
  shows "\<exists>acc s so. stream_run ops (tls_stream_new T rr rk) \<lparr>so_events = evs, so_bytes = []\<rparr> = Some (acc, s, so) \<and>
    prefix (so_bytes so) (wire_of T rk acc) \<and> (write_buf s = [] \<longrightarrow> so_bytes so = wire_of T rk acc) \<and>
    (closed_last acc \<longrightarrow> (\<forall>wk es ns xs r es'. healthy es \<and> arriving es = wire_of T rk acc \<and>
       poll_many ts_poll_read ns (tls_stream_new T rk wk) es = (xs, r, es') \<longrightarrow>
         (\<forall>e. ReadErr e \<notin> set xs) \<and> delivered xs @ fst (ts_to_come r (arriving es')) = app_data acc \<and>
         (\<forall>n > 0. fst (ts_poll_read n r es') = Delivered [] \<longrightarrow> delivered xs = app_data acc)))"
proof -
  have "sealed_so_far T rk [] (tls_stream_new T rr rk) \<lparr>so_events = evs, so_bytes = []\<rparr>"
    by (simp add: sealed_so_far_def tls_stream_new_def messages_def unsent_def)
  from stream_run_sealed [OF assms this, of ops] obtain acc s so rs where
    run: "stream_run ops (tls_stream_new T rr rk) \<lparr>so_events = evs, so_bytes = []\<rparr> = Some (acc, s, so)"
    and seal: "tls_seal_all T rk (messages acc) = Some (rs, write_keys s)" "so_bytes so @ unsent s = concat rs"
    and small: "list_all (\<lambda>(ct, p). (ct = RECORD_APPLICATION_DATA \<or> ct = RECORD_ALERT) \<and> length p \<le> MAX_APP_PLAINTEXT) acc"
    by (auto simp: sealed_so_far_def)
  have wire: "wire_of T rk acc = so_bytes so @ unsent s" using seal by (simp add: wire_of_def)
  have "(\<forall>e. ReadErr e \<notin> set xs) \<and> delivered xs @ fst (ts_to_come r (arriving es')) = app_data acc \<and>
         (\<forall>n > 0. fst (ts_poll_read n r es') = Delivered [] \<longrightarrow> delivered xs = app_data acc)"
    if "closed_last acc" "healthy es" "arriving es = wire_of T rk acc"
      "poll_many ts_poll_read ns (tls_stream_new T rk wk) es = (xs, r, es')" for wk es ns xs r es'
  proof -
    have tc: "ts_to_come (tls_stream_new T rk wk) (arriving es) = (app_data acc, True)"
      using tls_stream_of_sealed [OF assms seal(1) small that(1)] that(3) wire seal(2)
      by (simp add: ts_to_come_def tls_stream_new_def)
    have "ts_ok (tls_stream_new T rk wk)" by (simp add: ts_ok_def tls_stream_new_def)
    from ts.polls_deliver [OF that(2) this _ that(4)] tc show ?thesis by simp
  qed
  with run wire show ?thesis by (auto simp: unsent_def)
qed

definition demo_keys :: record_keys where
  "demo_keys = \<lparr>rk_suite = Aes128GcmSha256, rk_key = [], rk_iv = replicate 12 0, rk_seq = 0\<rparr>"

lemma demo_stream:
  "map_option (\<lambda>(acc, s, so). (acc, write_buf s))
     (stream_run [OpWrite [1, 2, 3], OpShutdown Flushed Flushed] (tls_stream_new toy_tls_aead demo_keys demo_keys)
       \<lparr>so_events = [Takes 4, WriteBlocked, Takes 100, Takes 100], so_bytes = []\<rparr>) =
   Some ([(RECORD_APPLICATION_DATA, [1, 2, 3]), (RECORD_ALERT, [1, 0])], [])"
  by code_simp

theorem tls_stream_transparent_witness:
  "\<exists>s so. stream_run [OpWrite [1, 2, 3], OpShutdown Flushed Flushed] (tls_stream_new toy_tls_aead demo_keys demo_keys)
       \<lparr>so_events = [Takes 4, WriteBlocked, Takes 100, Takes 100], so_bytes = []\<rparr> =
     Some ([(RECORD_APPLICATION_DATA, [1, 2, 3]), (RECORD_ALERT, [1, 0])], s, so) \<and>
     so_bytes so = wire_of toy_tls_aead demo_keys [(RECORD_APPLICATION_DATA, [1, 2, 3]), (RECORD_ALERT, [1, 0])]"
proof -
  obtain acc s so where r: "stream_run [OpWrite [1, 2, 3], OpShutdown Flushed Flushed] (tls_stream_new toy_tls_aead demo_keys demo_keys)
       \<lparr>so_events = [Takes 4, WriteBlocked, Takes 100, Takes 100], so_bytes = []\<rparr> = Some (acc, s, so)"
     "write_buf s = [] \<longrightarrow> so_bytes so = wire_of toy_tls_aead demo_keys acc"
    using tls_stream_transparent [OF toy_tls_aead_correct, of "[OpWrite [1, 2, 3], OpShutdown Flushed Flushed]"
      demo_keys demo_keys "[Takes 4, WriteBlocked, Takes 100, Takes 100]"] by blast
  have "acc = [(RECORD_APPLICATION_DATA, [1, 2, 3]), (RECORD_ALERT, [1, 0])]" "write_buf s = []"
    using demo_stream unfolding r(1) by simp_all
  with r show ?thesis by simp
qed

end
