(* ===== verification/TlsBackend.thy ===== *)
theory TlsBackend
  imports TlsStream
begin

text \<open>
  The TLS backend, \<open>NginxProfileBackend\<close> in \<^verbatim>\<open>src/tls/nginx_backend.rs\<close>: reading records and the ClientHello from a
  connection, choosing the cipher suite, the template of the ServerHello, the handshake up to the
  stream of application data, and the reload of the identity. The connection is the bytes that arrive
  until it ends; the random draws of the handshake are arguments, and \<open>wr\<close> is the error of writing the
  flight if there is one. The outer \<open>None\<close> of a result is a panic of the source.
\<close>

section \<open>Records on a connection\<close>

definition TLS_LEGACY_VERSION :: bytes where "TLS_LEGACY_VERSION = [3, 3]"

datatype backend_error =
    BIo io_error | BClientHelloBuffer buffer_error | BClientHello parse_error | NoSharedCipherSuite
  | BPrepare prepare_error | BClientFinished client_finished_error | RecordAuthentication
  | UnexpectedInnerContentType u8

definition read_tls_record :: "bytes \<Rightarrow> io_error + bytes \<times> bytes" where
  "read_tls_record s =
     (case read_exact 5 s of
        Inl e \<Rightarrow> Inl e
      | Inr (header, s1) \<Rightarrow>
          let len = len16 (header ! 3) (header ! 4)
          in if MAX_TLS_RECORD < len then Inl (InvalidData ''TLS record is too large'')
             else (case read_exact len s1 of Inl e \<Rightarrow> Inl e | Inr (body, s2) \<Rightarrow> Inr (header @ body, s2)))"

definition is_change_cipher_spec :: "bytes \<Rightarrow> bool" where
  "is_change_cipher_spec rec \<longleftrightarrow> rec = [0x14, 3, 3, 0, 1, 1]"

lemma read_tls_record_shorter: "read_tls_record s = Inr (rec, s') \<Longrightarrow> length s' < length s"
  by (auto simp: read_tls_record_def Let_def dest!: read_exact_Inr split: sum.splits if_splits)

function read_client_hello :: "hello_buffer \<Rightarrow> bytes \<Rightarrow> backend_error + bytes \<times> bytes" where
  "read_client_hello b s =
     (case read_tls_record s of
        Inl e \<Rightarrow> Inl (BIo e)
      | Inr (rec, s') \<Rightarrow>
          if is_change_cipher_spec rec then read_client_hello b s'
          else (case append_record b rec of
                  (Inl e, b') \<Rightarrow> Inl (BClientHelloBuffer e)
                | (Inr None, b') \<Rightarrow> read_client_hello b' s'
                | (Inr (Some m), b') \<Rightarrow> Inr (m, s')))"
  by pat_completeness auto
termination
  by (relation "measure (\<lambda>(b, s). length s)") (auto dest: read_tls_record_shorter)

declare read_client_hello.simps [simp del]

definition plain_record :: "u8 \<Rightarrow> bytes \<Rightarrow> bytes" where
  "plain_record t p = t # TLS_LEGACY_VERSION @ be_len16 (length p) @ p"

section \<open>The handshake\<close>

definition choose_cipher :: "client_hello \<Rightarrow> cipher_suite option" where
  "choose_cipher client =
     find (\<lambda>s. cipher_offered client (suite_to_u16 s)) [Aes256GcmSha384, ChaCha20Poly1305Sha256, Aes128GcmSha256]"

definition push_ext :: "bytes \<Rightarrow> u16 \<Rightarrow> bytes \<Rightarrow> bytes" where
  "push_ext out t body = out @ to_be16 t @ be_len16 (length body) @ body"

definition server_hello_template :: "cipher_suite \<Rightarrow> u16 \<Rightarrow> bytes" where
  "server_hello_template cipher grp =
     (let supported_versions = to_be16 0x0304;
          key_share = to_be16 grp @ to_be16 32 @ replicate 32 0;
          extensions = push_ext (push_ext [] 0x002b supported_versions) 0x0033 key_share;
          body = to_be16 0x0303 @ replicate 32 0 @ [0] @ to_be16 (suite_to_u16 cipher) @ [0] @
                 be_len16 (length extensions) @ extensions
      in handshake_message HS_SERVER_HELLO body)"

text \<open>The loop that waits for the client's Finished message. The read keys are used for one record: whatever
  it holds, the loop ends.\<close>

function await_finished :: "tls_aead \<Rightarrow> prepared \<Rightarrow> bytes \<Rightarrow> backend_error + bytes" where
  "await_finished T p s =
     (case read_tls_record s of
        Inl e \<Rightarrow> Inl (BIo e)
      | Inr (rec, s') \<Rightarrow>
          if is_change_cipher_spec rec then await_finished T p s'
          else (case fst (tls_open T (client_handshake_read p) rec) of
                  None \<Rightarrow> Inl RecordAuthentication
                | Some (ct, m) \<Rightarrow>
                    if ct \<noteq> RECORD_HANDSHAKE then Inl (UnexpectedInnerContentType ct)
                    else (case verify_client_finished_message p m of
                            Inl e \<Rightarrow> Inl (BClientFinished e)
                          | Inr _ \<Rightarrow> Inr s')))"
  by pat_completeness auto
termination
  by (relation "measure (\<lambda>(T, p, s). length s)") (auto dest: read_tls_record_shorter)

declare await_finished.simps [simp del]

record tls_backend =
  be_identity :: identity
  be_alpn :: "bytes list"

text \<open>\<open>loaded\<close> is what loading the identity from the files of the configuration gives.\<close>

definition backend_new :: "('e + identity) \<Rightarrow> bytes list \<Rightarrow> 'e + tls_backend" where
  "backend_new loaded alpn1 =
     (case loaded of Inl e \<Rightarrow> Inl e | Inr i \<Rightarrow> Inr \<lparr>be_identity = i, be_alpn = alpn1\<rparr>)"

definition backend_reload :: "('e + identity) \<Rightarrow> tls_backend \<Rightarrow> 'e option \<times> tls_backend" where
  "backend_reload loaded be =
     (case loaded of Inl e \<Rightarrow> (Some e, be) | Inr i \<Rightarrow> (None, be\<lparr>be_identity := i\<rparr>))"

definition backend_handshake ::
  "hkdf \<Rightarrow> tls_aead \<Rightarrow> crypto \<Rightarrow> tls_backend \<Rightarrow> bytes \<Rightarrow> bytes \<Rightarrow> io_error option \<Rightarrow> bytes \<Rightarrow>
     (backend_error + tls_stream \<times> bytes) option \<times> bytes list" where
  "backend_handshake H T C be secret random wr s =
     (case read_client_hello (hello_buffer_new (2 ^ 16)) s of
        Inl e \<Rightarrow> (Some (Inl e), [])
      | Inr (m, s1) \<Rightarrow>
          (case parse_message m of
             Inl e \<Rightarrow> (Some (Inl (BClientHello e)), [])
           | Inr parsed \<Rightarrow>
               (case choose_cipher parsed of
                  None \<Rightarrow> (Some (Inl NoSharedCipherSuite), [])
                | Some cipher \<Rightarrow>
                    (case prepare_server_handshake H T C m (server_hello_template cipher GROUP_X25519)
                            (be_identity be) (be_alpn be) secret random of
                       None \<Rightarrow> (None, [])
                     | Some (Inl e) \<Rightarrow> (Some (Inl (BPrepare e)), [])
                     | Some (Inr p) \<Rightarrow>
                         (case wr of
                            Some e \<Rightarrow> (Some (Inl (BIo e)), [])
                          | None \<Rightarrow>
                              let outs = [plain_record TLS_RECORD_HANDSHAKE (fl_server_hello (pr_flight p)),
                                          fl_change_cipher_spec (pr_flight p), fl_record (pr_flight p)]
                              in (case await_finished T p s1 of
                                    Inl e \<Rightarrow> (Some (Inl e), outs)
                                  | Inr s2 \<Rightarrow>
                                      (case application_record_keys H p of
                                         None \<Rightarrow> (None, outs)
                                       | Some (cr, sw) \<Rightarrow> (Some (Inr (tls_stream_new T cr sw, s2)), outs))))))))"

section \<open>A client that connects\<close>

text \<open>The records of a client: fragments of its hello, and change-cipher-spec records between them.\<close>

definition hello_records :: "u8 \<Rightarrow> u8 \<Rightarrow> bytes option list \<Rightarrow> bytes" where
  "hello_records x y fs =
     concat (map (\<lambda>f. case f of None \<Rightarrow> change_cipher_spec_record | Some d \<Rightarrow> handshake_record x y d) fs)"

definition hello_payload :: "bytes option list \<Rightarrow> bytes" where
  "hello_payload fs = concat (map (\<lambda>f. case f of None \<Rightarrow> [] | Some d \<Rightarrow> d) fs)"

lemma read_tls_record_append:
  assumes "5 \<le> length rec" and "len16 (rec ! 3) (rec ! 4) = length rec - 5" and "length rec \<le> 5 + MAX_TLS_RECORD"
  shows "read_tls_record (rec @ s) = Inr (rec, s)"
proof -
  have "read_exact 5 (rec @ s) = Inr (take 5 rec, drop 5 rec @ s)" using assms(1) by (simp add: read_exact_def)
  with assms show ?thesis by (simp add: read_tls_record_def Let_def)
qed

lemma read_ccs: "read_tls_record (change_cipher_spec_record @ s) = Inr (change_cipher_spec_record, s)"
  by (rule read_tls_record_append) (simp_all add: change_cipher_spec_record_def len16_def from_be16_def MAX_TLS_RECORD_def)

lemma ccs_is_ccs [simp]: "is_change_cipher_spec change_cipher_spec_record"
  by (simp add: is_change_cipher_spec_def change_cipher_spec_record_def)

lemma read_handshake_record:
  assumes "length d \<le> MAX_TLS_RECORD"
  shows "read_tls_record (handshake_record x y d @ s) = Inr (handshake_record x y d, s) \<and> \<not> is_change_cipher_spec (handshake_record x y d)"
proof -
  have "length d < 2 ^ 16" using assms by (simp add: MAX_TLS_RECORD_def)
  then have "read_tls_record (handshake_record x y d @ s) = Inr (handshake_record x y d, s)"
    using len16_be_len16 [of "length d"] assms
    by (intro read_tls_record_append) (simp_all add: handshake_record_def vec16_def be_len16_Cons)
  then show ?thesis by (simp add: is_change_cipher_spec_def handshake_record_def TLS_RECORD_HANDSHAKE_def)
qed

lemma read_hello_fragments:
  assumes "whole_hello (hb_payload b @ hello_payload fs)" and "length (hb_payload b @ hello_payload fs) \<le> max_payload b"
    and "\<forall>d. Some d \<in> set fs \<longrightarrow> length d \<le> MAX_TLS_RECORD" and "fs \<noteq> []" and "last fs = Some e" and "e \<noteq> []"
  shows "read_client_hello b (hello_records x y fs @ rest) = Inr (hb_payload b @ hello_payload fs, rest)"
  using assms
proof (induction fs arbitrary: b)
  case (Cons f fs)
  show ?case
  proof (cases f)
    case None
    then have "fs \<noteq> []" using Cons.prems(5) by auto
    moreover have "hello_payload (f # fs) = hello_payload fs"
      "hello_records x y (f # fs) @ rest = change_cipher_spec_record @ (hello_records x y fs @ rest)"
      using None by (simp_all add: hello_records_def hello_payload_def)
    ultimately show ?thesis
      using Cons read_ccs [of "hello_records x y fs @ rest"]
        read_client_hello.simps [of b "change_cipher_spec_record @ (hello_records x y fs @ rest)"] by simp
  next
    case (Some d)
    let ?b = "b\<lparr>hb_payload := hb_payload b @ d\<rparr>" and ?rest = "hello_records x y fs @ rest"
    have d: "length d \<le> MAX_TLS_RECORD" using Some Cons.prems(3) by simp
    have w: "hello_records x y (f # fs) @ rest = handshake_record x y d @ ?rest" using Some by (simp add: hello_records_def)
    have p: "hello_payload (f # fs) = d @ hello_payload fs" using Some by (simp add: hello_payload_def)
    have "length d < 2 ^ 16" using d by (simp add: MAX_TLS_RECORD_def)
    then have a: "append_record b (handshake_record x y d) = (try_message ?b, ?b)"
      using Cons.prems(2) p by (intro append_handshake_record) simp_all
    have t: "try_message ?b = Inr (if hello_payload fs = [] then Some (hb_payload b @ d) else None)"
      using Cons.prems(1,2) p by (intro try_message_prefix) simp_all
    note st = read_client_hello.simps [of b "handshake_record x y d @ ?rest"] read_handshake_record [OF d] a t
    show ?thesis
    proof (cases "fs = []")
      case True
      then have "hello_payload fs = []" by (simp add: hello_payload_def)
      with st w p True show ?thesis by (simp add: hello_records_def)
    next
      case False
      then have l: "last fs = Some e" using Cons.prems(5) by simp
      then have "Some e \<in> set fs" using last_in_set [OF False] by simp
      then have "hello_payload fs \<noteq> []" using Cons.prems(6) by (auto simp: hello_payload_def intro!: bexI [of _ "Some e"])
      with st w p l False Cons.IH [of ?b] Cons.prems show ?thesis by simp
    qed
  qed
qed simp

lemma await_ccs: "await_finished T p (concat (replicate n change_cipher_spec_record) @ s) = await_finished T p s"
proof (induction n)
  case (Suc n)
  then show ?case
    using read_ccs [of "concat (replicate n change_cipher_spec_record) @ s"]
      await_finished.simps [of T p "change_cipher_spec_record @ (concat (replicate n change_cipher_spec_record) @ s)"] by simp
qed simp

lemma await_own_finished:
  assumes T: "tls_aead_correct T" and v: "verify_client_finished_message p m = Inr ()" and l: "length m + 17 \<le> MAX_TLS_RECORD"
  obtains fin rk where "tls_seal T (client_handshake_read p) RECORD_HANDSHAKE m = Some (fin, rk)"
    "\<And>n rest. await_finished T p (concat (replicate n change_cipher_spec_record) @ fin @ rest) = Inr rest"
proof -
  let ?rk = "client_handshake_read p"
  have "length m + 0 + 17 < 2 ^ 16" using l by (simp add: MAX_TLS_RECORD_def)
  moreover have "RECORD_HANDSHAKE \<noteq> 0" by (simp add: RECORD_HANDSHAKE_def)
  ultimately obtain fin rk where f: "seal_into T ?rk RECORD_HANDSHAKE m 0 = Some (fin, rk)"
      "tls_open T ?rk fin = (Some (RECORD_HANDSHAKE, m), rk)" "length fin = length m + 22" "len16 (fin ! 3) (fin ! 4) = length fin - 5"
    using seal_then_open_tls [OF T, of m 0 RECORD_HANDSHAKE ?rk "[]"] by auto
  have r: "read_tls_record (fin @ rest) = Inr (fin, rest)" for rest
    using f(3,4) l by (intro read_tls_record_append) simp_all
  have "\<not> is_change_cipher_spec fin" using f(3) by (auto simp: is_change_cipher_spec_def)
  then have "await_finished T p (fin @ rest) = Inr rest" for rest
    using r f(2) v by (simp add: await_finished.simps [of T p "fin @ rest"])
  with that [of fin rk] f(1) await_ccs show thesis by (simp add: tls_seal_def seal_with_padding_def)
qed

lemma template_form:
  "server_hello_template cipher GROUP_X25519 =
     server_hello (replicate 32 0) [] (suite_to_u16 cipher) (share_in [(0x2b, [3, 4])] [] GROUP_X25519 (replicate 32 0))"
proof -
  have "to_be16 0x0304 = [3, 4]" "to_be16 0x0303 = [3, 3]" by code_simp+
  then show ?thesis
    by (simp add: server_hello_template_def server_hello_def server_hello_body_def share_in_def share_data_def encode_exts_def
        push_ext_def vec16_def vec8_def Let_def EXT_KEY_SHARE_def be_len16_def)
qed

lemma template_share: "share_ok [(0x2b, [3, 4])] [] GROUP_X25519 (replicate 32 0)"
  by (simp add: share_ok_def exts_ok_def share_in_def encode_exts_def EXT_KEY_SHARE_def)

lemma choose_cipher_offered: "choose_cipher client = Some s \<Longrightarrow> cipher_offered client (suite_to_u16 s)"
  by (auto simp: choose_cipher_def split: if_splits)

text \<open>
  C16. A client connects: when a client that offers TLS 1.3, one of the three suites and an X25519 share
  sends its hello, cut into any records with change-cipher-spec records between them, the server
  writes a ServerHello record, a change-cipher-spec record and its encrypted flight; from these the
  client computes its keys and its Finished message; and when it sends this message, after any number
  of change-cipher-spec records, the server has a stream whose keys are the client's application keys
  and whose bytes start right after it. The suite is the first of the server's list that is offered.
\<close>

theorem tls_client_accepted:
  assumes "hkdf_correct H" and "tls_aead_correct T" and "crypto_correct C"
    and "parse_message m = Inr client" and "whole_hello m" and "length m \<le> 2 ^ 16"
    and "hello_payload fs = m" and "\<forall>d. Some d \<in> set fs \<longrightarrow> length d \<le> MAX_TLS_RECORD"
    and "fs \<noteq> []" and "last fs = Some e" and "e \<noteq> []"
    and "offers_tls13 (ch_offer client)" and "length (ch_session_id client) \<le> 32"
    and "choose_cipher client = Some suite" and "keyshare_group_offered client GROUP_X25519"
    and "find (\<lambda>s. ks_group s = GROUP_X25519) (key_shares (ch_offer client)) = Some share" and "ks_data share = x_public C x"
    and "contributory C (x_dh C secret (x_public C x))" and "signature_schemes (ch_offer client) \<noteq> []"
    and "\<forall>th. \<exists>cv. sign_certificate_verify (be_identity be) th (signature_schemes (ch_offer client)) = Inr cv \<and>
           length (encrypted_extensions_with_alpn (select_alpn client (be_alpn be))) +
           length (certificate_message (id_chain (be_identity be))) + length cv + 100 < 2 ^ 16"
    and "length random = 32"
  shows "\<exists>sh rec ks plain cvd ck fin rk cr sw.
    client_schedule H C x m sh = Some (suite, ks) \<and>
    client_open_flight H T suite ks rec = Some (RECORD_HANDSHAKE, plain) \<and>
    finished_verify_data H ks (client_hs_traffic ks) (hk_hash H (sch_hash ks) (m @ sh @ plain)) = Some cvd \<and>
    client_handshake_keys H suite ks = Some ck \<and>
    tls_seal T ck RECORD_HANDSHAKE (finished_message cvd) = Some (fin, rk) \<and>
    client_application_keys H suite ks (hk_hash H (sch_hash ks) (m @ sh @ plain)) = Some (cr, sw) \<and>
    (\<forall>n rest. backend_handshake H T C be secret random None
         (hello_records v1 v2 fs @ concat (replicate n change_cipher_spec_record) @ fin @ rest) =
       (Some (Inr (tls_stream_new T cr sw, rest)),
        [plain_record TLS_RECORD_HANDSHAKE sh, change_cipher_spec_record, rec]))"
proof -
  have t: "length (replicate 32 0 :: bytes) = 32" "length ([] :: bytes) < 256" by simp_all
  obtain p ks plain cvd where p:
    "fl_change_cipher_spec (pr_flight p) = change_cipher_spec_record" "client_handshake_keys H suite ks = Some (client_handshake_read p)"
    "prepare_server_handshake H T C m (server_hello_template suite GROUP_X25519) (be_identity be) (be_alpn be) secret random = Some (Inr p)"
    "client_schedule H C x m (fl_server_hello (pr_flight p)) = Some (suite, ks)"
    "client_open_flight H T suite ks (fl_record (pr_flight p)) = Some (RECORD_HANDSHAKE, plain)"
    "finished_verify_data H ks (client_hs_traffic ks) (hk_hash H (sch_hash ks) (m @ fl_server_hello (pr_flight p) @ plain)) = Some cvd"
    "\<forall>msg. verify_client_finished_message p msg = Inr () \<longleftrightarrow> msg = finished_message cvd"
    "application_record_keys H p = client_application_keys H suite ks (hk_hash H (sch_hash ks) (m @ fl_server_hello (pr_flight p) @ plain))"
    "application_record_keys H p \<noteq> None"
    using handshake_prepared [OF assms(1-3) t template_share t(1) template_form assms(4,12,13) choose_cipher_offered [OF assms(14)]
      assms(15-21)]
    by (elim exE conjE) (rule that; assumption)
  obtain cr sw where k: "application_record_keys H p = Some (cr, sw)" using p(9) by auto
  have v: "verify_client_finished_message p (finished_message cvd) = Inr ()" using p(7) by blast
  have "sch_ok ks" using p(4) key_schedule_total [OF assms(1)]
    by (auto simp: client_schedule_def split: Option.bind_splits) (metis option.inject)
  then have "length cvd = output_len (sch_hash ks)"
    using finished_total [OF assms(1), of "client_hs_traffic ks" ks] p(6) by (auto simp: sch_ok_def) (metis option.inject)
  then have "length (finished_message cvd) + 17 \<le> MAX_TLS_RECORD"
    by (cases "sch_hash ks") (simp_all add: finished_message_def handshake_message_def MAX_TLS_RECORD_def)
  then obtain fin rk where f: "tls_seal T (client_handshake_read p) RECORD_HANDSHAKE (finished_message cvd) = Some (fin, rk)"
    "\<And>n rest. await_finished T p (concat (replicate n change_cipher_spec_record) @ fin @ rest) = Inr rest"
    using await_own_finished [OF assms(2) v] by blast
  have "read_client_hello (hello_buffer_new (2 ^ 16)) (hello_records v1 v2 fs @ s) = Inr (m, s)" for s
    using read_hello_fragments [of "hello_buffer_new (2 ^ 16)" fs e v1 v2 s] assms(5-11) by (simp add: hello_buffer_new_def)
  with assms(4,14) p(1,3) f(2) k have "backend_handshake H T C be secret random None
         (hello_records v1 v2 fs @ concat (replicate n change_cipher_spec_record) @ fin @ rest) =
       (Some (Inr (tls_stream_new T cr sw, rest)),
        [plain_record TLS_RECORD_HANDSHAKE (fl_server_hello (pr_flight p)), change_cipher_spec_record, fl_record (pr_flight p)])" for n rest
    by (simp add: backend_handshake_def Let_def)
  with p(2,4,5,6,8) f(1) k show ?thesis by (intro exI) auto
qed

lemma demo_hello_whole: "whole_hello demo_hello_message" "10 < length demo_hello_message \<and> length demo_hello_message \<le> 200"
proof -
  have f: "hello_fits (replicate 32 7) (replicate 32 9) [0x1301] [0]
     [Versions [0x0304], SignatureAlgorithms [0x0403], KeyShares [\<lparr>ks_group = 0x1d, ks_data = x_public toy_crypto [3]\<rparr>]]"
    by (simp add: hello_fits_def encode_extensions_def toy_crypto_def)
  then show "whole_hello demo_hello_message" unfolding demo_hello_message_def by (rule whole_encode_hello)
  show "10 < length demo_hello_message \<and> length demo_hello_message \<le> 200"
    by (simp add: demo_hello_message_def encode_hello_def be24_def hello_body_def Let_def encode_extensions_def toy_crypto_def)
qed

theorem tls_client_accepted_witness:
  "\<exists>fin cr sw outs. backend_handshake toy_hkdf toy_tls_aead toy_crypto \<lparr>be_identity = demo_identity, be_alpn = []\<rparr> [4] (replicate 32 6) None
     (hello_records 3 1 [Some (take 10 demo_hello_message), None, Some (drop 10 demo_hello_message)] @
      concat (replicate 1 change_cipher_spec_record) @ fin @ [1, 2]) =
     (Some (Inr (tls_stream_new toy_tls_aead cr sw, [1, 2])), outs) \<and> length outs = 3"
proof -
  let ?m = demo_hello_message and ?be = "\<lparr>be_identity = demo_identity, be_alpn = []\<rparr>"
  let ?fs = "[Some (take 10 ?m), None, Some (drop 10 ?m)]"
  have g: "is_grease 0x1d \<longleftrightarrow> False" by (simp add: is_grease_def)
  have fs: "length ?m \<le> 2 ^ 16" "hello_payload ?fs = ?m" "\<forall>d. Some d \<in> set ?fs \<longrightarrow> length d \<le> MAX_TLS_RECORD" "?fs \<noteq> []"
      "last ?fs = Some (drop 10 ?m)" "drop 10 ?m \<noteq> []"
    using demo_hello_whole(2) by (auto simp: hello_payload_def MAX_TLS_RECORD_def)
  have o: "offers_tls13 (ch_offer demo_offer)" "length (ch_session_id demo_offer) \<le> 32"
    "choose_cipher demo_offer = Some Aes128GcmSha256" "keyshare_group_offered demo_offer GROUP_X25519"
    "find (\<lambda>s. ks_group s = GROUP_X25519) (key_shares (ch_offer demo_offer)) = Some \<lparr>ks_group = 0x1d, ks_data = x_public toy_crypto [3]\<rparr>"
    "ks_data \<lparr>ks_group = 0x1d, ks_data = x_public toy_crypto [3]\<rparr> = x_public toy_crypto [3]"
    "contributory toy_crypto (x_dh toy_crypto [4] (x_public toy_crypto [3]))" "signature_schemes (ch_offer demo_offer) \<noteq> []"
    using g by (simp_all add: demo_offer_def choose_cipher_def cipher_offered_def keyshare_group_offered_def GROUP_X25519_def toy_crypto_def)
  have cv: "\<forall>th. \<exists>cv. sign_certificate_verify (be_identity ?be) th (signature_schemes (ch_offer demo_offer)) = Inr cv \<and>
     length (encrypted_extensions_with_alpn (select_alpn demo_offer (be_alpn ?be))) +
     length (certificate_message (id_chain (be_identity ?be))) + length cv + 100 < 2 ^ 16"
    using demo_certificate_verify demo_flight_fits by (simp add: demo_offer_def select_alpn_def)
  have r: "length (replicate 32 6 :: bytes) = 32" by simp
  obtain fin cr sw outs where "\<forall>n rest. backend_handshake toy_hkdf toy_tls_aead toy_crypto ?be [4] (replicate 32 6) None
     (hello_records 3 1 ?fs @ concat (replicate n change_cipher_spec_record) @ fin @ rest) =
     (Some (Inr (tls_stream_new toy_tls_aead cr sw, rest)), outs)" "length outs = 3"
    using tls_client_accepted [OF toy_hkdf_correct toy_tls_aead_correct toy_crypto_correct demo_hello_parsed demo_hello_whole(1) fs o cv r,
      of 3 1]
    by (elim exE conjE) (rule that, assumption, simp)
  then show ?thesis by blast
qed

end
