(* ===== verification/Spec2Isabelle.thy ===== *)
theory Spec2Isabelle
  imports Streams MuxRelay Origin Acme
begin

text \<open>
  A verification development for the XHTTP/VLESS server in \<^verbatim>\<open>src/\<close>: a server that looks like an HTTPS web site,
  and tunnels VLESS sessions inside HTTP uploads and downloads to TCP and UDP targets.

  \<^bold>\<open>How the parts interact.\<close> A connection is accepted by the TLS backend, which answers the ClientHello, checks
  the client's Finished message and turns records into a byte stream. The origin maps every HTTP request of
  that stream: a request under the base path with valid padding is an upload packet or the download of a
  session, everything else is answered from the fallback site. Uploads are pushed by session and number
  into the session table, whose reorder queue delivers them in order under a global byte budget; the
  download is the other end of the session's downlink channel. For a new session the dispatcher reads the
  uplink: the VLESS encryption handshake if one is configured, the request header with the user's id, the
  flow check, then one of three services: TCP (plain or Vision-framed), UDP, or multiplexed UDP.

  \<^bold>\<open>The theories, in the order of their imports.\<close>
  \<^item> \<open>Prelude\<close>: types of bytes and words, the collections of simplification rules, and what the crate uses of the
    standard library and of \<open>AsyncReadExt\<close>. \<open>Text\<close>: the string operations (split, trim, number parsing).
    \<open>Codec\<close>: the locale \<open>stream_codec\<close> of self-delimiting formats. \<open>Transport\<close>: poll-based readers and the
    locale \<open>poll_reader\<close>, from one round of a \<open>poll_read\<close> loop to every sequence of polls.
  \<^item> Sessions: \<open>Buffer\<close> (\<^verbatim>\<open>buffer.rs\<close>, the budget and its compare-exchange loop as a step relation),
    \<open>Reorder\<close> (\<^verbatim>\<open>session/reorder.rs\<close>), \<open>Downlink\<close> (\<^verbatim>\<open>session/downlink.rs\<close>), \<open>Session\<close> (\<^verbatim>\<open>session/mod.rs\<close>, with the
    creation race between shards), \<open>Streams\<close> (runs over a whole table).
  \<^item> VLESS: \<open>Addons\<close>, \<open>Address\<close>, \<open>Validator\<close>, \<open>Header\<close> (\<^verbatim>\<open>vless/addons.rs\<close>, \<^verbatim>\<open>address.rs\<close>, \<^verbatim>\<open>validator.rs\<close>,
    \<^verbatim>\<open>header.rs\<close>), \<open>Vision\<close> (\<^verbatim>\<open>vless/vision.rs\<close>), \<open>Xudp\<close> (\<^verbatim>\<open>xudp.rs\<close>).
  \<^item> VLESS encryption, under \<^verbatim>\<open>vless/encryption/\<close>: \<open>Kdf\<close> (the BLAKE3 key derivation), \<open>RecordLayer\<close>, \<open>Xor\<close> (masked
    headers), \<open>EncStream\<close> (the reader), \<open>EncConfig\<close>, \<open>ServerKeys\<close>, \<open>Handshake\<close>, and \<open>EncSession\<close>, which joins
    handshake and records.
  \<^item> HTTP: \<open>Xhttp\<close> (\<^verbatim>\<open>xhttp/mod.rs\<close>, \<^verbatim>\<open>xhttp/padding.rs\<close>), \<open>Config\<close> (\<^verbatim>\<open>config.rs\<close> and its use in \<^verbatim>\<open>runtime.rs\<close>),
    \<open>Site\<close> (\<^verbatim>\<open>site.rs\<close>), \<open>Origin\<close> (\<^verbatim>\<open>origin.rs\<close>).
  \<^item> TLS, under \<^verbatim>\<open>tls/\<close>: \<open>TlsRecord\<close>, \<open>ClientHello\<close>, \<open>TlsKeys\<close>, \<open>TlsMessages\<close>, \<open>TlsCert\<close>, \<open>TlsServer\<close> (the handshake),
    \<open>TlsStream\<close> and \<open>TlsBackend\<close> (\<^verbatim>\<open>nginx_backend.rs\<close>: the stream of application data, and a connection from its
    first record).
  \<^item> The dispatcher, \<^verbatim>\<open>dispatcher.rs\<close>: \<open>ClientIo\<close> (reader, writer and copy loops), \<open>Dispatcher\<close> (opening a session, the
    TCP service), \<open>UdpRelay\<close> and \<open>MuxRelay\<close> (the two UDP services).
  \<^item> Certificates, \<^verbatim>\<open>acme.rs\<close>: \<open>CertStore\<close> (the cache directory with system calls that can fail, the publication of a pair,
    and the loading of an identity, \<^verbatim>\<open>tls/cert.rs\<close>), \<open>Acme\<close> (the HTTP-01 responder, issuance, preparation before
    start-up, and the renewal supervisor with the server it reloads).

  \<^bold>\<open>How code becomes definitions.\<close> A struct is a record and an enum a datatype with the source's constructors;
  machine integers are words where they can wrap. A function that fails returns a sum, a panic is its own
  value (\<open>None\<close>, \<open>Panicked\<close>, \<open>HsPanic\<close>, \<open>DPanic\<close>). A function that awaits input is applied to the bytes that will
  arrive, or, where the timing of polls matters, to a list of transport events; the loop of a \<open>poll_read\<close> is
  a round function and its iteration. Tasks that \<open>select!\<close> or \<open>spawn\<close> interleave are step functions, and a schedule
  or a list of events says which comes next; every theorem about them is for all schedules. Atomic
  operations are interleaved one by one in \<open>Buffer\<close> and in the creation race of \<open>Session\<close>; elsewhere a call on the session
  table, and in \<open>Origin\<close> a whole request, is one step.

  System calls on the certificate cache follow a script of failures; \<open>io_spec\<close> is a Hoare logic for them, with what
  holds in every state on the way beside the results and the errors.

  \<^bold>\<open>Locales.\<close> \<open>byte_budget\<close> is interpreted by the global budget, \<open>keyed_table\<close> by the shards of the session table,
  \<open>stream_codec\<close> by XUDP frames and by plain datagrams, \<open>poll_reader\<close> by the Vision reader, the encrypted reader
  and the TLS stream; \<open>poll_source\<close> extends it by the fact that waiting uses up an event, and is interpreted by
  the Vision reader, the client reader and the reader of the TCP service: the facts about the copy loops are
  proved once in it.

  \<^bold>\<open>What is shown.\<close>
  \<^item> Sessions: packets are delivered in order, once, up to the first gap; the budget and the limits hold and nothing
    leaks; a reader is never stuck; the counters of the table agree with its content; sessions do not mix, and
    reapers remove only their own. With several shards the cap can be exceeded, by how much is exact.
  \<^item> Formats: decoders read back what encoders write; unauthenticated input gets no further than the id; the
    addons decoder returns for sane lengths, and does not for others.
  \<^item> Encryption: both handshakes agree with the client, both directions then deliver every stream, a 0-RTT flight is
    accepted once, the nonces given to the AEAD under one key are distinct, the incremental hash is the BLAKE3 tree.
  \<^item> HTTP: requests are classified exactly; requests served one after another are always answered; an upload reaches its
    session with what its headers, cookies and body carry; whoever does not know the path and the padding
    sees only the pages of the site and the health replies; a directory site serves exactly its files; accepted configurations are well formed.
  \<^item> TLS: a client is accepted with the keys it computes itself; records are opened in order; the stream is transparent
    for all partial reads and writes.
  \<^item> Dispatcher: only users of the table get a service, of the kind their flow allows, and what each
    refusal sends and counts is known; a TCP session carries both
    directions from the encrypted client to the target and back; UDP relays datagram for datagram unless the
    two directions collide; multiplexed sessions are kept apart and served in order, their replies
    arriving whole until an idle timer cancels one that is partly encrypted.
  \<^item> Certificates: wherever a publication fails or is cut off, the live pair is the old or the new one, complete and
    loadable; the server starts after a successful preparation; challenges are served when they are announced and
    gone afterwards; the supervisor keeps the live pair loadable and its waiting times bounded, and brings a new pair
    into use when nothing fails; after one particular failure it does not.

  \<^bold>\<open>Bounds and termination.\<close> Loops are structural, or functions with a measure (bytes left, events left,
  pending packets). Only the loops over the header and cookie chunks of an upload have fuel, one round more than there are headers or
  cookies, and are shown never to use it up. The addons decoder, which can run forever, is a \<open>partial_function\<close> whose \<open>None\<close> is not returning; that it
  returns, and that it does not, are theorems. Numbers such as 8192, 16384, 32768 and 65535 are the source's.

  \<^bold>\<open>Parameters.\<close> Code outside \<^verbatim>\<open>src/\<close> is an argument: the AEADs, the AES-CTR key stream, X25519 and ML-KEM, HMAC and hashes,
  base64, x509 and key parsing, the ACME service, name lookup, directory contents, the outcome of socket calls. What the theorems need of them is a
  predicate with the documented behaviour (\<open>aead_correct\<close>, \<open>aead_total\<close>, \<open>crypto_correct\<close>, \<open>hkdf_correct\<close>,
  \<open>tls_aead_correct\<close>, \<open>base64_codec\<close>), and toy instances show that they can hold. Random draws and the clock are arguments.

  \<^bold>\<open>Not modelled.\<close> \<^verbatim>\<open>management.rs\<close> and \<^verbatim>\<open>bin/\<close> (installation and administration with files, systemd and curl),
  \<^verbatim>\<open>net.rs\<close>, \<^verbatim>\<open>logging.rs\<close>, \<^verbatim>\<open>main.rs\<close>, \<^verbatim>\<open>lib.rs\<close> and \<^verbatim>\<open>tls/mod.rs\<close> (socket options, log
  setup, wiring), \<^verbatim>\<open>metrics.rs\<close> (its counters are fields of the states that change them). Of modelled files: the texts of
  the generated site, the accept loop and hyper in \<^verbatim>\<open>origin.rs\<close>, the accept loop of the challenge listener in \<^verbatim>\<open>acme.rs\<close>, starting tasks in
  \<^verbatim>\<open>runtime.rs\<close>, and waiting for channel capacity, which is part of the call that sends and cannot be cancelled, except for the
  replies of \<open>MuxRelay\<close>.
\<close>

end
